(* ===== verification/Prelude.thy ===== *)
theory Prelude
  imports Main "HOL-Library.Word"
begin

text \<open>
  Shared vocabulary of the development: the machine integers of the Rust code, the
  sequencing of fallible operations (Rust's \<open>?\<close> operator), and the generic
  facts on words, lists and loops that the component theories use.

  Integers are kept at their width. The crate's release profile leaves
  \<open>overflow-checks\<close> at its default, so an unsigned addition that overflows
  wraps around, which is what \<open>+\<close> on words does; in a debug build the same
  addition panics. A theorem that needs an addition not to overflow says so in a
  hypothesis, and then it holds for both builds.
\<close>

unbundle bit_operations_syntax

type_synonym u64 = "64 word"
type_synonym u32 = "32 word"
type_synonym byte = "8 word"

text \<open>\<open>u64::MAX\<close>.\<close>

abbreviation u64_max :: u64 where
  "u64_max \<equiv> - 1"

text \<open>Facts about the log that the simplifier may use, facts about node fields that an
  operation leaves alone, and definitions to unfold in a symbolic run.\<close>

named_theorems log_simps
named_theorems frame_simps
named_theorems run_simps

subsection \<open>Fallible operations on a state\<close>

text \<open>
  A method \<open>fn f(&mut self) -> Result<T>\<close> is a function from the state to the state
  after the call and its result; the state is returned on an error too, because the
  mutations made before the failing statement stay. \<open>and_then\<close> is the sequencing
  of two such statements by \<open>?\<close>.
\<close>

definition and_then :: "'s \<times> ('e + 'a) \<Rightarrow> ('s \<Rightarrow> 'a \<Rightarrow> 's \<times> ('e + 'b)) \<Rightarrow> 's \<times> ('e + 'b)" where
  "and_then m f = (case m of (s, r) \<Rightarrow> (case r of Inl e \<Rightarrow> (s, Inl e) | Inr a \<Rightarrow> f s a))"

lemma and_then_Inl [simp]: "and_then (s, Inl e) f = (s, Inl e)"
  by (simp add: and_then_def)

lemma and_then_Inr [simp]: "and_then (s, Inr a) f = f s a"
  by (simp add: and_then_def)

lemma and_then_ok:
  "and_then m f = (s', Inr b) \<longleftrightarrow> (\<exists>s a. m = (s, Inr a) \<and> f s a = (s', Inr b))"
  by (cases m; cases "snd m") auto

subsection \<open>Words\<close>

lemma unat_plus_one:
  "unat (x :: 'a::len word) + 1 < 2 ^ LENGTH('a) \<Longrightarrow> unat (x + 1) = unat x + 1"
  by (simp add: unat_word_ariths)

lemma unat_u64_max: "unat u64_max = 2 ^ 64 - 1"
  by (simp add: unsigned_minus_1_eq_mask mask_eq_exp_minus_1)

text \<open>A \<open>u64\<close> other than the largest can be incremented without wrapping.\<close>

lemma not_max_room: "x \<noteq> u64_max \<longleftrightarrow> unat (x :: u64) + 1 < 2 ^ 64"
proof -
  have "unat x < 2 ^ 64" using unsigned_less[of x, where ?'a = nat] by simp
  moreover have "x = u64_max \<longleftrightarrow> unat x = 2 ^ 64 - 1"
    by (simp only: word_unat_eq_iff unat_u64_max)
  ultimately show ?thesis by linarith
qed

lemma unat_minus_one_pos: "0 < (x :: 'a::len word) \<Longrightarrow> unat (x - 1) = unat x - 1"
  by (simp add: unat_minus_one word_gt_0)

lemma unat_minus_one_less: "y < (x :: 'a::len word) \<Longrightarrow> unat (x - 1) < unat x"
  using unat_minus_one_pos[of x] unat_mono[of y x]
  by (metis diff_less less_one not_less_zero unat_0 unat_gt_0 word_gt_0 word_not_simps(1))

lemma unat_minus_le: "y \<le> (x :: 'a::len word) \<Longrightarrow> unat (x - y) = unat x - unat y"
  by (simp add: unat_sub)

subsection \<open>Lists\<close>

text \<open>\<open>Iterator::position\<close>: the index of the first element that satisfies a test.\<close>

fun position :: "('a \<Rightarrow> bool) \<Rightarrow> 'a list \<Rightarrow> nat option" where
  "position P [] = None"
| "position P (x # xs) = (if P x then Some 0 else map_option Suc (position P xs))"

lemma position_Some:
  "position P xs = Some i \<Longrightarrow> i < length xs \<and> P (xs ! i) \<and> (\<forall>j < i. \<not> P (xs ! j))"
  by (induction xs arbitrary: i) (auto simp: nth_Cons split: if_splits nat.splits)

lemma position_None: "position P xs = None \<longleftrightarrow> (\<forall>x \<in> set xs. \<not> P x)"
  by (induction xs) auto

end
