(* ===== verification/Raft_Types.thy ===== *)
theory Raft_Types
  imports Prelude
begin

text \<open>
  The value types of \<^verbatim>\<open>src/types.rs\<close> and the error type of \<^verbatim>\<open>src/error.rs\<close>: roles, log
  entries, hard state, snapshots, and the byte codec of a voting membership. A
  \<open>u64\<close> is eight little-endian bytes (\<open>to_le_bytes\<close>, \<open>from_le_bytes\<close>).
\<close>

type_synonym node_id = u64
type_synonym raft_term = u64
type_synonym raft_index = u64

subsection \<open>Errors\<close>

text \<open>Numbers in an error message are formatted in decimal (\<open>{}\<close> on an unsigned integer).\<close>

definition digit :: "u64 \<Rightarrow> char" where
  "digit w = ''0123456789'' ! unat (w mod 10)"

fun digits :: "nat \<Rightarrow> u64 \<Rightarrow> string" where
  "digits 0 w = []"
| "digits (Suc k) w = (if w < 10 then [digit w] else digits k (w div 10) @ [digit w])"

definition decimal :: "u64 \<Rightarrow> string" where
  "decimal w = digits 20 w"

text \<open>Twenty digits are enough for every \<open>u64\<close>: the text determines the number.\<close>

definition decimal_value :: "string \<Rightarrow> nat" where
  "decimal_value = foldl (\<lambda>n c. 10 * n + (of_char c - 48)) 0"

lemma of_char_digit: "of_char (digit w) = 48 + unat w mod 10"
proof -
  have d: "n < 10 \<Longrightarrow> of_char (''0123456789'' ! n) = 48 + n" for n :: nat
  proof -
    assume "n < 10"
    then have "n \<in> {0, 1, 2, 3, 4, 5, 6, 7, 8, 9}" by auto
    then show "of_char (''0123456789'' ! n) = 48 + n" by (elim insertE) simp_all
  qed
  show ?thesis using d[of "unat w mod 10"] by (simp add: digit_def unat_mod)
qed

lemma digits_value: "unat w < 10 ^ k \<Longrightarrow> decimal_value (digits k w) = unat w"
proof (induction k arbitrary: w)
  case 0
  then show ?case by (simp add: decimal_value_def)
next
  case (Suc k)
  have "unat (w div 10) < 10 ^ k" using Suc.prems by (simp add: unat_div less_mult_imp_div_less)
  with Suc.IH have ih: "decimal_value (digits k (w div 10)) = unat w div 10" by (simp add: unat_div)
  have "w < 10 \<Longrightarrow> unat w < 10" by (simp add: word_less_nat_alt)
  with ih show ?case by (auto simp: decimal_value_def of_char_digit)
qed

lemma decimal_value_decimal: "decimal_value (decimal w) = unat w"
proof -
  have "unat w < 10 ^ 20" using unsigned_less[of w, where ?'a = nat] by simp
  then show ?thesis unfolding decimal_def by (rule digits_value)
qed

text \<open>\<open>Error\<close>, with its two texts for a storage or encoding failure.\<close>

datatype rerror =
    NotLeader "node_id option"
  | Storage string string
  | Encoding string string
  | ConfigInProgress

text \<open>\<open>Error::storage\<close> and \<open>Error::encoding\<close>, given the rendered source.\<close>

definition storage_error :: "string \<Rightarrow> string \<Rightarrow> rerror" where
  "storage_error ctx source = Storage ctx source"

definition encoding_error :: "string \<Rightarrow> string \<Rightarrow> rerror" where
  "encoding_error ctx source = Encoding ctx source"

fun error_display :: "rerror \<Rightarrow> string" where
  "error_display (NotLeader (Some i)) = ''not the leader; current leader is node '' @ decimal i"
| "error_display (NotLeader None) = ''not the leader; no leader is currently known''"
| "error_display (Storage ctx detail) = ''log storage error while '' @ ctx @ '': '' @ detail"
| "error_display (Encoding ctx detail) = ''message framing error while '' @ ctx @ '': '' @ detail"
| "error_display ConfigInProgress = ''a configuration change is already in progress''"

fun error_kind_of :: "rerror \<Rightarrow> string" where
  "error_kind_of (NotLeader _) = ''NotLeader''"
| "error_kind_of (Storage _ _) = ''Storage''"
| "error_kind_of (Encoding _ _) = ''Encoding''"
| "error_kind_of ConfigInProgress = ''ConfigInProgress''"

fun error_caption :: "rerror \<Rightarrow> string" where
  "error_caption (NotLeader _) = ''Not the leader''"
| "error_caption (Storage _ _) = ''Log storage failure''"
| "error_caption (Encoding _ _) = ''Message framing failure''"
| "error_caption ConfigInProgress = ''Configuration change in progress''"

fun is_retryable :: "rerror \<Rightarrow> bool" where
  "is_retryable (NotLeader _) = True"
| "is_retryable ConfigInProgress = True"
| "is_retryable _ = False"

fun is_fatal :: "rerror \<Rightarrow> bool" where
  "is_fatal (Storage _ _) = True"
| "is_fatal _ = False"

lemma fatal_not_retryable: "is_fatal e \<Longrightarrow> \<not> is_retryable e"
  by (cases e) auto

subsection \<open>Roles and entries\<close>

datatype role = Follower | Candidate | Leader

datatype entry_kind = NormalEntry | ConfigEntry

record log_entry =
  le_term :: raft_term
  le_index :: raft_index
  le_kind :: entry_kind
  le_command :: "byte list"

record hard_state =
  hs_term :: raft_term
  hs_voted_for :: "node_id option"

definition hard_state_default :: hard_state where
  "hard_state_default = \<lparr>hs_term = 0, hs_voted_for = None\<rparr>"

record snapshot =
  sn_index :: raft_index
  sn_term :: raft_term
  sn_config :: "node_id list"
  sn_data :: "byte list"

subsection \<open>Little-endian integers\<close>

fun le_bytes :: "nat \<Rightarrow> u64 \<Rightarrow> byte list" where
  "le_bytes 0 w = []"
| "le_bytes (Suc k) w = ucast w # le_bytes k (drop_bit 8 w)"

fun from_le :: "byte list \<Rightarrow> u64" where
  "from_le [] = 0"
| "from_le (b # bs) = ucast b OR push_bit 8 (from_le bs)"

definition to_le_bytes :: "u64 \<Rightarrow> byte list" where
  "to_le_bytes w = le_bytes 8 w"

definition from_le_bytes :: "byte list \<Rightarrow> u64" where
  "from_le_bytes bs = from_le bs"

lemma length_le_bytes [simp]: "length (le_bytes k w) = k"
  by (induction k arbitrary: w) auto

lemma length_to_le_bytes [simp]: "length (to_le_bytes w) = 8"
  by (simp add: to_le_bytes_def)

lemma from_le_le_bytes: "from_le (le_bytes k w) = take_bit (8 * k) w"
proof (induction k arbitrary: w)
  case 0
  then show ?case by simp
next
  case (Suc k)
  have "ucast (ucast w :: byte) OR push_bit 8 (take_bit (8 * k) (drop_bit 8 w))
      = take_bit (8 + 8 * k) w"
    by (rule bit_word_eqI) (auto simp: bit_simps)
  with Suc show ?case by simp
qed

lemma le_bytes_from_le: "length bs \<le> 8 \<Longrightarrow> le_bytes (length bs) (from_le bs) = bs"
proof (induction bs)
  case Nil
  then show ?case by simp
next
  case (Cons b bs)
  have low: "ucast (ucast b OR push_bit 8 (from_le bs) :: u64) = b"
    by (rule bit_word_eqI) (auto simp: bit_simps)
  have bnd: "from_le bs = take_bit (8 * length bs) (from_le bs)"
    using Cons from_le_le_bytes[of "length bs" "from_le bs"] by simp
  have "drop_bit 8 (ucast b OR push_bit 8 (from_le bs) :: u64) = take_bit 56 (from_le bs)"
    by (rule bit_word_eqI) (auto simp: bit_simps dest: bit_imp_le_length)
  also have "\<dots> = from_le bs"
    using Cons.prems by (subst (1 2) bnd) (simp add: min_def)
  finally have high: "drop_bit 8 (ucast b OR push_bit 8 (from_le bs) :: u64) = from_le bs" .
  show ?case using Cons low high by simp
qed

lemma from_le_to_le_bytes [simp]: "from_le_bytes (to_le_bytes w) = w"
  by (simp add: from_le_bytes_def to_le_bytes_def from_le_le_bytes take_bit_word_eq_self)

lemma to_le_from_le_bytes: "length bs = 8 \<Longrightarrow> to_le_bytes (from_le_bytes bs) = bs"
  using le_bytes_from_le[of bs] by (simp add: from_le_bytes_def to_le_bytes_def)

subsection \<open>The membership codec\<close>

fun encode_members :: "node_id list \<Rightarrow> byte list" where
  "encode_members [] = []"
| "encode_members (i # is) = to_le_bytes i @ encode_members is"

text \<open>\<open>chunks_exact(8)\<close>: whole groups of eight, the rest left out.\<close>

function decode_members :: "byte list \<Rightarrow> node_id list" where
  "decode_members bs =
     (if length bs < 8 then [] else from_le_bytes (take 8 bs) # decode_members (drop 8 bs))"
  by pat_completeness auto
termination
  by (relation "measure length") auto

declare decode_members.simps [simp del]

lemma decode_members_short: "length bs < 8 \<Longrightarrow> decode_members bs = []"
  by (subst decode_members.simps) simp

lemma decode_members_step:
  "decode_members (to_le_bytes i @ bs) = i # decode_members bs"
  by (subst decode_members.simps) simp

lemma decode_encode_append:
  "length bs < 8 \<Longrightarrow> decode_members (encode_members ids @ bs) = ids"
  by (induction ids) (simp_all add: decode_members_short decode_members_step)

lemma length_encode_members: "length (encode_members ids) = 8 * length ids"
  by (induction ids) auto

lemma encode_decode_members:
  "8 dvd length bs \<Longrightarrow> encode_members (decode_members bs) = bs"
proof (induction bs rule: decode_members.induct)
  case (1 bs)
  show ?case
  proof (cases "length bs < 8")
    case True
    with "1.prems" have "bs = []" by (auto elim!: dvdE)
    then show ?thesis by (simp add: decode_members_short)
  next
    case False
    with "1.prems" have "8 dvd length (drop 8 bs)" by (auto simp: dvd_minus_self)
    with "1.IH"[OF False] False show ?thesis
      by (subst decode_members.simps) (simp add: to_le_from_le_bytes)
  qed
qed

subsection \<open>Constructors and accessors\<close>

definition entry_new :: "raft_term \<Rightarrow> raft_index \<Rightarrow> byte list \<Rightarrow> log_entry" where
  "entry_new t i c = \<lparr>le_term = t, le_index = i, le_kind = NormalEntry, le_command = c\<rparr>"

definition entry_config :: "raft_term \<Rightarrow> raft_index \<Rightarrow> node_id list \<Rightarrow> log_entry" where
  "entry_config t i ms =
     \<lparr>le_term = t, le_index = i, le_kind = ConfigEntry, le_command = encode_members ms\<rparr>"

definition members :: "log_entry \<Rightarrow> node_id list option" where
  "members e = (case le_kind e of
     NormalEntry \<Rightarrow> None
   | ConfigEntry \<Rightarrow> Some (decode_members (le_command e)))"

definition snapshot_new :: "raft_index \<Rightarrow> raft_term \<Rightarrow> byte list \<Rightarrow> snapshot" where
  "snapshot_new i t d = \<lparr>sn_index = i, sn_term = t, sn_config = [], sn_data = d\<rparr>"

definition snapshot_with_config ::
  "raft_index \<Rightarrow> raft_term \<Rightarrow> node_id list \<Rightarrow> byte list \<Rightarrow> snapshot" where
  "snapshot_with_config i t c d = \<lparr>sn_index = i, sn_term = t, sn_config = c, sn_data = d\<rparr>"

lemma entry_new_sel [simp]:
  "le_term (entry_new t i c) = t" "le_index (entry_new t i c) = i"
  "le_kind (entry_new t i c) = NormalEntry" "le_command (entry_new t i c) = c"
  by (simp_all add: entry_new_def)

lemma entry_config_sel [simp]:
  "le_term (entry_config t i ms) = t" "le_index (entry_config t i ms) = i"
  "le_kind (entry_config t i ms) = ConfigEntry"
  by (simp_all add: entry_config_def)

lemma members_entry_new [simp]: "members (entry_new t i c) = None"
  by (simp add: members_def)

lemma members_entry_config [simp]: "members (entry_config t i ms) = Some ms"
  using decode_encode_append[of "[]" ms] by (simp add: members_def entry_config_def)

lemma members_None_iff: "members e = None \<longleftrightarrow> le_kind e = NormalEntry"
  by (cases "le_kind e") (auto simp: members_def)

end
