(* ===== verification/Raft_Log_Spec.thy ===== *)
theory Raft_Log_Spec
  imports Raft_Types
begin

text \<open>
  The contract of the \<open>RaftLog\<close> trait of \<^verbatim>\<open>src/log.rs\<close>, as its documentation states
  it: an abstract log (a boundary, the entries above it, the snapshot below it, and the
  hard state) with the effect of every operation, and the locale \<open>raft_log\<close> whose
  assumptions say that an implementation has those effects. \<open>MemoryLog\<close> and \<open>WalLog\<close>
  interpret it; the lemmas proved inside it hold for both.

  Reads hold in every state of the invariant. A write says what it did when it returned
  \<open>Ok\<close>, and which calls it must reject and leave the log alone; a backend may
  also fail for reasons of its own, about which nothing is promised.
\<close>

subsection \<open>The abstract log\<close>

record alog =
  al_base :: nat
  al_base_term :: raft_term
  al_ents :: "log_entry list"
  al_snap :: "snapshot option"
  al_hard :: hard_state

definition al_last :: "alog \<Rightarrow> nat" where
  "al_last a = al_base a + length (al_ents a)"

definition al_entry :: "alog \<Rightarrow> nat \<Rightarrow> log_entry option" where
  "al_entry a i = (if al_base a < i \<and> i \<le> al_last a
                   then Some (al_ents a ! (i - al_base a - 1)) else None)"

definition al_term_at :: "alog \<Rightarrow> nat \<Rightarrow> raft_term option" where
  "al_term_at a i = (if i = al_base a then Some (al_base_term a)
                     else map_option le_term (al_entry a i))"

definition al_last_term :: "alog \<Rightarrow> raft_term" where
  "al_last_term a = (if al_ents a = [] then al_base_term a else le_term (last (al_ents a)))"

definition al_range :: "alog \<Rightarrow> nat \<Rightarrow> nat \<Rightarrow> log_entry list" where
  "al_range a from to = take (to - max (from - 1) (al_base a)) (drop (from - 1 - al_base a) (al_ents a))"

definition al_append :: "alog \<Rightarrow> log_entry list \<Rightarrow> alog" where
  "al_append a es = a\<lparr>al_ents := al_ents a @ es\<rparr>"

definition al_truncate :: "alog \<Rightarrow> nat \<Rightarrow> alog" where
  "al_truncate a i = a\<lparr>al_ents := take (i - al_base a - 1) (al_ents a)\<rparr>"

definition al_install :: "alog \<Rightarrow> snapshot \<Rightarrow> alog" where
  "al_install a sn =
     (if unat (sn_index sn) \<le> al_base a then a
      else a\<lparr>al_base := unat (sn_index sn), al_base_term := sn_term sn,
             al_ents := (if al_term_at a (unat (sn_index sn)) = Some (sn_term sn)
                         then drop (unat (sn_index sn) - al_base a) (al_ents a) else []),
             al_snap := Some sn\<rparr>)"

text \<open>The entries sit at consecutive indices just above the boundary, no index
  overflows, and the boundary is the sentinel (index 0, term 0) exactly as long as there
  is no snapshot.\<close>

definition indexed_from :: "nat \<Rightarrow> log_entry list \<Rightarrow> bool" where
  "indexed_from b es \<longleftrightarrow> (\<forall>k < length es. unat (le_index (es ! k)) = b + k + 1)"

definition al_wf :: "alog \<Rightarrow> bool" where
  "al_wf a \<longleftrightarrow> al_last a < 2 ^ 64 \<and> indexed_from (al_base a) (al_ents a)
     \<and> (case al_snap a of
          None \<Rightarrow> al_base a = 0 \<and> al_base_term a = 0
        | Some sn \<Rightarrow> 0 < al_base a \<and> unat (sn_index sn) = al_base a
                     \<and> sn_term sn = al_base_term a)"

lemma indexed_from_Nil [simp]: "indexed_from b []"
  by (simp add: indexed_from_def)

lemma indexed_from_Cons [simp]:
  "indexed_from b (e # es) \<longleftrightarrow> unat (le_index e) = b + 1 \<and> indexed_from (b + 1) es"
  by (auto simp: indexed_from_def nth_Cons split: nat.splits)

lemma indexed_from_append [simp]:
  "indexed_from b (xs @ ys) \<longleftrightarrow> indexed_from b xs \<and> indexed_from (b + length xs) ys"
  by (induction xs arbitrary: b) (auto simp: add.assoc)

lemma indexed_from_take: "indexed_from b es \<Longrightarrow> indexed_from b (take n es)"
  by (simp add: indexed_from_def)

lemma indexed_from_drop: "indexed_from b es \<Longrightarrow> n \<le> length es \<Longrightarrow> indexed_from (b + n) (drop n es)"
  by (simp add: indexed_from_def)

lemma al_entry_index: "al_wf a \<Longrightarrow> al_entry a i = Some e \<Longrightarrow> unat (le_index e) = i"
  by (auto simp: al_wf_def al_entry_def al_last_def indexed_from_def split: if_splits)

lemma al_term_at_None: "al_term_at a i = None \<longleftrightarrow> i < al_base a \<or> al_last a < i"
  by (auto simp: al_term_at_def al_entry_def al_last_def)

lemma al_last_term_at: "al_term_at a (al_last a) = Some (al_last_term a)"
  by (auto simp: al_term_at_def al_entry_def al_last_def al_last_term_def last_conv_nth)

lemma al_wf_sentinel: "al_wf a \<Longrightarrow> al_base a = 0 \<Longrightarrow> al_term_at a 0 = Some 0"
  by (auto simp: al_wf_def al_term_at_def split: option.splits)

lemma al_entry_append:
  "al_entry (al_append a es) i =
     (if al_last a < i \<and> i \<le> al_last a + length es then Some (es ! (i - al_last a - 1))
      else al_entry a i)"
  by (auto simp: al_entry_def al_append_def al_last_def nth_append)

lemma al_entry_truncate:
  "al_base a < i \<Longrightarrow> al_entry (al_truncate a i) j = (if j < i then al_entry a j else None)"
  by (auto simp: al_entry_def al_truncate_def al_last_def min_def)

lemma al_entry_install:
  "al_base a < unat (sn_index sn) \<Longrightarrow>
   al_entry (al_install a sn) i =
     (if unat (sn_index sn) < i \<and> al_term_at a (unat (sn_index sn)) = Some (sn_term sn)
      then al_entry a i else None)"
  by (auto simp: al_entry_def al_install_def al_last_def al_term_at_None
      dest!: al_term_at_None[THEN iffD2, rotated] split: option.splits)

lemma al_append_sel [simp]:
  "al_base (al_append a es) = al_base a" "al_base_term (al_append a es) = al_base_term a"
  "al_snap (al_append a es) = al_snap a" "al_hard (al_append a es) = al_hard a"
  "al_last (al_append a es) = al_last a + length es"
  by (simp_all add: al_append_def al_last_def)

lemma al_truncate_sel [simp]:
  "al_base (al_truncate a i) = al_base a" "al_base_term (al_truncate a i) = al_base_term a"
  "al_snap (al_truncate a i) = al_snap a" "al_hard (al_truncate a i) = al_hard a"
  by (simp_all add: al_truncate_def)

lemma al_last_truncate:
  "al_base a < i \<Longrightarrow> al_last (al_truncate a i) = min (al_last a) (i - 1)"
  by (auto simp: al_truncate_def al_last_def)

lemma al_wf_append:
  "al_wf a \<Longrightarrow> indexed_from (al_last a) es \<Longrightarrow> al_last a + length es < 2 ^ 64 \<Longrightarrow>
   al_wf (al_append a es)"
  by (auto simp: al_wf_def al_append_def al_last_def split: option.splits)

lemma al_wf_truncate: "al_wf a \<Longrightarrow> al_base a < i \<Longrightarrow> al_wf (al_truncate a i)"
  by (auto simp: al_wf_def al_truncate_def al_last_def indexed_from_take split: option.splits)

lemma al_wf_install: "al_wf a \<Longrightarrow> al_wf (al_install a sn)"
proof (cases "unat (sn_index sn) \<le> al_base a")
  case False
  assume wf: "al_wf a"
  let ?i = "unat (sn_index sn)"
  have lt: "?i < 2 ^ 64" using unsigned_less[of "sn_index sn"] by simp
  show "al_wf (al_install a sn)"
  proof (cases "al_term_at a ?i = Some (sn_term sn)")
    case True
    then have "al_term_at a ?i \<noteq> None" by simp
    then have "?i \<le> al_last a" by (simp add: al_term_at_None)
    with wf False True have "indexed_from (al_base a + (?i - al_base a)) (drop (?i - al_base a) (al_ents a))"
      by (intro indexed_from_drop) (auto simp: al_wf_def al_last_def)
    with wf False True \<open>?i \<le> al_last a\<close> show ?thesis
      by (auto simp: al_wf_def al_install_def al_last_def)
  next
    case not_match: False
    with wf False lt show ?thesis
      by (auto simp: al_wf_def al_install_def al_last_def)
  qed
qed (simp add: al_install_def)

subsection \<open>The default bulk read\<close>

text \<open>The default body of \<open>RaftLog::entries\<close>, which reads index by index through
  \<open>entry\<close>. The counter wraps after \<open>u64::MAX\<close>, so a range that ends there never
  ends the loop: \<open>None\<close> is "does not return".\<close>

partial_function (option) entries_loop ::
  "(raft_index \<Rightarrow> log_entry option) \<Rightarrow> raft_index \<Rightarrow> raft_index \<Rightarrow> log_entry list
    \<Rightarrow> log_entry list option" where
  "entries_loop get index to out =
     (if index \<le> to
      then entries_loop get (index + 1) to
             (case get index of Some e \<Rightarrow> out @ [e] | None \<Rightarrow> out)
      else Some out)"

definition default_entries ::
  "(raft_index \<Rightarrow> log_entry option) \<Rightarrow> raft_index \<Rightarrow> raft_index \<Rightarrow> log_entry list option" where
  "default_entries get from to =
     (if from = 0 \<or> to < from then Some [] else entries_loop get from to [])"

lemma al_range_empty: "al_range a (Suc i) i = []"
  by (simp add: al_range_def)

lemma al_range_step:
  assumes "0 < i" "i \<le> j"
  shows "al_range a i j = (case al_entry a i of Some e \<Rightarrow> [e] | None \<Rightarrow> []) @ al_range a (Suc i) j"
proof (cases "al_base a < i \<and> i \<le> al_last a")
  case True
  then have "i - Suc (al_base a) < length (al_ents a)" by (auto simp: al_last_def)
  then have "drop (i - Suc (al_base a)) (al_ents a)
      = al_ents a ! (i - Suc (al_base a)) # drop (Suc (i - Suc (al_base a))) (al_ents a)"
    by (rule Cons_nth_drop_Suc[symmetric])
  moreover have "Suc (i - Suc (al_base a)) = i - al_base a" using True by linarith
  ultimately have d: "drop (i - 1 - al_base a) (al_ents a)
      = al_ents a ! (i - 1 - al_base a) # drop (i - al_base a) (al_ents a)"
    by simp
  have "max (i - 1) (al_base a) = i - 1" "max (Suc i - 1) (al_base a) = i"
    "j - (i - 1) = Suc (j - i)" using True assms by auto
  with True d show ?thesis by (simp add: al_range_def al_entry_def)
next
  case False
  then have "i \<le> al_base a \<or> length (al_ents a) \<le> i - 1 - al_base a"
    by (auto simp: al_last_def)
  with False assms show ?thesis
    by (auto simp: al_range_def al_entry_def max_def)
qed

text \<open>The trait's default snapshot methods, for a backend without compaction: its boundary is
  0, it has no snapshot, and it refuses to install one.\<close>

definition default_snapshot_index :: "'s \<Rightarrow> raft_index" where
  "default_snapshot_index l = 0"

definition default_snapshot :: "'s \<Rightarrow> snapshot option" where
  "default_snapshot l = None"

definition default_apply_snapshot :: "'s \<Rightarrow> snapshot \<Rightarrow> 's \<times> (rerror + unit)" where
  "default_apply_snapshot l sn =
     (l, Inl (storage_error ''apply snapshot'' ''this log does not support snapshots''))"

subsection \<open>The interface\<close>

locale raft_log =
  fixes inv :: "'s \<Rightarrow> bool"
    and abs :: "'s \<Rightarrow> alog"
    and last_index :: "'s \<Rightarrow> raft_index"
    and last_term :: "'s \<Rightarrow> raft_term"
    and term_at :: "'s \<Rightarrow> raft_index \<Rightarrow> raft_term option"
    and entry :: "'s \<Rightarrow> raft_index \<Rightarrow> log_entry option"
    and entries :: "'s \<Rightarrow> raft_index \<Rightarrow> raft_index \<Rightarrow> log_entry list"
    and append_log :: "'s \<Rightarrow> log_entry list \<Rightarrow> 's \<times> (rerror + unit)"
    and truncate :: "'s \<Rightarrow> raft_index \<Rightarrow> 's \<times> (rerror + unit)"
    and get_hard :: "'s \<Rightarrow> hard_state"
    and set_hard :: "'s \<Rightarrow> hard_state \<Rightarrow> 's \<times> (rerror + unit)"
    and sync :: "'s \<Rightarrow> 's \<times> (rerror + unit)"
    and snapshot_index :: "'s \<Rightarrow> raft_index"
    and get_snapshot :: "'s \<Rightarrow> snapshot option"
    and apply_snapshot :: "'s \<Rightarrow> snapshot \<Rightarrow> 's \<times> (rerror + unit)"
  assumes inv_wf: "inv l \<Longrightarrow> al_wf (abs l)"
    and last_index: "inv l \<Longrightarrow> unat (last_index l) = al_last (abs l)"
    and last_term: "inv l \<Longrightarrow> last_term l = al_last_term (abs l)"
    and term_at: "inv l \<Longrightarrow> term_at l i = al_term_at (abs l) (unat i)"
    and entry: "inv l \<Longrightarrow> entry l i = al_entry (abs l) (unat i)"
    and entries: "inv l \<Longrightarrow> entries l from to =
        (if from = 0 \<or> to < from then [] else al_range (abs l) (unat from) (unat to))"
    and append_ok: "inv l \<Longrightarrow> append_log l es = (l', Inr ()) \<Longrightarrow>
        al_last (abs l) + length es < 2 ^ 64 \<Longrightarrow>
        inv l' \<and> abs l' = al_append (abs l) es \<and> indexed_from (al_last (abs l)) es"
    and append_reject: "inv l \<Longrightarrow> al_last (abs l) + length es < 2 ^ 64 \<Longrightarrow>
        \<not> indexed_from (al_last (abs l)) es \<Longrightarrow> \<exists>e. append_log l es = (l, Inl e)"
    and truncate_ok: "inv l \<Longrightarrow> truncate l i = (l', Inr ()) \<Longrightarrow>
        inv l' \<and> abs l' = al_truncate (abs l) (unat i) \<and> al_base (abs l) < unat i"
    and truncate_reject: "inv l \<Longrightarrow> unat i \<le> al_base (abs l) \<Longrightarrow> \<exists>e. truncate l i = (l, Inl e)"
    and get_hard: "get_hard l = al_hard (abs l)"
    and set_hard_ok: "inv l \<Longrightarrow> set_hard l h = (l', Inr ()) \<Longrightarrow>
        inv l' \<and> abs l' = (abs l)\<lparr>al_hard := h\<rparr>"
    and sync_ok: "inv l \<Longrightarrow> sync l = (l', Inr ()) \<Longrightarrow> inv l' \<and> abs l' = abs l"
    and snapshot_index: "unat (snapshot_index l) = al_base (abs l)"
    and get_snapshot: "inv l \<Longrightarrow> get_snapshot l = al_snap (abs l)"
    and apply_snapshot_ok: "inv l \<Longrightarrow> apply_snapshot l sn = (l', Inr ()) \<Longrightarrow>
        inv l' \<and> abs l' = al_install (abs l) sn"
begin

lemma term_at_last: "inv l \<Longrightarrow> term_at l (last_index l) = Some (last_term l)"
  by (simp add: term_at last_index last_term al_last_term_at)

lemma term_at_None: "inv l \<Longrightarrow> term_at l i = None \<longleftrightarrow> i < snapshot_index l \<or> last_index l < i"
  by (simp add: term_at al_term_at_None last_index snapshot_index word_less_nat_alt)

lemma entry_index: "inv l \<Longrightarrow> entry l i = Some e \<Longrightarrow> le_index e = i"
  using al_entry_index[OF inv_wf, of l "unat i" e] by (simp add: entry word_unat_eq_iff)

lemma entry_term_at: "inv l \<Longrightarrow> entry l i = Some e \<Longrightarrow> term_at l i = Some (le_term e)"
  by (auto simp: entry term_at al_term_at_def al_entry_def split: if_splits)

lemma entry_above_base: "inv l \<Longrightarrow> entry l i \<noteq> None \<longleftrightarrow> snapshot_index l < i \<and> i \<le> last_index l"
  by (simp add: entry al_entry_def last_index snapshot_index word_less_nat_alt word_le_nat_alt)

text \<open>The trait's default \<open>entries\<close> returns what a bulk read returns, and returns at
  all, for every range that does not end at \<open>u64::MAX\<close>.\<close>

lemma entries_loop_range:
  assumes "inv l" "to \<noteq> u64_max" "0 < unat i" "unat i \<le> unat to + 1"
  shows "entries_loop (entry l) i to out = Some (out @ al_range (abs l) (unat i) (unat to))"
  using assms(3,4)
proof (induction "unat to + 1 - unat i" arbitrary: i out)
  case 0
  then have "unat i = Suc (unat to)" by simp
  moreover from this have "\<not> i \<le> to" by (simp add: word_le_nat_alt)
  ultimately show ?case by (simp add: entries_loop.simps al_range_empty)
next
  case (Suc k)
  then have le: "unat i \<le> unat to" by simp
  from assms(2) have "unat to + 1 < 2 ^ 64" by (simp only: not_max_room)
  with le have u: "unat (i + 1) = unat i + 1" by (intro unat_plus_one) simp
  have "entries_loop (entry l) (i + 1) to out'
      = Some (out' @ al_range (abs l) (unat i + 1) (unat to))" for out'
    using Suc.hyps(1)[of "i + 1" out'] Suc.hyps(2) Suc.prems u by simp
  with le Suc.prems show ?case
    by (simp add: entries_loop.simps[of "entry l" i] word_le_nat_alt entry[OF assms(1)]
        al_range_step[of "unat i"] split: option.splits)
qed

lemma default_entries_eq:
  assumes "inv l" "to \<noteq> u64_max"
  shows "default_entries (entry l) from to = Some (entries l from to)"
proof (cases "from = 0 \<or> to < from")
  case False
  then have "0 < unat from" "unat from \<le> unat to + 1"
    by (auto simp: unat_gt_0 word_le_nat_alt not_less)
  from entries_loop_range[OF assms this, of "[]"] False show ?thesis
    by (simp add: default_entries_def entries[OF assms(1)])
qed (simp add: default_entries_def entries[OF assms(1)])

lemma append_read:
  assumes "inv l" "append_log l es = (l', Inr ())" "al_last (abs l) + length es < 2 ^ 64"
  shows "entry l' i = (if last_index l < i \<and> unat i \<le> unat (last_index l) + length es
                       then Some (es ! (unat i - unat (last_index l) - 1)) else entry l i)"
proof -
  from append_ok[OF assms] have "inv l'" "abs l' = al_append (abs l) es" by auto
  with assms(1) show ?thesis
    by (simp add: entry al_entry_append last_index word_less_nat_alt)
qed

lemma truncate_read:
  assumes "inv l" "truncate l i = (l', Inr ())"
  shows "entry l' j = (if j < i then entry l j else None)"
proof -
  from truncate_ok[OF assms]
  have "inv l'" "abs l' = al_truncate (abs l) (unat i)" "al_base (abs l) < unat i" by auto
  with assms(1) show ?thesis by (simp add: entry al_entry_truncate word_less_nat_alt)
qed

text \<open>A snapshot newer than the boundary becomes the boundary, and answers for its index.\<close>

lemma snapshot_boundary:
  assumes "inv l" "apply_snapshot l sn = (l', Inr ())" "snapshot_index l < sn_index sn"
  shows "snapshot_index l' = sn_index sn \<and> term_at l' (sn_index sn) = Some (sn_term sn)
       \<and> get_snapshot l' = Some sn"
proof -
  from apply_snapshot_ok[OF assms(1,2)] have *: "inv l'" "abs l' = al_install (abs l) sn" by auto
  have "\<not> unat (sn_index sn) \<le> al_base (abs l)"
    using assms(3) by (simp add: word_less_nat_alt snapshot_index)
  then show ?thesis using *
    by (simp add: term_at get_snapshot al_install_def al_term_at_def word_unat_eq_iff snapshot_index)
qed

end

text \<open>The default snapshot methods keep the contract: for a backend whose abstract logs start at
  the sentinel, they satisfy the three snapshot laws of the interface.\<close>

lemma default_snapshot_laws:
  assumes "al_wf a" "al_base a = 0"
  shows "unat (default_snapshot_index l) = al_base a" "default_snapshot l = al_snap a"
    and "default_apply_snapshot l sn \<noteq> (l', Inr ())"
  using assms by (auto simp: default_snapshot_index_def default_snapshot_def
      default_apply_snapshot_def al_wf_def split: option.splits)

end
