(* ===== verification/Raft_Log.thy ===== *)
theory Raft_Log
  imports Raft_Log_Spec
begin

text \<open>
  The in-memory log \<open>MemoryLog\<close> of \<^verbatim>\<open>src/log.rs\<close>: its operations, its well-formedness,
  and what each operation does to the sequence of entries it stands for. The contract of
  the \<open>RaftLog\<close> trait as an interface is in \<^verbatim>\<open>Raft_Log_Spec.thy\<close>.
\<close>

record memory_log =
  ml_entries :: "log_entry list"
  ml_base_index :: raft_index
  ml_base_term :: raft_term
  ml_snapshot :: "byte list option"
  ml_snapshot_config :: "node_id list"
  ml_hard :: hard_state

definition ml_new :: memory_log where
  "ml_new = \<lparr>ml_entries = [], ml_base_index = 0, ml_base_term = 0, ml_snapshot = None,
     ml_snapshot_config = [], ml_hard = hard_state_default\<rparr>"

definition ml_len :: "memory_log \<Rightarrow> nat" where
  "ml_len l = length (ml_entries l)"

definition ml_is_empty :: "memory_log \<Rightarrow> bool" where
  "ml_is_empty l \<longleftrightarrow> ml_entries l = []"

subsection \<open>Reading\<close>

definition ml_last_index :: "memory_log \<Rightarrow> raft_index" where
  "ml_last_index l = ml_base_index l + of_nat (length (ml_entries l))"

definition ml_last_term :: "memory_log \<Rightarrow> raft_term" where
  "ml_last_term l = (case ml_entries l of [] \<Rightarrow> ml_base_term l | es \<Rightarrow> le_term (last es))"

definition ml_slot :: "memory_log \<Rightarrow> raft_index \<Rightarrow> nat option" where
  "ml_slot l i =
     (if i \<le> ml_base_index l \<or> ml_last_index l < i then None
      else Some (unat (i - ml_base_index l - 1)))"

definition ml_term_at :: "memory_log \<Rightarrow> raft_index \<Rightarrow> raft_term option" where
  "ml_term_at l i =
     (if i = ml_base_index l then Some (ml_base_term l)
      else map_option (\<lambda>s. le_term (ml_entries l ! s)) (ml_slot l i))"

definition ml_entry :: "memory_log \<Rightarrow> raft_index \<Rightarrow> log_entry option" where
  "ml_entry l i = map_option (\<lambda>s. ml_entries l ! s) (ml_slot l i)"

text \<open>The bulk read \<open>entries(from, to)\<close>: the slice \<open>start..end\<close> of the vector.\<close>

definition ml_entries_range :: "memory_log \<Rightarrow> raft_index \<Rightarrow> raft_index \<Rightarrow> log_entry list" where
  "ml_entries_range l from to =
     (if from = 0 then []
      else let from' = max from (ml_base_index l + 1)
           in if to < from' then []
              else let start = unat (from' - ml_base_index l - 1);
                       stop = min (unat (to - ml_base_index l)) (length (ml_entries l))
                   in if stop \<le> start then []
                      else take (stop - start) (drop start (ml_entries l)))"

subsection \<open>Writing\<close>

text \<open>\<open>windows(2)\<close>: each entry's index is one more than the one before it.\<close>

fun contiguous :: "log_entry list \<Rightarrow> bool" where
  "contiguous (a # b # es) \<longleftrightarrow> le_index b = le_index a + 1 \<and> contiguous (b # es)"
| "contiguous _ \<longleftrightarrow> True"

definition ml_append :: "memory_log \<Rightarrow> log_entry list \<Rightarrow> memory_log \<times> (rerror + unit)" where
  "ml_append l es =
     (case es of
        [] \<Rightarrow> (l, Inr ())
      | e # _ \<Rightarrow>
          let expected = ml_last_index l + 1
          in if le_index e \<noteq> expected
             then (l, Inl (Storage ''append entries''
                             (''non-contiguous append: expected index '' @ decimal expected
                              @ '', got '' @ decimal (le_index e))))
             else if \<not> contiguous es
             then (l, Inl (Storage ''append entries''
                             ''entries within the batch are not contiguous''))
             else (l\<lparr>ml_entries := ml_entries l @ es\<rparr>, Inr ()))"

definition ml_truncate :: "memory_log \<Rightarrow> raft_index \<Rightarrow> memory_log \<times> (rerror + unit)" where
  "ml_truncate l from =
     (if from \<le> ml_base_index l
      then (l, Inl (Storage ''truncate log'' ''cannot truncate into the snapshot''))
      else let keep = unat (from - ml_base_index l - 1)
           in if keep < length (ml_entries l)
              then (l\<lparr>ml_entries := take keep (ml_entries l)\<rparr>, Inr ())
              else (l, Inr ()))"

definition ml_hard_state :: "memory_log \<Rightarrow> hard_state" where
  "ml_hard_state l = ml_hard l"

definition ml_set_hard_state :: "memory_log \<Rightarrow> hard_state \<Rightarrow> memory_log \<times> (rerror + unit)" where
  "ml_set_hard_state l s = (l\<lparr>ml_hard := s\<rparr>, Inr ())"

definition ml_sync :: "memory_log \<Rightarrow> memory_log \<times> (rerror + unit)" where
  "ml_sync l = (l, Inr ())"

subsection \<open>Snapshots\<close>

definition ml_snapshot_index :: "memory_log \<Rightarrow> raft_index" where
  "ml_snapshot_index l = ml_base_index l"

definition ml_get_snapshot :: "memory_log \<Rightarrow> snapshot option" where
  "ml_get_snapshot l =
     map_option (\<lambda>d. snapshot_with_config (ml_base_index l) (ml_base_term l)
                       (ml_snapshot_config l) d) (ml_snapshot l)"

definition ml_apply_snapshot :: "memory_log \<Rightarrow> snapshot \<Rightarrow> memory_log \<times> (rerror + unit)" where
  "ml_apply_snapshot l sn =
     (if sn_index sn \<le> ml_base_index l then (l, Inr ())
      else let es = (if ml_term_at l (sn_index sn) = Some (sn_term sn)
                     then drop (min (unat (sn_index sn - ml_base_index l))
                                    (length (ml_entries l))) (ml_entries l)
                     else [])
           in (l\<lparr>ml_entries := es, ml_base_index := sn_index sn, ml_base_term := sn_term sn,
                 ml_snapshot := Some (sn_data sn), ml_snapshot_config := sn_config sn\<rparr>,
               Inr ()))"

lemma ml_apply_snapshot_never_fails: "snd (ml_apply_snapshot l sn) = Inr ()"
  by (simp add: ml_apply_snapshot_def Let_def)

lemma ml_truncate_total:
  "ml_base_index l < i \<Longrightarrow> \<exists>l'. ml_truncate l i = (l', Inr ())"
  by (auto simp: ml_truncate_def Let_def)

subsection \<open>Refinement of the abstract log\<close>

definition ml_abs :: "memory_log \<Rightarrow> alog" where
  "ml_abs l = \<lparr>al_base = unat (ml_base_index l), al_base_term = ml_base_term l,
     al_ents = ml_entries l, al_snap = ml_get_snapshot l, al_hard = ml_hard l\<rparr>"

definition ml_inv :: "memory_log \<Rightarrow> bool" where
  "ml_inv l \<longleftrightarrow> al_wf (ml_abs l)"

lemma ml_abs_sel [simp]:
  "al_base (ml_abs l) = unat (ml_base_index l)" "al_base_term (ml_abs l) = ml_base_term l"
  "al_ents (ml_abs l) = ml_entries l" "al_snap (ml_abs l) = ml_get_snapshot l"
  "al_hard (ml_abs l) = ml_hard l"
  by (simp_all add: ml_abs_def)

lemma ml_inv_new: "ml_inv ml_new"
  by (simp add: ml_inv_def al_wf_def ml_new_def ml_get_snapshot_def al_last_def)

lemma al_last_ml_abs: "al_last (ml_abs l) = unat (ml_base_index l) + length (ml_entries l)"
  by (simp add: al_last_def)

lemma ml_room: "ml_inv l \<Longrightarrow> unat (ml_base_index l) + length (ml_entries l) < 2 ^ 64"
  by (simp add: ml_inv_def al_wf_def al_last_ml_abs)

lemma unat_ml_last_index:
  assumes "ml_inv l"
  shows "unat (ml_last_index l) = unat (ml_base_index l) + length (ml_entries l)"
proof -
  have "length (ml_entries l) < 2 ^ 64" using ml_room[OF assms] by simp
  then have "unat (of_nat (length (ml_entries l)) :: u64) = length (ml_entries l)"
    by (simp add: unat_of_nat take_bit_nat_eq_self)
  with ml_room[OF assms] show ?thesis
    by (simp add: ml_last_index_def unat_word_ariths)
qed

lemma unat_slot:
  assumes "(b :: u64) < i"
  shows "unat (i - b - 1) = unat i - unat b - 1"
proof -
  have "unat (i - b) = unat i - unat b" using assms by (intro unat_minus_le) simp
  moreover have "0 < i - b" using assms by (simp add: word_gt_0)
  ultimately show ?thesis by (simp add: unat_minus_one_pos)
qed

lemma ml_slot_nat:
  "ml_inv l \<Longrightarrow> ml_slot l i =
     (if unat (ml_base_index l) < unat i \<and> unat i \<le> al_last (ml_abs l)
      then Some (unat i - unat (ml_base_index l) - 1) else None)"
  by (auto simp: ml_slot_def unat_slot word_less_nat_alt word_le_nat_alt unat_ml_last_index
      al_last_ml_abs)

text \<open>The slot is a valid position of the vector, so the indexing never panics.\<close>

lemma ml_slot_in_bounds: "ml_inv l \<Longrightarrow> ml_slot l i = Some s \<Longrightarrow> s < length (ml_entries l)"
  by (auto simp: ml_slot_nat al_last_ml_abs split: if_splits)

lemma ml_entry_abs: "ml_inv l \<Longrightarrow> ml_entry l i = al_entry (ml_abs l) (unat i)"
  by (simp add: ml_entry_def ml_slot_nat al_entry_def)

lemma ml_term_at_abs: "ml_inv l \<Longrightarrow> ml_term_at l i = al_term_at (ml_abs l) (unat i)"
  by (auto simp: ml_term_at_def ml_slot_nat al_term_at_def al_entry_def word_unat_eq_iff)

lemma ml_entries_range_abs:
  assumes inv: "ml_inv l"
  shows "ml_entries_range l from to =
     (if from = 0 \<or> to < from then [] else al_range (ml_abs l) (unat from) (unat to))"
proof (cases "from = 0 \<or> to < from")
  case True
  then show ?thesis by (auto simp: ml_entries_range_def Let_def less_max_iff_disj)
next
  case False
  let ?b = "ml_base_index l"
  let ?n = "length (ml_entries l)"
  from False have f0: "from \<noteq> 0" and ft: "unat from \<le> unat to"
    by (auto simp: word_le_nat_alt not_less)
  have fpos: "0 < unat from" using f0 by (simp add: unat_gt_0)
  show ?thesis
  proof (cases "to \<le> ?b")
    case True
    have "al_range (ml_abs l) (unat from) (unat to) = []"
      using True by (auto simp: al_range_def word_le_nat_alt)
    moreover have "ml_entries_range l from to = []"
    proof (cases "unat ?b + 1 < 2 ^ 64")
      case True
      then have "?b < ?b + 1" by (simp add: word_less_nat_alt unat_plus_one)
      with \<open>to \<le> ?b\<close> have "to < max from (?b + 1)" by (auto simp: less_max_iff_disj)
      then show ?thesis by (simp add: ml_entries_range_def Let_def)
    next
      case False
      then have "length (ml_entries l) = 0" using ml_room[OF inv] by linarith
      then have "ml_entries l = []" by simp
      then show ?thesis by (simp add: ml_entries_range_def Let_def)
    qed
    ultimately show ?thesis using False by simp
  next
    case above: False
    then have bt: "unat ?b < unat to" by (simp add: word_less_nat_alt not_le)
    then have b1: "unat (?b + 1) = unat ?b + 1"
      using unsigned_less[of to, where ?'a = nat] by (intro unat_plus_one) simp
    let ?f = "max from (?b + 1)"
    have uf: "unat ?f = max (unat from) (unat ?b + 1)"
      by (simp add: max_def word_le_nat_alt b1)
    have bf: "?b < ?f" by (simp add: word_less_nat_alt uf)
    have le: "\<not> to < ?f" using ft bt by (simp add: word_less_nat_alt uf)
    have start: "unat (?f - ?b - 1) = unat from - 1 - unat ?b"
      using fpos by (simp add: unat_slot[OF bf] uf)
    have stop: "unat (to - ?b) = unat to - unat ?b"
      using bt by (intro unat_minus_le) (simp add: word_le_nat_alt)
    have "ml_entries_range l from to
        = take (min (unat to - unat ?b) ?n - (unat from - 1 - unat ?b))
               (drop (unat from - 1 - unat ?b) (ml_entries l))"
      using le by (simp add: ml_entries_range_def Let_def f0 start stop)
    also have "\<dots> = take (unat to - max (unat from - 1) (unat ?b))
               (drop (unat from - 1 - unat ?b) (ml_entries l))"
      using bt by (auto simp: min_def max_def)
    finally show ?thesis using False by (simp add: al_range_def)
  qed
qed

lemma ml_last_term_abs: "ml_last_term l = al_last_term (ml_abs l)"
  by (auto simp: ml_last_term_def al_last_term_def split: list.splits)

lemma contiguous_indexed:
  assumes "unat (le_index e) + length es < 2 ^ 64"
  shows "contiguous (e # es) \<longleftrightarrow> indexed_from (unat (le_index e)) es"
  using assms
proof (induction es arbitrary: e)
  case Nil
  then show ?case by simp
next
  case (Cons a es)
  have *: "le_index a = le_index e + 1 \<longleftrightarrow> unat (le_index a) = unat (le_index e) + 1"
    using Cons.prems unat_plus_one[of "le_index e"] by (simp add: word_unat_eq_iff)
  show ?case
  proof (cases "le_index a = le_index e + 1")
    case True
    with * have ua: "unat (le_index a) = unat (le_index e) + 1" by simp
    with Cons.IH[of a] Cons.prems True show ?thesis by simp
  next
    case False
    with * show ?thesis by simp
  qed
qed

lemma ml_append_cases:
  assumes inv: "ml_inv l" and room: "al_last (ml_abs l) + length es < 2 ^ 64"
  shows "if indexed_from (al_last (ml_abs l)) es
         then ml_append l es = (l\<lparr>ml_entries := ml_entries l @ es\<rparr>, Inr ())
         else \<exists>e. ml_append l es = (l, Inl e)"
proof (cases es)
  case Nil
  then show ?thesis by (simp add: ml_append_def)
next
  case (Cons e es')
  have last: "unat (ml_last_index l + 1) = al_last (ml_abs l) + 1"
    using unat_plus_one[of "ml_last_index l"] room Cons
    by (simp add: unat_ml_last_index[OF inv] al_last_ml_abs)
  show ?thesis
  proof (cases "le_index e = ml_last_index l + 1")
    case True
    with last have u: "unat (le_index e) = al_last (ml_abs l) + 1" by simp
    with room Cons have "contiguous es \<longleftrightarrow> indexed_from (al_last (ml_abs l)) es"
      using contiguous_indexed[of e es'] by simp
    with True Cons show ?thesis by (auto simp: ml_append_def Let_def)
  next
    case False
    with last have "unat (le_index e) \<noteq> al_last (ml_abs l) + 1"
      by (simp add: word_unat_eq_iff)
    with False Cons show ?thesis by (auto simp: ml_append_def Let_def)
  qed
qed

lemma ml_get_snapshot_entries [simp]:
  "ml_get_snapshot (l\<lparr>ml_entries := es\<rparr>) = ml_get_snapshot l"
  "ml_get_snapshot (l\<lparr>ml_hard := h\<rparr>) = ml_get_snapshot l"
  by (simp_all add: ml_get_snapshot_def)

lemma ml_append_ok:
  assumes "ml_inv l" "ml_append l es = (l', Inr ())" "al_last (ml_abs l) + length es < 2 ^ 64"
  shows "ml_inv l' \<and> ml_abs l' = al_append (ml_abs l) es \<and> indexed_from (al_last (ml_abs l)) es"
proof -
  from ml_append_cases[OF assms(1,3)] assms(2)
  have ix: "indexed_from (al_last (ml_abs l)) es" and l': "l' = l\<lparr>ml_entries := ml_entries l @ es\<rparr>"
    by (auto split: if_splits)
  have "ml_abs l' = al_append (ml_abs l) es" by (simp add: l' ml_abs_def al_append_def)
  with ix assms(1,3) show ?thesis by (simp add: ml_inv_def al_wf_append)
qed

lemma ml_truncate_ok:
  assumes "ml_inv l" "ml_truncate l i = (l', Inr ())"
  shows "ml_inv l' \<and> ml_abs l' = al_truncate (ml_abs l) (unat i) \<and> al_base (ml_abs l) < unat i"
proof -
  from assms(2) have lt: "ml_base_index l < i" by (auto simp: ml_truncate_def split: if_splits)
  with assms(2) have "ml_abs l' = al_truncate (ml_abs l) (unat i)"
    by (auto simp: ml_truncate_def Let_def unat_slot ml_abs_def al_truncate_def split: if_splits)
  with lt assms(1) show ?thesis by (simp add: ml_inv_def al_wf_truncate word_less_nat_alt)
qed

lemma ml_apply_snapshot_ok:
  assumes "ml_inv l" "ml_apply_snapshot l sn = (l', Inr ())"
  shows "ml_inv l' \<and> ml_abs l' = al_install (ml_abs l) sn"
proof -
  have "ml_abs l' = al_install (ml_abs l) sn"
  proof (cases "sn_index sn \<le> ml_base_index l")
    case True
    with assms(2) show ?thesis
      by (simp add: ml_apply_snapshot_def al_install_def word_le_nat_alt)
  next
    case False
    then have "unat (sn_index sn - ml_base_index l) = unat (sn_index sn) - unat (ml_base_index l)"
      by (intro unat_minus_le) simp
    then have "drop (min (unat (sn_index sn - ml_base_index l)) (length (ml_entries l))) (ml_entries l)
        = drop (unat (sn_index sn) - unat (ml_base_index l)) (ml_entries l)"
      by (simp add: min_def)
    with False assms show ?thesis
      by (auto simp: ml_apply_snapshot_def al_install_def Let_def ml_term_at_abs word_le_nat_alt
          ml_abs_def ml_get_snapshot_def snapshot_with_config_def)
  qed
  with assms(1) show ?thesis by (simp add: ml_inv_def al_wf_install)
qed

interpretation mem: raft_log ml_inv ml_abs ml_last_index ml_last_term ml_term_at ml_entry
  ml_entries_range ml_append ml_truncate ml_hard_state ml_set_hard_state ml_sync
  ml_snapshot_index ml_get_snapshot ml_apply_snapshot
proof (unfold_locales, goal_cases)
  case (7 l es l')
  then show ?case by (rule ml_append_ok)
next
  case (8 l es)
  then show ?case using ml_append_cases[of l es] by simp
next
  case (9 l i l')
  then show ?case by (rule ml_truncate_ok)
next
  case (10 l i)
  then show ?case by (simp add: ml_truncate_def word_le_nat_alt)
next
  case (16 l sn l')
  then show ?case by (rule ml_apply_snapshot_ok)
qed (auto simp: ml_inv_def[symmetric] unat_ml_last_index al_last_ml_abs ml_last_term_abs
    ml_term_at_abs ml_entry_abs ml_entries_range_abs ml_hard_state_def ml_set_hard_state_def
    ml_sync_def ml_snapshot_index_def ml_abs_def ml_inv_def al_wf_def al_last_def split: option.splits)

end
