(* ===== verification/Raft_Rng.thy ===== *)
theory Raft_Rng
  imports Prelude
begin

text \<open>
  The SplitMix64 generator of \<^verbatim>\<open>src/rng.rs\<close>. All its arithmetic is \<open>wrapping_*\<close>,
  which is \<open>+\<close> and \<open>*\<close> on words.
\<close>

record rng =
  rng_state :: u64

definition rng_new :: "u64 \<Rightarrow> rng" where
  "rng_new seed = \<lparr>rng_state = seed\<rparr>"

definition next_u64 :: "rng \<Rightarrow> u64 \<times> rng" where
  "next_u64 r =
     (let s = rng_state r + 0x9E3779B97F4A7C15;
          z1 = (s XOR drop_bit 30 s) * 0xBF58476D1CE4E5B9;
          z2 = (z1 XOR drop_bit 27 z1) * 0x94D049BB133111EB
      in (z2 XOR drop_bit 31 z2, r\<lparr>rng_state := s\<rparr>))"

definition gen_range :: "rng \<Rightarrow> u32 \<Rightarrow> u32 \<Rightarrow> u32 \<times> rng" where
  "gen_range r lo hi =
     (if hi \<le> lo then (lo, r)
      else (let span = (ucast (hi - lo) :: u64) + 1;
                (v, r') = next_u64 r
            in (lo + ucast (v mod span), r')))"

text \<open>The additions of \<open>gen_range\<close> do not overflow: the span fits in 33 bits, and the
  draw is at most \<open>hi - lo\<close>.\<close>

lemma span_value:
  assumes "lo < hi"
  shows "unat ((ucast (hi - lo :: u32) :: u64) + 1) = unat hi - unat lo + 1"
proof -
  have hi: "unat hi < 2 ^ 32" using unsigned_less[of hi] by simp
  then have "take_bit 64 (unat hi - unat lo) = unat hi - unat lo"
    by (intro take_bit_nat_eq_self) simp
  then have "unat (ucast (hi - lo) :: u64) = unat hi - unat lo"
    using assms by (simp add: unsigned_ucast_eq unat_sub less_imp_le)
  with hi show ?thesis by (subst unat_plus_one) auto
qed

lemma gen_range_value:
  assumes "lo < hi"
  shows "unat (fst (gen_range r lo hi))
       = unat lo + unat (fst (next_u64 r)) mod (unat hi - unat lo + 1)"
proof -
  let ?span = "(ucast (hi - lo :: u32) :: u64) + 1"
  let ?d = "fst (next_u64 r) mod ?span"
  have d: "unat ?d = unat (fst (next_u64 r)) mod (unat hi - unat lo + 1)"
    by (simp only: unat_mod_distrib span_value[OF assms])
  then have le: "unat ?d \<le> unat hi - unat lo"
    by (metis Suc_eq_plus1 less_Suc_eq_le mod_less_divisor zero_less_Suc)
  have hi: "unat hi < 2 ^ 32" using unsigned_less[of hi] by simp
  have "unat lo < unat hi" using assms by (simp add: word_less_nat_alt)
  with le hi have "unat (ucast ?d :: u32) = unat ?d"
    by (simp add: unsigned_ucast_eq take_bit_nat_eq_self)
  moreover have "unat lo + unat ?d < 2 ^ 32"
    using le hi \<open>unat lo < unat hi\<close> by linarith
  ultimately have "unat (lo + ucast ?d) = unat lo + unat ?d"
    by (simp add: unat_word_ariths)
  with d show ?thesis
    using assms by (simp add: gen_range_def Let_def not_le case_prod_unfold)
qed

lemma gen_range_bounds:
  "lo \<le> hi \<Longrightarrow> lo \<le> fst (gen_range r lo hi) \<and> fst (gen_range r lo hi) \<le> hi"
proof (cases "lo < hi")
  case True
  then have "unat (fst (next_u64 r)) mod (unat hi - unat lo + 1) \<le> unat hi - unat lo"
    by (metis Suc_eq_plus1 less_Suc_eq_le mod_less_divisor zero_less_Suc)
  moreover have "unat lo < unat hi" using True by (simp add: word_less_nat_alt)
  ultimately show ?thesis
    unfolding word_le_nat_alt gen_range_value[OF True] by linarith
next
  case False
  then show "lo \<le> hi \<Longrightarrow> ?thesis" by (simp add: gen_range_def)
qed

lemma gen_range_degenerate: "hi \<le> lo \<Longrightarrow> gen_range r lo hi = (lo, r)"
  by (simp add: gen_range_def)

end
