(* ===== verification/Raft_Config.thy ===== *)
theory Raft_Config
  imports Raft_Types
begin

text \<open>
  The node configuration of \<^verbatim>\<open>src/config.rs\<close>: the constructors, the builder methods with
  their normalisation, and the well-formedness every configuration built through them has.
  A \<open>usize\<close> is 64 bits wide.
\<close>

record raft_config =
  cfg_id :: node_id
  cfg_peers :: "node_id list"
  cfg_election_timeout_min :: u32
  cfg_election_timeout_max :: u32
  cfg_heartbeat_interval :: u32
  cfg_max_batch :: u64
  cfg_snapshot_threshold :: u64
  cfg_seed :: u64

definition config_new :: "node_id \<Rightarrow> node_id list \<Rightarrow> raft_config" where
  "config_new i peers =
     \<lparr>cfg_id = i, cfg_peers = filter (\<lambda>p. p \<noteq> i) peers,
      cfg_election_timeout_min = 10, cfg_election_timeout_max = 20,
      cfg_heartbeat_interval = 3, cfg_max_batch = 64, cfg_snapshot_threshold = 0,
      cfg_seed = i\<rparr>"

definition config_single :: "node_id \<Rightarrow> raft_config" where
  "config_single i = config_new i []"

definition with_election_timeout :: "u32 \<Rightarrow> u32 \<Rightarrow> raft_config \<Rightarrow> raft_config" where
  "with_election_timeout lo hi c =
     (let lo' = max lo 1
      in c\<lparr>cfg_election_timeout_min := lo', cfg_election_timeout_max := max hi lo'\<rparr>)"

definition with_heartbeat_interval :: "u32 \<Rightarrow> raft_config \<Rightarrow> raft_config" where
  "with_heartbeat_interval iv c = c\<lparr>cfg_heartbeat_interval := max iv 1\<rparr>"

definition with_max_batch :: "u64 \<Rightarrow> raft_config \<Rightarrow> raft_config" where
  "with_max_batch b c = c\<lparr>cfg_max_batch := max b 1\<rparr>"

definition with_snapshot_threshold :: "u64 \<Rightarrow> raft_config \<Rightarrow> raft_config" where
  "with_snapshot_threshold t c = c\<lparr>cfg_snapshot_threshold := t\<rparr>"

definition with_seed :: "u64 \<Rightarrow> raft_config \<Rightarrow> raft_config" where
  "with_seed s c = c\<lparr>cfg_seed := s\<rparr>"

text \<open>The read accessors.\<close>

definition config_id :: "raft_config \<Rightarrow> node_id" where
  "config_id c = cfg_id c"

definition config_peers :: "raft_config \<Rightarrow> node_id list" where
  "config_peers c = cfg_peers c"

definition config_election_timeout :: "raft_config \<Rightarrow> u32 \<times> u32" where
  "config_election_timeout c = (cfg_election_timeout_min c, cfg_election_timeout_max c)"

definition config_heartbeat_interval :: "raft_config \<Rightarrow> u32" where
  "config_heartbeat_interval c = cfg_heartbeat_interval c"

definition config_max_batch :: "raft_config \<Rightarrow> u64" where
  "config_max_batch c = cfg_max_batch c"

definition config_snapshot_threshold :: "raft_config \<Rightarrow> u64" where
  "config_snapshot_threshold c = cfg_snapshot_threshold c"

definition config_seed :: "raft_config \<Rightarrow> u64" where
  "config_seed c = cfg_seed c"

text \<open>The builder calls a user can chain after \<open>new\<close>.\<close>

datatype builder_call =
    SetElectionTimeout u32 u32
  | SetHeartbeatInterval u32
  | SetMaxBatch u64
  | SetSnapshotThreshold u64
  | SetSeed u64

fun build_step :: "builder_call \<Rightarrow> raft_config \<Rightarrow> raft_config" where
  "build_step (SetElectionTimeout lo hi) = with_election_timeout lo hi"
| "build_step (SetHeartbeatInterval iv) = with_heartbeat_interval iv"
| "build_step (SetMaxBatch b) = with_max_batch b"
| "build_step (SetSnapshotThreshold t) = with_snapshot_threshold t"
| "build_step (SetSeed s) = with_seed s"

text \<open>What the node relies on: timeouts of at least one tick in the right order, a
  heartbeat of at least one tick, batches of at least one entry, and no self among the
  peers.\<close>

definition config_wf :: "raft_config \<Rightarrow> bool" where
  "config_wf c \<longleftrightarrow>
     1 \<le> cfg_election_timeout_min c
   \<and> cfg_election_timeout_min c \<le> cfg_election_timeout_max c
   \<and> 1 \<le> cfg_heartbeat_interval c
   \<and> 1 \<le> cfg_max_batch c
   \<and> cfg_id c \<notin> set (cfg_peers c)"

lemma config_wf_new: "config_wf (config_new i peers)"
  by (simp add: config_wf_def config_new_def)

lemma config_wf_build_step: "config_wf c \<Longrightarrow> config_wf (build_step b c)"
  by (cases b) (auto simp: config_wf_def with_election_timeout_def Let_def
      with_heartbeat_interval_def with_max_batch_def with_snapshot_threshold_def with_seed_def)

lemma config_wf_fold: "config_wf c \<Longrightarrow> config_wf (fold build_step bs c)"
  by (induction bs arbitrary: c) (simp_all add: config_wf_build_step)

lemma build_step_identity:
  "cfg_id (build_step b c) = cfg_id c \<and> cfg_peers (build_step b c) = cfg_peers c"
  by (cases b) (simp_all add: with_election_timeout_def Let_def
      with_heartbeat_interval_def with_max_batch_def with_snapshot_threshold_def with_seed_def)

end
