(* ===== verification/Raft_Messages.thy ===== *)
theory Raft_Messages
  imports Raft_Types
begin

text \<open>
  The RPC structures and the \<open>Message\<close> enum of \<^verbatim>\<open>src/message.rs\<close>. A field is prefixed
  with the initials of its structure, since records share one name space.
\<close>

record request_vote =
  rv_term :: raft_term
  rv_candidate :: node_id
  rv_last_log_index :: raft_index
  rv_last_log_term :: raft_term
  rv_force :: bool

record pre_vote =
  pv_term :: raft_term
  pv_candidate :: node_id
  pv_last_log_index :: raft_index
  pv_last_log_term :: raft_term

record pre_vote_reply =
  pvr_term :: raft_term
  pvr_vote_granted :: bool
  pvr_from :: node_id

record request_vote_reply =
  rvr_term :: raft_term
  rvr_vote_granted :: bool
  rvr_from :: node_id

record append_entries =
  ae_term :: raft_term
  ae_leader :: node_id
  ae_prev_log_index :: raft_index
  ae_prev_log_term :: raft_term
  ae_entries :: "log_entry list"
  ae_leader_commit :: raft_index

record append_entries_reply =
  aer_term :: raft_term
  aer_success :: bool
  aer_from :: node_id
  aer_match_index :: raft_index
  aer_conflict_index :: raft_index
  aer_conflict_term :: raft_term

record install_snapshot =
  ins_term :: raft_term
  ins_leader :: node_id
  ins_snapshot :: snapshot

record install_snapshot_reply =
  insr_term :: raft_term
  insr_from :: node_id
  insr_last_index :: raft_index

record timeout_now =
  tn_term :: raft_term
  tn_leader :: node_id

datatype message =
    PreVote pre_vote
  | PreVoteReply pre_vote_reply
  | RequestVote request_vote
  | RequestVoteReply request_vote_reply
  | AppendEntries append_entries
  | AppendEntriesReply append_entries_reply
  | InstallSnapshot install_snapshot
  | InstallSnapshotReply install_snapshot_reply
  | TimeoutNow timeout_now

fun message_term :: "message \<Rightarrow> raft_term" where
  "message_term (PreVote m) = pv_term m"
| "message_term (PreVoteReply m) = pvr_term m"
| "message_term (RequestVote m) = rv_term m"
| "message_term (RequestVoteReply m) = rvr_term m"
| "message_term (AppendEntries m) = ae_term m"
| "message_term (AppendEntriesReply m) = aer_term m"
| "message_term (InstallSnapshot m) = ins_term m"
| "message_term (InstallSnapshotReply m) = insr_term m"
| "message_term (TimeoutNow m) = tn_term m"

end
