(* ===== verification/Node_State.thy ===== *)
theory Node_State
  imports Raft_Log Raft_Rng Raft_Config Raft_Messages
begin

text \<open>
  The state of a \<open>RaftNode\<close> (\<^verbatim>\<open>src/node.rs\<close>), the events it takes and the actions it
  returns, its construction over a recovered log, and the configuration helpers. The
  node is the default instance \<open>RaftNode<MemoryLog>\<close>.
\<close>

definition sorted_members :: "node_id list \<Rightarrow> node_id list" where
  "sorted_members ids = remdups_adj (sort ids)"

datatype event =
    Tick
  | Message message
  | Propose "byte list"
  | SnapshotEvent raft_index "byte list"
  | AddServer node_id
  | RemoveServer node_id
  | TransferLeadership node_id

datatype action =
    Send node_id message
  | Apply raft_index raft_term "byte list"
  | SnapshotHint raft_index raft_term
  | RestoreSnapshot raft_index raft_term "byte list"
  | MembershipChanged "node_id list"

datatype progress_state = Probe | Replicate

record progress =
  pr_id :: node_id
  pr_next_index :: raft_index
  pr_match_index :: raft_index
  pr_state :: progress_state

record 'l raft_node =
  n_id :: node_id
  n_voters :: "node_id list"
  n_base_config :: "node_id list"
  n_config_index :: raft_index
  n_election_timeout_min :: u32
  n_election_timeout_max :: u32
  n_heartbeat_interval :: u32
  n_max_batch :: u64
  n_snapshot_threshold :: u64
  n_log :: 'l
  n_role :: role
  n_current_term :: raft_term
  n_voted_for :: "node_id option"
  n_leader_id :: "node_id option"
  n_commit_index :: raft_index
  n_last_applied :: raft_index
  n_election_elapsed :: u32
  n_heartbeat_elapsed :: u32
  n_election_timeout :: u32
  n_votes :: "node_id list"
  n_pre_voting :: bool
  n_pre_votes :: "node_id list"
  n_progress :: "progress list"
  n_snapshot_hinted_at :: raft_index
  n_transfer_target :: "node_id option"
  n_rng :: rng

type_synonym node = "memory_log raft_node"

text \<open>A method that pushes into \<open>actions: &mut Vec<Action>\<close> takes the actions so far
  and returns them extended. One that can fail also returns its result.\<close>

type_synonym 'l ctx_of = "'l raft_node \<times> action list"
type_synonym ctx = "memory_log ctx_of"
type_synonym ('l, 'a) fallible_of = "'l ctx_of \<times> (rerror + 'a)"
type_synonym 'a fallible = "(memory_log, 'a) fallible_of"

text \<open>A log call inside a node method: the node keeps the log the call left behind.\<close>

definition log_op :: "'l raft_node \<Rightarrow> 'l \<times> (rerror + 'a) \<Rightarrow> 'l raft_node \<times> (rerror + 'a)" where
  "log_op n m = (case m of (l, r) \<Rightarrow> (n\<lparr>n_log := l\<rparr>, r))"

definition with_acts :: "action list \<Rightarrow> 'l raft_node \<times> (rerror + 'a) \<Rightarrow> ('l, 'a) fallible_of" where
  "with_acts acts m = (case m of (n, r) \<Rightarrow> ((n, acts), r))"

lemma log_op_pair [simp]: "log_op n (l, r) = (n\<lparr>n_log := l\<rparr>, r)"
  by (simp add: log_op_def)

lemma with_acts_pair [simp]: "with_acts acts (n, r) = ((n, acts), r)"
  by (simp add: with_acts_def)

subsection \<open>Construction\<close>

text \<open>The downward scan for the latest configuration entry above \<open>base\<close>, which
  \<open>with_log\<close>, \<open>refresh_config\<close> and \<open>config_at\<close> all perform.\<close>

function latest_config ::
  "memory_log \<Rightarrow> raft_index \<Rightarrow> raft_index \<Rightarrow> (node_id list \<times> raft_index) option" where
  "latest_config l base i =
     (if base < i
      then (case Option.bind (ml_entry l i) members of
              Some ms \<Rightarrow> Some (ms, i)
            | None \<Rightarrow> latest_config l base (i - 1))
      else None)"
  by pat_completeness auto
termination
  by (relation "measure (\<lambda>(l, base, i). unat i)") (auto simp: unat_minus_one_less)

declare latest_config.simps [simp del]

definition node_with_log :: "raft_config \<Rightarrow> memory_log \<Rightarrow> node" where
  "node_with_log c l =
     (let hard = ml_hard_state l;
          base = ml_snapshot_index l;
          bootstrap = sorted_members (cfg_peers c @ [cfg_id c]);
          base_config = (case ml_get_snapshot l of
              Some s \<Rightarrow> if sn_config s \<noteq> [] then sn_config s else bootstrap
            | None \<Rightarrow> bootstrap);
          (voters, config_index) = (case latest_config l base (ml_last_index l) of
              Some (ms, i) \<Rightarrow> (ms, i)
            | None \<Rightarrow> (base_config, 0));
          (timeout, r) = gen_range (rng_new (cfg_seed c))
                           (cfg_election_timeout_min c) (cfg_election_timeout_max c)
      in \<lparr>n_id = cfg_id c, n_voters = voters, n_base_config = base_config,
          n_config_index = config_index,
          n_election_timeout_min = cfg_election_timeout_min c,
          n_election_timeout_max = cfg_election_timeout_max c,
          n_heartbeat_interval = cfg_heartbeat_interval c,
          n_max_batch = cfg_max_batch c,
          n_snapshot_threshold = cfg_snapshot_threshold c,
          n_log = l, n_role = Follower,
          n_current_term = hs_term hard, n_voted_for = hs_voted_for hard,
          n_leader_id = None, n_commit_index = base, n_last_applied = base,
          n_election_elapsed = 0, n_heartbeat_elapsed = 0, n_election_timeout = timeout,
          n_votes = [], n_pre_voting = False, n_pre_votes = [], n_progress = [],
          n_snapshot_hinted_at = base, n_transfer_target = None, n_rng = r\<rparr>)"

definition node_new :: "raft_config \<Rightarrow> node" where
  "node_new c = node_with_log c ml_new"

subsection \<open>Configuration\<close>

definition is_leader :: "'l raft_node \<Rightarrow> bool" where
  "is_leader n \<longleftrightarrow> n_role n = Leader"

text \<open>The other read accessors.\<close>

definition get_id :: "'l raft_node \<Rightarrow> node_id" where
  "get_id n = n_id n"

definition get_role :: "'l raft_node \<Rightarrow> role" where
  "get_role n = n_role n"

definition get_term :: "'l raft_node \<Rightarrow> raft_term" where
  "get_term n = n_current_term n"

definition get_leader :: "'l raft_node \<Rightarrow> node_id option" where
  "get_leader n = n_leader_id n"

definition get_commit_index :: "'l raft_node \<Rightarrow> raft_index" where
  "get_commit_index n = n_commit_index n"

definition get_last_applied :: "'l raft_node \<Rightarrow> raft_index" where
  "get_last_applied n = n_last_applied n"

definition get_log :: "'l raft_node \<Rightarrow> 'l" where
  "get_log n = n_log n"

definition get_members :: "'l raft_node \<Rightarrow> node_id list" where
  "get_members n = n_voters n"

definition quorum :: "'l raft_node \<Rightarrow> nat" where
  "quorum n = length (n_voters n) div 2 + 1"

definition is_voter :: "'l raft_node \<Rightarrow> bool" where
  "is_voter n \<longleftrightarrow> n_id n \<in> set (n_voters n)"

definition rebuild_progress :: "node \<Rightarrow> node" where
  "rebuild_progress n =
     (let next = ml_last_index (n_log n) + 1;
          old = n_progress n
      in n\<lparr>n_progress :=
           map (\<lambda>i. case find (\<lambda>p. pr_id p = i) old of
                      Some p \<Rightarrow> p
                    | None \<Rightarrow> \<lparr>pr_id = i, pr_next_index = next, pr_match_index = 0,
                                pr_state = Probe\<rparr>)
               (filter (\<lambda>i. i \<noteq> n_id n) (n_voters n))\<rparr>)"

definition set_config :: "node \<Rightarrow> node_id list \<Rightarrow> raft_index \<Rightarrow> action list \<Rightarrow> ctx" where
  "set_config n voters config_index acts =
     (let changed = (voters \<noteq> n_voters n);
          n1 = n\<lparr>n_voters := voters, n_config_index := config_index\<rparr>;
          n2 = (if n_role n1 = Leader then rebuild_progress n1 else n1)
      in (n2, if changed then acts @ [MembershipChanged (n_voters n2)] else acts))"

definition refresh_config :: "node \<Rightarrow> action list \<Rightarrow> ctx" where
  "refresh_config n acts =
     (case latest_config (n_log n) (ml_snapshot_index (n_log n)) (ml_last_index (n_log n)) of
        Some (voters, config_index) \<Rightarrow> set_config n voters config_index acts
      | None \<Rightarrow> set_config n (n_base_config n) 0 acts)"

definition progress_index :: "'l raft_node \<Rightarrow> node_id \<Rightarrow> nat option" where
  "progress_index n i = position (\<lambda>p. pr_id p = i) (n_progress n)"

definition config_at :: "node \<Rightarrow> raft_index \<Rightarrow> node_id list" where
  "config_at n i =
     (case latest_config (n_log n) (ml_snapshot_index (n_log n))
             (min i (ml_last_index (n_log n))) of
        Some (ms, _) \<Rightarrow> ms
      | None \<Rightarrow> n_base_config n)"

subsection \<open>Timer and hard state\<close>

definition persist_hard_state :: "node \<Rightarrow> node \<times> (rerror + unit)" where
  "persist_hard_state n =
     and_then (log_op n (ml_set_hard_state (n_log n)
                 \<lparr>hs_term = n_current_term n, hs_voted_for = n_voted_for n\<rparr>))
       (\<lambda>n _. log_op n (ml_sync (n_log n)))"

definition reset_election_timer :: "'l raft_node \<Rightarrow> 'l raft_node" where
  "reset_election_timer n =
     (let (t, r) = gen_range (n_rng n) (n_election_timeout_min n) (n_election_timeout_max n)
      in n\<lparr>n_election_elapsed := 0, n_election_timeout := t, n_rng := r\<rparr>)"

text \<open>With the in-memory log the two calls of \<open>persist_hard_state\<close> do not fail.\<close>

lemma persist_hard_state_eq:
  "persist_hard_state n =
     (n\<lparr>n_log := (n_log n)\<lparr>ml_hard := \<lparr>hs_term = n_current_term n,
                                     hs_voted_for = n_voted_for n\<rparr>\<rparr>\<rparr>, Inr ())"
  by (simp add: persist_hard_state_def ml_set_hard_state_def ml_sync_def)

end
