(* ===== verification/Quorum.thy ===== *)
theory Quorum
  imports Node_State
begin

text \<open>
  Majorities. \<open>quorum\<close> of \<^verbatim>\<open>src/node.rs\<close> is \<open>voters.len() / 2 + 1\<close>; what the protocol
  relies on is that two sets of that size share a member, within one configuration and
  across a change of one server. The locales state what an election needs of a notion of
  quorum; the majorities of a voter list interpret them.
\<close>

text \<open>Two families of quorums, each of the first meeting each of the second.\<close>

locale overlapping =
  fixes qa :: "'n set \<Rightarrow> bool" and qb :: "'n set \<Rightarrow> bool"
  assumes overlap: "qa A \<Longrightarrow> qb B \<Longrightarrow> A \<inter> B \<noteq> {}"
begin

text \<open>When every member votes for one candidate at most, a quorum for one candidate and a
  quorum for another are for the same candidate.\<close>

lemma one_winner:
  assumes "qa A" "qb B"
    and "\<And>i. i \<in> A \<Longrightarrow> voted i k" and "\<And>i. i \<in> B \<Longrightarrow> voted i k'"
    and "\<And>i a b. voted i a \<Longrightarrow> voted i b \<Longrightarrow> a = b"
  shows "k = k'"
  using overlap[OF assms(1,2)] assms(3-5) by blast

lemma not_disjoint: "qa A \<Longrightarrow> qb B \<Longrightarrow> A \<subseteq> - B \<Longrightarrow> False"
  using overlap by blast

end

locale quorum_system = overlapping q q for q :: "'n set \<Rightarrow> bool"
begin

lemma quorum_nonempty: "q A \<Longrightarrow> A \<noteq> {}"
  using overlap by blast

end

definition majority :: "node_id list \<Rightarrow> node_id set \<Rightarrow> bool" where
  "majority vs Q \<longleftrightarrow> Q \<subseteq> set vs \<and> length vs div 2 + 1 \<le> card Q"

lemma majority_card: "majority vs Q \<Longrightarrow> distinct vs \<Longrightarrow> card (set vs) < 2 * card Q"
  by (auto simp: majority_def distinct_card)

lemma overlap_by_card:
  assumes "A \<subseteq> U" "B \<subseteq> U" "finite U" "card U < card A + card B"
  shows "A \<inter> B \<noteq> {}"
proof
  assume "A \<inter> B = {}"
  then have "card A + card B = card (A \<union> B)"
    using assms(1-3) by (intro card_Un_disjoint[symmetric]) (auto intro: finite_subset)
  also have "\<dots> \<le> card U" using assms(1-3) by (intro card_mono) auto
  finally show False using assms(4) by simp
qed

lemma majority_length: "majority vs Q \<Longrightarrow> length vs < 2 * card Q"
  by (auto simp: majority_def)

lemma majorities_overlap: "majority vs A \<Longrightarrow> majority vs B \<Longrightarrow> A \<inter> B \<noteq> {}"
  using majority_length[of vs A] majority_length[of vs B] card_length[of vs]
  by (intro overlap_by_card[of _ "set vs"]) (auto simp: majority_def)

interpretation maj: quorum_system "majority vs" for vs
  by unfold_locales (rule majorities_overlap)

subsection \<open>Adding or removing one server\<close>

text \<open>The configurations one membership change leads between.\<close>

definition one_apart :: "node_id list \<Rightarrow> node_id list \<Rightarrow> bool" where
  "one_apart vs vs' \<longleftrightarrow>
     distinct vs \<and> distinct vs' \<and> (\<exists>i. set vs' = insert i (set vs) \<or> set vs = insert i (set vs'))"

lemma one_apart_overlap:
  assumes "one_apart vs vs'" "majority vs A" "majority vs' B"
  shows "A \<inter> B \<noteq> {}"
proof -
  have len: "length vs = card (set vs)" "length vs' = card (set vs')"
    using assms(1) by (auto simp: one_apart_def distinct_card)
  have qa: "card (set vs) div 2 + 1 \<le> card A" and qb: "card (set vs') div 2 + 1 \<le> card B"
    using assms(2,3) len by (auto simp: majority_def)
  from assms(1) obtain i where
    "set vs' = insert i (set vs) \<or> set vs = insert i (set vs')" by (auto simp: one_apart_def)
  then show ?thesis
  proof
    assume sub: "set vs' = insert i (set vs)"
    then have "card (set vs') \<le> card (set vs) + 1" by (simp add: card_insert_if)
    moreover have "card (set vs) \<le> card (set vs')" using sub by (simp add: card_insert_if)
    ultimately have "card (set vs') < card A + card B" using qa qb by linarith
    with sub assms(2,3) show ?thesis
      by (intro overlap_by_card[of _ "set vs'"]) (auto simp: majority_def)
  next
    assume sub: "set vs = insert i (set vs')"
    then have "card (set vs) \<le> card (set vs') + 1" by (simp add: card_insert_if)
    moreover have "card (set vs') \<le> card (set vs)" using sub by (simp add: card_insert_if)
    ultimately have "card (set vs) < card A + card B" using qa qb by linarith
    with sub assms(2,3) show ?thesis
      by (intro overlap_by_card[of _ "set vs"]) (auto simp: majority_def)
  qed
qed

interpretation adjacent: overlapping "\<lambda>A. one_apart vs vs' \<and> majority vs A" "majority vs'" for vs vs'
  by unfold_locales (auto dest: one_apart_overlap)

subsection \<open>The configuration vector\<close>

lemma remdups_adj_strict: "sorted xs \<Longrightarrow> sorted_wrt (<) (remdups_adj (xs :: u64 list))"
  by (induction xs rule: remdups_adj.induct) (auto simp: less_le)

lemma sorted_members_strict: "sorted_wrt (<) (sorted_members ids)"
  unfolding sorted_members_def by (rule remdups_adj_strict) simp

lemma sorted_members_distinct: "distinct (sorted_members ids)"
  using sorted_members_strict[of ids] by (simp add: strict_sorted_iff)

text \<open>Two nodes that agree on the membership as a set store the same vector.\<close>

lemma sorted_members_cong: "set xs = set ys \<Longrightarrow> sorted_members xs = sorted_members ys"
  by (rule strict_sorted_equal[OF sorted_members_strict sorted_members_strict])
     (simp add: sorted_members_def)

lemma set_sorted_members [simp]: "set (sorted_members ids) = set ids"
  by (simp add: sorted_members_def)

end
