(* ===== verification/Ledger.thy ===== *)
theory Ledger
  imports Quorum
begin

text \<open>
  The protocol behind \<^verbatim>\<open>src/node.rs\<close>, without messages, timers or compaction: per node a
  term, a role and a full log (position \<open>k\<close> holds the entry of index \<open>k\<close>), and as history the
  votes cast, the log every candidate stood with, the log of every elected leader (the
  \<^emph>\<open>ledger\<close> of its term), and how much of a ledger each node has stored while in that term.
  The steps are those a node may take; the theories \<^verbatim>\<open>Raft_Protocol\<close> and
  \<^verbatim>\<open>Protocol_Refinement\<close> prove its invariant and that the code refines it.
\<close>

record spec =
  s_term :: "node_id \<Rightarrow> raft_term"
  s_role :: "node_id \<Rightarrow> role"
  s_log :: "node_id \<Rightarrow> log_entry list"
  s_votes :: "(raft_term \<times> node_id \<times> node_id) set"
  s_cand :: "raft_term \<Rightarrow> node_id \<Rightarrow> log_entry list option"
  s_ledger :: "raft_term \<Rightarrow> log_entry list option"
  s_acks :: "raft_term \<Rightarrow> node_id \<Rightarrow> nat"

definition spec_init :: spec where
  "spec_init = \<lparr>s_term = (\<lambda>_. 0), s_role = (\<lambda>_. Follower), s_log = (\<lambda>_. []), s_votes = {},
     s_cand = (\<lambda>_ _. None), s_ledger = (\<lambda>_. None), s_acks = (\<lambda>_ _. 0)\<rparr>"

text \<open>The term at a position; position 0 is the sentinel.\<close>

definition term_of :: "log_entry list \<Rightarrow> nat \<Rightarrow> raft_term" where
  "term_of xs k = (if k = 0 then 0 else le_term (xs ! (k - 1)))"

definition last_term :: "log_entry list \<Rightarrow> raft_term" where
  "last_term xs = term_of xs (length xs)"

definition up_to_date :: "log_entry list \<Rightarrow> log_entry list \<Rightarrow> bool" where
  "up_to_date mine theirs \<longleftrightarrow> last_term mine < last_term theirs
     \<or> last_term mine = last_term theirs \<and> length mine \<le> length theirs"

text \<open>What a node may take over from the ledger \<open>L\<close>: nothing, or a prefix of it that
  drops no entry the node already shares with it.\<close>

definition takes_over :: "log_entry list \<Rightarrow> log_entry list \<Rightarrow> log_entry list \<Rightarrow> bool" where
  "takes_over L xs ys \<longleftrightarrow> ys = xs \<or> (\<exists>m \<le> length L. ys = take m L
     \<and> (\<forall>k. k \<le> length xs \<longrightarrow> k \<le> length L \<longrightarrow> take k xs = take k L \<longrightarrow> k \<le> m))"

inductive spec_step :: "(node_id set \<Rightarrow> bool) \<Rightarrow> node_id \<Rightarrow> spec \<Rightarrow> spec \<Rightarrow> bool"
  for q :: "node_id set \<Rightarrow> bool" and i :: node_id where
  follow: "s_term s i \<le> t \<Longrightarrow>
     spec_step q i s (s\<lparr>s_term := (s_term s)(i := t), s_role := (s_role s)(i := Follower)\<rparr>)"
| stand: "s_term s i < t \<Longrightarrow>
     spec_step q i s (s\<lparr>s_term := (s_term s)(i := t), s_role := (s_role s)(i := Candidate),
        s_votes := insert (t, i, i) (s_votes s),
        s_cand := (s_cand s)(t := (s_cand s t)(i := Some (s_log s i)))\<rparr>)"
| vote: "s_cand s (s_term s i) k = Some xs \<Longrightarrow> up_to_date (s_log s i) xs \<Longrightarrow>
     (\<And>k'. (s_term s i, i, k') \<in> s_votes s \<Longrightarrow> k' = k) \<Longrightarrow>
     spec_step q i s (s\<lparr>s_votes := insert (s_term s i, i, k) (s_votes s)\<rparr>)"
| lead: "s_role s i = Candidate \<Longrightarrow> q Q \<Longrightarrow> (\<And>j. j \<in> Q \<Longrightarrow> (s_term s i, j, i) \<in> s_votes s) \<Longrightarrow>
     spec_step q i s (s\<lparr>s_role := (s_role s)(i := Leader),
        s_ledger := (s_ledger s)(s_term s i \<mapsto> s_log s i),
        s_acks := (s_acks s)(s_term s i := (s_acks s (s_term s i))(i := length (s_log s i)))\<rparr>)"
| append: "s_role s i = Leader \<Longrightarrow> le_term e = s_term s i \<Longrightarrow>
     unat (le_index e) = length (s_log s i) + 1 \<Longrightarrow>
     spec_step q i s (s\<lparr>s_log := (s_log s)(i := s_log s i @ [e]),
        s_ledger := (s_ledger s)(s_term s i \<mapsto> s_log s i @ [e]),
        s_acks := (s_acks s)(s_term s i := (s_acks s (s_term s i))(i := length (s_log s i) + 1))\<rparr>)"
| accept: "s_role s i = Follower \<Longrightarrow> s_ledger s (s_term s i) = Some L \<Longrightarrow>
     takes_over L (s_log s i) ys \<Longrightarrow> m \<le> length L \<Longrightarrow> m \<le> length ys \<Longrightarrow> take m ys = take m L \<Longrightarrow>
     spec_step q i s (s\<lparr>s_log := (s_log s)(i := ys),
        s_acks := (s_acks s)(s_term s i := (s_acks s (s_term s i))(i := max (s_acks s (s_term s i) i) m))\<rparr>)"

subsection \<open>Logs made of ledgers\<close>

text \<open>Every prefix that ends in an entry of term \<open>t\<close> is a prefix of the ledger of \<open>t\<close>.\<close>

definition grounded :: "(raft_term \<Rightarrow> log_entry list option) \<Rightarrow> log_entry list \<Rightarrow> bool" where
  "grounded lg xs \<longleftrightarrow> (\<forall>k. 0 < k \<and> k \<le> length xs \<longrightarrow>
     (\<exists>L. lg (term_of xs k) = Some L \<and> take k L = take k xs))"

definition ledgers_wf :: "(raft_term \<Rightarrow> log_entry list option) \<Rightarrow> bool" where
  "ledgers_wf lg \<longleftrightarrow> (\<forall>t L. lg t = Some L \<longrightarrow> grounded lg L \<and> indexed_from 0 L
     \<and> sorted (map le_term L) \<and> (\<forall>e \<in> set L. 0 < le_term e \<and> le_term e \<le> t))"

lemma term_of_0 [simp]: "term_of xs 0 = 0"
  by (simp add: term_of_def)

lemma term_of_take [simp]: "k \<le> m \<Longrightarrow> term_of (take m xs) k = term_of xs k"
  by (simp add: term_of_def)

lemma term_of_append [simp]: "k \<le> length xs \<Longrightarrow> term_of (xs @ ys) k = term_of xs k"
  by (auto simp: term_of_def nth_append)

lemma term_of_in: "0 < k \<Longrightarrow> k \<le> length xs \<Longrightarrow> \<exists>e \<in> set xs. term_of xs k = le_term e"
  by (auto simp: term_of_def intro!: bexI[of _ "xs ! (k - 1)"])

lemma term_of_cong: "take m xs = take m ys \<Longrightarrow> k \<le> m \<Longrightarrow> term_of xs k = term_of ys k"
  by (metis term_of_take)

lemma take_shorter: "take k xs = take k ys \<Longrightarrow> m \<le> k \<Longrightarrow> take m xs = take m ys"
  by (metis min.absorb1 take_take)

lemma take_length_le: "take k xs = take k ys \<Longrightarrow> k \<le> length xs \<Longrightarrow> k \<le> length ys"
  by (metis length_take min.absorb2 min.bounded_iff nle_le)

lemma grounded_Nil [simp]: "grounded lg []"
  by (simp add: grounded_def)

lemma grounded_take: "grounded lg xs \<Longrightarrow> grounded lg (take m xs)"
  by (auto simp: grounded_def min.absorb1)

lemma groundedD:
  "grounded lg xs \<Longrightarrow> 0 < k \<Longrightarrow> k \<le> length xs \<Longrightarrow> lg (term_of xs k) = Some L \<Longrightarrow> take k L = take k xs"
  by (auto simp: grounded_def)

text \<open>Log matching: logs that agree on the term of a position agree up to it.\<close>

lemma grounded_match:
  assumes "grounded lg xs" "grounded lg ys" "k \<le> length xs" "k \<le> length ys"
    "term_of xs k = term_of ys k"
  shows "take k xs = take k ys"
proof (cases "k = 0")
  case False
  with assms(1,3) obtain L where "lg (term_of xs k) = Some L" "take k L = take k xs"
    by (auto simp: grounded_def)
  with groundedD[OF assms(2), of k L] False assms(4,5) show ?thesis by simp
qed simp

lemma grounded_last:
  assumes "grounded lg xs" "xs \<noteq> []"
  obtains L where "lg (last_term xs) = Some L" "xs = take (length xs) L"
  using assms unfolding grounded_def last_term_def by (metis le_refl length_greater_0_conv take_all)

lemma ledgers_wfD:
  assumes "ledgers_wf lg" "lg t = Some L"
  shows "grounded lg L" "indexed_from 0 L" "sorted (map le_term L)"
    and "e \<in> set L \<Longrightarrow> 0 < le_term e" "e \<in> set L \<Longrightarrow> le_term e \<le> t"
  using assms by (auto simp: ledgers_wf_def)

lemma sorted_term_of:
  "sorted (map le_term xs) \<Longrightarrow> 0 < k \<Longrightarrow> k \<le> m \<Longrightarrow> m \<le> length xs \<Longrightarrow> term_of xs k \<le> term_of xs m"
  by (auto simp: term_of_def sorted_iff_nth_mono)

lemma grounded_wf:
  assumes "ledgers_wf lg" "grounded lg xs"
  shows "indexed_from 0 xs" "sorted (map le_term xs)" "e \<in> set xs \<Longrightarrow> 0 < le_term e"
proof -
  have "indexed_from 0 xs \<and> sorted (map le_term xs) \<and> (\<forall>e \<in> set xs. 0 < le_term e)"
  proof (cases "xs = []")
    case False
    then obtain L where L: "lg (last_term xs) = Some L" "xs = take (length xs) L"
      using grounded_last[OF assms(2)] by metis
    note wf = ledgers_wfD[OF assms(1) L(1)]
    have "sorted (map le_term (take (length xs) L))" 
      using wf(3) by (simp add: take_map[symmetric] sorted_wrt_take)
    moreover have "indexed_from 0 (take (length xs) L)" using wf(2) by (rule indexed_from_take)
    ultimately show ?thesis using wf(4) L(2) by (metis in_set_takeD)
  qed simp
  then show "indexed_from 0 xs" "sorted (map le_term xs)" "e \<in> set xs \<Longrightarrow> 0 < le_term e" by auto
qed

subsection \<open>Chosen entries\<close>

text \<open>The entry of term \<open>t\<close> at position \<open>k\<close> of the ledger of \<open>t\<close> is chosen when a quorum has
  stored the ledger that far in term \<open>t\<close>, and may still be chosen when a quorum has, or has
  not yet left the term.\<close>

definition own_entry :: "spec \<Rightarrow> raft_term \<Rightarrow> nat \<Rightarrow> bool" where
  "own_entry s t k \<longleftrightarrow> (\<exists>L. s_ledger s t = Some L \<and> 0 < k \<and> k \<le> length L \<and> term_of L k = t)"

definition chosen :: "(node_id set \<Rightarrow> bool) \<Rightarrow> spec \<Rightarrow> raft_term \<Rightarrow> nat \<Rightarrow> bool" where
  "chosen q s t k \<longleftrightarrow> own_entry s t k \<and> (\<exists>Q. q Q \<and> (\<forall>j \<in> Q. k \<le> s_acks s t j))"

definition choosable :: "(node_id set \<Rightarrow> bool) \<Rightarrow> spec \<Rightarrow> raft_term \<Rightarrow> nat \<Rightarrow> bool" where
  "choosable q s t k \<longleftrightarrow> own_entry s t k
     \<and> (\<exists>Q. q Q \<and> (\<forall>j \<in> Q. k \<le> s_acks s t j \<or> s_term s j \<le> t))"

text \<open>\<open>decided q s t xs\<close>: \<open>xs\<close> is a prefix of the log up to an entry chosen in term \<open>t\<close> or
  earlier. \<open>covers q s j D xs\<close>: \<open>xs\<close> has every entry of the terms \<open>D\<close> that \<open>j\<close> has stored
  and that may still be chosen.\<close>

definition decided :: "(node_id set \<Rightarrow> bool) \<Rightarrow> spec \<Rightarrow> raft_term \<Rightarrow> log_entry list \<Rightarrow> bool" where
  "decided q s t xs \<longleftrightarrow> xs = [] \<or> (\<exists>t1 k1 L. t1 \<le> t \<and> chosen q s t1 k1 \<and> s_ledger s t1 = Some L
     \<and> length xs \<le> k1 \<and> xs = take (length xs) L)"

definition covers ::
  "(node_id set \<Rightarrow> bool) \<Rightarrow> spec \<Rightarrow> node_id \<Rightarrow> raft_term set \<Rightarrow> log_entry list \<Rightarrow> bool" where
  "covers q s j D xs \<longleftrightarrow> (\<forall>t \<in> D. \<forall>k L. s_ledger s t = Some L \<longrightarrow> choosable q s t k \<longrightarrow>
     k \<le> s_acks s t j \<longrightarrow> take k xs = take k L)"

definition leader_complete :: "(node_id set \<Rightarrow> bool) \<Rightarrow> spec \<Rightarrow> bool" where
  "leader_complete q s \<longleftrightarrow> (\<forall>t t' k L L'. s_ledger s t = Some L \<longrightarrow> s_ledger s t' = Some L' \<longrightarrow>
     t < t' \<longrightarrow> choosable q s t k \<longrightarrow> take k L' = take k L)"

lemma chosen_choosable: "chosen q s t k \<Longrightarrow> choosable q s t k"
  by (auto simp: chosen_def choosable_def)

lemma own_entryD: "own_entry s t k \<Longrightarrow> s_ledger s t = Some L \<Longrightarrow> 0 < k \<and> k \<le> length L \<and> term_of L k = t"
  by (auto simp: own_entry_def)

lemma choosableD: "choosable q s t k \<Longrightarrow> s_ledger s t = Some L \<Longrightarrow> 0 < k \<and> k \<le> length L \<and> term_of L k = t"
  by (auto simp: choosable_def dest: own_entryD)

lemma leader_completeD:
  "leader_complete q s \<Longrightarrow> s_ledger s t = Some L \<Longrightarrow> s_ledger s t' = Some L' \<Longrightarrow> t \<le> t' \<Longrightarrow>
   choosable q s t k \<Longrightarrow> take k L' = take k L \<and> k \<le> length L'"
proof -
  assume lc: "leader_complete q s" and L: "s_ledger s t = Some L" "s_ledger s t' = Some L'"
    and t: "t \<le> t'" and c: "choosable q s t k"
  have "take k L' = take k L"
  proof (cases "t = t'")
    case True
    with L show ?thesis by simp
  next
    case False
    with lc L t c show ?thesis unfolding leader_complete_def by (metis order_le_neq_trans)
  qed
  with choosableD[OF c L(1)] show ?thesis using take_length_le by metis
qed

text \<open>A decided prefix is a prefix of every ledger of the term or later.\<close>

lemma decided_ledger:
  assumes "leader_complete q s" "decided q s t xs" "t \<le> t'" "s_ledger s t' = Some L"
  shows "xs = take (length xs) L" "length xs \<le> length L"
proof -
  have "xs = take (length xs) L \<and> length xs \<le> length L"
    using assms(2) unfolding decided_def
  proof (elim disjE exE conjE)
    fix t1 k1 L1
    assume a: "t1 \<le> t" "chosen q s t1 k1" "s_ledger s t1 = Some L1" "length xs \<le> k1"
      "xs = take (length xs) L1"
    have "take k1 L = take k1 L1 \<and> k1 \<le> length L"
      using leader_completeD[OF assms(1) a(3) assms(4) _ chosen_choosable[OF a(2)]] a(1) assms(3)
      by simp
    with a(4,5) show ?thesis by (metis take_shorter order_trans)
  qed simp
  then show "xs = take (length xs) L" "length xs \<le> length L" by auto
qed

lemma decided_take: "decided q s t xs \<Longrightarrow> decided q s t (take m xs)"
  unfolding decided_def
proof (elim disjE exE conjE)
  fix t1 k1 L
  assume a: "t1 \<le> t" "chosen q s t1 k1" "s_ledger s t1 = Some L" "length xs \<le> k1"
    "xs = take (length xs) L"
  have "take m xs = take (length (take m xs)) L"
    by (subst a(5)) (simp add: min.commute)
  moreover have "length (take m xs) \<le> k1" using a(4) by simp
  ultimately show "take m xs = [] \<or> (\<exists>t1 k1 L. t1 \<le> t \<and> chosen q s t1 k1 \<and> s_ledger s t1 = Some L
     \<and> length (take m xs) \<le> k1 \<and> take m xs = take (length (take m xs)) L)"
    using a by blast
qed simp

lemma decided_later: "decided q s t xs \<Longrightarrow> t \<le> t' \<Longrightarrow> decided q s t' xs"
  unfolding decided_def by (meson order_trans)

text \<open>Two decided prefixes are prefixes one of the other.\<close>

lemma decided_agree:
  assumes "leader_complete q s" "decided q s t xs" "decided q s t' ys" "length xs \<le> length ys"
  shows "xs = take (length xs) ys"
proof (cases "xs = [] \<or> ys = []")
  case True
  with assms(4) show ?thesis by auto
next
  case False
  from assms(2) False obtain t1 k1 L1 where 1: "chosen q s t1 k1" "s_ledger s t1 = Some L1"
    "length xs \<le> k1" "xs = take (length xs) L1" by (auto simp: decided_def)
  from assms(3) False obtain t2 k2 L2 where 2: "chosen q s t2 k2" "s_ledger s t2 = Some L2"
    "length ys \<le> k2" "ys = take (length ys) L2" by (auto simp: decided_def)
  have "decided q s t1 xs" "decided q s t2 ys"
    using 1 2 by (auto simp: decided_def)
  then have "t1 \<le> t2 \<Longrightarrow> xs = take (length xs) L2" "t2 \<le> t1 \<Longrightarrow> ys = take (length ys) L1"
    using decided_ledger[OF assms(1)] 1(2) 2(2) by blast+
  with 1(4) 2(4) assms(4) show ?thesis
    by (metis linear min.absorb1 take_take)
qed

subsection \<open>The two quorum arguments\<close>

text \<open>The voter's log decides what its candidate's log has: the candidate is at least as up to
  date, so it has every entry that the voter stored and that may still be chosen.\<close>

lemma covers_up_to_date:
  assumes wf: "ledgers_wf (s_ledger s)" and lc: "leader_complete q s"
    and V: "grounded (s_ledger s) V" and X: "grounded (s_ledger s) X"
    and cov: "covers q s j UNIV V" and up: "up_to_date V X"
  shows "covers q s j D X"
  unfolding covers_def
proof (intro ballI allI impI)
  fix t k L
  assume L: "s_ledger s t = Some L" and c: "choosable q s t k" and k: "k \<le> s_acks s t j"
  from choosableD[OF c L] have own: "0 < k" "k \<le> length L" "term_of L k = t" by auto
  have VL: "take k V = take k L" using cov L c k by (simp add: covers_def)
  have kV: "k \<le> length V" using take_length_le[OF VL[symmetric] own(2)] .
  have tV: "term_of V k = t" using own(3) term_of_cong[OF VL, of k] by simp
  have "t \<le> last_term V"
    using sorted_term_of[OF grounded_wf(2)[OF wf V] own(1) kV] tV by (simp add: last_term_def)
  then have tX: "t \<le> last_term X" using up by (auto simp: up_to_date_def)
  have "X \<noteq> []"
  proof
    assume "X = []"
    then have "last_term X = 0" by (simp add: last_term_def)
    moreover have "0 < t" using term_of_in[OF own(1,2)] own(3) ledgers_wfD(4)[OF wf L] by auto
    ultimately show False using tX by simp
  qed
  then obtain M where M: "s_ledger s (last_term X) = Some M" "X = take (length X) M"
    using grounded_last[OF X] by metis
  show "take k X = take k L"
  proof (cases "last_term X = t")
    case True
    then have "length V \<le> length X" "M = L"
      using up \<open>t \<le> last_term V\<close> M(1) L by (auto simp: up_to_date_def)
    with M(2) kV show ?thesis by (metis min.absorb1 order_trans take_take)
  next
    case False
    with tX have lt: "t < last_term X" by simp
    from leader_completeD[OF lc L M(1) _ c] lt have mono: "take k M = take k L" "k \<le> length M" by auto
    have "k \<le> length X"
    proof (rule ccontr)
      assume "\<not> k \<le> length X"
      then have "take (length X) M = take (length X) L" using take_shorter[OF mono(1)] by simp
      then have "term_of X (length X) = term_of L (length X)" using M(2) by (metis term_of_take order_refl)
      also have "\<dots> \<le> t"
        using sorted_term_of[OF ledgers_wfD(3)[OF wf L], of "length X" k] own \<open>X \<noteq> []\<close>
          \<open>\<not> k \<le> length X\<close> by simp
      finally show False using lt by (simp add: last_term_def)
    qed
    with M(2) mono(1) show ?thesis by (metis min.absorb1 take_take)
  qed
qed

locale protocol = quorum_system q for q :: "node_id set \<Rightarrow> bool"
begin

text \<open>A candidate with the votes of a quorum has every entry that may still be chosen in an
  earlier term.\<close>

lemma elected_complete:
  assumes "q Q" "\<And>j. j \<in> Q \<Longrightarrow> t' \<le> s_term s j" "\<And>j. j \<in> Q \<Longrightarrow> covers q s j {..<t'} X"
    and "t < t'" "s_ledger s t = Some L" "choosable q s t k"
  shows "take k X = take k L"
proof -
  from assms(6) obtain Q' where Q': "q Q'" "\<And>j. j \<in> Q' \<Longrightarrow> k \<le> s_acks s t j \<or> s_term s j \<le> t"
    by (auto simp: choosable_def)
  from overlap[OF assms(1) Q'(1)] obtain j where j: "j \<in> Q" "j \<in> Q'" by auto
  then have "k \<le> s_acks s t j" using Q'(2)[of j] assms(2)[of j] assms(4) by auto
  with assms(3)[OF j(1)] assms(4-6) show ?thesis by (simp add: covers_def)
qed

text \<open>An entry added to a ledger after a later term has been voted for can no longer be chosen.\<close>

lemma not_choosable:
  assumes "q Q" "\<And>j. j \<in> Q \<Longrightarrow> t < s_term s j" "\<And>j. j \<in> Q \<Longrightarrow> s_acks s t j < k"
  shows "\<not> choosable q s t k"
proof
  assume "choosable q s t k"
  then obtain Q' where Q': "q Q'" "\<And>j. j \<in> Q' \<Longrightarrow> k \<le> s_acks s t j \<or> s_term s j \<le> t"
    by (auto simp: choosable_def)
  from overlap[OF assms(1) Q'(1)] obtain j where "j \<in> Q" "j \<in> Q'" by auto
  with Q'(2)[of j] assms(2,3)[of j] show False by auto
qed

end

end
