(* ===== verification/Raft_Protocol.thy ===== *)
theory Raft_Protocol
  imports Ledger
begin

text \<open>
  The invariant of the protocol of \<^verbatim>\<open>Ledger\<close>: log matching, the votes and what they vouch
  for, one ledger per term, and leader completeness. It is proved for any system of
  overlapping quorums, in the locale \<open>protocol\<close>; the majorities of a voter list interpret it.
\<close>

definition elected_by :: "(node_id set \<Rightarrow> bool) \<Rightarrow> spec \<Rightarrow> raft_term \<Rightarrow> node_id \<Rightarrow> bool" where
  "elected_by q s t i \<longleftrightarrow> (\<exists>Q. q Q \<and> (\<forall>j \<in> Q. (t, j, i) \<in> s_votes s))"

definition logs_ok :: "spec \<Rightarrow> bool" where
  "logs_ok s \<longleftrightarrow> (\<forall>i. grounded (s_ledger s) (s_log s i) \<and> (\<forall>e \<in> set (s_log s i). le_term e \<le> s_term s i))"

definition acks_ok :: "spec \<Rightarrow> bool" where
  "acks_ok s \<longleftrightarrow> (\<forall>t j. 0 < s_acks s t j \<longrightarrow> t \<le> s_term s j
     \<and> (\<exists>L. s_ledger s t = Some L \<and> s_acks s t j \<le> length L))"

definition logs_cover :: "(node_id set \<Rightarrow> bool) \<Rightarrow> spec \<Rightarrow> bool" where
  "logs_cover q s \<longleftrightarrow> (\<forall>j. covers q s j UNIV (s_log s j))"

definition votes_ok :: "(node_id set \<Rightarrow> bool) \<Rightarrow> spec \<Rightarrow> bool" where
  "votes_ok q s \<longleftrightarrow> (\<forall>t j k. (t, j, k) \<in> s_votes s \<longrightarrow> t \<le> s_term s j
     \<and> (\<forall>k'. (t, j, k') \<in> s_votes s \<longrightarrow> k' = k)
     \<and> (\<exists>xs. s_cand s t k = Some xs \<and> covers q s j {..<t} xs))"

definition cands_ok :: "spec \<Rightarrow> bool" where
  "cands_ok s \<longleftrightarrow> (\<forall>t i xs. s_cand s t i = Some xs \<longrightarrow> 0 < t \<and> t \<le> s_term s i
       \<and> grounded (s_ledger s) xs \<and> (\<forall>e \<in> set xs. le_term e < t))
     \<and> (\<forall>i. s_role s i = Candidate \<longrightarrow> s_cand s (s_term s i) i = Some (s_log s i))"

definition leaders_ok :: "(node_id set \<Rightarrow> bool) \<Rightarrow> spec \<Rightarrow> bool" where
  "leaders_ok q s \<longleftrightarrow> (\<forall>t L. s_ledger s t = Some L \<longrightarrow>
       (\<exists>i. elected_by q s t i \<and> (t = s_term s i \<longrightarrow> s_role s i \<noteq> Candidate)))
     \<and> (\<forall>i. s_role s i = Leader \<longrightarrow> elected_by q s (s_term s i) i
         \<and> s_ledger s (s_term s i) = Some (s_log s i) \<and> s_acks s (s_term s i) i = length (s_log s i))"

definition protocol_inv :: "(node_id set \<Rightarrow> bool) \<Rightarrow> spec \<Rightarrow> bool" where
  "protocol_inv q s \<longleftrightarrow> ledgers_wf (s_ledger s) \<and> logs_ok s \<and> acks_ok s \<and> leader_complete q s
     \<and> logs_cover q s \<and> votes_ok q s \<and> cands_ok s \<and> leaders_ok q s"

lemma protocol_init: "protocol_inv q spec_init"
  by (simp add: protocol_inv_def logs_ok_def acks_ok_def leader_complete_def logs_cover_def
      votes_ok_def cands_ok_def leaders_ok_def spec_init_def ledgers_wf_def covers_def)

lemma protocol_inv_parts:
  "protocol_inv q s \<Longrightarrow> ledgers_wf (s_ledger s) \<and> logs_ok s \<and> acks_ok s \<and> leader_complete q s
     \<and> logs_cover q s \<and> votes_ok q s \<and> cands_ok s \<and> leaders_ok q s"
  by (simp add: protocol_inv_def)

lemma protocol_invD:
  assumes "protocol_inv q s"
  shows "ledgers_wf (s_ledger s)" "leader_complete q s"
    and "grounded (s_ledger s) (s_log s i)" "e \<in> set (s_log s i) \<Longrightarrow> le_term e \<le> s_term s i"
    and "0 < s_acks s t j \<Longrightarrow> t \<le> s_term s j"
    and "0 < s_acks s t j \<Longrightarrow> \<exists>L. s_ledger s t = Some L \<and> s_acks s t j \<le> length L"
    and "covers q s j UNIV (s_log s j)"
  using protocol_inv_parts[OF assms]
  by (simp_all only: logs_ok_def acks_ok_def logs_cover_def)

lemma protocol_votesD:
  assumes "protocol_inv q s" "(t, j, k) \<in> s_votes s"
  shows "t \<le> s_term s j" "(t, j, k') \<in> s_votes s \<Longrightarrow> k' = k"
    and "\<exists>xs. s_cand s t k = Some xs \<and> covers q s j {..<t} xs"
  using protocol_inv_parts[OF assms(1)] assms(2) by (simp_all only: votes_ok_def)

lemma protocol_candsD:
  assumes "protocol_inv q s"
  shows "s_cand s t i = Some xs \<Longrightarrow> 0 < t" "s_cand s t i = Some xs \<Longrightarrow> t \<le> s_term s i"
    and "s_cand s t i = Some xs \<Longrightarrow> grounded (s_ledger s) xs"
    and "s_cand s t i = Some xs \<Longrightarrow> e \<in> set xs \<Longrightarrow> le_term e < t"
    and "s_role s i = Candidate \<Longrightarrow> s_cand s (s_term s i) i = Some (s_log s i)"
  using protocol_inv_parts[OF assms] by (simp_all only: cands_ok_def)

lemma protocol_leadersD:
  assumes "protocol_inv q s"
  shows "s_ledger s t = Some L \<Longrightarrow>
           \<exists>i. elected_by q s t i \<and> (t = s_term s i \<longrightarrow> s_role s i \<noteq> Candidate)"
    and "s_role s i = Leader \<Longrightarrow> elected_by q s (s_term s i) i"
    and "s_role s i = Leader \<Longrightarrow> s_ledger s (s_term s i) = Some (s_log s i)"
    and "s_role s i = Leader \<Longrightarrow> s_acks s (s_term s i) i = length (s_log s i)"
  using protocol_inv_parts[OF assms] by (simp_all only: leaders_ok_def)

subsection \<open>What a step leaves alone and what only grows\<close>

definition extends :: "spec \<Rightarrow> spec \<Rightarrow> bool" where
  "extends s s' \<longleftrightarrow> (\<forall>i. s_term s i \<le> s_term s' i) \<and> s_votes s \<subseteq> s_votes s'
     \<and> (\<forall>t i xs. s_cand s t i = Some xs \<longrightarrow> s_cand s' t i = Some xs)
     \<and> (\<forall>t L. s_ledger s t = Some L \<longrightarrow> (\<exists>L'. s_ledger s' t = Some L' \<and> take (length L) L' = L))
     \<and> (\<forall>t j. s_acks s t j \<le> s_acks s' t j)"

lemma extendsD:
  assumes "extends s s'"
  shows "s_term s i \<le> s_term s' i" "x \<in> s_votes s \<Longrightarrow> x \<in> s_votes s'"
    and "s_cand s t i = Some xs \<Longrightarrow> s_cand s' t i = Some xs"
    and "s_ledger s t = Some L \<Longrightarrow> \<exists>L'. s_ledger s' t = Some L' \<and> take (length L) L' = L"
    and "s_acks s t j \<le> s_acks s' t j"
  using assms unfolding extends_def by blast+

lemma extends_refl [simp]: "extends s s"
  by (simp add: extends_def)

lemma extends_trans: "extends a b \<Longrightarrow> extends b c \<Longrightarrow> extends a c"
  unfolding extends_def
proof (elim conjE, intro conjI allI impI, goal_cases)
  case (4 t L)
  then obtain L1 L2 where "s_ledger b t = Some L1" "take (length L) L1 = L"
    "s_ledger c t = Some L2" "take (length L1) L2 = L1" by meson
  then have "take (length L) (take (length L1) L2) = L" by simp
  moreover have "length L \<le> length L1" using \<open>take (length L) L1 = L\<close> by (metis length_take min.cobounded1)
  ultimately show ?case using \<open>s_ledger c t = Some L2\<close> by (simp add: min.absorb1)
qed (meson order_trans subset_trans)+

lemma extends_ledger:
  assumes "extends s s'" "s_ledger s t = Some L" "s_ledger s' t = Some L'" "k \<le> length L"
  shows "take k L' = take k L"
  using extendsD(4)[OF assms(1,2)] assms(3,4) by (metis min.absorb1 option.inject take_take)

lemma grounded_extends:
  assumes "grounded (s_ledger s) xs" "extends s s'"
  shows "grounded (s_ledger s') xs"
  unfolding grounded_def
proof (intro allI impI)
  fix k assume k: "0 < k \<and> k \<le> length xs"
  with assms(1) obtain L where L: "s_ledger s (term_of xs k) = Some L" "take k L = take k xs"
    by (auto simp: grounded_def)
  obtain L' where L': "s_ledger s' (term_of xs k) = Some L'" using extendsD(4)[OF assms(2) L(1)] by auto
  have "k \<le> length L" using take_length_le[OF L(2)[symmetric]] k by simp
  with extends_ledger[OF assms(2) L(1) L'] L(2) L'
  show "\<exists>L. s_ledger s' (term_of xs k) = Some L \<and> take k L = take k xs" by auto
qed

lemma own_entry_extends: "own_entry s t k \<Longrightarrow> extends s s' \<Longrightarrow> own_entry s' t k"
proof -
  assume o: "own_entry s t k" and e: "extends s s'"
  then obtain L L' where L: "s_ledger s t = Some L" "0 < k" "k \<le> length L" "term_of L k = t"
    "s_ledger s' t = Some L'" by (meson extendsD(4) own_entry_def)
  with extends_ledger[OF e L(1,5)] show ?thesis
    unfolding own_entry_def by (metis take_length_le term_of_cong order_refl)
qed

lemma chosen_extends: "chosen q s t k \<Longrightarrow> extends s s' \<Longrightarrow> chosen q s' t k"
  unfolding chosen_def by (meson extendsD(5) order_trans own_entry_extends)

lemma decided_extends:
  assumes "decided q s t xs" "extends s s'"
  shows "decided q s' t xs"
proof (cases "xs = []")
  case False
  with assms(1) obtain t1 k1 L where c: "t1 \<le> t" "chosen q s t1 k1" "s_ledger s t1 = Some L"
    "length xs \<le> k1" "xs = take (length xs) L" by (auto simp: decided_def)
  obtain L' where L': "s_ledger s' t1 = Some L'" using extendsD(4)[OF assms(2) c(3)] by auto
  have "length xs \<le> length L" using c(5) by (metis length_take min.cobounded1)
  with extends_ledger[OF assms(2) c(3) L'] c(5) have "xs = take (length xs) L'" by simp
  with c L' chosen_extends[OF c(2) assms(2)] show ?thesis unfolding decided_def by blast
qed (simp add: decided_def)

lemma elected_extends: "elected_by q s t i \<Longrightarrow> extends s s' \<Longrightarrow> elected_by q s' t i"
  unfolding elected_by_def by (meson extendsD(2))

text \<open>A step of \<open>i\<close> touches no other node, and records its progress in its current term.\<close>

lemma spec_step_frame:
  assumes "spec_step q i s s'"
  shows "j \<noteq> i \<Longrightarrow> s_term s' j = s_term s j \<and> s_role s' j = s_role s j \<and> s_log s' j = s_log s j"
    and "j \<noteq> i \<Longrightarrow> s_acks s' t j = s_acks s t j"
    and "s_term s i \<le> s_term s' i"
    and "t \<noteq> s_term s i \<Longrightarrow> s_acks s' t j = s_acks s t j"
    and "(t, j, k) \<in> s_votes s' \<Longrightarrow> (t, j, k) \<in> s_votes s \<or> j = i \<and> t = s_term s' i"
  using assms by (cases; fastforce)+


subsection \<open>The invariant\<close>

lemma takes_over_keeps:
  assumes "takes_over L xs ys" "take k xs = take k L" "k \<le> length L"
  shows "take k ys = take k L" "k \<le> length ys"
proof -
  have k: "k \<le> length xs" using take_length_le[OF assms(2)[symmetric] assms(3)] .
  have "take k ys = take k L \<and> k \<le> length ys"
    using assms(1) unfolding takes_over_def
  proof (elim disjE exE conjE)
    assume "ys = xs"
    with assms(2) k show ?thesis by simp
  next
    fix m assume "m \<le> length L" "ys = take m L"
      "\<forall>k. k \<le> length xs \<longrightarrow> k \<le> length L \<longrightarrow> take k xs = take k L \<longrightarrow> k \<le> m"
    with assms(2,3) k show ?thesis by (simp add: min.absorb1)
  qed
  then show "take k ys = take k L" "k \<le> length ys" by auto
qed

context protocol
begin

lemma winner_unique:
  assumes "protocol_inv q s" "elected_by q s t i" "elected_by q s t j"
  shows "i = j"
proof -
  obtain A B where "q A" "q B" "\<And>v. v \<in> A \<Longrightarrow> (t, v, i) \<in> s_votes s"
    "\<And>v. v \<in> B \<Longrightarrow> (t, v, j) \<in> s_votes s"
    using assms(2,3) unfolding elected_by_def by blast
  then show ?thesis
    by (rule one_winner[where voted = "\<lambda>v k. (t, v, k) \<in> s_votes s"])
       (use protocol_votesD(2)[OF assms(1)] in blast)+
qed

lemma elected_term:
  assumes "protocol_inv q s" "elected_by q s t i"
  shows "t \<le> s_term s i" "0 < t"
proof -
  obtain Q where Q: "q Q" "\<And>v. v \<in> Q \<Longrightarrow> (t, v, i) \<in> s_votes s"
    using assms(2) unfolding elected_by_def by blast
  obtain v where "v \<in> Q" using quorum_nonempty[OF Q(1)] by blast
  from protocol_votesD(3)[OF assms(1) Q(2)[OF this]] protocol_candsD(1,2)[OF assms(1)]
  show "t \<le> s_term s i" "0 < t" by blast+
qed

text \<open>A term has no ledger before its leader is elected.\<close>

lemma fresh_ledger:
  assumes inv: "protocol_inv q s" and c: "s_role s i = Candidate"
    and Q: "q Q" "\<And>j. j \<in> Q \<Longrightarrow> (s_term s i, j, i) \<in> s_votes s"
  shows "s_ledger s (s_term s i) = None"
proof (rule ccontr)
  assume "s_ledger s (s_term s i) \<noteq> None"
  then obtain L where "s_ledger s (s_term s i) = Some L" by auto
  with protocol_leadersD(1)[OF inv] obtain j where j: "elected_by q s (s_term s i) j"
    "s_term s i = s_term s j \<longrightarrow> s_role s j \<noteq> Candidate" by blast
  moreover have "elected_by q s (s_term s i) i" using Q by (auto simp: elected_by_def)
  ultimately have "i = j" using winner_unique[OF inv] by blast
  with c j(2) show False by simp
qed

lemma step_extends:
  assumes inv: "protocol_inv q s" and step: "spec_step q i s s'"
  shows "extends s s'"
  using step
proof cases
  case (stand t)
  have "s_cand s t i = None"
    using protocol_candsD(2)[OF inv, of t i] stand(2) by (cases "s_cand s t i") auto
  with stand show ?thesis by (auto simp: extends_def)
next
  case (lead Q)
  have f: "s_ledger s (s_term s i) = None" by (rule fresh_ledger[OF inv lead(2,3,4)])
  then have "s_acks s (s_term s i) i = 0" using protocol_invD(6)[OF inv, of "s_term s i" i] by auto
  with f lead(1) show ?thesis by (auto simp: extends_def)
next
  case (append e)
  then show ?thesis
    using protocol_leadersD(3,4)[OF inv append(2)] by (auto simp: extends_def)
qed (auto simp: extends_def)

text \<open>Stepping back, an entry that may still be chosen could be chosen before.\<close>

lemma choosable_back:
  assumes inv: "protocol_inv q s" and step: "spec_step q i s s'"
    and c: "choosable q s' t k" and L: "s_ledger s t = Some L" "k \<le> length L"
  shows "choosable q s t k"
proof -
  note ext = step_extends[OF inv step] and fr = spec_step_frame[OF step]
  obtain L' where L': "s_ledger s' t = Some L'" using extendsD(4)[OF ext L(1)] by auto
  have "own_entry s t k"
    using choosableD[OF c L'] L extends_ledger[OF ext L(1) L' L(2)]
    by (auto simp: own_entry_def intro: term_of_cong[symmetric])
  moreover have "k \<le> s_acks s t j \<or> s_term s j \<le> t" if "k \<le> s_acks s' t j \<or> s_term s' j \<le> t" for j
  proof (cases "s_acks s' t j = s_acks s t j")
    case True
    with that show ?thesis using order_trans[OF extendsD(1)[OF ext, of j], of t] by auto
  next
    case False
    with fr(2)[of j t] fr(4)[of t j] show ?thesis by auto
  qed
  ultimately show ?thesis using c unfolding choosable_def by blast
qed

lemma covers_step:
  assumes inv: "protocol_inv q s" and step: "spec_step q i s s'"
    and cov: "covers q s j D xs" and D: "\<And>t. t \<in> D \<Longrightarrow> s_acks s' t j = s_acks s t j"
  shows "covers q s' j D xs"
  unfolding covers_def
proof (intro ballI allI impI)
  fix t k L' assume t: "t \<in> D" and L': "s_ledger s' t = Some L'" and c: "choosable q s' t k"
    and k: "k \<le> s_acks s' t j"
  have "0 < k" using choosableD[OF c L'] by simp
  with k D[OF t] obtain L where L: "s_ledger s t = Some L" "k \<le> length L"
    using protocol_invD(6)[OF inv, of t j] by fastforce
  have "take k xs = take k L"
    using cov t L choosable_back[OF inv step c L] k D[OF t] by (simp add: covers_def)
  then show "take k xs = take k L'"
    using extends_ledger[OF step_extends[OF inv step] L(1) L' L(2)] by simp
qed

lemma inv_ledgers:
  assumes inv: "protocol_inv q s" and step: "spec_step q i s s'"
  shows "ledgers_wf (s_ledger s')"
proof -
  note ext = step_extends[OF inv step] and wf = protocol_invD(1)[OF inv]
  have old: "grounded (s_ledger s') L \<and> indexed_from 0 L \<and> sorted (map le_term L)
      \<and> (\<forall>e \<in> set L. 0 < le_term e \<and> le_term e \<le> t)" if "s_ledger s t = Some L" for t L
    using ledgers_wfD[OF wf that] grounded_extends[OF _ ext] by auto
  from step show ?thesis
  proof cases
    case (lead Q)
    let ?L = "s_log s i"
    have g: "grounded (s_ledger s) ?L" by (rule protocol_invD(3)[OF inv])
    have "grounded (s_ledger s') ?L \<and> indexed_from 0 ?L \<and> sorted (map le_term ?L)
      \<and> (\<forall>e \<in> set ?L. 0 < le_term e \<and> le_term e \<le> s_term s i)"
      using grounded_wf[OF wf g] grounded_extends[OF g ext] protocol_invD(4)[OF inv] by auto
    with old lead(1) show ?thesis by (auto simp: ledgers_wf_def)
  next
    case (append e)
    let ?L = "s_log s i @ [e]"
    have g: "grounded (s_ledger s) (s_log s i)" by (rule protocol_invD(3)[OF inv])
    have pos: "0 < s_term s i" using elected_term[OF inv protocol_leadersD(2)[OF inv append(2)]] by simp
    have "grounded (s_ledger s') ?L"
      unfolding grounded_def
    proof (intro allI impI)
      fix k assume k: "0 < k \<and> k \<le> length ?L"
      show "\<exists>L. s_ledger s' (term_of ?L k) = Some L \<and> take k L = take k ?L"
      proof (cases "k \<le> length (s_log s i)")
        case True
        with grounded_extends[OF g ext] k show ?thesis by (simp add: grounded_def)
      next
        case False
        with k have "k = length (s_log s i) + 1" by simp
        then have "term_of ?L k = s_term s i" using append(3) by (simp add: term_of_def)
        with append(1) show ?thesis by simp
      qed
    qed
    moreover have "indexed_from 0 ?L"
      using grounded_wf(1)[OF wf g] append(4) by (simp add: indexed_from_append)
    moreover have "sorted (map le_term ?L)"
      using grounded_wf(2)[OF wf g] append(3) protocol_invD(4)[OF inv] by (auto simp: sorted_append)
    moreover have "\<forall>e \<in> set ?L. 0 < le_term e \<and> le_term e \<le> s_term s i"
      using grounded_wf(3)[OF wf g] append(3) protocol_invD(4)[OF inv, of _ i] pos by auto
    ultimately show ?thesis using old append(1) by (auto simp: ledgers_wf_def)
  qed (use old in \<open>auto simp: ledgers_wf_def\<close>)
qed

lemma inv_logs:
  assumes inv: "protocol_inv q s" and step: "spec_step q i s s'"
  shows "logs_ok s'"
proof -
  note ext = step_extends[OF inv step]
  have old: "grounded (s_ledger s') (s_log s j)" "\<forall>e \<in> set (s_log s j). le_term e \<le> s_term s' j" for j
    using grounded_extends[OF protocol_invD(3)[OF inv] ext] protocol_invD(4)[OF inv, of _ j]
      extendsD(1)[OF ext, of j] by (auto intro: order_trans)
  from step show ?thesis
  proof cases
    case (append e)
    have "grounded (s_ledger s') (s_log s i @ [e])"
      using ledgers_wfD(1)[OF inv_ledgers[OF inv step], of "s_term s i"] append(1) by simp
    with old append(1,3) show ?thesis by (auto simp: logs_ok_def)
  next
    case (accept L ys m)
    have "grounded (s_ledger s') ys \<and> (\<forall>e \<in> set ys. le_term e \<le> s_term s i)"
      using accept(4) unfolding takes_over_def
    proof (elim disjE exE conjE)
      assume "ys = s_log s i"
      with old(1) protocol_invD(4)[OF inv] show ?thesis by simp
    next
      fix n assume "ys = take n L"
      with ledgers_wfD(1,5)[OF protocol_invD(1)[OF inv] accept(3)] grounded_extends[OF _ ext]
      show ?thesis by (auto intro: grounded_take dest: in_set_takeD)
    qed
    with old accept(1) show ?thesis by (auto simp: logs_ok_def)
  qed (use old in \<open>auto simp: logs_ok_def\<close>)
qed

lemma inv_acks:
  assumes inv: "protocol_inv q s" and step: "spec_step q i s s'"
  shows "acks_ok s'"
proof -
  note ext = step_extends[OF inv step]
  have old: "t \<le> s_term s' j \<and> (\<exists>L. s_ledger s' t = Some L \<and> s_acks s t j \<le> length L)"
    if a: "0 < s_acks s t j" for t j
  proof -
    obtain L L' where L: "s_ledger s t = Some L" "s_acks s t j \<le> length L" "s_ledger s' t = Some L'"
      using protocol_invD(6)[OF inv a] extendsD(4)[OF ext] by blast
    have "s_acks s t j \<le> length L'"
      using take_length_le[OF extends_ledger[OF ext L(1,3) L(2)]] L(2) by (metis take_length_le
        extends_ledger[OF ext L(1,3) L(2)])
    with L(3) protocol_invD(5)[OF inv a] extendsD(1)[OF ext, of j] show ?thesis by auto
  qed
  show ?thesis
    unfolding acks_ok_def
  proof (intro allI impI)
    fix t j assume pos: "0 < s_acks s' t j"
    show "t \<le> s_term s' j \<and> (\<exists>L. s_ledger s' t = Some L \<and> s_acks s' t j \<le> length L)"
    proof (cases "s_acks s' t j = s_acks s t j")
      case True
      with old[of t j] pos show ?thesis by simp
    next
      case False
      with spec_step_frame(2,4)[OF step] have "j = i" "t = s_term s i" by blast+
      with step False show ?thesis by cases (auto simp: max_def split: if_splits)
    qed
  qed
qed

lemma inv_cands:
  assumes inv: "protocol_inv q s" and step: "spec_step q i s s'"
  shows "cands_ok s'"
proof -
  note ext = step_extends[OF inv step] and D = protocol_candsD[OF inv]
  have old: "0 < t \<and> t \<le> s_term s' j \<and> grounded (s_ledger s') xs \<and> (\<forall>e \<in> set xs. le_term e < t)"
    if "s_cand s t j = Some xs" for t j xs
    using D(1-4)[OF that] grounded_extends[OF _ ext] extendsD(1)[OF ext, of j] by (auto intro: order_trans)
  from step show ?thesis
  proof cases
    case (stand t)
    have "0 < t" using stand(2) by (metis le_less_trans word_zero_le)
    moreover have "grounded (s_ledger s') (s_log s i)"
      by (rule grounded_extends[OF protocol_invD(3)[OF inv] ext])
    moreover have "\<forall>e \<in> set (s_log s i). le_term e < t"
      using protocol_invD(4)[OF inv, of _ i] stand(2) by (auto intro: le_less_trans)
    ultimately show ?thesis using old D(5) stand(1)
      by (auto simp: cands_ok_def dest: D(2))
  qed (use old D(5) in \<open>auto simp: cands_ok_def\<close>)
qed

lemma inv_complete:
  assumes inv: "protocol_inv q s" and step: "spec_step q i s s'"
  shows "leader_complete q s'"
  unfolding leader_complete_def
proof (intro allI impI)
  fix t t' k L L'
  assume L: "s_ledger s' t = Some L" "s_ledger s' t' = Some L'" and lt: "t < t'"
    and c: "choosable q s' t k"
  note ext = step_extends[OF inv step] and own = choosableD[OF c L(1)]
  show "take k L' = take k L"
  proof (cases "\<exists>L0. s_ledger s t = Some L0 \<and> k \<le> length L0")
    case True
    then obtain L0 where L0: "s_ledger s t = Some L0" "k \<le> length L0" by blast
    note c0 = choosable_back[OF inv step c L0] and LL0 = extends_ledger[OF ext L0(1) L(1) L0(2)]
    show ?thesis
    proof (cases "s_ledger s t'")
      case (Some L0')
      from leader_completeD[OF protocol_invD(2)[OF inv] L0(1) Some _ c0] lt
      have "take k L0' = take k L0" "k \<le> length L0'" by auto
      with extends_ledger[OF ext Some L(2)] LL0 show ?thesis by simp
    next
      case None
      with step L(2) obtain Q where Q: "q Q" "\<And>j. j \<in> Q \<Longrightarrow> (t', j, i) \<in> s_votes s"
        "s_role s i = Candidate" "t' = s_term s i" "L' = s_log s i"
        using protocol_leadersD(3)[OF inv, of i] by cases (auto split: if_splits)
      have "covers q s j {..<t'} L'" if "j \<in> Q" for j
        using protocol_votesD(3)[OF inv Q(2)[OF that]] protocol_candsD(5)[OF inv Q(3)] Q(4,5) by auto
      then have "take k L' = take k L0"
        using elected_complete[OF Q(1) _ _ lt L0(1) c0] protocol_votesD(1)[OF inv Q(2)] by blast
      with LL0 show ?thesis by simp
    qed
  next
    case False
    note F = this
    from step show ?thesis
    proof cases
      case (lead Q)
      from F L(1) lead(1) have t: "t = s_term s i" "L = s_log s i" using own by (auto split: if_splits)
      with protocol_candsD(4,5)[OF inv] lead(2) term_of_in[of k L] own have False by fastforce
      then show ?thesis ..
    next
      case (append e)
      have t: "t = s_term s i" "L = s_log s i @ [e]" "k = length (s_log s i) + 1"
        using F L(1) append(1) own protocol_leadersD(3)[OF inv append(2)]
        by (auto split: if_splits simp: le_Suc_eq)
      with L(2) lt append(1) have "s_ledger s t' = Some L'" by (auto split: if_splits)
      from protocol_leadersD(1)[OF inv this] obtain j0 Q where
        Q: "q Q" "\<And>j. j \<in> Q \<Longrightarrow> (t', j, j0) \<in> s_votes s" by (auto simp: elected_by_def)
      have less: "t < s_term s j" if "j \<in> Q" for j
        using protocol_votesD(1)[OF inv Q(2)[OF that]] lt by simp
      have "s_acks s' t j < k" if "j \<in> Q" for j
      proof -
        have "s_acks s' t j = s_acks s t j" using less[OF that] t(1) append(1) by auto
        moreover have "s_acks s t j \<le> length (s_log s i)"
          using protocol_invD(6)[OF inv, of t j] protocol_leadersD(3)[OF inv append(2)] t(1)
          by (cases "s_acks s t j = 0") auto
        ultimately show ?thesis using t(3) by simp
      qed
      moreover have "t < s_term s' j" if "j \<in> Q" for j
        using less[OF that] append(1) by simp
      ultimately have "\<not> choosable q s' t k" by (intro not_choosable[OF Q(1)]) auto
      with c show ?thesis by simp
    qed (use F L own in auto)
  qed
qed

text \<open>No entry of a term can be chosen at a position that the leader's log has not reached.\<close>

lemma new_leader_owns_nothing:
  assumes inv: "protocol_inv q s" and c: "s_role s i = Candidate"
    and k: "0 < k" "k \<le> length (s_log s i)"
  shows "term_of (s_log s i) k \<noteq> s_term s i"
  using term_of_in[OF k] protocol_candsD(4,5)[OF inv] c by fastforce

lemma inv_cover:
  assumes inv: "protocol_inv q s" and step: "spec_step q i s s'"
  shows "logs_cover q s'"
  unfolding logs_cover_def
proof
  fix j
  note ext = step_extends[OF inv step] and fr = spec_step_frame[OF step]
  have rest: "covers q s' i (UNIV - {s_term s i}) (s_log s i)"
    using protocol_invD(7)[OF inv, of i] fr(4)
    by (intro covers_step[OF inv step]) (auto simp: covers_def)
  show "covers q s' j UNIV (s_log s' j)"
  proof (cases "j = i")
    case False
    with fr(1,2) show ?thesis
      using covers_step[OF inv step protocol_invD(7)[OF inv]] by metis
  next
    case True
    have same: "covers q s' i UNIV (s_log s i)" if "\<And>t. s_acks s' t i = s_acks s t i"
      by (rule covers_step[OF inv step protocol_invD(7)[OF inv]]) (rule that)
    have "take k (s_log s' i) = take k L"
      if L: "s_ledger s' t = Some L" and c: "choosable q s' t k" and k: "k \<le> s_acks s' t i" for t k L
    proof -
      note own = choosableD[OF c L]
      have other: "take k (s_log s i) = take k L \<and> k \<le> length L" if "t \<noteq> s_term s i"
        using rest that L c k own by (auto simp: covers_def)
      from step show ?thesis
      proof cases
        case (lead Q)
        have "t \<noteq> s_term s i"
          using new_leader_owns_nothing[OF inv lead(2)] own L lead(1) by auto
        with other lead(1) show ?thesis by simp
      next
        case (append e)
        show ?thesis
        proof (cases "t = s_term s i")
          case False
          with other have "take k (s_log s i) = take k L" "k \<le> length (s_log s i)"
            using take_length_le[of k L "s_log s i"] by auto
          with append(1) show ?thesis by simp
        qed (use append(1) L in simp)
      next
        case (accept M ys m)
        have M: "take k ys = take k M" if "take k (s_log s i) = take k M" "k \<le> length M"
          using takes_over_keeps[OF accept(4) that] by simp
        show ?thesis
        proof (cases "t = s_term s i")
          case t: True
          with L accept(1,3) have LM: "L = M" by simp
          show ?thesis
          proof (cases "k \<le> m")
            case True
            with take_shorter[OF accept(7)] LM accept(1) show ?thesis by simp
          next
            case False
            then have k': "k \<le> s_acks s t i" using k accept(1) t by (simp add: max_def split: if_splits)
            have "choosable q s t k"
              using choosable_back[OF inv step c] accept(3) t own LM by blast
            then have "take k (s_log s i) = take k M"
              using protocol_invD(7)[OF inv, of i] k' accept(3) t by (simp add: covers_def)
            with M own LM accept(1) show ?thesis by simp
          qed
        next
          case t: False
          have ack: "k \<le> s_acks s t i" using k fr(4)[OF t] by simp
          then have "t \<le> s_term s i" using protocol_invD(5)[OF inv, of t i] own by simp
          obtain L0 where L0: "s_ledger s t = Some L0" "k \<le> length L0"
            using protocol_invD(6)[OF inv, of t i] own ack by fastforce
          have "take k M = take k L0" "k \<le> length M"
            using leader_completeD[OF protocol_invD(2)[OF inv] L0(1) accept(3) \<open>t \<le> s_term s i\<close>]
              choosable_back[OF inv step c L0] by blast+
          moreover have "take k L = take k L0" by (rule extends_ledger[OF ext L0(1) L L0(2)])
          ultimately show ?thesis using other[OF t] M accept(1) by simp
        qed
      qed (use same L c k in \<open>auto simp: covers_def\<close>)
    qed
    with True show ?thesis by (auto simp: covers_def)
  qed
qed

lemma inv_votes:
  assumes inv: "protocol_inv q s" and step: "spec_step q i s s'"
  shows "votes_ok q s'"
proof -
  note ext = step_extends[OF inv step] and fr = spec_step_frame[OF step]
  have old: "t \<le> s_term s' j \<and> (\<exists>xs. s_cand s' t k = Some xs \<and> covers q s' j {..<t} xs)"
    if v: "(t, j, k) \<in> s_votes s" for t j k
  proof -
    note V = protocol_votesD[OF inv v]
    obtain xs where xs: "s_cand s t k = Some xs" "covers q s j {..<t} xs" using V(3) by blast
    have "s_acks s' u j = s_acks s u j" if "u \<in> {..<t}" for u
      using that V(1) fr(2)[of j u] fr(4)[of u j] by (cases "j = i") auto
    then have "covers q s' j {..<t} xs" by (rule covers_step[OF inv step xs(2)])
    with xs(1) V(1) extendsD(1,3)[OF ext] show ?thesis by (meson order_trans)
  qed
  from step show ?thesis
  proof cases
    case (stand t)
    have "covers q s' i {..<t} (s_log s i)"
      using inv_cover[OF inv step] stand(1) by (auto simp: logs_cover_def covers_def)
    moreover have "(t, i, k) \<notin> s_votes s" for k
      using protocol_votesD(1)[OF inv, of t i k] stand(2) by auto
    ultimately show ?thesis
      using old protocol_votesD(2)[OF inv] stand(1) by (auto simp: votes_ok_def)
  next
    case (vote k xs)
    have "covers q s i {..<s_term s i} xs"
      by (rule covers_up_to_date[OF protocol_invD(1,2,3)[OF inv] protocol_candsD(3)[OF inv vote(2)]
            protocol_invD(7)[OF inv] vote(3)])
    then have "covers q s' i {..<s_term s i} xs"
      by (rule covers_step[OF inv step]) (simp add: vote(1))
    with old vote protocol_votesD(2)[OF inv] show ?thesis by (auto simp: votes_ok_def)
  qed (use old protocol_votesD(2)[OF inv] in \<open>auto simp: votes_ok_def\<close>)
qed

lemma inv_leaders:
  assumes inv: "protocol_inv q s" and step: "spec_step q i s s'"
  shows "leaders_ok q s'"
proof -
  note ext = step_extends[OF inv step] and D = protocol_leadersD[OF inv]
    and fr = spec_step_frame[OF step]
  have el: "elected_by q s t j \<Longrightarrow> elected_by q s' t j" for t j
    by (rule elected_extends[OF _ ext])
  have only: "s_term s j \<noteq> s_term s i" if "s_role s j = Leader" "elected_by q s (s_term s i) i" "j \<noteq> i" for j
    using winner_unique[OF inv D(2)[OF that(1)]] that(2,3) by metis
  have self: "elected_by q s (s_term s i) i" if "s_ledger s' u \<noteq> s_ledger s u" for u
    using step that
  proof cases
    case (lead Q)
    then show ?thesis by (auto simp: elected_by_def)
  next
    case (append e)
    then show ?thesis using D(2) by simp
  qed auto
  have changed: "u = s_term s i \<and> s_term s' i = s_term s i \<and> s_role s' i = Leader"
    if "s_ledger s' u \<noteq> s_ledger s u" for u
    using step that by cases (auto split: if_splits)
  have role: "s_role s' i \<noteq> Candidate"
    if "s_ledger s u = Some L" "elected_by q s u i" "u = s_term s i \<longrightarrow> s_role s i \<noteq> Candidate"
      "u = s_term s' i" for u L
    using step
  proof cases
    case (stand t)
    then show ?thesis using elected_term(1)[OF inv that(2)] that(4) by auto
  qed (use that in auto)
  show ?thesis
    unfolding leaders_ok_def
  proof (intro conjI allI impI)
    fix u L assume L: "s_ledger s' u = Some L"
    show "\<exists>j. elected_by q s' u j \<and> (u = s_term s' j \<longrightarrow> s_role s' j \<noteq> Candidate)"
    proof (cases "s_ledger s' u = s_ledger s u")
      case True
      with L have L0: "s_ledger s u = Some L" by simp
      from D(1)[OF L0] obtain j where
        j: "elected_by q s u j" "u = s_term s j \<longrightarrow> s_role s j \<noteq> Candidate" by blast
      have "u = s_term s' j \<longrightarrow> s_role s' j \<noteq> Candidate"
      proof (cases "j = i")
        case True
        with role[OF L0] j show ?thesis by blast
      next
        case False
        with fr(1)[OF False] j(2) show ?thesis by simp
      qed
      with el[OF j(1)] show ?thesis by blast
    next
      case False
      from changed[OF False] have u: "u = s_term s i" and r: "s_role s' i = Leader" by blast+
      from el[OF self[OF False]] have "elected_by q s' u i" by (simp only: u)
      moreover from r have "s_role s' i \<noteq> Candidate" by simp
      ultimately show ?thesis by blast
    qed
  next
    fix j assume r: "s_role s' j = Leader"
    have "elected_by q s' (s_term s' j) j \<and> s_ledger s' (s_term s' j) = Some (s_log s' j)
        \<and> s_acks s' (s_term s' j) j = length (s_log s' j)"
    proof (cases "j = i")
      case True
      from step show ?thesis
      proof cases
        case (lead Q)
        then have "elected_by q s (s_term s i) i" by (auto simp: elected_by_def)
        with el lead(1) True show ?thesis by simp
      qed (use r True D(2-4)[of i] el[of "s_term s i" i] in auto)
    next
      case False
      with r fr(1) have j: "s_role s j = Leader" "s_term s' j = s_term s j" "s_log s' j = s_log s j"
        by auto
      have "s_ledger s' (s_term s j) = s_ledger s (s_term s j)"
        using only[OF j(1) _ False] self changed by metis
      with D(2-4)[OF j(1)] j el fr(2)[OF False] show ?thesis by simp
    qed
    then show "elected_by q s' (s_term s' j) j" "s_ledger s' (s_term s' j) = Some (s_log s' j)"
      "s_acks s' (s_term s' j) j = length (s_log s' j)" by auto
  qed
qed

theorem spec_step_inv:
  "protocol_inv q s \<Longrightarrow> spec_step q i s s' \<Longrightarrow> protocol_inv q s'"
  unfolding protocol_inv_def[of q s']
  by (intro conjI inv_ledgers inv_logs inv_acks inv_complete inv_cover inv_votes inv_cands inv_leaders)

text \<open>Several steps of one node.\<close>

lemma spec_steps_inv:
  assumes "(spec_step q i)\<^sup>*\<^sup>* s s'" "protocol_inv q s"
  shows "protocol_inv q s' \<and> extends s s'"
  using assms
proof induction
  case (step a b)
  then show ?case using spec_step_inv step_extends extends_trans by blast
qed simp

lemma spec_steps_frame:
  assumes "(spec_step q i)\<^sup>*\<^sup>* s s'" "j \<noteq> i"
  shows "s_term s' j = s_term s j \<and> s_role s' j = s_role s j \<and> s_log s' j = s_log s j
     \<and> (\<forall>t k. (t, j, k) \<in> s_votes s' \<longleftrightarrow> (t, j, k) \<in> s_votes s)"
  using assms(1)
proof induction
  case (step a b)
  have "s_votes a \<subseteq> s_votes b" using step(2) by cases auto
  then have "(t, j, k) \<in> s_votes b \<longleftrightarrow> (t, j, k) \<in> s_votes a" for t k
    using spec_step_frame(5)[OF step(2), of t j k] assms(2) by auto
  with step(3) spec_step_frame(1)[OF step(2) assms(2)] show ?case by simp
qed simp

end

interpretation raft: protocol "majority vs" for vs
  by unfold_locales

end
