(* ===== verification/Node_Replication.thy ===== *)
theory Node_Replication
  imports Node_State
begin

text \<open>
  The leader's side of replication in \<^verbatim>\<open>src/node.rs\<close> and the commit and apply path both
  sides share: building \<open>AppendEntries\<close> and \<open>InstallSnapshot\<close>, advancing the commit
  index, draining applies, backtracking on a rejection, proposals, membership changes and
  leadership transfer. Definitions only; the properties are in the \<^verbatim>\<open>Node_\<close> theories that
  import this one.
\<close>

subsection \<open>Applying committed entries\<close>

definition maybe_hint_snapshot :: "node \<Rightarrow> action list \<Rightarrow> ctx" where
  "maybe_hint_snapshot n acts =
     (if n_snapshot_threshold n = 0 then (n, acts)
      else let base = ml_snapshot_index (n_log n);
               grown = (if n_last_applied n < base then 0 else n_last_applied n - base)
           in if n_snapshot_threshold n \<le> grown
                 \<and> n_snapshot_hinted_at n < n_last_applied n
              then (case ml_term_at (n_log n) (n_last_applied n) of
                      Some t \<Rightarrow> (n\<lparr>n_snapshot_hinted_at := n_last_applied n\<rparr>,
                                 acts @ [SnapshotHint (n_last_applied n) t])
                    | None \<Rightarrow> (n, acts))
              else (n, acts))"

definition apply_action :: "memory_log \<Rightarrow> raft_index \<Rightarrow> action list" where
  "apply_action l i =
     (case ml_entry l i of
        Some e \<Rightarrow> (if members e = None then [Apply (le_index e) (le_term e) (le_command e)] else [])
      | None \<Rightarrow> [])"

function drain_loop :: "node \<Rightarrow> action list \<Rightarrow> ctx" where
  "drain_loop n acts =
     (if n_last_applied n < n_commit_index n
      then let n1 = n\<lparr>n_last_applied := n_last_applied n + 1\<rparr>
           in drain_loop n1 (acts @ apply_action (n_log n1) (n_last_applied n1))
      else (n, acts))"
  by pat_completeness auto
termination
proof (relation "measure (\<lambda>(n, acts). unat (n_commit_index n) - unat (n_last_applied n))",
    goal_cases)
  case (2 n acts x)
  then have lt: "unat (n_last_applied n) < unat (n_commit_index n)"
    by (simp add: word_less_nat_alt)
  then have "unat (n_last_applied n + 1) = unat (n_last_applied n) + 1"
    using unsigned_less[of "n_commit_index n", where ?'a = nat]
    by (intro unat_plus_one) simp
  with lt 2 show ?case by simp
qed simp

declare drain_loop.simps [simp del]

definition drain_applies :: "node \<Rightarrow> action list \<Rightarrow> ctx" where
  "drain_applies n acts = (let (n1, acts1) = drain_loop n acts in maybe_hint_snapshot n1 acts1)"

subsection \<open>Commit\<close>

definition step_down_to_follower :: "'l raft_node \<Rightarrow> 'l raft_node" where
  "step_down_to_follower n =
     n\<lparr>n_role := Follower, n_leader_id := None, n_transfer_target := None,
       n_pre_voting := False, n_pre_votes := [], n_progress := [], n_votes := []\<rparr>"

definition replicas :: "'l raft_node \<Rightarrow> raft_index \<Rightarrow> nat" where
  "replicas n i = (if is_voter n then 1 else 0)
     + length (filter (\<lambda>p. i \<le> pr_match_index p) (n_progress n))"

function commit_scan :: "node \<Rightarrow> raft_index \<Rightarrow> raft_index" where
  "commit_scan n i =
     (if n_commit_index n < i
      then (case ml_term_at (n_log n) i of
              Some t \<Rightarrow>
                if t = n_current_term n
                then if quorum n \<le> replicas n i then i else commit_scan n (i - 1)
                else if t < n_current_term n then n_commit_index n
                else commit_scan n (i - 1)
            | None \<Rightarrow> commit_scan n (i - 1))
      else n_commit_index n)"
  by pat_completeness auto
termination
  by (relation "measure (\<lambda>(n, i). unat i)") (auto simp: unat_minus_one_less)

declare commit_scan.simps [simp del]

definition advance_commit :: "node \<Rightarrow> action list \<Rightarrow> ctx" where
  "advance_commit n acts =
     (let new_commit = commit_scan n (ml_last_index (n_log n))
      in if n_commit_index n < new_commit
         then let (n1, acts1) = drain_applies (n\<lparr>n_commit_index := new_commit\<rparr>) acts
              in if n_role n1 = Leader \<and> \<not> is_voter n1 \<and> n_config_index n1 \<noteq> 0
                    \<and> n_config_index n1 \<le> n_commit_index n1
                 then (step_down_to_follower n1, acts1)
                 else (n1, acts1)
         else (n, acts))"

subsection \<open>Sending\<close>

definition upd_progress :: "nat \<Rightarrow> (progress \<Rightarrow> progress) \<Rightarrow> 'l raft_node \<Rightarrow> 'l raft_node" where
  "upd_progress i f n = n\<lparr>n_progress := (n_progress n)[i := f (n_progress n ! i)]\<rparr>"

definition send_snapshot :: "nat \<Rightarrow> node \<Rightarrow> action list \<Rightarrow> ctx" where
  "send_snapshot i n acts =
     (case ml_get_snapshot (n_log n) of
        Some s \<Rightarrow>
          let n1 = upd_progress i (\<lambda>p. p\<lparr>pr_state := Probe\<rparr>) n
          in (n1, acts @ [Send (pr_id (n_progress n1 ! i))
                (InstallSnapshot \<lparr>ins_term = n_current_term n1, ins_leader = n_id n1,
                                  ins_snapshot = s\<rparr>)])
      | None \<Rightarrow> (n, acts))"

definition send_append :: "nat \<Rightarrow> node \<Rightarrow> action list \<Rightarrow> ctx" where
  "send_append i n acts =
     (let next = pr_next_index (n_progress n ! i)
      in if next \<le> ml_snapshot_index (n_log n) then send_snapshot i n acts
         else let peer = pr_id (n_progress n ! i);
                  state = pr_state (n_progress n ! i);
                  prev_log_index = next - 1;
                  prev_log_term = (case ml_term_at (n_log n) prev_log_index of
                                     Some t \<Rightarrow> t | None \<Rightarrow> 0);
                  last_i = ml_last_index (n_log n);
                  entries = (if next \<le> last_i
                             then ml_entries_range (n_log n) next
                                    (min last_i (next + n_max_batch n - 1))
                             else []);
                  count = (of_nat (length entries) :: u64);
                  acts1 = acts @ [Send peer (AppendEntries
                     \<lparr>ae_term = n_current_term n, ae_leader = n_id n,
                      ae_prev_log_index = prev_log_index, ae_prev_log_term = prev_log_term,
                      ae_entries = entries, ae_leader_commit = n_commit_index n\<rparr>)]
              in if 0 < count \<and> state = Replicate
                 then (upd_progress i (\<lambda>p. p\<lparr>pr_next_index := next + count\<rparr>) n, acts1)
                 else (n, acts1))"

definition replicate_to_all :: "node \<Rightarrow> action list \<Rightarrow> ctx" where
  "replicate_to_all n acts =
     fold (\<lambda>i (n, acts). send_append i n acts) [0..<length (n_progress n)] (n, acts)"

definition replicate_to_streaming :: "node \<Rightarrow> action list \<Rightarrow> ctx" where
  "replicate_to_streaming n acts =
     fold (\<lambda>i (n, acts). if pr_state (n_progress n ! i) = Replicate
                         then send_append i n acts else (n, acts))
       [0..<length (n_progress n)] (n, acts)"

subsection \<open>Proposals\<close>

definition propose :: "node \<Rightarrow> byte list \<Rightarrow> node \<times> (rerror + action list)" where
  "propose n command =
     (if n_role n \<noteq> Leader \<or> n_transfer_target n \<noteq> None
      then (n, Inl (NotLeader (n_leader_id n)))
      else let index = ml_last_index (n_log n) + 1;
               entry = entry_new (n_current_term n) index command
           in and_then (log_op n (ml_append (n_log n) [entry])) (\<lambda>n _.
              and_then (log_op n (ml_sync (n_log n))) (\<lambda>n _.
                let (n1, acts1) = replicate_to_streaming n [];
                    (n2, acts2) = advance_commit n1 acts1
                in (n2, Inr acts2))))"

subsection \<open>Leadership transfer\<close>

definition maybe_send_timeout_now :: "node_id \<Rightarrow> node \<Rightarrow> action list \<Rightarrow> ctx" where
  "maybe_send_timeout_now target n acts =
     (if n_transfer_target n \<noteq> Some target then (n, acts)
      else let caught_up = (case progress_index n target of
                 Some i \<Rightarrow> ml_last_index (n_log n) \<le> pr_match_index (n_progress n ! i)
               | None \<Rightarrow> False)
           in if caught_up
              then (n\<lparr>n_transfer_target := None\<rparr>,
                    acts @ [Send target (TimeoutNow
                              \<lparr>tn_term = n_current_term n, tn_leader = n_id n\<rparr>)])
              else (n, acts))"

definition transfer_leadership :: "node \<Rightarrow> node_id \<Rightarrow> node \<times> (rerror + action list)" where
  "transfer_leadership n target =
     (if n_role n \<noteq> Leader \<or> target = n_id n \<or> target \<notin> set (n_voters n) then (n, Inr [])
      else let n1 = n\<lparr>n_transfer_target := Some target\<rparr>;
               (n2, acts2) = maybe_send_timeout_now target n1 [];
               (n3, acts3) = (if n_transfer_target n2 \<noteq> None
                              then (case progress_index n2 target of
                                      Some i \<Rightarrow> send_append i n2 acts2
                                    | None \<Rightarrow> (n2, acts2))
                              else (n2, acts2))
           in (n3, Inr acts3))"

subsection \<open>Membership changes\<close>

definition change_membership ::
  "node \<Rightarrow> node_id option \<Rightarrow> node_id option \<Rightarrow> node \<times> (rerror + action list)" where
  "change_membership n add remove =
     (if n_role n \<noteq> Leader \<or> n_transfer_target n \<noteq> None
      then (n, Inl (NotLeader (n_leader_id n)))
      else if n_commit_index n < n_config_index n then (n, Inl ConfigInProgress)
      else let ms0 = n_voters n;
               ms1 = (case add of Some i \<Rightarrow> if i \<in> set ms0 then ms0 else ms0 @ [i] | None \<Rightarrow> ms0);
               ms2 = (case remove of Some i \<Rightarrow> filter (\<lambda>m. m \<noteq> i) ms1 | None \<Rightarrow> ms1);
               ms = sorted_members ms2
           in if ms = n_voters n then (n, Inr [])
              else let index = ml_last_index (n_log n) + 1;
                       entry = entry_config (n_current_term n) index ms
                   in and_then (log_op n (ml_append (n_log n) [entry])) (\<lambda>n _.
                      and_then (log_op n (ml_sync (n_log n))) (\<lambda>n _.
                        let (n1, acts1) = set_config n ms index [];
                            (n2, acts2) = replicate_to_all n1 acts1;
                            (n3, acts3) = advance_commit n2 acts2
                        in (n3, Inr acts3))))"

subsection \<open>Conflict hints\<close>

function first_index_of_term :: "memory_log \<Rightarrow> raft_term \<Rightarrow> raft_index \<Rightarrow> raft_index" where
  "first_index_of_term l t i =
     (if 1 < i \<and> ml_term_at l (i - 1) = Some t then first_index_of_term l t (i - 1) else i)"
  by pat_completeness auto
termination
  by (relation "measure (\<lambda>(l, t, i). unat i)") (auto simp: unat_minus_one_less)

declare first_index_of_term.simps [simp del]

function last_index_of_term_from ::
  "memory_log \<Rightarrow> raft_term \<Rightarrow> raft_index \<Rightarrow> raft_index option" where
  "last_index_of_term_from l t i =
     (if 1 \<le> i
      then (case ml_term_at l i of
              Some t' \<Rightarrow> if t' = t then Some i
                         else if t' < t then None
                         else last_index_of_term_from l t (i - 1)
            | None \<Rightarrow> last_index_of_term_from l t (i - 1))
      else None)"
  by pat_completeness auto
termination
proof (relation "measure (\<lambda>(l, t, i). unat i)", goal_cases)
  case (2 l t i)
  then have "0 < i" by (metis word_gt_0 word_le_0_iff zero_neq_one)
  then show ?case by (simp add: unat_minus_one_less)
next
  case (3 l t i)
  then have "0 < i" by (metis word_gt_0 word_le_0_iff zero_neq_one)
  then show ?case by (simp add: unat_minus_one_less)
qed simp

declare last_index_of_term_from.simps [simp del]

definition last_index_of_term :: "memory_log \<Rightarrow> raft_term \<Rightarrow> raft_index option" where
  "last_index_of_term l t = last_index_of_term_from l t (ml_last_index l)"

text \<open>\<open>Ord::clamp\<close>, whose panic on \<open>max < min\<close> is ruled out below.\<close>

definition clamp :: "raft_index \<Rightarrow> raft_index \<Rightarrow> raft_index \<Rightarrow> raft_index" where
  "clamp x lo hi = (if x < lo then lo else if hi < x then hi else x)"

text \<open>The lower and the upper bound a leader clamps its next try to.\<close>

definition rejected_range :: "raft_index \<Rightarrow> raft_index \<Rightarrow> raft_index \<times> raft_index" where
  "rejected_range current_next match_index =
     (let lower = match_index + 1
      in (lower, max (if current_next < 1 then 0 else current_next - 1) lower))"

definition rejected_next ::
  "node \<Rightarrow> raft_index \<Rightarrow> raft_index \<Rightarrow> raft_index \<Rightarrow> raft_term \<Rightarrow> raft_index" where
  "rejected_next n current_next match_index conflict_index conflict_term =
     (let (lower, ceil) = rejected_range current_next match_index;
          target = max conflict_index 1;
          target' = (if 0 < conflict_term
                     then (case last_index_of_term (n_log n) conflict_term of
                             Some last_i \<Rightarrow> last_i + 1 | None \<Rightarrow> target)
                     else target)
      in clamp target' lower ceil)"

subsection \<open>Replies\<close>

definition handle_append_reply :: "append_entries_reply \<Rightarrow> node \<Rightarrow> action list \<Rightarrow> ctx" where
  "handle_append_reply reply n acts =
     (if n_role n \<noteq> Leader \<or> aer_term reply \<noteq> n_current_term n then (n, acts)
      else case progress_index n (aer_from reply) of
        None \<Rightarrow> (n, acts)
      | Some i \<Rightarrow>
          if aer_success reply
          then let n1 = (if pr_match_index (n_progress n ! i) < aer_match_index reply
                         then upd_progress i (\<lambda>p. p\<lparr>pr_match_index := aer_match_index reply\<rparr>) n
                         else n);
                   want_next = pr_match_index (n_progress n1 ! i) + 1;
                   n2 = (if pr_next_index (n_progress n1 ! i) < want_next
                         then upd_progress i (\<lambda>p. p\<lparr>pr_next_index := want_next\<rparr>) n1 else n1);
                   n3 = upd_progress i (\<lambda>p. p\<lparr>pr_state := Replicate\<rparr>) n2;
                   (n4, acts4) = advance_commit n3 acts;
                   (n5, acts5) = maybe_send_timeout_now (aer_from reply) n4 acts4
               in if n_role n5 = Leader
                     \<and> pr_next_index (n_progress n5 ! i) \<le> ml_last_index (n_log n5)
                  then send_append i n5 acts5 else (n5, acts5)
          else let next = pr_next_index (n_progress n ! i);
                   matched = pr_match_index (n_progress n ! i);
                   n1 = upd_progress i (\<lambda>p. p\<lparr>pr_next_index :=
                          rejected_next n next matched (aer_conflict_index reply)
                            (aer_conflict_term reply)\<rparr>) n;
                   n2 = upd_progress i (\<lambda>p. p\<lparr>pr_state := Probe\<rparr>) n1
               in send_append i n2 acts)"

definition handle_install_snapshot_reply ::
  "install_snapshot_reply \<Rightarrow> node \<Rightarrow> action list \<Rightarrow> ctx" where
  "handle_install_snapshot_reply reply n acts =
     (if n_role n \<noteq> Leader \<or> insr_term reply \<noteq> n_current_term n then (n, acts)
      else case progress_index n (insr_from reply) of
        None \<Rightarrow> (n, acts)
      | Some i \<Rightarrow>
          let n1 = (if pr_match_index (n_progress n ! i) < insr_last_index reply
                    then upd_progress i (\<lambda>p. p\<lparr>pr_match_index := insr_last_index reply\<rparr>) n
                    else n);
              n2 = upd_progress i (\<lambda>p. p\<lparr>pr_next_index := pr_match_index p + 1\<rparr>) n1;
              n3 = upd_progress i (\<lambda>p. p\<lparr>pr_state := Replicate\<rparr>) n2;
              (n4, acts4) = advance_commit n3 acts;
              (n5, acts5) = maybe_send_timeout_now (insr_from reply) n4 acts4
          in if n_role n5 = Leader
                \<and> pr_next_index (n_progress n5 ! i) \<le> ml_last_index (n_log n5)
             then send_append i n5 acts5 else (n5, acts5))"

end
