(* ===== verification/Node_Step.thy ===== *)
theory Node_Step
  imports Node_Replication
begin

text \<open>
  Elections, the message handlers and the \<open>step\<close> function of \<^verbatim>\<open>src/node.rs\<close>: the whole
  transition function of a node. Definitions only.
\<close>

subsection \<open>Elections\<close>

definition become_leader :: "node \<Rightarrow> action list \<Rightarrow> ctx" where
  "become_leader n acts =
     (let n1 = n\<lparr>n_role := Leader, n_leader_id := Some (n_id n), n_heartbeat_elapsed := 0,
                 n_transfer_target := None, n_pre_voting := False, n_pre_votes := []\<rparr>;
          n2 = rebuild_progress n1;
          (n3, acts3) = replicate_to_all n2 acts
      in advance_commit n3 acts3)"

definition start_election :: "bool \<Rightarrow> node \<Rightarrow> action list \<Rightarrow> unit fallible" where
  "start_election force n acts =
     (let n1 = n\<lparr>n_role := Candidate, n_current_term := n_current_term n + 1,
                 n_voted_for := Some (n_id n), n_leader_id := None,
                 n_transfer_target := None, n_pre_voting := False, n_pre_votes := [],
                 n_progress := [], n_votes := [n_id n]\<rparr>;
          n2 = reset_election_timer n1
      in and_then (with_acts acts (persist_hard_state n2)) (\<lambda>(n, acts) _.
           if quorum n \<le> length (n_votes n)
           then (become_leader n acts, Inr ())
           else ((n, acts @ map (\<lambda>peer. Send peer (RequestVote
                    \<lparr>rv_term = n_current_term n, rv_candidate = n_id n,
                     rv_last_log_index = ml_last_index (n_log n),
                     rv_last_log_term = ml_last_term (n_log n), rv_force = force\<rparr>))
                   (filter (\<lambda>peer. peer \<noteq> n_id n) (n_voters n))), Inr ())))"

definition start_pre_vote :: "node \<Rightarrow> action list \<Rightarrow> unit fallible" where
  "start_pre_vote n acts =
     (let n1 = n\<lparr>n_role := Follower, n_leader_id := None, n_pre_voting := True,
                 n_pre_votes := [n_id n]\<rparr>;
          n2 = reset_election_timer n1
      in if quorum n2 \<le> length (n_pre_votes n2) then start_election False n2 acts
         else ((n2, acts @ map (\<lambda>peer. Send peer (PreVote
                  \<lparr>pv_term = n_current_term n2 + 1, pv_candidate = n_id n2,
                   pv_last_log_index = ml_last_index (n_log n2),
                   pv_last_log_term = ml_last_term (n_log n2)\<rparr>))
                 (filter (\<lambda>peer. peer \<noteq> n_id n2) (n_voters n2))), Inr ()))"

definition tick :: "node \<Rightarrow> unit fallible" where
  "tick n =
     (if n_role n = Leader
      then let n1 = n\<lparr>n_heartbeat_elapsed := n_heartbeat_elapsed n + 1\<rparr>
           in if n_heartbeat_interval n1 \<le> n_heartbeat_elapsed n1
              then (replicate_to_all (n1\<lparr>n_heartbeat_elapsed := 0\<rparr>) [], Inr ())
              else ((n1, []), Inr ())
      else let n1 = n\<lparr>n_election_elapsed := n_election_elapsed n + 1\<rparr>
           in if n_election_timeout n1 \<le> n_election_elapsed n1 \<and> is_voter n1
              then start_pre_vote n1 []
              else ((n1, []), Inr ()))"

definition become_follower :: "raft_term \<Rightarrow> node_id option \<Rightarrow> node \<Rightarrow> node \<times> (rerror + unit)" where
  "become_follower t leader n =
     (let hard_state_changed = n_current_term n < t;
          n1 = n\<lparr>n_role := Follower\<rparr>;
          n2 = (if n_current_term n1 < t
                then n1\<lparr>n_current_term := t, n_voted_for := None\<rparr> else n1);
          n3 = n2\<lparr>n_leader_id := leader, n_transfer_target := None, n_pre_voting := False,
                  n_pre_votes := [], n_votes := [], n_progress := []\<rparr>
      in if hard_state_changed then persist_hard_state n3 else (n3, Inr ()))"

definition candidate_log_up_to_date :: "node \<Rightarrow> raft_term \<Rightarrow> raft_index \<Rightarrow> bool" where
  "candidate_log_up_to_date n cand_last_term cand_last_index =
     (let my_term = ml_last_term (n_log n); my_index = ml_last_index (n_log n)
      in my_term < cand_last_term
         \<or> (cand_last_term = my_term \<and> my_index \<le> cand_last_index))"

definition handle_request_vote :: "request_vote \<Rightarrow> node \<Rightarrow> action list \<Rightarrow> unit fallible" where
  "handle_request_vote rv n acts =
     (let reply = (\<lambda>n granted. Send (rv_candidate rv) (RequestVoteReply
              \<lparr>rvr_term = n_current_term n, rvr_vote_granted = granted, rvr_from = n_id n\<rparr>))
      in if n_current_term n \<le> rv_term rv
            \<and> (case n_voted_for n of None \<Rightarrow> True | Some c \<Rightarrow> c = rv_candidate rv)
            \<and> candidate_log_up_to_date n (rv_last_log_term rv) (rv_last_log_index rv)
         then let n1 = n\<lparr>n_voted_for := Some (rv_candidate rv)\<rparr>
              in and_then (with_acts acts (persist_hard_state n1)) (\<lambda>(n, acts) _.
                   let n2 = reset_election_timer n
                   in ((n2, acts @ [reply n2 True]), Inr ()))
         else ((n, acts @ [reply n False]), Inr ()))"

definition handle_vote_reply :: "request_vote_reply \<Rightarrow> node \<Rightarrow> action list \<Rightarrow> ctx" where
  "handle_vote_reply reply n acts =
     (if n_role n \<noteq> Candidate \<or> rvr_term reply \<noteq> n_current_term n then (n, acts)
      else if rvr_vote_granted reply \<and> rvr_from reply \<notin> set (n_votes n)
      then let n1 = n\<lparr>n_votes := n_votes n @ [rvr_from reply]\<rparr>
           in if quorum n1 \<le> length (n_votes n1) then become_leader n1 acts else (n1, acts)
      else (n, acts))"

definition have_active_leader :: "'l raft_node \<Rightarrow> bool" where
  "have_active_leader n \<longleftrightarrow>
     n_leader_id n \<noteq> None \<and> n_election_elapsed n < n_election_timeout_min n"

definition handle_pre_vote :: "pre_vote \<Rightarrow> node \<Rightarrow> action list \<Rightarrow> ctx" where
  "handle_pre_vote pv n acts =
     (let granted = (n_current_term n \<le> pv_term pv \<and> \<not> have_active_leader n
            \<and> candidate_log_up_to_date n (pv_last_log_term pv) (pv_last_log_index pv))
      in (n, acts @ [Send (pv_candidate pv) (PreVoteReply
            \<lparr>pvr_term = n_current_term n, pvr_vote_granted = granted, pvr_from = n_id n\<rparr>)]))"

definition handle_pre_vote_reply :: "pre_vote_reply \<Rightarrow> node \<Rightarrow> action list \<Rightarrow> unit fallible" where
  "handle_pre_vote_reply reply n acts =
     (if \<not> n_pre_voting n then ((n, acts), Inr ())
      else if n_current_term n < pvr_term reply
      then with_acts acts (become_follower (pvr_term reply) None
                             (n\<lparr>n_pre_voting := False, n_pre_votes := []\<rparr>))
      else if pvr_vote_granted reply \<and> pvr_from reply \<notin> set (n_pre_votes n)
      then let n1 = n\<lparr>n_pre_votes := n_pre_votes n @ [pvr_from reply]\<rparr>
           in if quorum n1 \<le> length (n_pre_votes n1)
              then start_election False n1 acts else ((n1, acts), Inr ())
      else ((n, acts), Inr ()))"

definition handle_timeout_now :: "timeout_now \<Rightarrow> node \<Rightarrow> action list \<Rightarrow> unit fallible" where
  "handle_timeout_now rpc n acts =
     (if tn_term rpc < n_current_term n \<or> \<not> is_voter n then ((n, acts), Inr ())
      else start_election True n acts)"

subsection \<open>AppendEntries on the follower\<close>

fun reconcile_scan ::
  "memory_log \<Rightarrow> log_entry list \<Rightarrow> memory_log \<times> (rerror + log_entry list \<times> bool)" where
  "reconcile_scan l [] = (l, Inr ([], False))"
| "reconcile_scan l (e # es) =
     (case ml_term_at l (le_index e) of
        Some t \<Rightarrow>
          if t = le_term e then reconcile_scan l es
          else and_then (ml_truncate l (le_index e)) (\<lambda>l _. (l, Inr (e # es, True)))
      | None \<Rightarrow> (l, Inr (e # es, False)))"

definition append_from_leader ::
  "log_entry list \<Rightarrow> memory_log \<Rightarrow> memory_log \<times> (rerror + raft_index \<times> bool)" where
  "append_from_leader es l =
     and_then (reconcile_scan l es) (\<lambda>l (rest, truncated).
       if rest \<noteq> []
       then and_then (ml_append l rest) (\<lambda>l _.
            and_then (ml_sync l) (\<lambda>l _. (l, Inr (le_index (last es), truncated))))
       else (l, Inr (le_index (last es), truncated)))"

definition ae_reply ::
  "'l raft_node \<Rightarrow> append_entries \<Rightarrow> bool \<Rightarrow> raft_index \<Rightarrow> raft_index \<Rightarrow> raft_term \<Rightarrow> action" where
  "ae_reply n ae success match_index conflict_index conflict_term =
     Send (ae_leader ae) (AppendEntriesReply
       \<lparr>aer_term = n_current_term n, aer_success = success, aer_from = n_id n,
        aer_match_index = match_index, aer_conflict_index = conflict_index,
        aer_conflict_term = conflict_term\<rparr>)"

definition handle_append_entries :: "append_entries \<Rightarrow> node \<Rightarrow> action list \<Rightarrow> unit fallible" where
  "handle_append_entries ae n acts =
     (if ae_term ae < n_current_term n
      then ((n, acts @ [ae_reply n ae False 0 0 0]), Inr ())
      else
        let n1 = reset_election_timer
                   (n\<lparr>n_role := Follower, n_leader_id := Some (ae_leader ae),
                      n_pre_voting := False\<rparr>);
            base = ml_snapshot_index (n_log n1)
        in if ae_prev_log_index ae < base
           then let (n2, acts2) =
                      (if n_commit_index n1 < ae_leader_commit ae
                       then drain_applies
                              (n1\<lparr>n_commit_index := min (ae_leader_commit ae) base\<rparr>) acts
                       else (n1, acts))
                in ((n2, acts2 @ [ae_reply n2 ae True base 0 0]), Inr ())
           else if ml_term_at (n_log n1) (ae_prev_log_index ae) \<noteq> Some (ae_prev_log_term ae)
           then let last_i = ml_last_index (n_log n1)
                in if last_i < ae_prev_log_index ae
                   then ((n1, acts @ [ae_reply n1 ae False 0 (last_i + 1) 0]), Inr ())
                   else let conflict_term =
                              (case ml_term_at (n_log n1) (ae_prev_log_index ae) of
                                 Some t \<Rightarrow> t | None \<Rightarrow> 0)
                        in ((n1, acts @ [ae_reply n1 ae False 0
                               (first_index_of_term (n_log n1) conflict_term
                                  (ae_prev_log_index ae)) conflict_term]), Inr ())
           else and_then
                  (with_acts acts
                     (if ae_entries ae = [] then (n1, Inr (ae_prev_log_index ae, False))
                      else log_op n1 (append_from_leader (ae_entries ae) (n_log n1))))
                  (\<lambda>(n, acts) (match_index, truncated).
                     let (n2, acts2) =
                           (if truncated \<or> list_ex (\<lambda>e. members e \<noteq> None) (ae_entries ae)
                            then refresh_config n acts else (n, acts));
                         (n3, acts3) =
                           (if n_commit_index n2 < ae_leader_commit ae
                            then drain_applies
                                   (n2\<lparr>n_commit_index := min (ae_leader_commit ae) match_index\<rparr>)
                                   acts2
                            else (n2, acts2))
                     in ((n3, acts3 @ [ae_reply n3 ae True match_index 0 0]), Inr ())))"

subsection \<open>Snapshots\<close>

definition handle_snapshot_event ::
  "raft_index \<Rightarrow> byte list \<Rightarrow> node \<Rightarrow> node \<times> (rerror + action list)" where
  "handle_snapshot_event index data n =
     (if n_commit_index n < index \<or> n_last_applied n < index
         \<or> index \<le> ml_snapshot_index (n_log n)
      then (n, Inr [])
      else case ml_term_at (n_log n) index of
        None \<Rightarrow> (n, Inr [])
      | Some t \<Rightarrow>
          let config = config_at n index;
              n1 = n\<lparr>n_base_config := config\<rparr>
          in and_then (log_op n1 (ml_apply_snapshot (n_log n1)
                         (snapshot_with_config index t config data))) (\<lambda>n _.
             and_then (log_op n (ml_sync (n_log n))) (\<lambda>n _.
               let n2 = (if n_snapshot_hinted_at n < index
                         then n\<lparr>n_snapshot_hinted_at := index\<rparr> else n);
                   (n3, acts3) = refresh_config n2 []
               in (n3, Inr acts3))))"

definition handle_install_snapshot :: "install_snapshot \<Rightarrow> node \<Rightarrow> action list \<Rightarrow> unit fallible" where
  "handle_install_snapshot rpc n acts =
     (let reply = (\<lambda>n last_index. Send (ins_leader rpc) (InstallSnapshotReply
              \<lparr>insr_term = n_current_term n, insr_from = n_id n, insr_last_index = last_index\<rparr>))
      in if ins_term rpc < n_current_term n
         then ((n, acts @ [reply n 0]), Inr ())
         else
           let n1 = reset_election_timer
                      (n\<lparr>n_role := Follower, n_leader_id := Some (ins_leader rpc),
                         n_pre_voting := False\<rparr>);
               snap = ins_snapshot rpc;
               snap_index = sn_index snap
           in and_then
                (if ml_snapshot_index (n_log n1) < snap_index \<and> n_commit_index n1 < snap_index
                 then let n2 = (if sn_config snap \<noteq> []
                                then n1\<lparr>n_base_config := sn_config snap\<rparr> else n1)
                      in and_then (with_acts acts (log_op n2 (ml_apply_snapshot (n_log n2) snap)))
                           (\<lambda>(n, acts) _.
                         and_then (with_acts acts (log_op n (ml_sync (n_log n)))) (\<lambda>(n, acts) _.
                           let n3 = n\<lparr>n_commit_index := snap_index, n_last_applied := snap_index\<rparr>;
                               n4 = (if n_snapshot_hinted_at n3 < snap_index
                                     then n3\<lparr>n_snapshot_hinted_at := snap_index\<rparr> else n3);
                               (n5, acts5) = refresh_config n4 acts
                           in ((n5, acts5 @ [RestoreSnapshot snap_index (sn_term snap)
                                               (sn_data snap)]), Inr ())))
                 else ((n1, acts), Inr ()))
                (\<lambda>(n, acts) _.
                   let last_index = max (ml_snapshot_index (n_log n))
                                        (min snap_index (n_commit_index n))
                   in ((n, acts @ [reply n last_index]), Inr ())))"

subsection \<open>Dispatch\<close>

definition sticky :: "message \<Rightarrow> 'l raft_node \<Rightarrow> bool" where
  "sticky m n \<longleftrightarrow>
     (case m of RequestVote rv \<Rightarrow> \<not> rv_force rv | _ \<Rightarrow> False)
   \<and> n_leader_id n \<noteq> None \<and> n_election_elapsed n < n_election_timeout_min n"

definition dispatch :: "message \<Rightarrow> node \<Rightarrow> action list \<Rightarrow> unit fallible" where
  "dispatch m n acts =
     (case m of
        RequestVote rv \<Rightarrow> handle_request_vote rv n acts
      | RequestVoteReply r \<Rightarrow> (handle_vote_reply r n acts, Inr ())
      | AppendEntries ae \<Rightarrow> handle_append_entries ae n acts
      | AppendEntriesReply r \<Rightarrow> (handle_append_reply r n acts, Inr ())
      | InstallSnapshot rpc \<Rightarrow> handle_install_snapshot rpc n acts
      | InstallSnapshotReply r \<Rightarrow> (handle_install_snapshot_reply r n acts, Inr ())
      | TimeoutNow rpc \<Rightarrow> handle_timeout_now rpc n acts
      | PreVote _ \<Rightarrow> ((n, acts), Inr ())
      | PreVoteReply _ \<Rightarrow> ((n, acts), Inr ()))"

definition handle_message :: "message \<Rightarrow> node \<Rightarrow> unit fallible" where
  "handle_message m n =
     (if sticky m n then ((n, []), Inr ())
      else case m of
        PreVote pv \<Rightarrow> (handle_pre_vote pv n [], Inr ())
      | PreVoteReply r \<Rightarrow> handle_pre_vote_reply r n []
      | _ \<Rightarrow>
          and_then (with_acts [] (if n_current_term n < message_term m
                                  then become_follower (message_term m) None n
                                  else (n, Inr ())))
            (\<lambda>(n, acts) _. dispatch m n acts))"

text \<open>\<open>handle_message\<close> and \<open>tick\<close> end in \<open>Ok(actions)\<close>: on success the actions are
  returned, on an error they are dropped with the vector.\<close>

definition finish :: "('l, unit) fallible_of \<Rightarrow> 'l raft_node \<times> (rerror + action list)" where
  "finish m = (case m of ((n, acts), r) \<Rightarrow> (n, case r of Inl e \<Rightarrow> Inl e | Inr _ \<Rightarrow> Inr acts))"

definition step :: "event \<Rightarrow> node \<Rightarrow> node \<times> (rerror + action list)" where
  "step ev n =
     (case ev of
        Tick \<Rightarrow> finish (tick n)
      | Message m \<Rightarrow> finish (handle_message m n)
      | Propose c \<Rightarrow> propose n c
      | SnapshotEvent i d \<Rightarrow> handle_snapshot_event i d n
      | AddServer i \<Rightarrow> change_membership n (Some i) None
      | RemoveServer i \<Rightarrow> change_membership n None (Some i)
      | TransferLeadership t \<Rightarrow> transfer_leadership n t)"

text \<open>The actions a call hands to its host, none on an error.\<close>

definition result_actions :: "rerror + action list \<Rightarrow> action list" where
  "result_actions r = (case r of Inl _ \<Rightarrow> [] | Inr acts \<Rightarrow> acts)"

lemma finish_ok [simp]: "finish ((n, acts), Inr u) = (n, Inr acts)"
  by (simp add: finish_def)

lemma finish_err [simp]: "finish ((n, acts), Inl e) = (n, Inl e)"
  by (simp add: finish_def)

end
