(* ===== verification/Node_Frame.thy ===== *)
theory Node_Frame
  imports Node_Step
begin

text \<open>
  Which fields of the node each operation of \<^verbatim>\<open>src/node.rs\<close> leaves alone, and which kinds
  of message it cannot emit: one bundle of equations per operation, collected in
  \<open>frame_simps\<close>, so that the proofs about \<open>step\<close> only look at the operations that
  write the fields they are about.
\<close>

subsection \<open>Folds\<close>

lemma fold_frame: "(\<And>i s. P (g i s) = P s) \<Longrightarrow> P (fold g is s) = P s"
  by (induction "is" arbitrary: s) auto

subsection \<open>The node\<close>

lemma drain_loop_node:
  "fst (drain_loop n acts) = n\<lparr>n_last_applied := max (n_last_applied n) (n_commit_index n)\<rparr>"
proof (induction n acts rule: drain_loop.induct)
  case (1 n acts)
  show ?case
  proof (cases "n_last_applied n < n_commit_index n")
    case True
    then have "n_last_applied n + 1 \<le> n_commit_index n" by (rule inc_le)
    with 1 True show ?thesis by (simp add: drain_loop.simps[of n] Let_def max_def)
  next
    case False
    then show ?thesis by (simp add: drain_loop.simps[of n] max_def)
  qed
qed

lemma maybe_hint_frame [frame_simps]:
  "n_id (fst (maybe_hint_snapshot n acts)) = n_id n"
  "n_voters (fst (maybe_hint_snapshot n acts)) = n_voters n"
  "n_base_config (fst (maybe_hint_snapshot n acts)) = n_base_config n"
  "n_config_index (fst (maybe_hint_snapshot n acts)) = n_config_index n"
  "n_election_timeout_min (fst (maybe_hint_snapshot n acts)) = n_election_timeout_min n"
  "n_election_timeout_max (fst (maybe_hint_snapshot n acts)) = n_election_timeout_max n"
  "n_heartbeat_interval (fst (maybe_hint_snapshot n acts)) = n_heartbeat_interval n"
  "n_max_batch (fst (maybe_hint_snapshot n acts)) = n_max_batch n"
  "n_snapshot_threshold (fst (maybe_hint_snapshot n acts)) = n_snapshot_threshold n"
  "n_log (fst (maybe_hint_snapshot n acts)) = n_log n"
  "n_role (fst (maybe_hint_snapshot n acts)) = n_role n"
  "n_current_term (fst (maybe_hint_snapshot n acts)) = n_current_term n"
  "n_voted_for (fst (maybe_hint_snapshot n acts)) = n_voted_for n"
  "n_leader_id (fst (maybe_hint_snapshot n acts)) = n_leader_id n"
  "n_commit_index (fst (maybe_hint_snapshot n acts)) = n_commit_index n"
  "n_last_applied (fst (maybe_hint_snapshot n acts)) = n_last_applied n"
  "n_election_elapsed (fst (maybe_hint_snapshot n acts)) = n_election_elapsed n"
  "n_heartbeat_elapsed (fst (maybe_hint_snapshot n acts)) = n_heartbeat_elapsed n"
  "n_election_timeout (fst (maybe_hint_snapshot n acts)) = n_election_timeout n"
  "n_votes (fst (maybe_hint_snapshot n acts)) = n_votes n"
  "n_pre_voting (fst (maybe_hint_snapshot n acts)) = n_pre_voting n"
  "n_pre_votes (fst (maybe_hint_snapshot n acts)) = n_pre_votes n"
  "n_progress (fst (maybe_hint_snapshot n acts)) = n_progress n"
  "n_transfer_target (fst (maybe_hint_snapshot n acts)) = n_transfer_target n"
  "n_rng (fst (maybe_hint_snapshot n acts)) = n_rng n"
  by (simp_all add: maybe_hint_snapshot_def Let_def split: option.split)

lemma drain_applies_frame [frame_simps]:
  "n_id (fst (drain_applies n acts)) = n_id n"
  "n_voters (fst (drain_applies n acts)) = n_voters n"
  "n_base_config (fst (drain_applies n acts)) = n_base_config n"
  "n_config_index (fst (drain_applies n acts)) = n_config_index n"
  "n_election_timeout_min (fst (drain_applies n acts)) = n_election_timeout_min n"
  "n_election_timeout_max (fst (drain_applies n acts)) = n_election_timeout_max n"
  "n_heartbeat_interval (fst (drain_applies n acts)) = n_heartbeat_interval n"
  "n_max_batch (fst (drain_applies n acts)) = n_max_batch n"
  "n_snapshot_threshold (fst (drain_applies n acts)) = n_snapshot_threshold n"
  "n_log (fst (drain_applies n acts)) = n_log n"
  "n_role (fst (drain_applies n acts)) = n_role n"
  "n_current_term (fst (drain_applies n acts)) = n_current_term n"
  "n_voted_for (fst (drain_applies n acts)) = n_voted_for n"
  "n_leader_id (fst (drain_applies n acts)) = n_leader_id n"
  "n_commit_index (fst (drain_applies n acts)) = n_commit_index n"
  "n_election_elapsed (fst (drain_applies n acts)) = n_election_elapsed n"
  "n_heartbeat_elapsed (fst (drain_applies n acts)) = n_heartbeat_elapsed n"
  "n_election_timeout (fst (drain_applies n acts)) = n_election_timeout n"
  "n_votes (fst (drain_applies n acts)) = n_votes n"
  "n_pre_voting (fst (drain_applies n acts)) = n_pre_voting n"
  "n_pre_votes (fst (drain_applies n acts)) = n_pre_votes n"
  "n_progress (fst (drain_applies n acts)) = n_progress n"
  "n_transfer_target (fst (drain_applies n acts)) = n_transfer_target n"
  "n_rng (fst (drain_applies n acts)) = n_rng n"
  by (simp_all add: drain_applies_def case_prod_unfold maybe_hint_frame drain_loop_node)

lemma advance_commit_frame [frame_simps]:
  "n_id (fst (advance_commit n acts)) = n_id n"
  "n_voters (fst (advance_commit n acts)) = n_voters n"
  "n_base_config (fst (advance_commit n acts)) = n_base_config n"
  "n_config_index (fst (advance_commit n acts)) = n_config_index n"
  "n_election_timeout_min (fst (advance_commit n acts)) = n_election_timeout_min n"
  "n_election_timeout_max (fst (advance_commit n acts)) = n_election_timeout_max n"
  "n_heartbeat_interval (fst (advance_commit n acts)) = n_heartbeat_interval n"
  "n_max_batch (fst (advance_commit n acts)) = n_max_batch n"
  "n_snapshot_threshold (fst (advance_commit n acts)) = n_snapshot_threshold n"
  "n_log (fst (advance_commit n acts)) = n_log n"
  "n_current_term (fst (advance_commit n acts)) = n_current_term n"
  "n_voted_for (fst (advance_commit n acts)) = n_voted_for n"
  "n_election_elapsed (fst (advance_commit n acts)) = n_election_elapsed n"
  "n_heartbeat_elapsed (fst (advance_commit n acts)) = n_heartbeat_elapsed n"
  "n_election_timeout (fst (advance_commit n acts)) = n_election_timeout n"
  "n_rng (fst (advance_commit n acts)) = n_rng n"
  by (simp_all add: advance_commit_def Let_def case_prod_unfold drain_applies_frame
      step_down_to_follower_def)

text \<open>\<open>advance_commit\<close> keeps the role, or steps down; a leader that stays one keeps its
  votes, its progress and its transfer.\<close>

lemma advance_commit_role:
  "n_role (fst (advance_commit n acts)) = n_role n \<and> n_votes (fst (advance_commit n acts)) = n_votes n
     \<and> n_progress (fst (advance_commit n acts)) = n_progress n
     \<and> n_transfer_target (fst (advance_commit n acts)) = n_transfer_target n
   \<or> n_role (fst (advance_commit n acts)) = Follower \<and> n_progress (fst (advance_commit n acts)) = []
     \<and> n_transfer_target (fst (advance_commit n acts)) = None \<and> \<not> is_voter n"
  by (auto simp: advance_commit_def Let_def case_prod_unfold drain_applies_frame is_voter_def
      step_down_to_follower_def)

lemma upd_progress_frame [frame_simps]:
  "n_id (upd_progress i f n) = n_id n"
  "n_voters (upd_progress i f n) = n_voters n"
  "n_base_config (upd_progress i f n) = n_base_config n"
  "n_config_index (upd_progress i f n) = n_config_index n"
  "n_election_timeout_min (upd_progress i f n) = n_election_timeout_min n"
  "n_election_timeout_max (upd_progress i f n) = n_election_timeout_max n"
  "n_heartbeat_interval (upd_progress i f n) = n_heartbeat_interval n"
  "n_max_batch (upd_progress i f n) = n_max_batch n"
  "n_snapshot_threshold (upd_progress i f n) = n_snapshot_threshold n"
  "n_log (upd_progress i f n) = n_log n"
  "n_role (upd_progress i f n) = n_role n"
  "n_current_term (upd_progress i f n) = n_current_term n"
  "n_voted_for (upd_progress i f n) = n_voted_for n"
  "n_leader_id (upd_progress i f n) = n_leader_id n"
  "n_commit_index (upd_progress i f n) = n_commit_index n"
  "n_last_applied (upd_progress i f n) = n_last_applied n"
  "n_election_elapsed (upd_progress i f n) = n_election_elapsed n"
  "n_heartbeat_elapsed (upd_progress i f n) = n_heartbeat_elapsed n"
  "n_election_timeout (upd_progress i f n) = n_election_timeout n"
  "n_votes (upd_progress i f n) = n_votes n"
  "n_pre_voting (upd_progress i f n) = n_pre_voting n"
  "n_pre_votes (upd_progress i f n) = n_pre_votes n"
  "n_snapshot_hinted_at (upd_progress i f n) = n_snapshot_hinted_at n"
  "n_transfer_target (upd_progress i f n) = n_transfer_target n"
  "n_rng (upd_progress i f n) = n_rng n"
  by (simp_all add: upd_progress_def)

lemma send_append_frame [frame_simps]:
  "n_id (fst (send_append i n acts)) = n_id n"
  "n_voters (fst (send_append i n acts)) = n_voters n"
  "n_base_config (fst (send_append i n acts)) = n_base_config n"
  "n_config_index (fst (send_append i n acts)) = n_config_index n"
  "n_election_timeout_min (fst (send_append i n acts)) = n_election_timeout_min n"
  "n_election_timeout_max (fst (send_append i n acts)) = n_election_timeout_max n"
  "n_heartbeat_interval (fst (send_append i n acts)) = n_heartbeat_interval n"
  "n_max_batch (fst (send_append i n acts)) = n_max_batch n"
  "n_snapshot_threshold (fst (send_append i n acts)) = n_snapshot_threshold n"
  "n_log (fst (send_append i n acts)) = n_log n"
  "n_role (fst (send_append i n acts)) = n_role n"
  "n_current_term (fst (send_append i n acts)) = n_current_term n"
  "n_voted_for (fst (send_append i n acts)) = n_voted_for n"
  "n_leader_id (fst (send_append i n acts)) = n_leader_id n"
  "n_commit_index (fst (send_append i n acts)) = n_commit_index n"
  "n_last_applied (fst (send_append i n acts)) = n_last_applied n"
  "n_election_elapsed (fst (send_append i n acts)) = n_election_elapsed n"
  "n_heartbeat_elapsed (fst (send_append i n acts)) = n_heartbeat_elapsed n"
  "n_election_timeout (fst (send_append i n acts)) = n_election_timeout n"
  "n_votes (fst (send_append i n acts)) = n_votes n"
  "n_pre_voting (fst (send_append i n acts)) = n_pre_voting n"
  "n_pre_votes (fst (send_append i n acts)) = n_pre_votes n"
  "n_snapshot_hinted_at (fst (send_append i n acts)) = n_snapshot_hinted_at n"
  "n_transfer_target (fst (send_append i n acts)) = n_transfer_target n"
  "n_rng (fst (send_append i n acts)) = n_rng n"
  by (simp_all add: send_append_def send_snapshot_def Let_def upd_progress_frame split: option.split)

lemma send_append_ids:
  "map pr_id (n_progress (fst (send_append i n acts))) = map pr_id (n_progress n)"
proof -
  have "map pr_id (n_progress (upd_progress i f n)) = map pr_id (n_progress n)"
    if "\<And>p. pr_id (f p) = pr_id p" for f
    using that by (cases "i < length (n_progress n)")
      (auto simp: upd_progress_def map_update list_update_id[of _ i, symmetric] list_update_beyond
        simp del: list_update_id intro!: nth_equalityI simp: nth_list_update)
  then show ?thesis
    by (simp add: send_append_def send_snapshot_def Let_def split: option.split)
qed

lemma replicate_to_all_frame [frame_simps]:
  "n_id (fst (replicate_to_all n acts)) = n_id n"
  "n_voters (fst (replicate_to_all n acts)) = n_voters n"
  "n_base_config (fst (replicate_to_all n acts)) = n_base_config n"
  "n_config_index (fst (replicate_to_all n acts)) = n_config_index n"
  "n_election_timeout_min (fst (replicate_to_all n acts)) = n_election_timeout_min n"
  "n_election_timeout_max (fst (replicate_to_all n acts)) = n_election_timeout_max n"
  "n_heartbeat_interval (fst (replicate_to_all n acts)) = n_heartbeat_interval n"
  "n_max_batch (fst (replicate_to_all n acts)) = n_max_batch n"
  "n_snapshot_threshold (fst (replicate_to_all n acts)) = n_snapshot_threshold n"
  "n_log (fst (replicate_to_all n acts)) = n_log n"
  "n_role (fst (replicate_to_all n acts)) = n_role n"
  "n_current_term (fst (replicate_to_all n acts)) = n_current_term n"
  "n_voted_for (fst (replicate_to_all n acts)) = n_voted_for n"
  "n_leader_id (fst (replicate_to_all n acts)) = n_leader_id n"
  "n_commit_index (fst (replicate_to_all n acts)) = n_commit_index n"
  "n_last_applied (fst (replicate_to_all n acts)) = n_last_applied n"
  "n_election_elapsed (fst (replicate_to_all n acts)) = n_election_elapsed n"
  "n_heartbeat_elapsed (fst (replicate_to_all n acts)) = n_heartbeat_elapsed n"
  "n_election_timeout (fst (replicate_to_all n acts)) = n_election_timeout n"
  "n_votes (fst (replicate_to_all n acts)) = n_votes n"
  "n_pre_voting (fst (replicate_to_all n acts)) = n_pre_voting n"
  "n_pre_votes (fst (replicate_to_all n acts)) = n_pre_votes n"
  "n_snapshot_hinted_at (fst (replicate_to_all n acts)) = n_snapshot_hinted_at n"
  "n_transfer_target (fst (replicate_to_all n acts)) = n_transfer_target n"
  "n_rng (fst (replicate_to_all n acts)) = n_rng n"
  unfolding replicate_to_all_def
  by (subst fold_frame[where P = "\<lambda>s. f (fst s)" for f]; simp add: case_prod_unfold send_append_frame)+

lemma replicate_to_streaming_frame [frame_simps]:
  "n_id (fst (replicate_to_streaming n acts)) = n_id n"
  "n_voters (fst (replicate_to_streaming n acts)) = n_voters n"
  "n_base_config (fst (replicate_to_streaming n acts)) = n_base_config n"
  "n_config_index (fst (replicate_to_streaming n acts)) = n_config_index n"
  "n_election_timeout_min (fst (replicate_to_streaming n acts)) = n_election_timeout_min n"
  "n_election_timeout_max (fst (replicate_to_streaming n acts)) = n_election_timeout_max n"
  "n_heartbeat_interval (fst (replicate_to_streaming n acts)) = n_heartbeat_interval n"
  "n_max_batch (fst (replicate_to_streaming n acts)) = n_max_batch n"
  "n_snapshot_threshold (fst (replicate_to_streaming n acts)) = n_snapshot_threshold n"
  "n_log (fst (replicate_to_streaming n acts)) = n_log n"
  "n_role (fst (replicate_to_streaming n acts)) = n_role n"
  "n_current_term (fst (replicate_to_streaming n acts)) = n_current_term n"
  "n_voted_for (fst (replicate_to_streaming n acts)) = n_voted_for n"
  "n_leader_id (fst (replicate_to_streaming n acts)) = n_leader_id n"
  "n_commit_index (fst (replicate_to_streaming n acts)) = n_commit_index n"
  "n_last_applied (fst (replicate_to_streaming n acts)) = n_last_applied n"
  "n_election_elapsed (fst (replicate_to_streaming n acts)) = n_election_elapsed n"
  "n_heartbeat_elapsed (fst (replicate_to_streaming n acts)) = n_heartbeat_elapsed n"
  "n_election_timeout (fst (replicate_to_streaming n acts)) = n_election_timeout n"
  "n_votes (fst (replicate_to_streaming n acts)) = n_votes n"
  "n_pre_voting (fst (replicate_to_streaming n acts)) = n_pre_voting n"
  "n_pre_votes (fst (replicate_to_streaming n acts)) = n_pre_votes n"
  "n_snapshot_hinted_at (fst (replicate_to_streaming n acts)) = n_snapshot_hinted_at n"
  "n_transfer_target (fst (replicate_to_streaming n acts)) = n_transfer_target n"
  "n_rng (fst (replicate_to_streaming n acts)) = n_rng n"
  unfolding replicate_to_streaming_def
  by (subst fold_frame[where P = "\<lambda>s. f (fst s)" for f]; simp add: case_prod_unfold send_append_frame)+

lemma rebuild_progress_frame [frame_simps]:
  "n_id (rebuild_progress n) = n_id n"
  "n_voters (rebuild_progress n) = n_voters n"
  "n_base_config (rebuild_progress n) = n_base_config n"
  "n_config_index (rebuild_progress n) = n_config_index n"
  "n_election_timeout_min (rebuild_progress n) = n_election_timeout_min n"
  "n_election_timeout_max (rebuild_progress n) = n_election_timeout_max n"
  "n_heartbeat_interval (rebuild_progress n) = n_heartbeat_interval n"
  "n_max_batch (rebuild_progress n) = n_max_batch n"
  "n_snapshot_threshold (rebuild_progress n) = n_snapshot_threshold n"
  "n_log (rebuild_progress n) = n_log n"
  "n_role (rebuild_progress n) = n_role n"
  "n_current_term (rebuild_progress n) = n_current_term n"
  "n_voted_for (rebuild_progress n) = n_voted_for n"
  "n_leader_id (rebuild_progress n) = n_leader_id n"
  "n_commit_index (rebuild_progress n) = n_commit_index n"
  "n_last_applied (rebuild_progress n) = n_last_applied n"
  "n_election_elapsed (rebuild_progress n) = n_election_elapsed n"
  "n_heartbeat_elapsed (rebuild_progress n) = n_heartbeat_elapsed n"
  "n_election_timeout (rebuild_progress n) = n_election_timeout n"
  "n_votes (rebuild_progress n) = n_votes n"
  "n_pre_voting (rebuild_progress n) = n_pre_voting n"
  "n_pre_votes (rebuild_progress n) = n_pre_votes n"
  "n_snapshot_hinted_at (rebuild_progress n) = n_snapshot_hinted_at n"
  "n_transfer_target (rebuild_progress n) = n_transfer_target n"
  "n_rng (rebuild_progress n) = n_rng n"
  by (simp_all add: rebuild_progress_def Let_def)

lemma set_config_frame [frame_simps]:
  "n_id (fst (set_config n vs ci acts)) = n_id n"
  "n_base_config (fst (set_config n vs ci acts)) = n_base_config n"
  "n_election_timeout_min (fst (set_config n vs ci acts)) = n_election_timeout_min n"
  "n_election_timeout_max (fst (set_config n vs ci acts)) = n_election_timeout_max n"
  "n_heartbeat_interval (fst (set_config n vs ci acts)) = n_heartbeat_interval n"
  "n_max_batch (fst (set_config n vs ci acts)) = n_max_batch n"
  "n_snapshot_threshold (fst (set_config n vs ci acts)) = n_snapshot_threshold n"
  "n_log (fst (set_config n vs ci acts)) = n_log n"
  "n_role (fst (set_config n vs ci acts)) = n_role n"
  "n_current_term (fst (set_config n vs ci acts)) = n_current_term n"
  "n_voted_for (fst (set_config n vs ci acts)) = n_voted_for n"
  "n_leader_id (fst (set_config n vs ci acts)) = n_leader_id n"
  "n_commit_index (fst (set_config n vs ci acts)) = n_commit_index n"
  "n_last_applied (fst (set_config n vs ci acts)) = n_last_applied n"
  "n_election_elapsed (fst (set_config n vs ci acts)) = n_election_elapsed n"
  "n_heartbeat_elapsed (fst (set_config n vs ci acts)) = n_heartbeat_elapsed n"
  "n_election_timeout (fst (set_config n vs ci acts)) = n_election_timeout n"
  "n_votes (fst (set_config n vs ci acts)) = n_votes n"
  "n_pre_voting (fst (set_config n vs ci acts)) = n_pre_voting n"
  "n_pre_votes (fst (set_config n vs ci acts)) = n_pre_votes n"
  "n_snapshot_hinted_at (fst (set_config n vs ci acts)) = n_snapshot_hinted_at n"
  "n_transfer_target (fst (set_config n vs ci acts)) = n_transfer_target n"
  "n_rng (fst (set_config n vs ci acts)) = n_rng n"
  by (simp_all add: set_config_def Let_def rebuild_progress_frame)

lemma refresh_config_frame [frame_simps]:
  "n_id (fst (refresh_config n acts)) = n_id n"
  "n_base_config (fst (refresh_config n acts)) = n_base_config n"
  "n_election_timeout_min (fst (refresh_config n acts)) = n_election_timeout_min n"
  "n_election_timeout_max (fst (refresh_config n acts)) = n_election_timeout_max n"
  "n_heartbeat_interval (fst (refresh_config n acts)) = n_heartbeat_interval n"
  "n_max_batch (fst (refresh_config n acts)) = n_max_batch n"
  "n_snapshot_threshold (fst (refresh_config n acts)) = n_snapshot_threshold n"
  "n_log (fst (refresh_config n acts)) = n_log n"
  "n_role (fst (refresh_config n acts)) = n_role n"
  "n_current_term (fst (refresh_config n acts)) = n_current_term n"
  "n_voted_for (fst (refresh_config n acts)) = n_voted_for n"
  "n_leader_id (fst (refresh_config n acts)) = n_leader_id n"
  "n_commit_index (fst (refresh_config n acts)) = n_commit_index n"
  "n_last_applied (fst (refresh_config n acts)) = n_last_applied n"
  "n_election_elapsed (fst (refresh_config n acts)) = n_election_elapsed n"
  "n_heartbeat_elapsed (fst (refresh_config n acts)) = n_heartbeat_elapsed n"
  "n_election_timeout (fst (refresh_config n acts)) = n_election_timeout n"
  "n_votes (fst (refresh_config n acts)) = n_votes n"
  "n_pre_voting (fst (refresh_config n acts)) = n_pre_voting n"
  "n_pre_votes (fst (refresh_config n acts)) = n_pre_votes n"
  "n_snapshot_hinted_at (fst (refresh_config n acts)) = n_snapshot_hinted_at n"
  "n_transfer_target (fst (refresh_config n acts)) = n_transfer_target n"
  "n_rng (fst (refresh_config n acts)) = n_rng n"
  by (simp_all add: refresh_config_def set_config_frame split: option.split prod.split)

lemma maybe_send_timeout_now_frame [frame_simps]:
  "n_id (fst (maybe_send_timeout_now t n acts)) = n_id n"
  "n_voters (fst (maybe_send_timeout_now t n acts)) = n_voters n"
  "n_base_config (fst (maybe_send_timeout_now t n acts)) = n_base_config n"
  "n_config_index (fst (maybe_send_timeout_now t n acts)) = n_config_index n"
  "n_election_timeout_min (fst (maybe_send_timeout_now t n acts)) = n_election_timeout_min n"
  "n_election_timeout_max (fst (maybe_send_timeout_now t n acts)) = n_election_timeout_max n"
  "n_heartbeat_interval (fst (maybe_send_timeout_now t n acts)) = n_heartbeat_interval n"
  "n_max_batch (fst (maybe_send_timeout_now t n acts)) = n_max_batch n"
  "n_snapshot_threshold (fst (maybe_send_timeout_now t n acts)) = n_snapshot_threshold n"
  "n_log (fst (maybe_send_timeout_now t n acts)) = n_log n"
  "n_role (fst (maybe_send_timeout_now t n acts)) = n_role n"
  "n_current_term (fst (maybe_send_timeout_now t n acts)) = n_current_term n"
  "n_voted_for (fst (maybe_send_timeout_now t n acts)) = n_voted_for n"
  "n_leader_id (fst (maybe_send_timeout_now t n acts)) = n_leader_id n"
  "n_commit_index (fst (maybe_send_timeout_now t n acts)) = n_commit_index n"
  "n_last_applied (fst (maybe_send_timeout_now t n acts)) = n_last_applied n"
  "n_election_elapsed (fst (maybe_send_timeout_now t n acts)) = n_election_elapsed n"
  "n_heartbeat_elapsed (fst (maybe_send_timeout_now t n acts)) = n_heartbeat_elapsed n"
  "n_election_timeout (fst (maybe_send_timeout_now t n acts)) = n_election_timeout n"
  "n_votes (fst (maybe_send_timeout_now t n acts)) = n_votes n"
  "n_pre_voting (fst (maybe_send_timeout_now t n acts)) = n_pre_voting n"
  "n_pre_votes (fst (maybe_send_timeout_now t n acts)) = n_pre_votes n"
  "n_progress (fst (maybe_send_timeout_now t n acts)) = n_progress n"
  "n_snapshot_hinted_at (fst (maybe_send_timeout_now t n acts)) = n_snapshot_hinted_at n"
  "n_rng (fst (maybe_send_timeout_now t n acts)) = n_rng n"
  by (simp_all add: maybe_send_timeout_now_def Let_def)

lemma reset_election_timer_frame [frame_simps]:
  "n_id (reset_election_timer n) = n_id n"
  "n_voters (reset_election_timer n) = n_voters n"
  "n_base_config (reset_election_timer n) = n_base_config n"
  "n_config_index (reset_election_timer n) = n_config_index n"
  "n_election_timeout_min (reset_election_timer n) = n_election_timeout_min n"
  "n_election_timeout_max (reset_election_timer n) = n_election_timeout_max n"
  "n_heartbeat_interval (reset_election_timer n) = n_heartbeat_interval n"
  "n_max_batch (reset_election_timer n) = n_max_batch n"
  "n_snapshot_threshold (reset_election_timer n) = n_snapshot_threshold n"
  "n_log (reset_election_timer n) = n_log n"
  "n_role (reset_election_timer n) = n_role n"
  "n_current_term (reset_election_timer n) = n_current_term n"
  "n_voted_for (reset_election_timer n) = n_voted_for n"
  "n_leader_id (reset_election_timer n) = n_leader_id n"
  "n_commit_index (reset_election_timer n) = n_commit_index n"
  "n_last_applied (reset_election_timer n) = n_last_applied n"
  "n_heartbeat_elapsed (reset_election_timer n) = n_heartbeat_elapsed n"
  "n_votes (reset_election_timer n) = n_votes n"
  "n_pre_voting (reset_election_timer n) = n_pre_voting n"
  "n_pre_votes (reset_election_timer n) = n_pre_votes n"
  "n_progress (reset_election_timer n) = n_progress n"
  "n_snapshot_hinted_at (reset_election_timer n) = n_snapshot_hinted_at n"
  "n_transfer_target (reset_election_timer n) = n_transfer_target n"
  by (simp_all add: reset_election_timer_def case_prod_unfold Let_def)


lemma replicate_to_all_ids:
  "map pr_id (n_progress (fst (replicate_to_all n acts))) = map pr_id (n_progress n)"
  unfolding replicate_to_all_def
  by (subst fold_frame[where P = "\<lambda>s. map pr_id (n_progress (fst s))"])
     (auto simp: case_prod_unfold send_append_ids)

lemma replicate_to_streaming_ids:
  "map pr_id (n_progress (fst (replicate_to_streaming n acts))) = map pr_id (n_progress n)"
  unfolding replicate_to_streaming_def
  by (subst fold_frame[where P = "\<lambda>s. map pr_id (n_progress (fst s))"])
     (auto simp: case_prod_unfold send_append_ids)

subsection \<open>The actions\<close>

text \<open>The vote replies among some actions, with their destinations.\<close>

definition votes_sent :: "action list \<Rightarrow> (node_id \<times> request_vote_reply) list" where
  "votes_sent acts =
     concat (map (\<lambda>a. case a of Send to (RequestVoteReply r) \<Rightarrow> [(to, r)] | _ \<Rightarrow> []) acts)"

lemma votes_sent_simps [simp]:
  "votes_sent [] = []"
  "votes_sent (xs @ ys) = votes_sent xs @ votes_sent ys"
  "votes_sent (Send to (RequestVoteReply r) # xs) = (to, r) # votes_sent xs"
  by (simp_all add: votes_sent_def)

lemma votes_sent_other:
  "(\<And>to r. a \<noteq> Send to (RequestVoteReply r)) \<Longrightarrow> votes_sent (a # xs) = votes_sent xs"
  by (auto simp: votes_sent_def split: action.split message.split)

lemma votes_sent_none:
  "(\<And>a to r. a \<in> set xs \<Longrightarrow> a \<noteq> Send to (RequestVoteReply r)) \<Longrightarrow> votes_sent xs = []"
  by (induction xs) (simp_all add: votes_sent_other)

lemma votes_sent_mem: "(to, r) \<in> set (votes_sent acts) \<longleftrightarrow> Send to (RequestVoteReply r) \<in> set acts"
  by (force simp: votes_sent_def split: action.splits message.splits)

lemma votes_sent_maybe_hint [frame_simps]:
  "votes_sent (snd (maybe_hint_snapshot n acts)) = votes_sent acts"
  by (simp add: maybe_hint_snapshot_def Let_def votes_sent_other split: option.split)

lemma votes_sent_apply_action [frame_simps]: "votes_sent (apply_action l i) = []"
  by (simp add: apply_action_def votes_sent_other split: option.split)

lemma votes_sent_drain_loop [frame_simps]:
  "votes_sent (snd (drain_loop n acts)) = votes_sent acts"
proof (induction n acts rule: drain_loop.induct)
  case (1 n acts)
  then show ?case
    by (subst drain_loop.simps) (simp add: Let_def votes_sent_apply_action)
qed

lemma votes_sent_replication [frame_simps]:
  "votes_sent (snd (drain_applies n acts)) = votes_sent acts"
  "votes_sent (snd (advance_commit n acts)) = votes_sent acts"
  "votes_sent (snd (send_append i n acts)) = votes_sent acts"
  "votes_sent (snd (set_config n vs ci acts)) = votes_sent acts"
  "votes_sent (snd (maybe_send_timeout_now t n acts)) = votes_sent acts"
  by (simp_all add: drain_applies_def advance_commit_def send_append_def send_snapshot_def
      set_config_def maybe_send_timeout_now_def Let_def case_prod_unfold votes_sent_maybe_hint
      votes_sent_drain_loop votes_sent_other split: option.split)

lemma votes_sent_folds [frame_simps]:
  "votes_sent (snd (replicate_to_all n acts)) = votes_sent acts"
  "votes_sent (snd (replicate_to_streaming n acts)) = votes_sent acts"
  "votes_sent (snd (refresh_config n acts)) = votes_sent acts"
proof -
  show "votes_sent (snd (replicate_to_all n acts)) = votes_sent acts"
    unfolding replicate_to_all_def
    by (subst fold_frame[where P = "\<lambda>s. votes_sent (snd s)"])
       (simp_all add: case_prod_unfold votes_sent_replication)
  show "votes_sent (snd (replicate_to_streaming n acts)) = votes_sent acts"
    unfolding replicate_to_streaming_def
    by (subst fold_frame[where P = "\<lambda>s. votes_sent (snd s)"])
       (simp_all add: case_prod_unfold votes_sent_replication)
  show "votes_sent (snd (refresh_config n acts)) = votes_sent acts"
    by (simp add: refresh_config_def votes_sent_replication split: option.split prod.split)
qed

subsection \<open>Invariants of the leader's operations\<close>

text \<open>
  What the leader does on a reply is a sequence of four operations and of updates of its
  progress table. A property that each of the operations keeps is kept by what the leader
  sends; one that any change of the table keeps too is kept by the reply handlers.
\<close>

lemma send_append_length [simp]:
  "length (n_progress (fst (send_append i n acts))) = length (n_progress n)"
  using send_append_ids[of i n acts, THEN arg_cong[where f = length]] by simp

lemma upd_progress_length [simp]: "length (n_progress (upd_progress i f n)) = length (n_progress n)"
  by (simp add: upd_progress_def)

lemma progress_index_Some:
  "progress_index n j = Some k \<Longrightarrow> k < length (n_progress n) \<and> pr_id (n_progress n ! k) = j"
  using position_Some[of "\<lambda>p. pr_id p = j" "n_progress n" k] by (simp add: progress_index_def)

locale leader_operations =
  fixes P :: "ctx \<Rightarrow> bool"
  assumes advance: "P (n, acts) \<Longrightarrow> P (advance_commit n acts)"
    and append: "P (n, acts) \<Longrightarrow> i < length (n_progress n) \<Longrightarrow> P (send_append i n acts)"
    and timeout: "P (n, acts) \<Longrightarrow> P (maybe_send_timeout_now t n acts)"
begin

lemma fold_append:
  "P s \<Longrightarrow> \<forall>i \<in> set is. i < length (n_progress (fst s)) \<Longrightarrow>
   P (fold (\<lambda>i (n, acts). if c n i then send_append i n acts else (n, acts)) is s)"
proof (induction "is" arbitrary: s)
  case (Cons i "is")
  obtain n acts where s: "s = (n, acts)" by fastforce
  let ?s = "if c n i then send_append i n acts else (n, acts)"
  have "P ?s" using Cons.prems append[of n acts i] s by simp
  moreover have "\<forall>j \<in> set is. j < length (n_progress (fst ?s))" using Cons.prems(2) s by simp
  ultimately show ?case using Cons.IH[of ?s] by (simp add: s)
qed simp

lemma to_all: "P (n, acts) \<Longrightarrow> P (replicate_to_all n acts)"
  using fold_append[where c = "\<lambda>_ _. True"] by (simp add: replicate_to_all_def)

lemma to_streaming: "P (n, acts) \<Longrightarrow> P (replicate_to_streaming n acts)"
  unfolding replicate_to_streaming_def by (rule fold_append) simp_all

lemma advance_after: "P m \<Longrightarrow> P (advance_commit (fst m) (snd m))"
  using advance[of "fst m" "snd m"] by simp

text \<open>The common tail of the two reply handlers.\<close>

lemma tail:
  assumes "P (n, acts)" "n_role n = Leader" "i < length (n_progress n)"
  shows "P (let (n4, acts4) = advance_commit n acts;
                (n5, acts5) = maybe_send_timeout_now t n4 acts4
            in if n_role n5 = Leader \<and> c n5 then send_append i n5 acts5 else (n5, acts5))"
proof -
  obtain n4 acts4 where 4: "advance_commit n acts = (n4, acts4)" by fastforce
  obtain n5 acts5 where 5: "maybe_send_timeout_now t n4 acts4 = (n5, acts5)" by fastforce
  have "P (n4, acts4)" using advance[OF assms(1)] 4 by simp
  then have "P (n5, acts5)" using timeout[of n4 acts4 t] 5 by simp
  moreover have "n_role n5 = n_role n4" "n_progress n5 = n_progress n4"
    using maybe_send_timeout_now_frame[of t n4 acts4] 5 by simp_all
  moreover have "n_role n4 = Leader \<Longrightarrow> n_progress n4 = n_progress n"
    using advance_commit_role[of n acts] 4 assms(2) by auto
  ultimately show ?thesis using assms(3) by (simp add: 4 5 append)
qed

end

locale leader_invariant = leader_operations +
  assumes set_progress: "P (n, acts) \<Longrightarrow> P (n\<lparr>n_progress := ps\<rparr>, acts)"
begin

lemma upd: "P (n, acts) \<Longrightarrow> P (upd_progress i f n, acts)"
  by (simp add: upd_progress_def set_progress)

lemma append_reply: "P (n, acts) \<Longrightarrow> P (handle_append_reply r n acts)"
  by (auto simp: handle_append_reply_def Let_def frame_simps intro!: upd append
      tail[unfolded Let_def] dest: progress_index_Some split: option.split)

lemma snapshot_reply: "P (n, acts) \<Longrightarrow> P (handle_install_snapshot_reply r n acts)"
  by (auto simp: handle_install_snapshot_reply_def Let_def frame_simps intro!: upd
      tail[unfolded Let_def] dest: progress_index_Some split: option.split)

end

end
