(* ===== verification/Node_Election.thy ===== *)
theory Node_Election
  imports Node_Frame
begin

text \<open>
  Terms, votes and durability: the current term never goes back, a vote is never changed
  within a term, what a node has voted is in its log before it says so, and a node stands
  or leads only on votes it has counted. These are the facts about one node on which the
  election safety of a cluster rests.
\<close>

definition persisted :: "node \<Rightarrow> bool" where
  "persisted n \<longleftrightarrow>
     ml_hard (n_log n) = \<lparr>hs_term = n_current_term n, hs_voted_for = n_voted_for n\<rparr>"

definition ballot_step :: "node \<Rightarrow> node \<Rightarrow> bool" where
  "ballot_step n n' \<longleftrightarrow> n_id n' = n_id n
     \<and> (n_current_term n < n_current_term n'
        \<or> n_current_term n' = n_current_term n
          \<and> (\<forall>c. n_voted_for n = Some c \<longrightarrow> n_voted_for n' = Some c))"

text \<open>How the role and the tally may change: to a follower; not at all; by counting a
  granted reply of the current term; or by opening an election in a later term.\<close>

definition tally_step :: "request_vote_reply option \<Rightarrow> node \<Rightarrow> node \<Rightarrow> bool" where
  "tally_step rep n n' \<longleftrightarrow>
     n_role n' = Follower
   \<or> n_current_term n' = n_current_term n \<and> n_role n' = n_role n \<and> n_votes n' = n_votes n
   \<or> (\<exists>r. rep = Some r \<and> rvr_vote_granted r \<and> rvr_term r = n_current_term n
        \<and> n_role n = Candidate \<and> rvr_from r \<notin> set (n_votes n)
        \<and> n_votes n' = n_votes n @ [rvr_from r] \<and> n_current_term n' = n_current_term n
        \<and> (n_role n' = Leader \<longrightarrow> quorum n \<le> length (n_votes n')))
   \<or> n_current_term n < n_current_term n' \<and> n_voted_for n' = Some (n_id n)
     \<and> n_votes n' = [n_id n] \<and> (n_role n' = Leader \<longrightarrow> quorum n \<le> 1)"

lemma ballot_step_refl [simp]: "ballot_step n n"
  by (simp add: ballot_step_def)

lemma ballot_step_trans: "ballot_step a b \<Longrightarrow> ballot_step b c \<Longrightarrow> ballot_step a c"
  by (auto simp: ballot_step_def)

lemma quorum_frame: "n_voters n' = n_voters n \<Longrightarrow> quorum n' = quorum n"
  by (simp add: quorum_def)

lemma term_succ: "t \<noteq> u64_max \<Longrightarrow> t < (t :: u64) + 1"
  using not_max_room[of t] by (simp add: word_less_nat_alt unat_plus_one)

subsection \<open>The replication operations leave the ballot alone\<close>

text \<open>\<open>quiet n acts m\<close>: the outcome \<open>m\<close> keeps id, term, vote and hard state, keeps the
  tally or makes the node a follower, and adds no vote reply.\<close>

definition quiet :: "node \<Rightarrow> action list \<Rightarrow> ctx \<Rightarrow> bool" where
  "quiet n acts m \<longleftrightarrow>
     n_id (fst m) = n_id n \<and> n_current_term (fst m) = n_current_term n
   \<and> n_voted_for (fst m) = n_voted_for n \<and> ml_hard (n_log (fst m)) = ml_hard (n_log n)
   \<and> (n_role (fst m) = Follower \<or> n_role (fst m) = n_role n \<and> n_votes (fst m) = n_votes n)
   \<and> votes_sent (snd m) = votes_sent acts"

lemma quiet_refl [simp]: "quiet n acts (n, acts)"
  by (simp add: quiet_def)

lemma quiet_trans: "quiet n acts m \<Longrightarrow> quiet (fst m) (snd m) m' \<Longrightarrow> quiet n acts m'"
  by (auto simp: quiet_def)

lemma quiet_persisted: "quiet n acts m \<Longrightarrow> persisted n \<Longrightarrow> persisted (fst m)"
  by (simp add: quiet_def persisted_def)

lemma quiet_ballot: "quiet n acts m \<Longrightarrow> ballot_step n (fst m)"
  by (simp add: quiet_def ballot_step_def)

lemma quiet_tally: "quiet n acts m \<Longrightarrow> tally_step rep n (fst m)"
  by (auto simp: quiet_def tally_step_def)

lemma quiet_advance_commit: "quiet n acts (advance_commit n acts)"
  using advance_commit_role[of n acts]
  by (auto simp: quiet_def advance_commit_frame votes_sent_replication)

lemma quiet_send_append: "quiet n acts (send_append i n acts)"
  by (simp add: quiet_def send_append_frame votes_sent_replication)

lemma quiet_replicate_to_all: "quiet n acts (replicate_to_all n acts)"
  by (simp add: quiet_def replicate_to_all_frame votes_sent_folds)

lemma quiet_replicate_to_streaming: "quiet n acts (replicate_to_streaming n acts)"
  by (simp add: quiet_def replicate_to_streaming_frame votes_sent_folds)

lemma quiet_maybe_send_timeout_now: "quiet n acts (maybe_send_timeout_now t n acts)"
  by (simp add: quiet_def maybe_send_timeout_now_frame votes_sent_replication)

lemma quiet_set_config: "quiet n acts (set_config n vs ci acts)"
  by (simp add: quiet_def set_config_frame votes_sent_replication)

lemma quiet_refresh_config: "quiet n acts (refresh_config n acts)"
  by (simp add: quiet_def refresh_config_frame votes_sent_folds)

lemma quiet_drain_applies: "quiet n acts (drain_applies n acts)"
  by (simp add: quiet_def drain_applies_frame votes_sent_replication)

text \<open>A change of fields the ballot does not read.\<close>

lemma quiet_start:
  "n_id n1 = n_id n \<Longrightarrow> n_current_term n1 = n_current_term n \<Longrightarrow> n_voted_for n1 = n_voted_for n \<Longrightarrow>
   ml_hard (n_log n1) = ml_hard (n_log n) \<Longrightarrow>
   n_role n1 = Follower \<or> n_role n1 = n_role n \<and> n_votes n1 = n_votes n \<Longrightarrow>
   quiet n1 acts m \<Longrightarrow> quiet n acts m"
  by (auto simp: quiet_def)

lemmas quiet_ops = quiet_advance_commit quiet_send_append quiet_replicate_to_all
  quiet_replicate_to_streaming quiet_maybe_send_timeout_now quiet_set_config
  quiet_refresh_config quiet_drain_applies

lemma ml_append_hard: "ml_hard (fst (ml_append l es)) = ml_hard l"
  by (simp add: ml_append_def Let_def split: list.split)

lemma ml_truncate_hard: "ml_hard (fst (ml_truncate l i)) = ml_hard l"
  by (simp add: ml_truncate_def Let_def)

lemma ml_apply_snapshot_hard: "ml_hard (fst (ml_apply_snapshot l sn)) = ml_hard l"
  by (simp add: ml_apply_snapshot_def Let_def)

interpretation qt: leader_invariant "quiet n0 acts0" for n0 acts0
proof (unfold_locales, goal_cases)
  case (1 n acts)
  then show ?case using quiet_trans[OF _ quiet_advance_commit, of n0 acts0 "(n, acts)"] by simp
next
  case (2 n acts i)
  then show ?case using quiet_trans[OF _ quiet_send_append, of n0 acts0 "(n, acts)"] by simp
next
  case (3 n acts t)
  then show ?case using quiet_trans[OF _ quiet_maybe_send_timeout_now, of n0 acts0 "(n, acts)"] by simp
next
  case (4 n acts ps)
  then show ?case by (simp add: quiet_def)
qed

lemma quiet_handle_append_reply: "quiet n acts (handle_append_reply r n acts)"
  by (rule qt.append_reply) simp

lemma quiet_handle_install_snapshot_reply:
  "quiet n acts (handle_install_snapshot_reply r n acts)"
  by (rule qt.snapshot_reply) simp

subsection \<open>Handlers that do not vote\<close>

lemma reconcile_scan_hard: "ml_hard (fst (reconcile_scan l es)) = ml_hard l"
proof (induction es)
  case (Cons e es)
  then show ?case
    using ml_truncate_hard[of l "le_index e"]
    by (auto simp: and_then_def split: option.split prod.split sum.split)
qed simp

lemma append_from_leader_hard: "ml_hard (fst (append_from_leader es l)) = ml_hard l"
  unfolding append_from_leader_def and_then_def
  using reconcile_scan_hard[of l es] ml_append_hard
  by (auto simp: ml_sync_def split: prod.split sum.split) (metis fst_conv)+

lemma votes_sent_ae_reply [simp]: "votes_sent [ae_reply n ae s m ci ct] = []"
  by (simp add: ae_reply_def votes_sent_other)

text \<open>\<open>quiet\<close> of a fallible operation is about the state it leaves, error or not.\<close>

lemma quiet_handle_append_entries: "quiet n acts (fst (handle_append_entries ae n acts))"
proof -
  obtain l r where lr: "append_from_leader (ae_entries ae) (n_log n) = (l, r)" by fastforce
  then have "ml_hard l = ml_hard (n_log n)"
    using append_from_leader_hard[of "ae_entries ae" "n_log n"] by simp
  with lr show ?thesis
    by (cases r)
       (auto simp: quiet_def handle_append_entries_def Let_def case_prod_unfold frame_simps
         log_op_def with_acts_def split: option.split)
qed

lemma quiet_handle_install_snapshot: "quiet n acts (fst (handle_install_snapshot rpc n acts))"
proof -
  obtain l r where lr: "ml_apply_snapshot (n_log n) (ins_snapshot rpc) = (l, r)" by fastforce
  then have "ml_hard l = ml_hard (n_log n)" "r = Inr ()"
    using ml_apply_snapshot_hard[of "n_log n"] ml_apply_snapshot_never_fails[of "n_log n"]
    by (metis fst_conv, metis snd_conv)
  with lr show ?thesis
    by (auto simp: quiet_def handle_install_snapshot_def Let_def case_prod_unfold frame_simps
         ml_sync_def votes_sent_other)
qed

subsection \<open>Elections\<close>

lemma rebuild_become_quorum:
  "quorum (rebuild_progress n) = quorum n"
  by (simp add: quorum_def rebuild_progress_frame)

lemma become_leader_frame [frame_simps]:
  "n_id (fst (become_leader n acts)) = n_id n"
  "n_current_term (fst (become_leader n acts)) = n_current_term n"
  "n_voted_for (fst (become_leader n acts)) = n_voted_for n"
  "n_log (fst (become_leader n acts)) = n_log n"
  "n_voters (fst (become_leader n acts)) = n_voters n"
  "votes_sent (snd (become_leader n acts)) = votes_sent acts"
  by (simp_all add: become_leader_def Let_def case_prod_unfold frame_simps)

lemma become_leader_votes:
  "n_role (fst (become_leader n acts)) = Follower
   \<or> n_role (fst (become_leader n acts)) = Leader \<and> n_votes (fst (become_leader n acts)) = n_votes n"
proof -
  let ?m = "replicate_to_all (rebuild_progress (n\<lparr>n_role := Leader, n_leader_id := Some (n_id n),
    n_heartbeat_elapsed := 0, n_transfer_target := None, n_pre_voting := False, n_pre_votes := []\<rparr>)) acts"
  have "n_role (fst ?m) = Leader" "n_votes (fst ?m) = n_votes n"
    by (simp_all add: frame_simps)
  with advance_commit_role[of "fst ?m" "snd ?m"] show ?thesis
    by (auto simp: become_leader_def Let_def case_prod_unfold)
qed

text \<open>An election: a later term, a vote for itself, written to the log.\<close>

lemma start_election_outcome:
  assumes "n_current_term n \<noteq> u64_max" and m: "m = start_election force n acts"
  shows "n_id (fst (fst m)) = n_id n \<and> n_current_term (fst (fst m)) = n_current_term n + 1
       \<and> n_voted_for (fst (fst m)) = Some (n_id n) \<and> persisted (fst (fst m))
       \<and> votes_sent (snd (fst m)) = votes_sent acts \<and> tally_step rep n (fst (fst m))"
proof -
  let ?n1 = "reset_election_timer (n\<lparr>n_role := Candidate, n_current_term := n_current_term n + 1,
                 n_voted_for := Some (n_id n), n_leader_id := None,
                 n_transfer_target := None, n_pre_voting := False, n_pre_votes := [],
                 n_progress := [], n_votes := [n_id n]\<rparr>)"
  let ?n2 = "?n1\<lparr>n_log := (n_log n)\<lparr>ml_hard := \<lparr>hs_term = n_current_term n + 1,
                                     hs_voted_for = Some (n_id n)\<rparr>\<rparr>\<rparr>"
  have n2: "n_votes ?n2 = [n_id n]" "quorum ?n2 = quorum n"
    by (simp_all add: frame_simps quorum_def)
  have "votes_sent (map (\<lambda>peer. Send peer (RequestVote r)) ps) = []" for ps r
    by (rule votes_sent_none) auto
  then show ?thesis
    using term_succ[OF assms(1)] become_leader_votes[of ?n2 acts] n2
    unfolding m start_election_def Let_def
    by (auto simp: frame_simps persist_hard_state_eq persisted_def tally_step_def)
qed

lemma votes_sent_pre_votes: "votes_sent (map (\<lambda>peer. Send peer (PreVote r)) ps) = []"
  by (rule votes_sent_none) auto

lemma start_pre_vote_outcome:
  assumes "n_current_term n \<noteq> u64_max" and m: "m = start_pre_vote n acts" and p: "persisted n"
  shows "ballot_step n (fst (fst m)) \<and> persisted (fst (fst m))
       \<and> votes_sent (snd (fst m)) = votes_sent acts \<and> tally_step rep n (fst (fst m))"
proof -
  let ?n1 = "reset_election_timer (n\<lparr>n_role := Follower, n_leader_id := None,
               n_pre_voting := True, n_pre_votes := [n_id n]\<rparr>)"
  have f: "n_current_term ?n1 = n_current_term n" "n_id ?n1 = n_id n" "quorum ?n1 = quorum n"
    "n_role ?n1 = Follower" "n_votes ?n1 = n_votes n"
    by (simp_all add: frame_simps quorum_def)
  show ?thesis
  proof (cases "quorum ?n1 \<le> length (n_pre_votes ?n1)")
    case True
    then have "m = start_election False ?n1 acts" by (simp add: m start_pre_vote_def Let_def)
    from start_election_outcome[OF _ this, of rep] assms(1) f term_succ[OF assms(1)] show ?thesis
      by (auto simp: ballot_step_def tally_step_def)
  next
    case False
    with p show ?thesis
      by (auto simp: m start_pre_vote_def Let_def frame_simps ballot_step_def persisted_def
          tally_step_def votes_sent_pre_votes)
  qed
qed

lemma become_follower_outcome:
  assumes "m = become_follower t leader n" and "persisted n"
  shows "snd m = Inr () \<and> ballot_step n (fst m) \<and> persisted (fst m) \<and> n_role (fst m) = Follower
       \<and> n_current_term (fst m) = max (n_current_term n) t"
  using assms
  by (auto simp: become_follower_def Let_def persist_hard_state_eq ballot_step_def persisted_def
      max_def)

subsection \<open>The whole step\<close>

text \<open>What one step guarantees: the ballot moves forward, the hard state is in the log, the
  tally changes only as described, and a reply that grants a vote reports a vote the node has
  recorded for its destination in its current term.\<close>

definition honest_votes :: "node \<Rightarrow> action list \<Rightarrow> bool" where
  "honest_votes n acts \<longleftrightarrow>
     (\<forall>(to, r) \<in> set (votes_sent acts). rvr_from r = n_id n
        \<and> (rvr_vote_granted r \<longrightarrow> rvr_term r = n_current_term n \<and> n_voted_for n = Some to))"

definition sound_step :: "request_vote_reply option \<Rightarrow> node \<Rightarrow> ctx \<Rightarrow> bool" where
  "sound_step rep n m \<longleftrightarrow> ballot_step n (fst m) \<and> persisted (fst m) \<and> tally_step rep n (fst m)
     \<and> honest_votes (fst m) (snd m)"

lemma honest_none: "votes_sent acts = [] \<Longrightarrow> honest_votes n acts"
  by (simp add: honest_votes_def)

lemma quiet_sound:
  assumes q: "quiet n [] m" and "persisted n"
  shows "sound_step rep n m"
proof -
  from q have "votes_sent (snd m) = []" by (simp add: quiet_def)
  with assms show ?thesis
    by (simp add: sound_step_def quiet_ballot[OF q] quiet_persisted[OF q] quiet_tally[OF q] honest_none)
qed

lemma start_election_sound:
  "n_current_term n \<noteq> u64_max \<Longrightarrow> sound_step rep n (fst (start_election force n []))"
  using start_election_outcome[OF _ refl, of n force "[]" rep] term_succ[of "n_current_term n"]
  by (simp add: sound_step_def honest_none ballot_step_def)

lemma start_pre_vote_sound:
  "n_current_term n \<noteq> u64_max \<Longrightarrow> persisted n \<Longrightarrow> sound_step rep n (fst (start_pre_vote n []))"
  using start_pre_vote_outcome[OF _ refl, of n "[]" rep] by (simp add: sound_step_def honest_none)

text \<open>A change of fields the ballot does not read, before a sound step.\<close>

lemma sound_after:
  "sound_step rep n1 m \<Longrightarrow> n_id n1 = n_id n \<Longrightarrow> n_current_term n1 = n_current_term n \<Longrightarrow>
   n_voted_for n1 = n_voted_for n \<Longrightarrow> n_role n1 = n_role n \<Longrightarrow> n_votes n1 = n_votes n \<Longrightarrow>
   n_voters n1 = n_voters n \<Longrightarrow> sound_step rep n m"
  by (simp add: sound_step_def ballot_step_def tally_step_def quorum_def)

lemma tick_sound:
  assumes "n_current_term n \<noteq> u64_max" "persisted n"
  shows "sound_step rep n (fst (tick n))"
proof -
  let ?h = "n\<lparr>n_heartbeat_elapsed := n_heartbeat_elapsed n + 1\<rparr>"
  let ?e = "n\<lparr>n_election_elapsed := n_election_elapsed n + 1\<rparr>"
  have "sound_step rep n (fst (start_pre_vote ?e []))"
    using assms by (intro sound_after[OF start_pre_vote_sound]) (auto simp: persisted_def)
  moreover have "sound_step rep n (?h, [])" "sound_step rep n (?e, [])"
    using assms(2) by (auto intro!: quiet_sound simp: quiet_def)
  moreover have "sound_step rep n (replicate_to_all (?h\<lparr>n_heartbeat_elapsed := 0\<rparr>) [])"
    using assms(2) by (intro quiet_sound quiet_start[OF _ _ _ _ _ quiet_replicate_to_all]) auto
  ultimately show ?thesis by (simp add: tick_def Let_def)
qed

lemma handle_request_vote_sound:
  assumes "persisted n"
  shows "sound_step rep n (fst (handle_request_vote rv n []))"
  using assms
  by (auto simp: handle_request_vote_def Let_def persist_hard_state_eq sound_step_def
      ballot_step_def persisted_def tally_step_def honest_votes_def frame_simps split: option.splits)

lemma handle_vote_reply_sound:
  assumes p: "persisted n"
  shows "sound_step (Some r) n (handle_vote_reply r n [])"
proof (cases "n_role n = Candidate \<and> rvr_term r = n_current_term n \<and> rvr_vote_granted r
    \<and> rvr_from r \<notin> set (n_votes n)")
  case True
  let ?n1 = "n\<lparr>n_votes := n_votes n @ [rvr_from r]\<rparr>"
  let ?m = "become_leader ?n1 []"
  have "quorum ?n1 = quorum n" by (simp add: quorum_def)
  moreover have "sound_step (Some r) n (?n1, [])" "quorum n \<le> Suc (length (n_votes n)) \<Longrightarrow>
      sound_step (Some r) n ?m"
    using True p become_leader_votes[of ?n1 "[]"]
    by (auto simp: sound_step_def ballot_step_def tally_step_def honest_none persisted_def frame_simps)
  ultimately show ?thesis using True by (simp add: handle_vote_reply_def Let_def)
next
  case False
  then have "handle_vote_reply r n [] = (n, [])" by (auto simp: handle_vote_reply_def)
  with p show ?thesis by (simp add: quiet_sound)
qed

lemma handle_pre_vote_sound: "persisted n \<Longrightarrow> sound_step rep n (handle_pre_vote pv n [])"
  by (intro quiet_sound) (simp_all add: handle_pre_vote_def Let_def quiet_def votes_sent_other)

lemma follower_sound:
  "m = become_follower t leader n \<Longrightarrow> persisted n \<Longrightarrow> sound_step rep n (fst m, [])"
  using become_follower_outcome[of m t leader n]
  by (simp add: sound_step_def honest_none tally_step_def)

lemma handle_pre_vote_reply_sound:
  assumes "n_current_term n \<noteq> u64_max" "persisted n"
  shows "sound_step rep n (fst (handle_pre_vote_reply r n []))"
proof -
  let ?f = "n\<lparr>n_pre_voting := False, n_pre_votes := []\<rparr>"
  let ?e = "n\<lparr>n_pre_votes := n_pre_votes n @ [pvr_from r]\<rparr>"
  obtain n1 u where bf: "become_follower (pvr_term r) None ?f = (n1, u)" by fastforce
  have "persisted ?f" using assms(2) by (simp add: persisted_def)
  then have "sound_step rep ?f (n1, [])" using follower_sound[OF bf[symmetric], of rep] by simp
  then have "sound_step rep n (n1, [])" by (rule sound_after) simp_all
  moreover have "sound_step rep ?e (fst (start_election False ?e []))"
    using assms(1) by (intro start_election_sound) simp
  then have "sound_step rep n (fst (start_election False ?e []))" by (rule sound_after) simp_all
  moreover have "sound_step rep n (?e, [])" "sound_step rep n (n, [])"
    using assms(2) by (simp_all add: quiet_sound quiet_def)
  ultimately show ?thesis by (simp add: handle_pre_vote_reply_def Let_def bf)
qed

lemma handle_timeout_now_sound:
  "n_current_term n \<noteq> u64_max \<Longrightarrow> persisted n \<Longrightarrow>
   sound_step rep n (fst (handle_timeout_now rpc n []))"
  by (simp add: handle_timeout_now_def start_election_sound quiet_sound)

text \<open>The room an event needs: the node's term can still be incremented, and so can the term
  of a \<open>TimeoutNow\<close>, which the node adopts and then increments.\<close>

definition term_room :: "event \<Rightarrow> node \<Rightarrow> bool" where
  "term_room ev n \<longleftrightarrow> n_current_term n \<noteq> u64_max
     \<and> (case ev of Message (TimeoutNow rpc) \<Rightarrow> tn_term rpc \<noteq> u64_max | _ \<Rightarrow> True)"

definition vote_reply_of :: "message \<Rightarrow> request_vote_reply option" where
  "vote_reply_of m = (case m of RequestVoteReply r \<Rightarrow> Some r | _ \<Rightarrow> None)"

lemma dispatch_sound:
  assumes p: "persisted n"
    and room: "\<And>rpc. m = TimeoutNow rpc \<Longrightarrow> n_current_term n \<noteq> u64_max"
  shows "sound_step (vote_reply_of m) n (fst (dispatch m n []))"
  using p room
  by (cases m) (auto simp: dispatch_def vote_reply_of_def
      intro: handle_request_vote_sound handle_vote_reply_sound handle_timeout_now_sound
        quiet_sound quiet_handle_append_entries quiet_handle_append_reply
        quiet_handle_install_snapshot quiet_handle_install_snapshot_reply)

lemma sound_after_follower:
  assumes "sound_step rep n1 m" "ballot_step n n1" "n_role n1 = Follower" "n_voters n1 = n_voters n"
  shows "sound_step rep n m"
  using assms by (auto simp: sound_step_def tally_step_def ballot_step_def quorum_def)

lemma become_follower_voters: "n_voters (fst (become_follower t l n)) = n_voters n"
  by (simp add: become_follower_def Let_def persist_hard_state_eq)

lemma handle_message_generic:
  "\<not> (sticky m n \<or> (\<exists>pv. m = PreVote pv) \<or> (\<exists>r. m = PreVoteReply r)) \<Longrightarrow>
   handle_message m n =
     and_then (with_acts [] (if n_current_term n < message_term m
                             then become_follower (message_term m) None n else (n, Inr ())))
       (\<lambda>(n, acts) _. dispatch m n acts)"
  by (cases m) (simp_all add: handle_message_def)

lemma handle_message_sound:
  assumes p: "persisted n" and room: "term_room (Message m) n"
  shows "sound_step (vote_reply_of m) n (fst (handle_message m n))"
proof (cases "sticky m n \<or> (\<exists>pv. m = PreVote pv) \<or> (\<exists>r. m = PreVoteReply r)")
  case True
  with assms show ?thesis
    by (auto simp: handle_message_def term_room_def quiet_sound handle_pre_vote_sound
        handle_pre_vote_reply_sound)
next
  case False
  obtain n1 where bf: "become_follower (message_term m) None n = (n1, Inr ())"
    using become_follower_outcome[OF refl p, of "message_term m" None]
    by (metis old.unit.exhaust prod.collapse)
  then have n1: "ballot_step n n1" "persisted n1" "n_role n1 = Follower" "n_voters n1 = n_voters n"
    "n_current_term n1 = max (n_current_term n) (message_term m)"
    using become_follower_outcome[OF bf[symmetric] p] become_follower_voters[of "message_term m" None n]
    by auto
  have "sound_step (vote_reply_of m) n (fst (dispatch m n1 []))"
    using n1(2,5) room
    by (intro sound_after_follower[OF dispatch_sound n1(1,3,4)]) (auto simp: term_room_def max_def)
  moreover have "sound_step (vote_reply_of m) n (fst (dispatch m n []))"
    using dispatch_sound[OF p, of m] room by (auto simp: term_room_def)
  ultimately show ?thesis by (simp add: handle_message_generic[OF False] bf)
qed

subsection \<open>Client requests\<close>

text \<open>Propose, the snapshot event, the membership changes and the transfer return their
  actions in the result.\<close>

definition quiet_call :: "node \<Rightarrow> node \<times> (rerror + action list) \<Rightarrow> bool" where
  "quiet_call n m \<longleftrightarrow>
     quiet n [] (fst m, case snd m of Inl _ \<Rightarrow> [] | Inr acts \<Rightarrow> acts)"

lemma log_op_apply_snapshot:
  "log_op n (ml_apply_snapshot l sn) = (n\<lparr>n_log := fst (ml_apply_snapshot l sn)\<rparr>, Inr ())"
  by (simp add: log_op_def case_prod_unfold ml_apply_snapshot_never_fails)

lemma handle_snapshot_event_quiet: "quiet_call n (handle_snapshot_event i d n)"
  by (simp add: quiet_call_def quiet_def handle_snapshot_event_def Let_def case_prod_unfold
      frame_simps ml_sync_def log_op_apply_snapshot ml_apply_snapshot_hard split: option.split)

lemma propose_quiet: "quiet_call n (propose n c)"
proof (cases "n_role n = Leader \<and> n_transfer_target n = None")
  case True
  let ?e = "entry_new (n_current_term n) (ml_last_index (n_log n) + 1) c"
  have "ml_append (n_log n) [?e] = ((n_log n)\<lparr>ml_entries := ml_entries (n_log n) @ [?e]\<rparr>, Inr ())"
    by (simp add: ml_append_def)
  with True show ?thesis
    using quiet_trans[OF quiet_replicate_to_streaming quiet_advance_commit]
    by (auto simp: quiet_call_def propose_def Let_def case_prod_unfold ml_sync_def
        intro!: quiet_start[OF _ _ _ _ _ quiet_trans[OF quiet_replicate_to_streaming quiet_advance_commit]])
next
  case False
  then show ?thesis by (auto simp: propose_def quiet_call_def)
qed

lemma change_membership_quiet: "quiet_call n (change_membership n a b)"
proof -
  have app: "ml_append (n_log n) [entry_config t (ml_last_index (n_log n) + 1) ms]
      = ((n_log n)\<lparr>ml_entries := ml_entries (n_log n)
            @ [entry_config t (ml_last_index (n_log n) + 1) ms]\<rparr>, Inr ())" for t ms
    by (simp add: ml_append_def)
  show ?thesis
    unfolding change_membership_def Let_def case_prod_unfold
    by (auto simp: quiet_call_def app ml_sync_def
        intro!: quiet_start[OF _ _ _ _ _ quiet_trans[OF
          quiet_trans[OF quiet_set_config quiet_replicate_to_all] quiet_advance_commit]])
qed

lemma transfer_leadership_quiet: "quiet_call n (transfer_leadership n t)"
  unfolding transfer_leadership_def Let_def case_prod_unfold
  by (auto simp: quiet_call_def split: option.split
      intro!: quiet_start[OF _ _ _ _ _ quiet_trans[OF quiet_maybe_send_timeout_now quiet_send_append]]
        quiet_start[OF _ _ _ _ _ quiet_maybe_send_timeout_now])

lemma quiet_call_sound:
  assumes "quiet_call n m" "persisted n" "m = (n', r)"
  shows "sound_step rep n (n', case r of Inl _ \<Rightarrow> [] | Inr acts \<Rightarrow> acts)"
  using assms quiet_sound by (simp add: quiet_call_def)

definition event_reply :: "event \<Rightarrow> request_vote_reply option" where
  "event_reply ev = (case ev of Message m \<Rightarrow> vote_reply_of m | _ \<Rightarrow> None)"

lemma finish_sound:
  "sound_step rep n (fst m) \<Longrightarrow> finish m = (n', r) \<Longrightarrow>
   sound_step rep n (n', case r of Inl _ \<Rightarrow> [] | Inr acts \<Rightarrow> acts)"
  by (cases m) (auto simp: finish_def sound_step_def honest_votes_def split: sum.splits)

lemma step_sound:
  assumes "step ev n = (n', r)" "persisted n" "term_room ev n"
  shows "sound_step (event_reply ev) n (n', case r of Inl _ \<Rightarrow> [] | Inr acts \<Rightarrow> acts)"
proof (cases ev)
  case Tick
  with assms show ?thesis
    by (auto simp: step_def term_room_def intro!: finish_sound tick_sound)
next
  case (Message m)
  with assms handle_message_sound[of n m] show ?thesis
    by (auto simp: step_def event_reply_def intro!: finish_sound)
qed (use assms in \<open>auto simp: step_def intro: quiet_call_sound propose_quiet
    handle_snapshot_event_quiet change_membership_quiet transfer_leadership_quiet\<close>)

end
