(* ===== verification/Node_Log.thy ===== *)
theory Node_Log
  imports Node_Election
begin

text \<open>
  What a step does to the node's log: the log stays well formed (contiguous indices above
  the boundary, no index overflow), and only an \<open>AppendEntries\<close>, an \<open>InstallSnapshot\<close>, a
  proposal, a membership change or a snapshot event touches its entries.
\<close>

text \<open>The room an event needs in the log, so that no index wraps.\<close>

definition log_room :: "event \<Rightarrow> node \<Rightarrow> bool" where
  "log_room ev n \<longleftrightarrow> unat (ml_last_index (n_log n))
     + (case ev of Message (AppendEntries ae) \<Rightarrow> length (ae_entries ae) | _ \<Rightarrow> 1) < 2 ^ 64"

text \<open>The same test on binary integers, for evaluation.\<close>

lemma log_room_code [code]:
  "log_room ev n \<longleftrightarrow> uint (ml_last_index (n_log n))
     + (case ev of Message (AppendEntries ae) \<Rightarrow> int (length (ae_entries ae)) | _ \<Rightarrow> 1)
     < 18446744073709551616"
proof -
  let ?k = "case ev of Message (AppendEntries ae) \<Rightarrow> length (ae_entries ae) | _ \<Rightarrow> 1"
  have "(case ev of Message (AppendEntries ae) \<Rightarrow> int (length (ae_entries ae)) | _ \<Rightarrow> 1) = int ?k"
    by (auto split: event.split message.split)
  moreover have "a + b < 2 ^ 64 \<longleftrightarrow> int a + int b < 18446744073709551616" for a b :: nat
    by simp linarith
  ultimately show ?thesis by (simp only: log_room_def uint_nat)
qed

lemma log_unchanged [frame_simps]:
  "n_log (fst (handle_append_reply r n acts)) = n_log n"
  "n_log (fst (handle_install_snapshot_reply rr n acts)) = n_log n"
  "n_log (fst (handle_pre_vote pv n acts)) = n_log n"
  by (simp_all add: handle_append_reply_def handle_install_snapshot_reply_def handle_pre_vote_def
      Let_def case_prod_unfold frame_simps split: option.split)

lemma log_become_leader [frame_simps]: "n_log (fst (become_leader n acts)) = n_log n"
  by (simp add: become_leader_def Let_def case_prod_unfold frame_simps)

lemma log_handle_vote_reply [frame_simps]: "n_log (fst (handle_vote_reply r n acts)) = n_log n"
  by (simp add: handle_vote_reply_def Let_def frame_simps)

text \<open>\<open>same_log l l'\<close>: the same entries and snapshot, the hard state perhaps another.\<close>

definition same_log :: "memory_log \<Rightarrow> memory_log \<Rightarrow> bool" where
  "same_log l l' \<longleftrightarrow> (\<exists>h. l' = l\<lparr>ml_hard := h\<rparr>)"

lemma same_log_refl [simp]: "same_log l l"
  by (auto simp: same_log_def intro: exI[of _ "ml_hard l"])

lemma same_log_hard [simp]: "same_log l (l\<lparr>ml_hard := h\<rparr>)"
  by (auto simp: same_log_def)

lemma same_log_trans: "same_log a b \<Longrightarrow> same_log b c \<Longrightarrow> same_log a c"
  by (auto simp: same_log_def)

lemma ml_inv_hard [simp]: "ml_inv (l\<lparr>ml_hard := h\<rparr>) \<longleftrightarrow> ml_inv l"
  by (simp add: ml_inv_def al_wf_def al_last_def split: option.split)

lemma same_log_inv: "same_log l l' \<Longrightarrow> ml_inv l' \<longleftrightarrow> ml_inv l"
  by (auto simp: same_log_def)

lemma same_log_sel:
  "same_log l l' \<Longrightarrow> ml_entries l' = ml_entries l \<and> ml_base_index l' = ml_base_index l
     \<and> ml_base_term l' = ml_base_term l \<and> ml_snapshot l' = ml_snapshot l
     \<and> ml_snapshot_config l' = ml_snapshot_config l"
  by (auto simp: same_log_def)

lemma same_log_start_election: "same_log (n_log n) (n_log (fst (fst (start_election f n acts))))"
  by (simp add: start_election_def Let_def persist_hard_state_eq frame_simps)

lemma same_log_start_pre_vote: "same_log (n_log n) (n_log (fst (fst (start_pre_vote n acts))))"
  using same_log_start_election[of "reset_election_timer (n\<lparr>n_role := Follower, n_leader_id := None,
      n_pre_voting := True, n_pre_votes := [n_id n]\<rparr>)" False acts]
  by (simp add: start_pre_vote_def Let_def frame_simps)

lemma same_log_tick: "same_log (n_log n) (n_log (fst (fst (tick n))))"
  using same_log_start_pre_vote[of "n\<lparr>n_election_elapsed := n_election_elapsed n + 1\<rparr>" "[]"]
  by (simp add: tick_def Let_def frame_simps)

lemma same_log_become_follower: "same_log (n_log n) (n_log (fst (become_follower t ld n)))"
  by (simp add: become_follower_def Let_def persist_hard_state_eq)

lemma same_log_handle_request_vote:
  "same_log (n_log n) (n_log (fst (fst (handle_request_vote rv n acts))))"
  by (simp add: handle_request_vote_def Let_def persist_hard_state_eq frame_simps)

lemma same_log_handle_pre_vote_reply:
  "same_log (n_log n) (n_log (fst (fst (handle_pre_vote_reply r n acts))))"
  using same_log_start_election[of "n\<lparr>n_pre_votes := n_pre_votes n @ [pvr_from r]\<rparr>" False acts]
    same_log_become_follower[of "n\<lparr>n_pre_voting := False, n_pre_votes := []\<rparr>" "pvr_term r" None]
  by (simp add: handle_pre_vote_reply_def Let_def with_acts_def case_prod_unfold)

lemma same_log_handle_timeout_now:
  "same_log (n_log n) (n_log (fst (fst (handle_timeout_now r n acts))))"
  using same_log_start_election[of n True acts] by (simp add: handle_timeout_now_def)

subsection \<open>Appending from the leader\<close>

lemma reconcile_scan_inv:
  assumes "ml_inv l" "reconcile_scan l es = (l', r)"
  shows "ml_inv l' \<and> al_last (ml_abs l') \<le> al_last (ml_abs l)
       \<and> (\<forall>rest tr. r = Inr (rest, tr) \<longrightarrow> (\<exists>k. rest = drop k es))"
  using assms(2)
proof (induction es)
  case Nil
  with assms(1) show ?case by auto
next
  case (Cons e es)
  show ?case
  proof (cases "ml_term_at l (le_index e)")
    case None
    with Cons.prems assms(1) show ?thesis by (auto intro: exI[of _ 0])
  next
    case (Some t)
    show ?thesis
    proof (cases "t = le_term e")
      case True
      with Some Cons have "ml_inv l' \<and> al_last (ml_abs l') \<le> al_last (ml_abs l)
        \<and> (\<forall>rest tr. r = Inr (rest, tr) \<longrightarrow> (\<exists>k. rest = drop k es))" by simp
      then show ?thesis by (metis drop_Suc_Cons)
    next
      case False
      obtain l1 r1 where tr: "ml_truncate l (le_index e) = (l1, r1)" by fastforce
      show ?thesis
      proof (cases r1)
        case (Inl err)
        with tr have "l1 = l" by (auto simp: ml_truncate_def Let_def split: if_splits)
        with Some False tr Inl Cons.prems assms(1) show ?thesis by auto
      next
        case (Inr u)
        with tr mem.truncate_ok[OF assms(1), of "le_index e" l1]
        have "ml_inv l1" "al_last (ml_abs l1) \<le> al_last (ml_abs l)"
          by (auto simp: al_truncate_def al_last_def)
        with Some False tr Inr Cons.prems show ?thesis by (auto intro: exI[of _ 0])
      qed
    qed
  qed
qed

lemma append_from_leader_inv:
  assumes "ml_inv l" "al_last (ml_abs l) + length es < 2 ^ 64"
  shows "ml_inv (fst (append_from_leader es l))"
proof -
  obtain l1 r where rs: "reconcile_scan l es = (l1, r)" by fastforce
  note inv = reconcile_scan_inv[OF assms(1) rs]
  show ?thesis
  proof (cases r)
    case (Inl e)
    with rs inv show ?thesis by (simp add: append_from_leader_def)
  next
    case (Inr p)
    obtain rest tr where p: "p = (rest, tr)" by fastforce
    with inv Inr obtain k where "rest = drop k es" by auto
    then have room: "al_last (ml_abs l1) + length rest < 2 ^ 64" 
      using inv assms(2) by simp linarith
    obtain l2 r2 where ap: "ml_append l1 rest = (l2, r2)" by fastforce
    have "ml_inv l2"
    proof (cases r2)
      case (Inl e)
      with ap have "l2 = l1" by (auto simp: ml_append_def Let_def split: list.splits if_splits)
      with inv show ?thesis by simp
    next
      case r2: (Inr u)
      with ap mem.append_ok[of l1 rest l2] inv room show ?thesis by auto
    qed
    with rs inv Inr p ap show ?thesis
      by (cases r2) (auto simp: append_from_leader_def ml_sync_def)
  qed
qed

lemma ml_apply_snapshot_inv: "ml_inv l \<Longrightarrow> ml_inv (fst (ml_apply_snapshot l sn))"
  using mem.apply_snapshot_ok[of l sn "fst (ml_apply_snapshot l sn)"]
  by (simp add: ml_apply_snapshot_def Let_def)

subsection \<open>The effect of a step on the log\<close>

text \<open>
  Every way a step may leave the log: as it was but for the hard state, or changed by one
  storage operation that the event allows. \<open>accepts\<close> is the consistency check a follower
  makes before it appends.
\<close>

definition accepts :: "append_entries \<Rightarrow> memory_log \<Rightarrow> bool" where
  "accepts ae l \<longleftrightarrow> ml_snapshot_index l \<le> ae_prev_log_index ae
     \<and> ml_term_at l (ae_prev_log_index ae) = Some (ae_prev_log_term ae)"

definition log_effect :: "event \<Rightarrow> node \<Rightarrow> memory_log \<Rightarrow> bool" where
  "log_effect ev n l' \<longleftrightarrow> same_log (n_log n) l' \<or> (case ev of
     Message (AppendEntries ae) \<Rightarrow> \<exists>l. same_log (n_log n) l \<and> accepts ae l
        \<and> n_current_term n \<le> ae_term ae \<and> ae_entries ae \<noteq> []
        \<and> l' = fst (append_from_leader (ae_entries ae) l)
   | Message (InstallSnapshot rpc) \<Rightarrow> \<exists>l. same_log (n_log n) l
        \<and> n_current_term n \<le> ins_term rpc \<and> n_commit_index n < sn_index (ins_snapshot rpc)
        \<and> l' = fst (ml_apply_snapshot l (ins_snapshot rpc))
   | Propose c \<Rightarrow> n_role n = Leader
        \<and> l' = (n_log n)\<lparr>ml_entries := ml_entries (n_log n)
             @ [entry_new (n_current_term n) (ml_last_index (n_log n) + 1) c]\<rparr>
   | AddServer i \<Rightarrow> n_role n = Leader \<and> (\<exists>ms.
        l' = (n_log n)\<lparr>ml_entries := ml_entries (n_log n)
             @ [entry_config (n_current_term n) (ml_last_index (n_log n) + 1) ms]\<rparr>)
   | RemoveServer i \<Rightarrow> n_role n = Leader \<and> (\<exists>ms.
        l' = (n_log n)\<lparr>ml_entries := ml_entries (n_log n)
             @ [entry_config (n_current_term n) (ml_last_index (n_log n) + 1) ms]\<rparr>)
   | SnapshotEvent i d \<Rightarrow> i \<le> n_commit_index n \<and> i \<le> n_last_applied n
        \<and> (\<exists>t. ml_term_at (n_log n) i = Some t
             \<and> l' = fst (ml_apply_snapshot (n_log n)
                       (snapshot_with_config i t (config_at n i) d)))
   | _ \<Rightarrow> False)"

lemma handle_append_entries_log:
  "n_log (fst (fst (handle_append_entries ae n acts))) = n_log n
   \<or> accepts ae (n_log n) \<and> n_current_term n \<le> ae_term ae \<and> ae_entries ae \<noteq> []
     \<and> n_log (fst (fst (handle_append_entries ae n acts)))
         = fst (append_from_leader (ae_entries ae) (n_log n))"
proof -
  obtain l r where lr: "append_from_leader (ae_entries ae) (n_log n) = (l, r)" by fastforce
  then show ?thesis
    by (cases r)
       (auto simp: handle_append_entries_def Let_def case_prod_unfold frame_simps accepts_def
         log_op_def with_acts_def split: option.split)
qed

lemma handle_install_snapshot_log:
  "n_log (fst (fst (handle_install_snapshot rpc n acts))) = n_log n
   \<or> n_current_term n \<le> ins_term rpc \<and> n_commit_index n < sn_index (ins_snapshot rpc)
     \<and> n_log (fst (fst (handle_install_snapshot rpc n acts)))
         = fst (ml_apply_snapshot (n_log n) (ins_snapshot rpc))"
proof -
  obtain l where l: "ml_apply_snapshot (n_log n) (ins_snapshot rpc) = (l, Inr ())"
    by (metis ml_apply_snapshot_never_fails prod.collapse)
  then show ?thesis
    by (auto simp: handle_install_snapshot_def Let_def case_prod_unfold frame_simps ml_sync_def)
qed

lemma become_follower_log_effect:
  "same_log (n_log n) (n_log (fst (become_follower t ld n)))
   \<and> n_commit_index (fst (become_follower t ld n)) = n_commit_index n
   \<and> n_current_term (fst (become_follower t ld n)) = max (n_current_term n) t
   \<and> snd (become_follower t ld n) = Inr ()"
  using same_log_become_follower[of n t ld]
  by (auto simp: become_follower_def Let_def persist_hard_state_eq max_def)

text \<open>The message handlers, after the node has adopted the message's term if it is later.\<close>

lemma dispatch_log_effect:
  assumes "same_log (n_log n) (n_log n1)" "n_commit_index n1 = n_commit_index n"
    "n_current_term n \<le> n_current_term n1"
  shows "log_effect (Message m) n (n_log (fst (fst (dispatch m n1 acts))))"
  using assms
proof (cases m)
  case (RequestVote rv)
  with assms(1) same_log_handle_request_vote[of n1 rv acts] show ?thesis
    by (auto simp: dispatch_def log_effect_def dest: same_log_trans)
next
  case (TimeoutNow r)
  with assms(1) same_log_handle_timeout_now[of n1 r acts] show ?thesis
    by (auto simp: dispatch_def log_effect_def dest: same_log_trans)
next
  case (AppendEntries ae)
  with assms handle_append_entries_log[of ae n1 acts] show ?thesis
    by (auto simp: dispatch_def log_effect_def)
next
  case (InstallSnapshot rpc)
  with assms handle_install_snapshot_log[of rpc n1 acts] show ?thesis
    by (auto simp: dispatch_def log_effect_def)
qed (simp_all add: dispatch_def log_effect_def frame_simps)

lemma handle_message_log_effect:
  "log_effect (Message m) n (n_log (fst (fst (handle_message m n))))"
proof -
  obtain n1 where bf: "become_follower (message_term m) None n = (n1, Inr ())"
    using become_follower_log_effect[of n "message_term m" None] by (metis prod.collapse)
  then have n1: "same_log (n_log n) (n_log n1)" "n_commit_index n1 = n_commit_index n"
    "n_current_term n \<le> n_current_term n1"
    using become_follower_log_effect[of n "message_term m" None] by auto
  have d: "log_effect (Message m) n (n_log (fst (fst (dispatch m n1 []))))"
    "log_effect (Message m) n (n_log (fst (fst (dispatch m n []))))"
    using dispatch_log_effect[OF n1] dispatch_log_effect[of n n] by simp_all
  show ?thesis
  proof (cases "sticky m n \<or> (\<exists>pv. m = PreVote pv) \<or> (\<exists>r. m = PreVoteReply r)")
    case True
    with same_log_handle_pre_vote_reply[of n _ "[]"] show ?thesis
      by (auto simp: handle_message_def log_effect_def frame_simps)
  next
    case False
    with d bf show ?thesis by (simp add: handle_message_generic)
  qed
qed

lemma append_one:
  "le_index e = ml_last_index l + 1 \<Longrightarrow>
   ml_append l [e] = (l\<lparr>ml_entries := ml_entries l @ [e]\<rparr>, Inr ())"
  by (simp add: ml_append_def)

lemma propose_log_effect: "log_effect (Propose c) n (n_log (fst (propose n c)))"
  by (simp add: propose_def Let_def append_one ml_sync_def case_prod_unfold frame_simps
      log_effect_def)

lemma change_membership_log_effect:
  "same_log (n_log n) (n_log (fst (change_membership n a b)))
   \<or> n_role n = Leader \<and> (\<exists>ms. n_log (fst (change_membership n a b)) =
        (n_log n)\<lparr>ml_entries := ml_entries (n_log n)
          @ [entry_config (n_current_term n) (ml_last_index (n_log n) + 1) ms]\<rparr>)"
  by (auto simp: change_membership_def Let_def append_one ml_sync_def case_prod_unfold frame_simps)

lemma handle_snapshot_event_log_effect:
  "log_effect (SnapshotEvent i d) n (n_log (fst (handle_snapshot_event i d n)))"
proof (cases "ml_term_at (n_log n) i")
  case None
  then show ?thesis by (simp add: handle_snapshot_event_def log_effect_def)
next
  case (Some t)
  obtain l where l: "ml_apply_snapshot (n_log n)
      (snapshot_with_config i t (config_at n i) d) = (l, Inr ())"
    by (metis ml_apply_snapshot_never_fails prod.collapse)
  from Some show ?thesis
    by (auto simp: handle_snapshot_event_def log_effect_def Let_def case_prod_unfold frame_simps
        l ml_sync_def)
qed

lemma transfer_leadership_log: "n_log (fst (transfer_leadership n t)) = n_log n"
  by (simp add: transfer_leadership_def Let_def case_prod_unfold frame_simps split: option.split)

lemma fst_finish [simp]: "fst (finish m) = fst (fst m)"
  by (simp add: finish_def case_prod_unfold)

lemma step_log_effect: "log_effect ev n (n_log (fst (step ev n)))"
proof (cases ev)
  case Tick
  with same_log_tick[of n] show ?thesis by (simp add: step_def log_effect_def)
next
  case (Message m)
  with handle_message_log_effect[of m n] show ?thesis by (simp add: step_def)
next
  case (AddServer i)
  with change_membership_log_effect[of n "Some i" None] show ?thesis
    by (simp add: step_def log_effect_def)
next
  case (RemoveServer i)
  with change_membership_log_effect[of n None "Some i"] show ?thesis
    by (simp add: step_def log_effect_def)
next
  case (TransferLeadership t)
  then show ?thesis by (simp add: step_def log_effect_def transfer_leadership_log)
next
  case (Propose c)
  then show ?thesis by (simp only: step_def propose_log_effect event.case)
next
  case (SnapshotEvent i d)
  then show ?thesis by (simp only: step_def handle_snapshot_event_log_effect event.case)
qed

text \<open>So the log stays well formed.\<close>

lemma ml_inv_snoc:
  assumes "ml_inv l" "le_index e = ml_last_index l + 1" "unat (ml_last_index l) + 1 < 2 ^ 64"
  shows "ml_inv (l\<lparr>ml_entries := ml_entries l @ [e]\<rparr>)"
  using mem.append_ok[OF assms(1) append_one[OF assms(2)]] assms(3) mem.last_index[OF assms(1)]
  by simp

lemma same_log_last:
  "same_log l l' \<Longrightarrow> al_last (ml_abs l') = al_last (ml_abs l)"
  by (auto simp: same_log_def al_last_def)

lemma log_effect_inv:
  assumes "log_effect ev n l'" "ml_inv (n_log n)" "log_room ev n"
  shows "ml_inv l'"
proof (cases "same_log (n_log n) l'")
  case True
  with assms(2) same_log_inv show ?thesis by blast
next
  case False
  note li = mem.last_index[OF assms(2)]
  note inv = same_log_inv[THEN iffD2, OF _ assms(2)]
  have one: "ml_inv ((n_log n)\<lparr>ml_entries := ml_entries (n_log n) @ [e]\<rparr>)"
    if "le_index e = ml_last_index (n_log n) + 1" "unat (ml_last_index (n_log n)) + 1 < 2 ^ 64" for e
    by (rule ml_inv_snoc[OF assms(2) that])
  show ?thesis
  proof (cases ev)
    case (Message m)
    with False assms(1,3) show ?thesis
      by (cases m) (auto simp: log_effect_def log_room_def li
          intro!: ml_apply_snapshot_inv append_from_leader_inv simp: same_log_last dest: inv)
  next
    case (Propose c)
    with False assms(1,3) one show ?thesis by (simp add: log_effect_def log_room_def)
  next
    case (AddServer i)
    with False assms(1,3) one show ?thesis by (auto simp: log_effect_def log_room_def)
  next
    case (RemoveServer i)
    with False assms(1,3) one show ?thesis by (auto simp: log_effect_def log_room_def)
  next
    case (SnapshotEvent i d)
    with False assms(1,2) show ?thesis by (auto simp: log_effect_def ml_apply_snapshot_inv)
  qed (use False assms(1) in \<open>simp_all add: log_effect_def\<close>)
qed

lemma step_ml_inv:
  "ml_inv (n_log n) \<Longrightarrow> log_room ev n \<Longrightarrow> ml_inv (n_log (fst (step ev n)))"
  by (rule log_effect_inv[OF step_log_effect])

end
