(* ===== verification/Samples.thy ===== *)
theory Samples
  imports Node_Step
begin

text \<open>
  Concrete nodes of a three-node cluster with the shortest timeouts, at which the
  properties of the node are instantiated: a fresh follower, a leader just elected, and the
  follower and the leader after the leader has replicated one command.
\<close>

definition three :: "node_id \<Rightarrow> raft_config" where
  "three i = with_election_timeout 1 1 (config_new i [1, 2, 3])"

definition deliver :: "message \<Rightarrow> node \<Rightarrow> node" where
  "deliver m n = fst (step (Message m) n)"

definition request_by_1 :: message where
  "request_by_1 = RequestVote \<lparr>rv_term = 1, rv_candidate = 1, rv_last_log_index = 0,
                               rv_last_log_term = 0, rv_force = False\<rparr>"

definition fresh :: node where
  "fresh = node_new (three 2)"

definition candidate :: node where
  "candidate = deliver (PreVoteReply \<lparr>pvr_term = 0, pvr_vote_granted = True, pvr_from = 2\<rparr>)
     (fst (step Tick (node_new (three 1))))"

definition grant_by_2 :: message where
  "grant_by_2 = RequestVoteReply \<lparr>rvr_term = 1, rvr_vote_granted = True, rvr_from = 2\<rparr>"

definition leader :: node where
  "leader = deliver grant_by_2 candidate"

definition reply_by_2 :: "raft_index \<Rightarrow> message" where
  "reply_by_2 i = AppendEntriesReply \<lparr>aer_term = 1, aer_success = True, aer_from = 2,
     aer_match_index = i, aer_conflict_index = 0, aer_conflict_term = 0\<rparr>"

text \<open>The leader after the reply to its first heartbeat and a proposal.\<close>

definition proposed :: node where
  "proposed = fst (step (Propose [7]) (deliver (reply_by_2 0) leader))"

definition append_7 :: append_entries where
  "append_7 = \<lparr>ae_term = 1, ae_leader = 1, ae_prev_log_index = 0, ae_prev_log_term = 0,
     ae_entries = [entry_new 1 1 [7]], ae_leader_commit = 0\<rparr>"

definition appended :: node where
  "appended = deliver (AppendEntries append_7) fresh"

text \<open>The leader once the follower has confirmed: the command is committed and applied.\<close>

definition committed :: node where
  "committed = deliver (reply_by_2 1) proposed"

end
