(* ===== verification/Append_Properties.thy ===== *)
theory Append_Properties
  imports Node_Log Samples
begin

text \<open>
  The follower's side of replication: what reconciling a leader's entries with the local log
  does (\<open>append_from_leader\<close>), and the facts about the log that hold across any step.
\<close>

subsection \<open>Reconciliation\<close>

text \<open>The entries of the message the log already has, with the same terms.\<close>

definition agrees :: "memory_log \<Rightarrow> log_entry list \<Rightarrow> bool" where
  "agrees l es \<longleftrightarrow> (\<forall>e \<in> set es. ml_term_at l (le_index e) = Some (le_term e))"

lemma reconcile_agrees: "agrees l es \<Longrightarrow> reconcile_scan l es = (l, Inr ([], False))"
  by (induction es) (auto simp: agrees_def)

text \<open>What reconciling leaves, in terms of the abstract log: the log itself when it has all the
  entries; otherwise the log up to the first entry it lacks, followed by the rest.\<close>

lemma al_term_at_append:
  "al_term_at (al_append a es) i =
     (if al_last a < i \<and> i \<le> al_last a + length es then Some (le_term (es ! (i - al_last a - 1)))
      else al_term_at a i)"
  by (auto simp: al_term_at_def al_entry_append al_last_def)

lemma al_term_at_truncate:
  "al_base a < i \<Longrightarrow> al_term_at (al_truncate a i) j = (if j < i then al_term_at a j else None)"
  by (auto simp: al_term_at_def al_entry_truncate)

lemma al_truncate_beyond: "al_last a < i \<Longrightarrow> al_truncate a i = a"
  by (simp add: al_truncate_def al_last_def)

lemma reconcile_conflict:
  assumes "ml_inv l" "indexed_from p es" "al_base (ml_abs l) \<le> p" "p \<le> al_last (ml_abs l)"
    and "\<not> agrees l es"
  shows "\<exists>k l1 tr. k < length es \<and> agrees l (take k es)
    \<and> ml_term_at l (le_index (es ! k)) \<noteq> Some (le_term (es ! k))
    \<and> reconcile_scan l es = (l1, Inr (drop k es, tr)) \<and> ml_inv l1
    \<and> ml_abs l1 = al_truncate (ml_abs l) (p + k + 1) \<and> p + k \<le> al_last (ml_abs l)"
  using assms(2-5)
proof (induction es arbitrary: p)
  case Nil
  then show ?case by (simp add: agrees_def)
next
  case (Cons e es)
  have ix: "unat (le_index e) = p + 1" using Cons.prems(1) by simp
  have at: "ml_term_at l (le_index e) = al_term_at (ml_abs l) (p + 1)"
    using mem.term_at[OF assms(1)] ix by simp
  show ?case
  proof (cases "ml_term_at l (le_index e)")
    case None
    with at have "al_term_at (ml_abs l) (p + 1) = None" by simp
    with Cons.prems(2) have last: "al_last (ml_abs l) < p + 1"
      unfolding al_term_at_None by linarith
    with None assms(1) Cons.prems(3) show ?thesis
      by (intro exI[of _ 0] exI[of _ l] exI[of _ False]) (auto simp: agrees_def al_truncate_beyond)
  next
    case (Some t)
    show ?thesis
    proof (cases "t = le_term e")
      case True
      from at Some have "al_term_at (ml_abs l) (p + 1) \<noteq> None" by (metis option.distinct(1))
      then have "p + 1 \<le> al_last (ml_abs l)" by (simp add: al_term_at_None)
      moreover have "\<not> agrees l es" using Cons.prems(4) Some True by (simp add: agrees_def)
      ultimately obtain k l1 tr where IH: "k < length es" "agrees l (take k es)"
        "ml_term_at l (le_index (es ! k)) \<noteq> Some (le_term (es ! k))"
        "reconcile_scan l es = (l1, Inr (drop k es, tr))" "ml_inv l1"
        "ml_abs l1 = al_truncate (ml_abs l) (p + 1 + k + 1)" "p + 1 + k \<le> al_last (ml_abs l)"
        using Cons.IH[of "p + 1"] Cons.prems(1,2) by auto
      with Some True show ?thesis
        by (intro exI[of _ "Suc k"] exI[of _ l1] exI[of _ tr]) (auto simp: agrees_def)
    next
      case False
      have lt: "ml_base_index l < le_index e"
        using ix Cons.prems(2) by (simp add: word_less_nat_alt)
      obtain l1 where tr: "ml_truncate l (le_index e) = (l1, Inr ())"
        using ml_truncate_total[OF lt] by auto
      with mem.truncate_ok[OF assms(1) tr] ix Some False Cons.prems(3) show ?thesis
        by (intro exI[of _ 0] exI[of _ l1] exI[of _ True]) (auto simp: agrees_def)
    qed
  qed
qed

text \<open>So appending from the leader always succeeds, and its effect on the log is known.\<close>

lemma last_index_of: "indexed_from p es \<Longrightarrow> es \<noteq> [] \<Longrightarrow> unat (le_index (last es)) = p + length es"
  by (simp add: indexed_from_def last_conv_nth)

lemma append_from_leader_agrees:
  "agrees l es \<Longrightarrow> append_from_leader es l = (l, Inr (le_index (last es), False))"
  by (simp add: append_from_leader_def reconcile_agrees)

lemma agrees_take: "agrees l es \<Longrightarrow> agrees l (take k es)"
  by (auto simp: agrees_def dest: in_set_takeD)

lemma append_from_leader_conflict:
  assumes "ml_inv l" "indexed_from p es" "al_base (ml_abs l) \<le> p" "p \<le> al_last (ml_abs l)"
    and "\<not> agrees l es" "p + length es < 2 ^ 64"
  shows "\<exists>k l' tr. k < length es \<and> agrees l (take k es)
    \<and> ml_term_at l (le_index (es ! k)) \<noteq> Some (le_term (es ! k))
    \<and> append_from_leader es l = (l', Inr (le_index (last es), tr)) \<and> ml_inv l'
    \<and> ml_abs l' = al_append (al_truncate (ml_abs l) (p + k + 1)) (drop k es)
    \<and> p + k \<le> al_last (ml_abs l)"
proof -
  obtain k l1 tr where k: "k < length es" "agrees l (take k es)"
    "ml_term_at l (le_index (es ! k)) \<noteq> Some (le_term (es ! k))"
    "reconcile_scan l es = (l1, Inr (drop k es, tr))" "ml_inv l1"
    "ml_abs l1 = al_truncate (ml_abs l) (p + k + 1)" "p + k \<le> al_last (ml_abs l)"
    using reconcile_conflict[OF assms(1-5)] by blast
  have last: "al_last (ml_abs l1) = p + k"
    using k(6,7) assms(3) by (simp add: al_last_truncate)
  have "indexed_from (p + k) (drop k es)"
    using indexed_from_drop[OF assms(2), of k] k(1) by simp
  moreover have room: "al_last (ml_abs l1) + length (drop k es) < 2 ^ 64"
    using last k(1) assms(6) by simp
  ultimately have ap: "ml_append l1 (drop k es)
      = (l1\<lparr>ml_entries := ml_entries l1 @ drop k es\<rparr>, Inr ())"
    using ml_append_cases[OF k(5), of "drop k es"] last by simp
  note ok = mem.append_ok[OF k(5) ap room]
  have "append_from_leader es l = (l1\<lparr>ml_entries := ml_entries l1 @ drop k es\<rparr>,
      Inr (le_index (last es), tr))"
    using k(1,4) ap by (simp add: append_from_leader_def ml_sync_def)
  with k ok show ?thesis by (intro exI[of _ k] exI[of _ "l1\<lparr>ml_entries := ml_entries l1 @ drop k es\<rparr>"] exI[of _ tr]) auto
qed

text \<open>The result entry by entry.\<close>

lemma append_from_leader_entries:
  assumes "ml_inv l" "indexed_from p es" "al_base (ml_abs l) \<le> p" "p \<le> al_last (ml_abs l)"
    and "p + length es < 2 ^ 64"
  obtains l' tr where "append_from_leader es l = (l', Inr (le_index (last es), tr))" "ml_inv l'"
    "\<And>k. k < length es \<Longrightarrow> al_term_at (ml_abs l') (p + k + 1) = Some (le_term (es ! k))"
    "\<And>i. i \<le> p \<Longrightarrow> al_entry (ml_abs l') i = al_entry (ml_abs l) i"
    "p + length es \<le> al_last (ml_abs l')"
    "al_base (ml_abs l') = al_base (ml_abs l)" "al_base_term (ml_abs l') = al_base_term (ml_abs l)"
    "agrees l es \<longrightarrow> l' = l"
    "\<And>k. k < length es \<Longrightarrow> al_entry (ml_abs l') (p + k + 1)
       = (if agrees l (take (Suc k) es) then al_entry (ml_abs l) (p + k + 1) else Some (es ! k))"
    "\<not> agrees l es \<longrightarrow> al_last (ml_abs l') = p + length es"
proof (cases "agrees l es")
  case True
  have at: "al_term_at (ml_abs l) (p + k + 1) = Some (le_term (es ! k))" if "k < length es" for k
    using True that assms(2) mem.term_at[OF assms(1), of "le_index (es ! k)"]
    by (simp add: agrees_def indexed_from_def)
  moreover have "p + length es \<le> al_last (ml_abs l)"
  proof (cases "es = []")
    case False
    then have "p + (length es - 1) + 1 = p + length es" by (cases es) simp_all
    with at[of "length es - 1"] False have "al_term_at (ml_abs l) (p + length es) \<noteq> None" by simp
    then show ?thesis by (simp add: al_term_at_None)
  qed (use assms(4) in simp)
  ultimately show ?thesis
    using that[OF append_from_leader_agrees[OF True] assms(1)] True agrees_take[OF True] by simp
next
  case False
  obtain k l' tr where k: "k < length es" "agrees l (take k es)" "ml_term_at l (le_index (es ! k)) \<noteq> Some (le_term (es ! k))"
    "append_from_leader es l = (l', Inr (le_index (last es), tr))" "ml_inv l'"
    "ml_abs l' = al_append (al_truncate (ml_abs l) (p + k + 1)) (drop k es)"
    "p + k \<le> al_last (ml_abs l)"
    using append_from_leader_conflict[OF assms(1-4) False assms(5)] by blast
  have lt: "al_base (ml_abs l) < p + k + 1" using assms(3) by simp
  have last: "al_last (al_truncate (ml_abs l) (p + k + 1)) = p + k"
    using k(7) al_last_truncate[OF lt] by simp
  have "al_term_at (ml_abs l') (p + j + 1) = Some (le_term (es ! j))" if j: "j < length es" for j
  proof (cases "j < k")
    case True
    with k(2) j have "ml_term_at l (le_index (take k es ! j)) = Some (le_term (take k es ! j))"
      unfolding agrees_def by (metis length_take min_less_iff_conj nth_mem)
    with True j assms(2) mem.term_at[OF assms(1), of "le_index (es ! j)"]
    have "al_term_at (ml_abs l) (p + j + 1) = Some (le_term (es ! j))"
      by (simp add: indexed_from_def)
    with True k(6) last lt show ?thesis
      by (simp add: al_term_at_append al_term_at_truncate)
  next
    case False
    with k(6) last j show ?thesis by (simp add: al_term_at_append)
  qed
  moreover have "al_entry (ml_abs l') i = al_entry (ml_abs l) i" if "i \<le> p" for i
    using that k(6) last lt by (simp add: al_entry_append al_entry_truncate)
  moreover have "p + length es \<le> al_last (ml_abs l')" using k(1,6) last by simp
  moreover have "al_base (ml_abs l') = al_base (ml_abs l)"
    "al_base_term (ml_abs l') = al_base_term (ml_abs l)" by (simp_all add: k(6))
  moreover have "al_entry (ml_abs l') (p + j + 1)
      = (if agrees l (take (Suc j) es) then al_entry (ml_abs l) (p + j + 1) else Some (es ! j))" if j: "j < length es" for j
  proof (cases "j < k")
    case True
    then have "agrees l (take (Suc j) es)" using agrees_take[OF k(2), of "Suc j"] by (simp add: min_absorb1)
    with True k(6) last lt show ?thesis by (simp add: al_entry_append al_entry_truncate)
  next
    case False
    with j have "es ! k \<in> set (take (Suc j) es)" by (auto simp: in_set_conv_nth intro!: exI[of _ k])
    with k(3) have "\<not> agrees l (take (Suc j) es)" by (auto simp: agrees_def)
    with False k(6) last j show ?thesis by (simp add: al_entry_append)
  qed
  moreover have "al_last (ml_abs l') = p + length es" using k(1,6) last by simp
  ultimately show ?thesis using that[OF k(4,5)] False by blast
qed

subsection \<open>The whole step\<close>

text \<open>\<open>same_log\<close> and reads.\<close>

lemma same_log_reads:
  "same_log l l' \<Longrightarrow> ml_term_at l' i = ml_term_at l i \<and> ml_entry l' i = ml_entry l i
     \<and> ml_last_index l' = ml_last_index l"
  using same_log_sel[of l l']
  by (simp add: ml_term_at_def ml_entry_def ml_slot_def ml_last_index_def)

lemma same_log_agrees: "same_log l l' \<Longrightarrow> agrees l' es \<longleftrightarrow> agrees l es"
  by (simp add: agrees_def same_log_reads)

lemma append_from_leader_same: "agrees l es \<Longrightarrow> fst (append_from_leader es l) = l"
  by (simp add: append_from_leader_agrees)

text \<open>Following the term of a message from the leader, whether or not it is later.\<close>

lemma follow_term:
  obtains n1 where "(if n_current_term n < t then become_follower t None n else (n, Inr ()))
      = (n1, Inr ())" "same_log (n_log n) (n_log n1)"
    "n_current_term n1 = max (n_current_term n) t" "n_commit_index n1 = n_commit_index n"
    "n_id n1 = n_id n"
proof (cases "n_current_term n < t")
  case True
  obtain n1 where bf: "become_follower t None n = (n1, Inr ())"
    using become_follower_log_effect[of n t None] by (metis prod.collapse)
  moreover have "n_id n1 = n_id n"
    using bf by (auto simp: become_follower_def Let_def persist_hard_state_eq split: if_splits)
  ultimately show ?thesis using that[of n1] True become_follower_log_effect[of n t None] by simp
next
  case False
  then show ?thesis using that[of n] by (simp add: max_def)
qed

lemma step_append_entries:
  assumes "(if n_current_term n < ae_term ae then become_follower (ae_term ae) None n
            else (n, Inr ())) = (n1, Inr ())"
  shows "step (Message (AppendEntries ae)) n = finish (handle_append_entries ae n1 [])"
  using assms
  by (auto simp: step_def handle_message_generic sticky_def dispatch_def split: if_splits)

lemma step_append_outcome:
  assumes acc: "accepts ae (n_log n)" "n_current_term n \<le> ae_term ae"
    and ok: "ae_entries ae \<noteq> [] \<Longrightarrow> append_from_leader (ae_entries ae) (n_log n)
        = (l, Inr (m, tr))"
    and empty: "ae_entries ae = [] \<Longrightarrow> l = n_log n \<and> m = ae_prev_log_index ae"
  shows "n_log (fst (fst (handle_append_entries ae n acts))) = l
    \<and> snd (handle_append_entries ae n acts) = Inr ()
    \<and> ae_reply n ae True m 0 0 \<in> set (snd (fst (handle_append_entries ae n acts)))"
proof -
  have g: "\<not> ae_term ae < n_current_term n" "\<not> ae_prev_log_index ae < ml_snapshot_index (n_log n)"
    "ml_term_at (n_log n) (ae_prev_log_index ae) = Some (ae_prev_log_term ae)"
    using acc by (auto simp: accepts_def)
  show ?thesis
  proof (cases "ae_entries ae = []")
    case True
    with g empty[OF True] show ?thesis
      by (simp add: handle_append_entries_def Let_def case_prod_unfold frame_simps ae_reply_def)
  next
    case False
    with g ok[OF False] show ?thesis
      by (simp add: handle_append_entries_def Let_def case_prod_unfold frame_simps
          ae_reply_def)
  qed
qed

text \<open>The conflict hint: the first index of the run of entries of one term that ends at \<open>i\<close>.\<close>

lemma first_index_of_term_run:
  assumes "ml_term_at l i = Some t"
  shows "first_index_of_term l t i \<le> i
    \<and> (\<forall>j. first_index_of_term l t i \<le> j \<and> j \<le> i \<longrightarrow> ml_term_at l j = Some t)
    \<and> (first_index_of_term l t i \<le> 1
       \<or> ml_term_at l (first_index_of_term l t i - 1) \<noteq> Some t)"
  using assms
proof (induction l t i rule: first_index_of_term.induct)
  case (1 l t i)
  show ?case
  proof (cases "1 < i \<and> ml_term_at l (i - 1) = Some t")
    case True
    note IH = "1.IH"[OF True] True
    have i: "i - 1 < i" using True unat_minus_one_less[of 1 i] by (simp add: word_less_nat_alt)
    have up: "j \<le> i - 1" if "j \<le> i" "j \<noteq> i" for j
      using that True unat_minus_one_pos[of i]
      by (auto simp: word_le_nat_alt word_less_nat_alt word_unat_eq_iff)
    have eq: "first_index_of_term l t i = first_index_of_term l t (i - 1)"
      using True by (subst first_index_of_term.simps) simp
    have "ml_term_at l j = Some t" if "first_index_of_term l t (i - 1) \<le> j" "j \<le> i" for j
      using IH "1.prems" up[OF that(2)] that by (cases "j = i") auto
    with IH i show ?thesis unfolding eq by auto
  next
    case False
    then have "first_index_of_term l t i = i" by (subst first_index_of_term.simps) (simp only: if_False)
    with False "1.prems" show ?thesis by (auto simp: not_less)
  qed
qed

subsection \<open>Properties\<close>

text \<open>
  C22: A follower that accepts an \<open>AppendEntries\<close> has the leader's entries: if the term is
  current and the log has the preceding entry, the step succeeds, answers with the index of the
  last entry, and has changed nothing at or below the preceding index. As long as the log has
  entries of the same terms as the message, it keeps its own; from the first index on where it
  does not, it holds the entries of the message, term, kind and command, and ends with them.
\<close>

theorem follower_accepts:
  assumes inv: "ml_inv (n_log n)" and trm: "n_current_term n \<le> ae_term ae"
    and acc: "accepts ae (n_log n)"
    and ix: "indexed_from (unat (ae_prev_log_index ae)) (ae_entries ae)"
    and room: "unat (ae_prev_log_index ae) + length (ae_entries ae) < 2 ^ 64"
  shows "(\<exists>acts m. snd (step (Message (AppendEntries ae)) n) = Inr acts
      \<and> unat m = unat (ae_prev_log_index ae) + length (ae_entries ae)
      \<and> Send (ae_leader ae) (AppendEntriesReply \<lparr>aer_term = ae_term ae, aer_success = True,
          aer_from = n_id n, aer_match_index = m, aer_conflict_index = 0,
          aer_conflict_term = 0\<rparr>) \<in> set acts)
    \<and> (\<forall>e \<in> set (ae_entries ae).
         ml_term_at (n_log (fst (step (Message (AppendEntries ae)) n))) (le_index e)
           = Some (le_term e))
    \<and> (\<forall>k < length (ae_entries ae).
         ml_entry (n_log (fst (step (Message (AppendEntries ae)) n))) (le_index (ae_entries ae ! k))
           = (if agrees (n_log n) (take (Suc k) (ae_entries ae))
              then ml_entry (n_log n) (le_index (ae_entries ae ! k)) else Some (ae_entries ae ! k)))
    \<and> (\<not> agrees (n_log n) (ae_entries ae) \<longrightarrow>
         unat (ml_last_index (n_log (fst (step (Message (AppendEntries ae)) n))))
           = unat (ae_prev_log_index ae) + length (ae_entries ae))
    \<and> (\<forall>i \<le> ae_prev_log_index ae.
         ml_entry (n_log (fst (step (Message (AppendEntries ae)) n))) i = ml_entry (n_log n) i)"
proof -
  obtain n1 where n1: "(if n_current_term n < ae_term ae then become_follower (ae_term ae) None n
      else (n, Inr ())) = (n1, Inr ())" "same_log (n_log n) (n_log n1)"
    "n_current_term n1 = max (n_current_term n) (ae_term ae)" "n_id n1 = n_id n"
    using follow_term[of n "ae_term ae"] by metis
  let ?es = "ae_entries ae" and ?p = "unat (ae_prev_log_index ae)"
  have inv1: "ml_inv (n_log n1)" using inv same_log_inv[OF n1(2)] by simp
  have acc1: "accepts ae (n_log n1)"
    using acc same_log_reads[OF n1(2)] same_log_sel[OF n1(2)]
    by (simp add: accepts_def ml_snapshot_index_def)
  then have bp: "al_base (ml_abs (n_log n1)) \<le> ?p" "?p \<le> al_last (ml_abs (n_log n1))"
    using mem.term_at_None[OF inv1, of "ae_prev_log_index ae"] mem.last_index[OF inv1]
    by (auto simp: accepts_def word_le_nat_alt word_less_nat_alt not_less ml_snapshot_index_def)
  obtain l tr where l: "append_from_leader ?es (n_log n1) = (l, Inr (le_index (last ?es), tr))"
    "ml_inv l"
    "\<And>k. k < length ?es \<Longrightarrow> al_term_at (ml_abs l) (?p + k + 1) = Some (le_term (?es ! k))"
    "\<And>i. i \<le> ?p \<Longrightarrow> al_entry (ml_abs l) i = al_entry (ml_abs (n_log n1)) i"
    "agrees (n_log n1) ?es \<longrightarrow> l = n_log n1"
    "\<And>k. k < length ?es \<Longrightarrow> al_entry (ml_abs l) (?p + k + 1)
       = (if agrees (n_log n1) (take (Suc k) ?es) then al_entry (ml_abs (n_log n1)) (?p + k + 1) else Some (?es ! k))"
    "\<not> agrees (n_log n1) ?es \<longrightarrow> al_last (ml_abs l) = ?p + length ?es"
    by (rule append_from_leader_entries[OF inv1 ix bp room]) (rule that; assumption)
  define m where "m = (if ?es = [] then ae_prev_log_index ae else le_index (last ?es))"
  have out: "n_log (fst (fst (handle_append_entries ae n1 []))) = l
    \<and> snd (handle_append_entries ae n1 []) = Inr ()
    \<and> ae_reply n1 ae True m 0 0 \<in> set (snd (fst (handle_append_entries ae n1 [])))"
    using l(1,5) acc1 n1(3) trm
    by (intro step_append_outcome) (auto simp: m_def agrees_def)
  have ag: "agrees (n_log n1) es = agrees (n_log n) es" for es
    using same_log_reads[OF n1(2)] by (simp add: agrees_def)
  note st = step_append_entries[OF n1(1)]
  have um: "unat m = ?p + length ?es" using last_index_of[OF ix] by (simp add: m_def)
  have "snd (step (Message (AppendEntries ae)) n)
      = Inr (snd (fst (handle_append_entries ae n1 [])))"
    using out by (cases "handle_append_entries ae n1 []") (auto simp: st finish_def)
  moreover have "n_log (fst (step (Message (AppendEntries ae)) n)) = l"
    using out by (simp add: st)
  moreover have "ml_term_at l (le_index e) = Some (le_term e)" if "e \<in> set ?es" for e
  proof -
    from that obtain k where "k < length ?es" "e = ?es ! k" by (metis in_set_conv_nth)
    with l(3)[of k] ix mem.term_at[OF l(2), of "le_index e"] show ?thesis
      by (simp add: indexed_from_def)
  qed
  moreover have "ml_entry l (le_index (?es ! k)) = (if agrees (n_log n) (take (Suc k) ?es)
      then ml_entry (n_log n) (le_index (?es ! k)) else Some (?es ! k))" if "k < length ?es" for k
    using l(6)[OF that] ix that mem.entry[OF l(2), of "le_index (?es ! k)"]
      mem.entry[OF inv1, of "le_index (?es ! k)"] same_log_reads[OF n1(2)]
    by (simp add: indexed_from_def ag)
  moreover have "\<not> agrees (n_log n) ?es \<longrightarrow> unat (ml_last_index l) = ?p + length ?es"
    using l(7) mem.last_index[OF l(2)] by (simp add: ag)
  moreover have "ml_entry l i = ml_entry (n_log n) i" if "i \<le> ae_prev_log_index ae" for i
    using that l(4)[of "unat i"] mem.entry[OF l(2), of i] mem.entry[OF inv1, of i]
      same_log_reads[OF n1(2)] by (simp add: word_le_nat_alt)
  moreover have "ae_reply n1 ae True m 0 0 = Send (ae_leader ae) (AppendEntriesReply \<lparr>aer_term = ae_term ae,
      aer_success = True, aer_from = n_id n, aer_match_index = m, aer_conflict_index = 0, aer_conflict_term = 0\<rparr>)"
    using n1(3,4) trm by (simp add: ae_reply_def max_def)
  ultimately show ?thesis
    using out um by (intro conjI exI[of _ "snd (fst (handle_append_entries ae n1 []))"] exI[of _ m]) simp_all
qed

lemma sample_append:
  "ml_inv (n_log fresh)" "accepts append_7 (n_log fresh)"
  "n_current_term fresh \<le> ae_term append_7"
  "unat (ae_prev_log_index append_7) = 0" "ae_entries append_7 = [entry_new 1 1 [7]]"
proof -
  have "n_log fresh = ml_new" by code_simp
  then show "ml_inv (n_log fresh)" by (simp add: ml_inv_new)
  show "accepts append_7 (n_log fresh)" "n_current_term fresh \<le> ae_term append_7" by code_simp+
qed (simp_all add: append_7_def)

theorem follower_accepts_witness:
  "ml_entry (n_log (fst (step (Message (AppendEntries append_7)) fresh))) 1 = Some (entry_new 1 1 [7])"
proof -
  have "\<not> agrees (n_log fresh) [entry_new 1 1 [7]]" by code_simp
  then show ?thesis using follower_accepts[OF sample_append(1,3,2)] sample_append(4,5) by simp
qed

text \<open>
  C23: A repeated or delayed \<open>AppendEntries\<close> is harmless: if the log already has every entry
  of the message, in the same term, then handling it changes no entry of the log and in
  particular drops none beyond the message, whatever the message's term and preceding index.
\<close>

theorem stale_append_keeps_log:
  assumes "agrees (n_log n) (ae_entries ae)"
  shows "ml_entries (n_log (fst (step (Message (AppendEntries ae)) n))) = ml_entries (n_log n)"
proof -
  have "same_log (n_log n) (n_log (fst (step (Message (AppendEntries ae)) n)))"
    using step_log_effect[of "Message (AppendEntries ae)" n] assms
    by (auto simp: log_effect_def same_log_agrees append_from_leader_same)
  then show ?thesis by (simp add: same_log_sel)
qed

theorem stale_append_keeps_log_witness:
  "ml_entries (n_log (fst (step (Message (AppendEntries append_7)) appended)))
     = ml_entries (n_log appended)"
proof -
  have "ml_term_at (n_log appended) 1 = Some 1" by code_simp
  then show ?thesis
    by (intro stale_append_keeps_log) (simp add: agrees_def append_7_def)
qed

text \<open>
  C28: A rejection is exact and changes no entry. An \<open>AppendEntries\<close> of an older term leaves the
  node as it is and is answered with the node's term, no hint. One of a current or later term
  whose preceding entry, at or above the boundary, the log does not have leaves the log alone but
  for the hard state a later term brings: when that entry is missing the reply names the index
  after the last entry; when it has another term the reply names that term and the first index
  of its run, from which on up to the preceding index every entry has it.
\<close>

theorem append_rejected:
  assumes "ml_inv (n_log n)"
  shows "(ae_term ae < n_current_term n \<longrightarrow>
      step (Message (AppendEntries ae)) n = (n, Inr [Send (ae_leader ae) (AppendEntriesReply
        \<lparr>aer_term = n_current_term n, aer_success = False, aer_from = n_id n, aer_match_index = 0,
         aer_conflict_index = 0, aer_conflict_term = 0\<rparr>)]))
    \<and> (n_current_term n \<le> ae_term ae \<and> ml_snapshot_index (n_log n) \<le> ae_prev_log_index ae
        \<and> ml_term_at (n_log n) (ae_prev_log_index ae) \<noteq> Some (ae_prev_log_term ae) \<longrightarrow>
      (\<exists>ci ct. same_log (n_log n) (n_log (fst (step (Message (AppendEntries ae)) n)))
      \<and> (n_current_term n = ae_term ae \<longrightarrow> n_log (fst (step (Message (AppendEntries ae)) n)) = n_log n)
      \<and> snd (step (Message (AppendEntries ae)) n) = Inr [Send (ae_leader ae) (AppendEntriesReply
          \<lparr>aer_term = ae_term ae, aer_success = False, aer_from = n_id n, aer_match_index = 0,
           aer_conflict_index = ci, aer_conflict_term = ct\<rparr>)]
      \<and> (if ml_last_index (n_log n) < ae_prev_log_index ae
         then ci = ml_last_index (n_log n) + 1 \<and> ct = 0
         else ci \<le> ae_prev_log_index ae
           \<and> (\<forall>j. ci \<le> j \<and> j \<le> ae_prev_log_index ae \<longrightarrow> ml_term_at (n_log n) j = Some ct)
           \<and> (ci \<le> 1 \<or> ml_term_at (n_log n) (ci - 1) \<noteq> Some ct))))"
proof (intro conjI impI)
  assume "ae_term ae < n_current_term n"
  moreover have "step (Message (AppendEntries ae)) n = finish (handle_append_entries ae n [])"
    using calculation by (intro step_append_entries) auto
  ultimately show "step (Message (AppendEntries ae)) n = (n, Inr [Send (ae_leader ae) (AppendEntriesReply
        \<lparr>aer_term = n_current_term n, aer_success = False, aer_from = n_id n, aer_match_index = 0,
         aer_conflict_index = 0, aer_conflict_term = 0\<rparr>)])"
    by (simp add: handle_append_entries_def ae_reply_def finish_def)
next
  assume h: "n_current_term n \<le> ae_term ae \<and> ml_snapshot_index (n_log n) \<le> ae_prev_log_index ae
    \<and> ml_term_at (n_log n) (ae_prev_log_index ae) \<noteq> Some (ae_prev_log_term ae)"
  obtain n1 where n1: "(if n_current_term n < ae_term ae then become_follower (ae_term ae) None n
      else (n, Inr ())) = (n1, Inr ())" "same_log (n_log n) (n_log n1)"
    "n_current_term n1 = max (n_current_term n) (ae_term ae)" "n_id n1 = n_id n"
    using follow_term[of n "ae_term ae"] by metis
  note st = step_append_entries[OF n1(1)] and rd = same_log_reads[OF n1(2)] same_log_sel[OF n1(2)]
  have t1: "n_current_term n1 = ae_term ae" using n1(3) h by simp
  have same: "n_current_term n = ae_term ae \<longrightarrow> n1 = n" using n1(1) by auto
  have g: "\<not> ae_prev_log_index ae < ml_snapshot_index (n_log n1)" "\<not> ae_term ae < n_current_term n1"
    "ml_term_at (n_log n1) (ae_prev_log_index ae) \<noteq> Some (ae_prev_log_term ae)"
    using h t1 rd by (auto simp: ml_snapshot_index_def)
  have last: "ml_last_index (n_log n1) = ml_last_index (n_log n)" using rd by (simp add: ml_last_index_def ml_len_def)
  let ?ci = "if ml_last_index (n_log n) < ae_prev_log_index ae then ml_last_index (n_log n) + 1
      else first_index_of_term (n_log n1) (the (ml_term_at (n_log n) (ae_prev_log_index ae))) (ae_prev_log_index ae)"
  let ?ct = "if ml_last_index (n_log n) < ae_prev_log_index ae then 0 else the (ml_term_at (n_log n) (ae_prev_log_index ae))"
  obtain t where t: "ml_last_index (n_log n) < ae_prev_log_index ae \<or> ml_term_at (n_log n) (ae_prev_log_index ae) = Some t"
    using mem.term_at_None[OF assms, of "ae_prev_log_index ae"] h by (auto simp: not_less)
  have out: "n_log (fst (step (Message (AppendEntries ae)) n)) = n_log n1"
    "snd (step (Message (AppendEntries ae)) n) = Inr [Send (ae_leader ae) (AppendEntriesReply
          \<lparr>aer_term = ae_term ae, aer_success = False, aer_from = n_id n, aer_match_index = 0,
           aer_conflict_index = ?ci, aer_conflict_term = ?ct\<rparr>)]"
    using g t rd(1) last t1 n1(4) unfolding st
    by (auto simp: handle_append_entries_def Let_def frame_simps ae_reply_def finish_def)
  have run: "if ml_last_index (n_log n) < ae_prev_log_index ae
         then ?ci = ml_last_index (n_log n) + 1 \<and> ?ct = 0
         else ?ci \<le> ae_prev_log_index ae
           \<and> (\<forall>j. ?ci \<le> j \<and> j \<le> ae_prev_log_index ae \<longrightarrow> ml_term_at (n_log n) j = Some ?ct)
           \<and> (?ci \<le> 1 \<or> ml_term_at (n_log n) (?ci - 1) \<noteq> Some ?ct)"
  proof (cases "ml_last_index (n_log n) < ae_prev_log_index ae")
    case False
    with t have t': "ml_term_at (n_log n) (ae_prev_log_index ae) = Some t" by simp
    have reads: "ml_term_at (n_log n1) i = ml_term_at (n_log n) i" for i using rd(1) by blast
    from first_index_of_term_run[of "n_log n1" "ae_prev_log_index ae" t] t' False show ?thesis
      by (simp add: reads)
  qed simp
  from out run n1(2) same show "\<exists>ci ct. same_log (n_log n) (n_log (fst (step (Message (AppendEntries ae)) n)))
      \<and> (n_current_term n = ae_term ae \<longrightarrow> n_log (fst (step (Message (AppendEntries ae)) n)) = n_log n)
      \<and> snd (step (Message (AppendEntries ae)) n) = Inr [Send (ae_leader ae) (AppendEntriesReply
          \<lparr>aer_term = ae_term ae, aer_success = False, aer_from = n_id n, aer_match_index = 0,
           aer_conflict_index = ci, aer_conflict_term = ct\<rparr>)]
      \<and> (if ml_last_index (n_log n) < ae_prev_log_index ae
         then ci = ml_last_index (n_log n) + 1 \<and> ct = 0
         else ci \<le> ae_prev_log_index ae
           \<and> (\<forall>j. ci \<le> j \<and> j \<le> ae_prev_log_index ae \<longrightarrow> ml_term_at (n_log n) j = Some ct)
           \<and> (ci \<le> 1 \<or> ml_term_at (n_log n) (ci - 1) \<noteq> Some ct))"
    by (intro exI[of _ ?ci] exI[of _ ?ct] conjI) (simp_all only:, simp_all)
qed

theorem append_rejected_witness:
  "ml_entries (n_log (fst (step (Message (AppendEntries (append_7\<lparr>ae_prev_log_index := 5\<rparr>)))
     appended))) = ml_entries (n_log appended)"
proof -
  have h: "n_current_term appended = 1" "ml_snapshot_index (n_log appended) = 0"
    "ml_term_at (n_log appended) 5 = None" "ae_term append_7 = 1"
    by code_simp+
  have "ml_inv (n_log appended)"
  proof -
    have "log_room (Message (AppendEntries append_7)) fresh" by code_simp
    from step_ml_inv[OF sample_append(1) this] show ?thesis
      by (simp add: appended_def deliver_def)
  qed
  from append_rejected[OF this, of "append_7\<lparr>ae_prev_log_index := 5\<rparr>"] h show ?thesis by auto
qed

end
