(* ===== verification/Full_Log.thy ===== *)
theory Full_Log
  imports Ledger Append_Properties
begin

text \<open>
  A \<open>MemoryLog\<close> as the compaction of a full log: the entries above the boundary are those of
  the full log, and the boundary has its term. What the reads and writes of a node's log mean
  for the full log it stands for.
\<close>

definition compacts :: "memory_log \<Rightarrow> log_entry list \<Rightarrow> bool" where
  "compacts l xs \<longleftrightarrow> ml_inv l \<and> unat (ml_base_index l) \<le> length xs
     \<and> ml_entries l = drop (unat (ml_base_index l)) xs
     \<and> ml_base_term l = term_of xs (unat (ml_base_index l))"

lemma compactsD:
  assumes "compacts l xs"
  shows "ml_inv l" "unat (ml_base_index l) \<le> length xs"
    and "ml_entries l = drop (unat (ml_base_index l)) xs"
    and "ml_base_term l = term_of xs (unat (ml_base_index l))"
  using assms by (simp_all add: compacts_def)

lemma compacts_new: "compacts ml_new []"
  by (simp add: compacts_def ml_inv_new) (simp add: ml_new_def)

lemma compacts_same: "same_log l l' \<Longrightarrow> compacts l' xs \<longleftrightarrow> compacts l xs"
  using same_log_sel[of l l'] same_log_inv[of l l'] by (simp add: compacts_def)

lemma compacts_hard [simp]: "compacts (l\<lparr>ml_hard := h\<rparr>) xs \<longleftrightarrow> compacts l xs"
  by (rule compacts_same) simp

lemma compacts_last_index: "compacts l xs \<Longrightarrow> unat (ml_last_index l) = length xs"
  using unat_ml_last_index[of l] by (simp add: compacts_def)

lemma compacts_al_last: "compacts l xs \<Longrightarrow> al_last (ml_abs l) = length xs"
  by (simp add: compacts_def al_last_def)

lemma compacts_room: "compacts l xs \<Longrightarrow> length xs < 2 ^ 64"
  using ml_room[of l] by (simp add: compacts_def)

lemma compacts_entry:
  assumes "compacts l xs"
  shows "ml_entry l i = (if unat (ml_base_index l) < unat i \<and> unat i \<le> length xs
     then Some (xs ! (unat i - 1)) else None)"
proof -
  note D = compactsD[OF assms]
  show ?thesis
    using D(2) by (simp add: ml_entry_abs[OF D(1)] al_entry_def compacts_al_last[OF assms] D(3) add.commute)
qed

lemma compacts_term_at:
  assumes "compacts l xs"
  shows "ml_term_at l i = (if unat (ml_base_index l) \<le> unat i \<and> unat i \<le> length xs
     then Some (term_of xs (unat i)) else None)"
proof -
  note D = compactsD[OF assms]
  have "al_entry (ml_abs l) (unat i) = (if unat (ml_base_index l) < unat i \<and> unat i \<le> length xs
     then Some (xs ! (unat i - 1)) else None)"
    using compacts_entry[OF assms, of i] ml_entry_abs[OF D(1), of i] by simp
  then show ?thesis
    using D(2,4) by (auto simp: ml_term_at_abs[OF D(1)] al_term_at_def term_of_def)
qed

lemma compacts_last_term: "compacts l xs \<Longrightarrow> ml_last_term l = last_term xs"
proof -
  assume c: "compacts l xs"
  note D = compactsD[OF c]
  show ?thesis
  proof (cases "unat (ml_base_index l) = length xs")
    case True
    with D(3,4) show ?thesis by (simp add: ml_last_term_abs al_last_term_def last_term_def)
  next
    case False
    with D(2) have ne: "drop (unat (ml_base_index l)) xs \<noteq> []" "xs \<noteq> []" by auto
    then show ?thesis
      using D(3) by (simp add: ml_last_term_abs al_last_term_def last_term_def term_of_def last_conv_nth)
  qed
qed

lemma compacts_range:
  assumes c: "compacts l xs" and a: "ml_base_index l < a"
  shows "ml_entries_range l a b = take (unat b - (unat a - 1)) (drop (unat a - 1) xs)"
proof -
  note D = compactsD[OF c]
  have lt: "unat (ml_base_index l) < unat a" using a by (simp add: word_less_nat_alt)
  then have "a \<noteq> 0" by auto
  show ?thesis
  proof (cases "b < a")
    case True
    then have "unat b - (unat a - 1) = 0" by (simp add: word_less_nat_alt)
    with True show ?thesis by (simp add: ml_entries_range_abs[OF D(1)])
  next
    case False
    have m: "max (unat a - 1) (unat (ml_base_index l)) = unat a - 1" using lt by simp
    have s: "unat a - 1 - unat (ml_base_index l) + unat (ml_base_index l) = unat a - 1"
      using lt by simp
    then have d: "drop (unat a - 1 - unat (ml_base_index l)) (drop (unat (ml_base_index l)) xs)
        = drop (unat a - 1) xs"
      by (simp only: drop_drop)
    have "al_range (ml_abs l) (unat a) (unat b) = take (unat b - (unat a - 1)) (drop (unat a - 1) xs)"
      unfolding al_range_def ml_abs_sel D(3) m d ..
    with False \<open>a \<noteq> 0\<close> show ?thesis by (simp add: ml_entries_range_abs[OF D(1)])
  qed
qed

text \<open>A full log has an entry's index at its position.\<close>

lemma indexed_length:
  assumes "indexed_from 0 xs"
  shows "length xs < 2 ^ 64"
proof (cases xs)
  case (Cons a ys)
  then have "unat (le_index (last xs)) = 0 + length xs"
    using last_index_of[OF assms] by simp
  moreover have "unat (le_index (last xs)) < 2 ^ 64"
    using unsigned_less[of "le_index (last xs)", where ?'a = nat] by simp
  ultimately show ?thesis by linarith
qed simp

lemma indexed_slice: "indexed_from 0 L \<Longrightarrow> p \<le> length L \<Longrightarrow> indexed_from p (take n (drop p L))"
  using indexed_from_take[OF indexed_from_drop[of 0 L p]] by simp

subsection \<open>Writing\<close>

lemma compacts_snoc:
  assumes "compacts l xs" "le_index e = ml_last_index l + 1" "length xs + 1 < 2 ^ 64"
  shows "compacts (l\<lparr>ml_entries := ml_entries l @ [e]\<rparr>) (xs @ [e])"
proof -
  note D = compactsD[OF assms(1)]
  have "unat (ml_last_index l) + 1 < 2 ^ 64" using assms(3) compacts_last_index[OF assms(1)] by simp
  from ml_inv_snoc[OF D(1) assms(2) this] D show ?thesis by (simp add: compacts_def)
qed

text \<open>Compacting below the end of the log, at an index whose term it has.\<close>

lemma install_fields:
  assumes "ml_inv l" "ml_base_index l < sn_index sn"
  defines "l' \<equiv> fst (ml_apply_snapshot l sn)"
  shows "ml_inv l'" "ml_base_index l' = sn_index sn" "ml_base_term l' = sn_term sn"
    and "ml_entries l' = (if ml_term_at l (sn_index sn) = Some (sn_term sn)
           then drop (unat (sn_index sn) - unat (ml_base_index l)) (ml_entries l) else [])"
proof -
  have e: "ml_apply_snapshot l sn = (l', Inr ())"
    by (metis l'_def ml_apply_snapshot_never_fails prod.collapse)
  note ok = ml_apply_snapshot_ok[OF assms(1) e]
  have nle: "\<not> unat (sn_index sn) \<le> al_base (ml_abs l)"
    using assms(2) by (simp add: word_less_nat_alt)
  from ok show "ml_inv l'" by simp
  from ok nle have a: "ml_abs l' = (ml_abs l)\<lparr>al_base := unat (sn_index sn), al_base_term := sn_term sn,
     al_ents := (if al_term_at (ml_abs l) (unat (sn_index sn)) = Some (sn_term sn)
                 then drop (unat (sn_index sn) - al_base (ml_abs l)) (al_ents (ml_abs l)) else []),
     al_snap := Some sn\<rparr>" by (simp add: al_install_def)
  from arg_cong[OF a, of al_base] show "ml_base_index l' = sn_index sn" by (simp add: word_unat_eq_iff)
  from arg_cong[OF a, of al_base_term] show "ml_base_term l' = sn_term sn" by simp
  from arg_cong[OF a, of al_ents] show "ml_entries l' = (if ml_term_at l (sn_index sn) = Some (sn_term sn)
           then drop (unat (sn_index sn) - unat (ml_base_index l)) (ml_entries l) else [])"
    by (simp add: ml_term_at_abs[OF assms(1)])
qed

lemma compacts_install_match:
  assumes c: "compacts l xs" and lt: "ml_base_index l < sn_index sn"
    and s: "unat (sn_index sn) \<le> length xs" and t: "term_of xs (unat (sn_index sn)) = sn_term sn"
  shows "compacts (fst (ml_apply_snapshot l sn)) xs"
proof -
  note D = compactsD[OF c] and F = install_fields[OF compactsD(1)[OF c] lt]
  have lt': "unat (ml_base_index l) < unat (sn_index sn)" using lt by (simp add: word_less_nat_alt)
  then have "ml_term_at l (sn_index sn) = Some (sn_term sn)" using s t by (simp add: compacts_term_at[OF c])
  with F D lt' s t show ?thesis by (simp add: compacts_def)
qed

lemma compacts_install_ledger:
  assumes c: "compacts l xs" and lt: "ml_base_index l < sn_index sn"
    and s: "unat (sn_index sn) \<le> length L" and t: "term_of L (unat (sn_index sn)) = sn_term sn"
    and no: "\<not> (unat (sn_index sn) \<le> length xs \<and> term_of xs (unat (sn_index sn)) = sn_term sn)"
  shows "compacts (fst (ml_apply_snapshot l sn)) (take (unat (sn_index sn)) L)"
proof -
  note F = install_fields[OF compactsD(1)[OF c] lt]
  have "unat (ml_base_index l) < unat (sn_index sn)" using lt by (simp add: word_less_nat_alt)
  then have "ml_term_at l (sn_index sn) \<noteq> Some (sn_term sn)"
    using no by (auto simp: compacts_term_at[OF c])
  with F s t show ?thesis by (simp add: compacts_def)
qed

text \<open>A snapshot of a ledger's prefix makes the full log take it over.\<close>

lemma install_takes_over:
  assumes "grounded lg xs" "grounded lg L" "s \<le> length L"
    "\<not> (s \<le> length xs \<and> term_of xs s = term_of L s)"
  shows "takes_over L xs (take s L)"
  unfolding takes_over_def
proof (intro disjI2 exI[of _ s] conjI allI impI refl assms(3))
  fix k assume k: "k \<le> length xs" "k \<le> length L" "take k xs = take k L"
  show "k \<le> s"
  proof (rule ccontr)
    assume "\<not> k \<le> s"
    with k term_of_cong[OF k(3), of s] assms(4) show False by simp
  qed
qed

lemma slice_step: "p \<le> length L \<Longrightarrow> k \<le> n \<Longrightarrow> p + n \<le> length L \<Longrightarrow> b \<le> p \<Longrightarrow>
  drop b (take (p + k) L) @ drop k (take n (drop p L)) = drop b (take (p + n) L)"
proof -
  assume a: "p \<le> length L" "k \<le> n" "p + n \<le> length L" "b \<le> p"
  have "take (p + n) L = take (p + k) L @ take (n - k) (drop (p + k) L)"
    using a(2) take_add[of "p + k" "n - k" L] by simp
  moreover have "drop k (take n (drop p L)) = take (n - k) (drop (p + k) L)"
    by (simp add: drop_take add.commute)
  ultimately show ?thesis using a by simp
qed

text \<open>The follower's side of \<open>AppendEntries\<close>: given a slice of a ledger after a position at
  which the log has the ledger's term, the full log becomes one that has the ledger up to the
  end of the slice and loses nothing it shared with the ledger.\<close>

lemma compacts_append_from_leader:
  assumes c: "compacts l xs" and g: "grounded lg xs" "grounded lg L" "indexed_from 0 L"
    and p: "unat (ml_base_index l) \<le> p" "p \<le> length xs" "p \<le> length L" "term_of xs p = term_of L p"
    and es: "es = take n (drop p L)" "p + n \<le> length L"
  obtains l' tr ys where "append_from_leader es l = (l', Inr (le_index (last es), tr))"
    "compacts l' ys" "takes_over L xs ys" "p + n \<le> length ys" "take (p + n) ys = take (p + n) L"
    "ml_base_index l' = ml_base_index l"
proof -
  note D = compactsD[OF c]
  have ix: "indexed_from p es" using indexed_slice[OF g(3) p(3)] es(1) by simp
  have len: "length es = n" using es by simp
  have room: "p + length es < 2 ^ 64" using indexed_length[OF g(3)] es(2) len by simp
  have nth: "es ! k = L ! (p + k)" if "k < n" for k using that es by simp
  have term_es: "le_term (es ! k) = term_of L (p + k + 1)" if "k < n" for k
    using nth[OF that] by (simp add: term_of_def)
  have same: "take (p + k) xs = take (p + k) L \<and> p + k \<le> length xs" if "agrees l (take k es)" "k \<le> n" for k
  proof (cases k)
    case 0
    with grounded_match[OF g(1,2) p(2,3,4)] p(2) show ?thesis by simp
  next
    case (Suc m)
    then have m: "m < n" using that(2) by simp
    then have "es ! m \<in> set (take k es)" using Suc len by (auto simp: in_set_conv_nth intro!: exI[of _ m])
    with that(1) have "ml_term_at l (le_index (es ! m)) = Some (term_of L (p + k))"
      using term_es[OF m] Suc by (auto simp: agrees_def)
    moreover have "unat (le_index (es ! m)) = p + k"
      using ix m len Suc by (simp add: indexed_from_def)
    ultimately have k: "p + k \<le> length xs" "term_of xs (p + k) = term_of L (p + k)"
      by (auto simp: compacts_term_at[OF c] split: if_splits)
    have "p + k \<le> length L" using that(2) es(2) by simp
    from grounded_match[OF g(1,2) k(1) this k(2)] k(1) show ?thesis by simp
  qed
  show ?thesis
  proof (cases "agrees l es")
    case True
    have "take n es = es" using len by simp
    with same[of n] True have "take (p + n) xs = take (p + n) L" "p + n \<le> length xs" by auto
    with that[OF append_from_leader_agrees[OF True] c] show ?thesis by (simp add: takes_over_def)
  next
    case False
    obtain k l' tr where k: "k < length es" "agrees l (take k es)"
      "ml_term_at l (le_index (es ! k)) \<noteq> Some (le_term (es ! k))"
      "append_from_leader es l = (l', Inr (le_index (last es), tr))" "ml_inv l'"
      "ml_abs l' = al_append (al_truncate (ml_abs l) (p + k + 1)) (drop k es)"
      using append_from_leader_conflict[OF D(1) ix _ _ False room] p(1,2) compacts_al_last[OF c] by auto
    have kn: "k < n" using k(1) len by simp
    note S = same[OF k(2)] 
    let ?b = "unat (ml_base_index l)"
    let ?ys = "take (p + n) L"
    have "ml_entries l' = take (p + k - ?b) (drop ?b xs) @ drop k es"
      using arg_cong[OF k(6), of al_ents] D(3) by (simp add: al_append_def al_truncate_def)
    also have "take (p + k - ?b) (drop ?b xs) = drop ?b (take (p + k) L)"
      using S kn by (simp add: drop_take[symmetric])
    finally have ents: "ml_entries l' = drop ?b ?ys"
      using slice_step[OF p(3) _ es(2) p(1), of k] kn es(1) by simp
    have base: "ml_base_index l' = ml_base_index l" "ml_base_term l' = ml_base_term l"
      using arg_cong[OF k(6), of al_base] arg_cong[OF k(6), of al_base_term]
      by (simp_all add: word_unat_eq_iff)
    have "term_of xs ?b = term_of L ?b"
      using S kn p(1) term_of_cong[of "p + k" xs L ?b] by simp
    then have "compacts l' ?ys"
      using k(5) ents base D(4) p(1) es(2) by (simp add: compacts_def)
    moreover have "takes_over L xs ?ys"
      unfolding takes_over_def
    proof (intro disjI2 exI[of _ "p + n"] conjI allI impI refl es(2))
      fix j assume j: "j \<le> length xs" "j \<le> length L" "take j xs = take j L"
      show "j \<le> p + n"
      proof (rule ccontr)
        assume "\<not> j \<le> p + n"
        then have t: "term_of xs (p + k + 1) = term_of L (p + k + 1)" "p + k + 1 \<le> length xs"
          using kn j(1) term_of_cong[OF j(3), of "p + k + 1"] by auto
        have "unat (le_index (es ! k)) = p + k + 1" using ix kn len by (simp add: indexed_from_def)
        with t k(3) p(1) term_es[OF kn] show False by (simp add: compacts_term_at[OF c])
      qed
    qed
    ultimately show ?thesis using that[OF k(4)] es(2) base(1) by simp
  qed
qed

end
