(* ===== verification/Static_Membership.thy ===== *)
theory Static_Membership
  imports Node_Log Quorum
begin

text \<open>
  A node in a cluster whose membership is not being changed: its configuration stays the
  one it started with, and nothing it sends or stores carries another. \<open>plain vs\<close> is that
  invariant of a node, for the voter vector \<open>vs\<close>.
\<close>

definition plain_log :: "node_id list \<Rightarrow> memory_log \<Rightarrow> bool" where
  "plain_log vs l \<longleftrightarrow> (\<forall>e \<in> set (ml_entries l). members e = None)
     \<and> (ml_snapshot l \<noteq> None \<longrightarrow> ml_snapshot_config l = vs)"

definition plain :: "node_id list \<Rightarrow> node \<Rightarrow> bool" where
  "plain vs n \<longleftrightarrow> n_voters n = vs \<and> n_base_config n = vs \<and> plain_log vs (n_log n)"

definition plain_message :: "node_id list \<Rightarrow> message \<Rightarrow> bool" where
  "plain_message vs m \<longleftrightarrow> (case m of
     AppendEntries ae \<Rightarrow> (\<forall>e \<in> set (ae_entries ae). members e = None)
   | InstallSnapshot rpc \<Rightarrow> sn_config (ins_snapshot rpc) = vs
   | _ \<Rightarrow> True)"

definition plain_acts :: "node_id list \<Rightarrow> action list \<Rightarrow> bool" where
  "plain_acts vs acts \<longleftrightarrow> (\<forall>to m. Send to m \<in> set acts \<longrightarrow> plain_message vs m)"

definition plain_ctx :: "node_id list \<Rightarrow> ctx \<Rightarrow> bool" where
  "plain_ctx vs m \<longleftrightarrow> plain vs (fst m) \<and> plain_acts vs (snd m)"

lemma plain_message_simps [simp]:
  "plain_message vs (RequestVote a)" "plain_message vs (RequestVoteReply b)"
  "plain_message vs (PreVote c)" "plain_message vs (PreVoteReply d)"
  "plain_message vs (AppendEntriesReply e)" "plain_message vs (InstallSnapshotReply f)"
  "plain_message vs (TimeoutNow g)"
  by (simp_all add: plain_message_def)

lemma plain_acts_simps [simp]:
  "plain_acts vs []"
  "plain_acts vs (xs @ ys) \<longleftrightarrow> plain_acts vs xs \<and> plain_acts vs ys"
  "plain_acts vs (Send to m # xs) \<longleftrightarrow> plain_message vs m \<and> plain_acts vs xs"
  by (auto simp: plain_acts_def)

lemma plain_acts_other: "(\<And>to m. a \<noteq> Send to m) \<Longrightarrow> plain_acts vs (a # xs) \<longleftrightarrow> plain_acts vs xs"
  by (auto simp: plain_acts_def)

lemma plain_acts_map: "(\<And>p. plain_message vs (f p)) \<Longrightarrow> plain_acts vs (map (\<lambda>p. Send p (f p)) ps)"
  by (auto simp: plain_acts_def)

lemma plain_cong:
  "n_voters n' = n_voters n \<Longrightarrow> n_base_config n' = n_base_config n \<Longrightarrow> n_log n' = n_log n \<Longrightarrow>
   plain vs n' \<longleftrightarrow> plain vs n"
  by (simp add: plain_def)

subsection \<open>The log\<close>

lemma plain_log_append: "plain_log vs l \<Longrightarrow> \<forall>e \<in> set es. members e = None \<Longrightarrow>
    plain_log vs (fst (ml_append l es))"
  by (auto simp: ml_append_def Let_def plain_log_def split: list.split)

lemma plain_log_truncate: "plain_log vs l \<Longrightarrow> plain_log vs (fst (ml_truncate l i))"
  by (auto simp: ml_truncate_def Let_def plain_log_def dest: in_set_takeD)

lemma plain_log_snapshot:
  "plain_log vs l \<Longrightarrow> sn_config sn = vs \<Longrightarrow> plain_log vs (fst (ml_apply_snapshot l sn))"
  by (auto simp: ml_apply_snapshot_def Let_def plain_log_def dest: in_set_dropD)

lemma plain_log_hard: "plain_log vs (l\<lparr>ml_hard := h\<rparr>) \<longleftrightarrow> plain_log vs l"
  by (simp add: plain_log_def)

lemma plain_entry: "ml_inv l \<Longrightarrow> plain_log vs l \<Longrightarrow> ml_entry l i = Some e \<Longrightarrow> members e = None"
  using ml_slot_in_bounds[of l i] by (auto simp: ml_entry_def plain_log_def)

lemma plain_range: "plain_log vs l \<Longrightarrow> e \<in> set (ml_entries_range l a b) \<Longrightarrow> members e = None"
  by (auto simp: ml_entries_range_def Let_def plain_log_def split: if_splits
      dest!: in_set_takeD in_set_dropD)

lemma plain_snapshot: "plain_log vs l \<Longrightarrow> ml_get_snapshot l = Some s \<Longrightarrow> sn_config s = vs"
  by (auto simp: ml_get_snapshot_def plain_log_def snapshot_with_config_def)

lemma latest_config_plain:
  "ml_inv l \<Longrightarrow> plain_log vs l \<Longrightarrow> latest_config l base i = None"
proof (induction l base i rule: latest_config.induct)
  case (1 l base i)
  have "Option.bind (ml_entry l i) members = None"
    using plain_entry[OF "1.prems"] by (cases "ml_entry l i") auto
  with 1 show ?case by (subst latest_config.simps) simp
qed

subsection \<open>The replication operations\<close>

lemma plain_ctxI: "plain vs n \<Longrightarrow> plain_acts vs acts \<Longrightarrow> plain_ctx vs (n, acts)"
  by (simp add: plain_ctx_def)

lemma plain_ctx_log: "plain_ctx vs m \<Longrightarrow> plain_log vs (n_log (fst m))"
  by (simp add: plain_ctx_def plain_def)

text \<open>The fields the invariant does not read.\<close>

lemma plain_ctx_upd [simp]:
  "plain_ctx vs (n\<lparr>n_id := x0\<rparr>, acts) \<longleftrightarrow> plain_ctx vs (n, acts)"
  "plain_ctx vs (n\<lparr>n_config_index := x1\<rparr>, acts) \<longleftrightarrow> plain_ctx vs (n, acts)"
  "plain_ctx vs (n\<lparr>n_election_timeout_min := x2\<rparr>, acts) \<longleftrightarrow> plain_ctx vs (n, acts)"
  "plain_ctx vs (n\<lparr>n_election_timeout_max := x3\<rparr>, acts) \<longleftrightarrow> plain_ctx vs (n, acts)"
  "plain_ctx vs (n\<lparr>n_heartbeat_interval := x4\<rparr>, acts) \<longleftrightarrow> plain_ctx vs (n, acts)"
  "plain_ctx vs (n\<lparr>n_max_batch := x5\<rparr>, acts) \<longleftrightarrow> plain_ctx vs (n, acts)"
  "plain_ctx vs (n\<lparr>n_snapshot_threshold := x6\<rparr>, acts) \<longleftrightarrow> plain_ctx vs (n, acts)"
  "plain_ctx vs (n\<lparr>n_role := x7\<rparr>, acts) \<longleftrightarrow> plain_ctx vs (n, acts)"
  "plain_ctx vs (n\<lparr>n_current_term := x8\<rparr>, acts) \<longleftrightarrow> plain_ctx vs (n, acts)"
  "plain_ctx vs (n\<lparr>n_voted_for := x9\<rparr>, acts) \<longleftrightarrow> plain_ctx vs (n, acts)"
  "plain_ctx vs (n\<lparr>n_leader_id := x10\<rparr>, acts) \<longleftrightarrow> plain_ctx vs (n, acts)"
  "plain_ctx vs (n\<lparr>n_commit_index := x11\<rparr>, acts) \<longleftrightarrow> plain_ctx vs (n, acts)"
  "plain_ctx vs (n\<lparr>n_last_applied := x12\<rparr>, acts) \<longleftrightarrow> plain_ctx vs (n, acts)"
  "plain_ctx vs (n\<lparr>n_election_elapsed := x13\<rparr>, acts) \<longleftrightarrow> plain_ctx vs (n, acts)"
  "plain_ctx vs (n\<lparr>n_heartbeat_elapsed := x14\<rparr>, acts) \<longleftrightarrow> plain_ctx vs (n, acts)"
  "plain_ctx vs (n\<lparr>n_election_timeout := x15\<rparr>, acts) \<longleftrightarrow> plain_ctx vs (n, acts)"
  "plain_ctx vs (n\<lparr>n_votes := x16\<rparr>, acts) \<longleftrightarrow> plain_ctx vs (n, acts)"
  "plain_ctx vs (n\<lparr>n_pre_voting := x17\<rparr>, acts) \<longleftrightarrow> plain_ctx vs (n, acts)"
  "plain_ctx vs (n\<lparr>n_pre_votes := x18\<rparr>, acts) \<longleftrightarrow> plain_ctx vs (n, acts)"
  "plain_ctx vs (n\<lparr>n_progress := x19\<rparr>, acts) \<longleftrightarrow> plain_ctx vs (n, acts)"
  "plain_ctx vs (n\<lparr>n_snapshot_hinted_at := x20\<rparr>, acts) \<longleftrightarrow> plain_ctx vs (n, acts)"
  "plain_ctx vs (n\<lparr>n_transfer_target := x21\<rparr>, acts) \<longleftrightarrow> plain_ctx vs (n, acts)"
  "plain_ctx vs (n\<lparr>n_rng := x22\<rparr>, acts) \<longleftrightarrow> plain_ctx vs (n, acts)"
  "plain_ctx vs (reset_election_timer n, acts) \<longleftrightarrow> plain_ctx vs (n, acts)"
  "plain_ctx vs (rebuild_progress n, acts) \<longleftrightarrow> plain_ctx vs (n, acts)"
  "plain_ctx vs (upd_progress i f n, acts) \<longleftrightarrow> plain_ctx vs (n, acts)"
  by (simp_all add: plain_ctx_def plain_def reset_election_timer_frame rebuild_progress_frame
      upd_progress_frame)

lemma plain_ctx_snoc [simp]:
  "plain_ctx vs (n, acts @ xs) \<longleftrightarrow> plain_ctx vs (n, acts) \<and> plain_acts vs xs"
  by (auto simp: plain_ctx_def)

lemma plain_ctx_set_log [simp]:
  "plain_ctx vs (n\<lparr>n_log := l\<rparr>, acts)
     \<longleftrightarrow> n_voters n = vs \<and> n_base_config n = vs \<and> plain_log vs l \<and> plain_acts vs acts"
  by (auto simp: plain_ctx_def plain_def)

lemma plain_ctxD:
  assumes "plain_ctx vs m"
  shows "n_voters (fst m) = vs" "n_base_config (fst m) = vs" "plain_log vs (n_log (fst m))"
    "plain_acts vs (snd m)" "plain vs (fst m)"
  using assms by (auto simp: plain_ctx_def plain_def)

lemma plain_apply_action [simp]: "plain_acts vs (apply_action l i)"
  by (simp add: apply_action_def plain_acts_other split: option.split)

lemma plain_acts_drain_loop: "plain_acts vs acts \<Longrightarrow> plain_acts vs (snd (drain_loop n acts))"
proof (induction n acts rule: drain_loop.induct)
  case (1 n acts)
  then show ?case by (subst drain_loop.simps) (simp add: Let_def)
qed

lemma plain_acts_maybe_hint:
  "plain_acts vs acts \<Longrightarrow> plain_acts vs (snd (maybe_hint_snapshot n acts))"
  by (simp add: maybe_hint_snapshot_def Let_def plain_acts_other split: option.split)

lemma plain_drain_applies: "plain_ctx vs (n, acts) \<Longrightarrow> plain_ctx vs (drain_applies n acts)"
proof -
  assume p: "plain_ctx vs (n, acts)"
  then have "plain_acts vs (snd (drain_applies n acts))"
    using plain_acts_drain_loop[of vs acts n]
    by (simp add: plain_ctx_def drain_applies_def Let_def case_prod_unfold plain_acts_maybe_hint)
  with p show ?thesis by (simp add: plain_ctx_def plain_def frame_simps)
qed

lemma plain_advance_commit: "plain_ctx vs (n, acts) \<Longrightarrow> plain_ctx vs (advance_commit n acts)"
  using plain_drain_applies[of vs "n\<lparr>n_commit_index := i\<rparr>" acts for i]
  by (auto simp: advance_commit_def Let_def case_prod_unfold plain_ctx_def plain_def
      step_down_to_follower_def)

lemma plain_upd_progress: "plain vs (upd_progress i f n) \<longleftrightarrow> plain vs n"
  by (simp add: plain_def upd_progress_def)

lemma plain_send_append:
  assumes p: "plain_ctx vs (n, acts)"
  shows "plain_ctx vs (send_append i n acts)"
proof -
  note D = plain_ctxD[OF p, simplified]
  have "\<forall>e \<in> set (ml_entries_range (n_log n) a b). members e = None" for a b
    using plain_range[OF D(3)] by blast
  moreover have "sn_config s = vs" if "ml_get_snapshot (n_log n) = Some s" for s
    using plain_snapshot[OF D(3) that] .
  ultimately show ?thesis
    using p by (auto simp: send_append_def send_snapshot_def Let_def plain_message_def split: option.split)
qed

lemma plain_maybe_send_timeout_now:
  "plain_ctx vs (n, acts) \<Longrightarrow> plain_ctx vs (maybe_send_timeout_now t n acts)"
  by (simp add: maybe_send_timeout_now_def Let_def plain_ctx_def plain_def)

text \<open>With no configuration entry in the log, refreshing the configuration changes nothing
  the invariant reads.\<close>

lemma plain_refresh_config:
  "plain_ctx vs (n, acts) \<Longrightarrow> ml_inv (n_log n) \<Longrightarrow> plain_ctx vs (refresh_config n acts)"
  using latest_config_plain[of "n_log n" vs "ml_snapshot_index (n_log n)" "ml_last_index (n_log n)"]
  by (simp add: refresh_config_def set_config_def Let_def plain_ctx_def plain_def
      rebuild_progress_def)

lemma config_at_plain: "plain vs n \<Longrightarrow> ml_inv (n_log n) \<Longrightarrow> config_at n i = vs"
  using latest_config_plain[of "n_log n" vs "ml_snapshot_index (n_log n)"
      "min i (ml_last_index (n_log n))"]
  by (simp add: config_at_def plain_def)

interpretation pl: leader_invariant "plain_ctx vs" for vs
  by unfold_locales (simp_all add: plain_advance_commit plain_send_append
      plain_maybe_send_timeout_now)

subsection \<open>Elections\<close>

lemma plain_become_leader: "plain_ctx vs (n, acts) \<Longrightarrow> plain_ctx vs (become_leader n acts)"
proof -
  assume p: "plain_ctx vs (n, acts)"
  let ?n = "rebuild_progress (n\<lparr>n_role := Leader, n_leader_id := Some (n_id n),
    n_heartbeat_elapsed := 0, n_transfer_target := None, n_pre_voting := False, n_pre_votes := []\<rparr>)"
  have "plain_ctx vs (replicate_to_all ?n acts)" using p by (intro pl.to_all) simp
  then show ?thesis
    using pl.advance_after
    by (simp add: become_leader_def Let_def case_prod_unfold)
qed

lemma plain_acts_requests:
  "plain_acts vs (map (\<lambda>peer. Send peer (RequestVote r)) ps)"
  "plain_acts vs (map (\<lambda>peer. Send peer (PreVote r')) ps)"
  by (auto simp: plain_acts_def)

lemma plain_start_election:
  "plain_ctx vs (n, acts) \<Longrightarrow> plain_ctx vs (fst (start_election f n acts))"
  using plain_ctxD[of vs "(n, acts)"]
  by (auto simp: start_election_def Let_def persist_hard_state_eq frame_simps plain_log_hard
      plain_acts_requests intro!: plain_become_leader)

lemma plain_start_pre_vote:
  "plain_ctx vs (n, acts) \<Longrightarrow> plain_ctx vs (fst (start_pre_vote n acts))"
  by (simp add: start_pre_vote_def Let_def plain_acts_requests plain_start_election)

lemma plain_tick: "plain vs n \<Longrightarrow> plain_ctx vs (fst (tick n))"
  using plain_ctxI[of vs n "[]"]
  by (simp add: tick_def Let_def pl.to_all plain_start_pre_vote)

lemma plain_become_follower:
  "plain_ctx vs (n, acts) \<Longrightarrow> plain_ctx vs (fst (become_follower t ld n), acts)"
  using plain_ctxD[of vs "(n, acts)"]
  by (simp add: become_follower_def Let_def persist_hard_state_eq plain_log_hard)

lemma plain_handle_request_vote:
  "plain_ctx vs (n, acts) \<Longrightarrow> plain_ctx vs (fst (handle_request_vote rv n acts))"
  using plain_ctxD[of vs "(n, acts)"]
  by (simp add: handle_request_vote_def Let_def persist_hard_state_eq plain_log_hard)

lemma plain_handle_vote_reply:
  "plain_ctx vs (n, acts) \<Longrightarrow> plain_ctx vs (handle_vote_reply r n acts)"
  by (simp add: handle_vote_reply_def Let_def plain_become_leader)

lemma plain_handle_pre_vote:
  "plain_ctx vs (n, acts) \<Longrightarrow> plain_ctx vs (handle_pre_vote pv n acts)"
  by (simp add: handle_pre_vote_def Let_def)

lemma plain_handle_pre_vote_reply:
  "plain_ctx vs (n, acts) \<Longrightarrow> plain_ctx vs (fst (handle_pre_vote_reply r n acts))"
  by (simp add: handle_pre_vote_reply_def Let_def plain_start_election with_acts_def
      case_prod_unfold plain_become_follower)

lemma plain_handle_timeout_now:
  "plain_ctx vs (n, acts) \<Longrightarrow> plain_ctx vs (fst (handle_timeout_now r n acts))"
  by (simp add: handle_timeout_now_def plain_start_election)

subsection \<open>AppendEntries and snapshots\<close>

lemma reconcile_scan_plain:
  assumes "plain_log vs l" "reconcile_scan l es = (l', r)"
  shows "plain_log vs l' \<and> (\<forall>rest tr. r = Inr (rest, tr) \<longrightarrow> set rest \<subseteq> set es)"
  using assms(2)
proof (induction es)
  case (Cons e es)
  obtain l1 r1 where tr: "ml_truncate l (le_index e) = (l1, r1)" by fastforce
  with plain_log_truncate[OF assms(1), of "le_index e"] have "plain_log vs l1" by simp
  with Cons assms(1) tr show ?case
    by (cases r1) (auto split: option.splits if_splits)
qed (use assms(1) in auto)

lemma append_from_leader_plain:
  assumes "plain_log vs l" "\<forall>e \<in> set es. members e = None"
  shows "plain_log vs (fst (append_from_leader es l))"
proof -
  obtain l1 r where rs: "reconcile_scan l es = (l1, r)" by fastforce
  note pl = reconcile_scan_plain[OF assms(1) rs]
  show ?thesis
  proof (cases r)
    case (Inl e)
    with pl rs show ?thesis by (simp add: append_from_leader_def)
  next
    case (Inr p)
    obtain rest tr where p: "p = (rest, tr)" by fastforce
    obtain l2 r2 where ap: "ml_append l1 rest = (l2, r2)" by fastforce
    have "plain_log vs l2"
      using plain_log_append[of vs l1 rest] pl Inr p ap assms(2) by auto
    with pl rs Inr p ap show ?thesis
      by (cases r2) (auto simp: append_from_leader_def ml_sync_def)
  qed
qed

lemma plain_ae_reply [simp]: "plain_acts vs (ae_reply n ae s m ci ct # acts) \<longleftrightarrow> plain_acts vs acts"
  by (simp add: ae_reply_def)

lemma plain_handle_append_entries:
  assumes p: "plain_ctx vs (n, acts)" and inv: "ml_inv (n_log n)"
    and room: "al_last (ml_abs (n_log n)) + length (ae_entries ae) < 2 ^ 64"
    and msg: "plain_message vs (AppendEntries ae)"
  shows "plain_ctx vs (fst (handle_append_entries ae n acts))"
proof -
  note D = plain_ctxD[OF p, simplified]
  have entries: "\<forall>e \<in> set (ae_entries ae). members e = None"
    using msg by (simp add: plain_message_def)
  obtain l r where lr: "append_from_leader (ae_entries ae) (n_log n) = (l, r)" by fastforce
  with append_from_leader_plain[OF D(3) entries] append_from_leader_inv[OF inv room]
  have l: "plain_log vs l" "ml_inv l" by simp_all
  show ?thesis
    using p lr l D inv
    by (cases r) (auto simp: handle_append_entries_def Let_def case_prod_unfold frame_simps
        log_op_def with_acts_def intro!: plain_drain_applies plain_refresh_config split: option.split)
qed

lemma plain_handle_install_snapshot:
  assumes p: "plain_ctx vs (n, acts)" and inv: "ml_inv (n_log n)"
    and msg: "plain_message vs (InstallSnapshot rpc)"
  shows "plain_ctx vs (fst (handle_install_snapshot rpc n acts))"
proof -
  note D = plain_ctxD[OF p, simplified]
  have cfg: "sn_config (ins_snapshot rpc) = vs" using msg by (simp add: plain_message_def)
  obtain l where lr: "ml_apply_snapshot (n_log n) (ins_snapshot rpc) = (l, Inr ())"
    by (metis ml_apply_snapshot_never_fails prod.collapse)
  then have l: "plain_log vs l" "ml_inv l"
    using plain_log_snapshot[OF D(3) cfg] ml_apply_snapshot_inv[OF inv, of "ins_snapshot rpc"]
    by simp_all
  show ?thesis
    using p lr l D inv cfg
    by (auto simp: handle_install_snapshot_def Let_def case_prod_unfold frame_simps ml_sync_def
        plain_acts_other intro!: plain_refresh_config)
qed

lemma plain_handle_snapshot_event:
  assumes p: "plain vs n" and inv: "ml_inv (n_log n)"
  shows "plain_ctx vs (fst (handle_snapshot_event i d n),
     case snd (handle_snapshot_event i d n) of Inl _ \<Rightarrow> [] | Inr acts \<Rightarrow> acts)"
proof -
  note D = plain_ctxD[OF plain_ctxI[OF p, of "[]"], simplified]
  show ?thesis
  proof (cases "ml_term_at (n_log n) i")
    case None
    with D p show ?thesis by (simp add: handle_snapshot_event_def plain_ctx_def)
  next
    case (Some t)
    let ?sn = "snapshot_with_config i t (config_at n i) d"
    obtain l where lr: "ml_apply_snapshot (n_log n) ?sn = (l, Inr ())"
      by (metis ml_apply_snapshot_never_fails prod.collapse)
    have cfg: "config_at n i = vs" by (rule config_at_plain[OF p inv])
    have l: "plain_log vs l" "ml_inv l"
      using lr plain_log_snapshot[OF D(3), of ?sn] ml_apply_snapshot_inv[OF inv, of ?sn] cfg
      by (simp_all add: snapshot_with_config_def)
    show ?thesis
      using D p l lr cfg Some
      by (auto simp: handle_snapshot_event_def Let_def case_prod_unfold ml_sync_def plain_ctxI
          intro!: plain_refresh_config)
  qed
qed

subsection \<open>The whole step\<close>

definition membership_event :: "event \<Rightarrow> bool" where
  "membership_event ev \<longleftrightarrow> (case ev of AddServer _ \<Rightarrow> True | RemoveServer _ \<Rightarrow> True | _ \<Rightarrow> False)"

definition plain_event :: "node_id list \<Rightarrow> event \<Rightarrow> bool" where
  "plain_event vs ev \<longleftrightarrow> \<not> membership_event ev
     \<and> (case ev of Message m \<Rightarrow> plain_message vs m | _ \<Rightarrow> True)"

lemma plain_propose:
  assumes "plain vs n"
  shows "plain_ctx vs (fst (propose n c),
     case snd (propose n c) of Inl _ \<Rightarrow> [] | Inr acts \<Rightarrow> acts)"
proof -
  note D = plain_ctxD[OF plain_ctxI[OF assms, of "[]"], simplified]
  have "plain_log vs ((n_log n)\<lparr>ml_entries := ml_entries (n_log n)
      @ [entry_new (n_current_term n) (ml_last_index (n_log n) + 1) c]\<rparr>)"
    using D(3) by (simp add: plain_log_def ball_Un)
  with D assms show ?thesis
    by (auto simp: propose_def Let_def append_one ml_sync_def case_prod_unfold plain_ctxI
        intro!: pl.advance_after pl.to_streaming)
qed

lemma plain_transfer_leadership:
  assumes "plain vs n"
  shows "plain_ctx vs (fst (transfer_leadership n t),
     case snd (transfer_leadership n t) of Inl _ \<Rightarrow> [] | Inr acts \<Rightarrow> acts)"
proof -
  have m: "plain_ctx vs (maybe_send_timeout_now t (n\<lparr>n_transfer_target := Some t\<rparr>) [])"
    using assms by (intro plain_maybe_send_timeout_now) (simp add: plain_ctxI)
  then have "plain_ctx vs (send_append i (fst (maybe_send_timeout_now t (n\<lparr>n_transfer_target := Some t\<rparr>) []))
      (snd (maybe_send_timeout_now t (n\<lparr>n_transfer_target := Some t\<rparr>) [])))" for i
    by (intro plain_send_append) simp
  with m assms show ?thesis
    by (auto simp: transfer_leadership_def Let_def case_prod_unfold plain_ctxI split: option.split)
qed

lemma plain_dispatch:
  assumes "plain_ctx vs (n, acts)" "ml_inv (n_log n)" "plain_message vs m"
    "log_room (Message m) n"
  shows "plain_ctx vs (fst (dispatch m n acts))"
  using assms mem.last_index[OF assms(2)]
  by (cases m) (auto simp: dispatch_def log_room_def plain_handle_request_vote plain_handle_vote_reply
      plain_handle_append_entries pl.append_reply pl.snapshot_reply plain_handle_install_snapshot
      plain_handle_timeout_now)

lemma plain_handle_message:
  assumes p: "plain vs n" and inv: "ml_inv (n_log n)" and msg: "plain_message vs m"
    and room: "log_room (Message m) n"
  shows "plain_ctx vs (fst (handle_message m n))"
proof (cases "sticky m n \<or> (\<exists>pv. m = PreVote pv) \<or> (\<exists>r. m = PreVoteReply r)")
  case True
  with plain_ctxI[OF p, of "[]"] show ?thesis
    by (auto simp: handle_message_def plain_handle_pre_vote plain_handle_pre_vote_reply)
next
  case False
  obtain n1 where bf: "become_follower (message_term m) None n = (n1, Inr ())"
    using become_follower_log_effect[of n "message_term m" None] by (metis prod.collapse)
  have same: "same_log (n_log n) (n_log n1)"
    using become_follower_log_effect[of n "message_term m" None] bf by simp
  have "plain_ctx vs (n1, [])"
    using plain_become_follower[OF plain_ctxI[OF p, of "[]"], of "message_term m" None] bf by simp
  moreover have "ml_inv (n_log n1)" using same_log_inv[OF same] inv by simp
  moreover have "log_room (Message m) n1"
    using room same_log_sel[OF same] by (simp add: log_room_def ml_last_index_def)
  ultimately have "plain_ctx vs (fst (dispatch m n1 []))" using msg by (intro plain_dispatch)
  moreover have "plain_ctx vs (fst (dispatch m n []))"
    using p inv msg room by (intro plain_dispatch) (simp_all add: plain_ctxI)
  ultimately show ?thesis by (simp add: handle_message_generic[OF False] bf)
qed

lemma finish_plain:
  "plain_ctx vs (fst m) \<Longrightarrow>
   plain_ctx vs (fst (fst m), case snd (finish m) of Inl _ \<Rightarrow> [] | Inr acts \<Rightarrow> acts)"
  by (cases m) (auto simp: finish_def plain_ctx_def split: sum.splits)

lemma step_plain:
  assumes "plain vs n" "ml_inv (n_log n)" "plain_event vs ev" "log_room ev n"
  shows "plain_ctx vs (fst (step ev n), case snd (step ev n) of Inl _ \<Rightarrow> [] | Inr acts \<Rightarrow> acts)"
  using assms
  by (cases ev) (simp_all add: step_def plain_event_def membership_event_def finish_plain
      plain_tick plain_handle_message plain_propose plain_handle_snapshot_event
      plain_transfer_leadership)

text \<open>The invariant survives a restart, and the first start establishes it.\<close>

lemma plain_node_with_log:
  assumes "ml_inv l" "plain_log vs l" "sorted_members (cfg_peers c @ [cfg_id c]) = vs"
  shows "plain vs (node_with_log c l)"
proof -
  have base: "(case ml_get_snapshot l of Some s \<Rightarrow> if sn_config s \<noteq> [] then sn_config s else vs
      | None \<Rightarrow> vs) = vs"
    using plain_snapshot[OF assms(2)] by (auto split: option.split)
  then show ?thesis
    using assms latest_config_plain[OF assms(1,2)]
    by (simp add: node_with_log_def Let_def case_prod_unfold plain_def)
qed

lemma plain_node_new:
  "sorted_members (cfg_peers c @ [cfg_id c]) = vs \<Longrightarrow> plain vs (node_new c)"
  unfolding node_new_def
  by (rule plain_node_with_log) (simp_all add: ml_inv_new, simp add: plain_log_def ml_new_def)

end
