(* ===== verification/Leader_Properties.thy ===== *)
theory Leader_Properties
  imports Append_Properties Quorum
begin

text \<open>
  The leader's side: it only appends to its log, it commits by the majority rule, it applies
  in order and without gaps, it backs up by a bounded amount on a rejection, and what it sends
  is a slice of its own log.
\<close>

subsection \<open>The leader appends\<close>

lemma handle_append_entries_role:
  "n_role (fst (fst (handle_append_entries ae n acts))) = Follower
   \<or> fst (handle_append_entries ae n acts) = (n, acts @ [ae_reply n ae False 0 0 0])"
proof -
  obtain l r where lr: "append_from_leader (ae_entries ae) (n_log n) = (l, r)" by fastforce
  then show ?thesis
    by (cases r)
       (auto simp: handle_append_entries_def Let_def case_prod_unfold frame_simps
         log_op_def with_acts_def split: option.split)
qed

lemma handle_install_snapshot_role:
  "n_role (fst (fst (handle_install_snapshot rpc n acts))) = Follower
   \<or> fst (fst (handle_install_snapshot rpc n acts)) = n"
proof -
  obtain l where l: "ml_apply_snapshot (n_log n) (ins_snapshot rpc) = (l, Inr ())"
    by (metis ml_apply_snapshot_never_fails prod.collapse)
  then show ?thesis
    by (auto simp: handle_install_snapshot_def Let_def case_prod_unfold frame_simps ml_sync_def)
qed

text \<open>A leader that is still one after a message has not let it change the log.\<close>

lemma leader_message_log:
  assumes "n_role (fst (step (Message m) n)) = Leader"
  shows "same_log (n_log n) (n_log (fst (step (Message m) n)))"
proof (cases "(\<exists>ae. m = AppendEntries ae) \<or> (\<exists>rpc. m = InstallSnapshot rpc)")
  case True
  obtain n1 where n1: "(if n_current_term n < message_term m then become_follower (message_term m) None n
      else (n, Inr ())) = (n1, Inr ())" "same_log (n_log n) (n_log n1)"
    using follow_term[of n "message_term m"] by metis
  have "step (Message m) n = finish (dispatch m n1 [])"
    using True n1(1) by (auto simp: step_def handle_message_generic sticky_def split: if_splits)
  moreover have "n_log (fst (fst (handle_append_entries ae n1 []))) = n_log n1"
    if "n_role (fst (fst (handle_append_entries ae n1 []))) = Leader" for ae
    using handle_append_entries_role[of ae n1 "[]"] that by auto
  moreover have "n_log (fst (fst (handle_install_snapshot rpc n1 []))) = n_log n1"
    if "n_role (fst (fst (handle_install_snapshot rpc n1 []))) = Leader" for rpc
    using handle_install_snapshot_role[of rpc n1 "[]"] that by auto
  ultimately show ?thesis using True assms n1(2) by (auto simp: dispatch_def)
next
  case False
  then show ?thesis
    using step_log_effect[of "Message m" n] by (cases m) (auto simp: log_effect_def)
qed

lemma ml_entry_snoc:
  assumes "ml_inv l" "le_index x = ml_last_index l + 1" "unat (ml_last_index l) + 1 < 2 ^ 64"
    and "ml_entry l i = Some e"
  shows "ml_entry (l\<lparr>ml_entries := ml_entries l @ [x]\<rparr>) i = Some e"
proof -
  note ok = mem.append_ok[OF assms(1) append_one[OF assms(2)]]
  have "al_last (ml_abs l) + length [x] < 2 ^ 64" using assms(3) mem.last_index[OF assms(1)] by simp
  from ok[OF this] have "ml_inv (l\<lparr>ml_entries := ml_entries l @ [x]\<rparr>)"
    "ml_abs (l\<lparr>ml_entries := ml_entries l @ [x]\<rparr>) = al_append (ml_abs l) [x]" by auto
  moreover from assms(1,4) have "al_entry (ml_abs l) (unat i) = Some e" by (simp add: mem.entry)
  moreover from this have "unat i \<le> al_last (ml_abs l)" by (simp add: al_entry_def split: if_splits)
  ultimately show ?thesis by (simp add: mem.entry al_entry_append)
qed

lemma ml_entry_snapshot:
  assumes "ml_inv l" "ml_term_at l (sn_index sn) = Some (sn_term sn)"
    and "ml_base_index (fst (ml_apply_snapshot l sn)) < i"
  shows "ml_entry (fst (ml_apply_snapshot l sn)) i = ml_entry l i"
proof -
  obtain l' where l': "ml_apply_snapshot l sn = (l', Inr ())"
    by (metis ml_apply_snapshot_never_fails prod.collapse)
  note ok = mem.apply_snapshot_ok[OF assms(1) l']
  show ?thesis
  proof (cases "unat (sn_index sn) \<le> al_base (ml_abs l)")
    case True
    with ok have "ml_abs l' = ml_abs l" by (simp add: al_install_def)
    with ok assms(1) l' show ?thesis using mem.entry[of l' i] mem.entry[of l i] by simp
  next
    case False
    have "al_base (ml_abs l') < unat i" using assms(3) l' by (simp add: word_less_nat_alt)
    moreover have "al_base (ml_abs l') = unat (sn_index sn)" using ok False by (simp add: al_install_def)
    moreover have "al_term_at (ml_abs l) (unat (sn_index sn)) = Some (sn_term sn)"
      using assms(1,2) mem.term_at by simp
    ultimately show ?thesis
      using ok l' False mem.entry[of l' i] mem.entry[OF assms(1), of i] by (simp add: al_entry_install)
  qed
qed

lemma snapshot_with_config_sel [simp]:
  "sn_index (snapshot_with_config i t c d) = i" "sn_term (snapshot_with_config i t c d) = t"
  "sn_config (snapshot_with_config i t c d) = c" "sn_data (snapshot_with_config i t c d) = d"
  by (simp_all add: snapshot_with_config_def)

lemma leader_keeps_entries:
  assumes "n_role n = Leader" "n_role (fst (step ev n)) = Leader"
    and "ml_inv (n_log n)" "log_room ev n"
    and "ml_snapshot_index (n_log (fst (step ev n))) < i" "ml_entry (n_log n) i = Some e"
  shows "ml_entry (n_log (fst (step ev n))) i = Some e"
proof -
  note eff = step_log_effect[of ev n]
  have keep: ?thesis if "same_log (n_log n) (n_log (fst (step ev n)))"
    using same_log_reads[OF that] assms(6) by simp
  have one: ?thesis
    if "n_log (fst (step ev n)) = (n_log n)\<lparr>ml_entries := ml_entries (n_log n) @ [x]\<rparr>"
      "le_index x = ml_last_index (n_log n) + 1" "unat (ml_last_index (n_log n)) + 1 < 2 ^ 64" for x
    using ml_entry_snoc[OF assms(3) that(2,3) assms(6)] that(1) by simp
  show ?thesis
  proof (cases ev)
    case (Message m)
    with assms(2) leader_message_log keep show ?thesis by simp
  next
    case (Propose c)
    with eff assms(4) keep one show ?thesis by (auto simp: log_effect_def log_room_def)
  next
    case (AddServer j)
    with eff assms(4) keep one show ?thesis by (auto simp: log_effect_def log_room_def)
  next
    case (RemoveServer j)
    with eff assms(4) keep one show ?thesis by (auto simp: log_effect_def log_room_def)
  next
    case (SnapshotEvent j d)
    with eff keep assms(3,5,6) ml_entry_snapshot[OF assms(3)] show ?thesis
      by (auto simp: log_effect_def ml_snapshot_index_def)
  qed (use eff keep in \<open>simp_all add: log_effect_def\<close>)
qed

subsection \<open>The commit rule\<close>

lemma commit_scan_sound:
  "commit_scan n i = n_commit_index n
   \<or> n_commit_index n < commit_scan n i \<and> commit_scan n i \<le> i
     \<and> ml_term_at (n_log n) (commit_scan n i) = Some (n_current_term n)
     \<and> quorum n \<le> replicas n (commit_scan n i)"
proof (induction n i rule: commit_scan.induct)
  case (1 n i)
  have down: "x \<le> i" if "x \<le> i - 1" "n_commit_index n < i" for x
    using that unat_minus_one_less[of "n_commit_index n" i] by (simp add: word_le_nat_alt)
  show ?case
    using 1 down by (subst (1 2 3 4 5) commit_scan.simps) (auto split: option.split)
qed

text \<open>No index above the result qualifies, provided the terms of the log do not decrease.\<close>

lemma commit_scan_maximal:
  assumes "\<forall>a b t u. a \<le> b \<longrightarrow> ml_term_at (n_log n) a = Some t \<longrightarrow>
      ml_term_at (n_log n) b = Some u \<longrightarrow> t \<le> u"
    and "commit_scan n i < j" "j \<le> i" "ml_term_at (n_log n) j = Some (n_current_term n)"
  shows "replicas n j < quorum n"
  using assms
proof (induction n i rule: commit_scan.induct)
  case (1 n i)
  have ci: "n_commit_index n < i"
    using "1.prems"(2,3) by (subst (asm) commit_scan.simps) (auto split: if_splits)
  have up: "j \<le> i - 1" if "j \<noteq> i"
    using that "1.prems"(3) ci unat_minus_one_pos[of i]
    by (auto simp: word_le_nat_alt word_less_nat_alt word_unat_eq_iff)
  show ?case
  proof (cases "ml_term_at (n_log n) i")
    case None
    with "1.prems"(4) have "j \<noteq> i" by auto
    from None ci have "commit_scan n i = commit_scan n (i - 1)" by (subst commit_scan.simps) simp
    with "1.IH"(1)[OF ci None] "1.prems" up \<open>j \<noteq> i\<close> show ?thesis by simp
  next
    case (Some t)
    consider (cur) "t = n_current_term n" | (old) "t < n_current_term n" | (new) "n_current_term n < t"
      by fastforce
    then show ?thesis
    proof cases
      case cur
      show ?thesis
      proof (cases "quorum n \<le> replicas n i")
        case True
        with Some cur ci have "commit_scan n i = i" by (subst commit_scan.simps) simp
        with "1.prems"(2,3) show ?thesis by simp
      next
        case False
        with Some cur ci have e: "commit_scan n i = commit_scan n (i - 1)"
          by (subst commit_scan.simps) simp
        show ?thesis
        proof (cases "j = i")
          case jn: False
          with "1.IH"(2)[OF ci Some cur False] "1.prems" up e show ?thesis by simp
        qed (use False in simp)
      qed
    next
      case old
      with "1.prems"(1)[rule_format, OF "1.prems"(3,4) Some] show ?thesis by simp
    next
      case new
      then have ne: "t \<noteq> n_current_term n" "\<not> t < n_current_term n" by auto
      with Some ci have e: "commit_scan n i = commit_scan n (i - 1)"
        by (subst commit_scan.simps) simp
      from ne Some "1.prems"(4) have "j \<noteq> i" by auto
      with "1.IH"(3)[OF ci Some ne] "1.prems" up e show ?thesis by simp
    qed
  qed
qed

lemma advance_commit_index:
  "n_commit_index (fst (advance_commit n acts)) = commit_scan n (ml_last_index (n_log n))"
  using commit_scan_sound[of n "ml_last_index (n_log n)"]
  by (auto simp: advance_commit_def Let_def case_prod_unfold frame_simps step_down_to_follower_def)

text \<open>
  The voters known to store an index: the leader itself, and those whose acknowledged index
  reaches it.
\<close>

definition stored_by :: "node \<Rightarrow> raft_index \<Rightarrow> node_id set" where
  "stored_by n i = {v \<in> set (n_voters n).
     v = n_id n \<or> (\<exists>p \<in> set (n_progress n). pr_id p = v \<and> i \<le> pr_match_index p)}"

lemma replicas_stored_by:
  assumes "distinct (n_voters n)"
    and ids: "map pr_id (n_progress n) = filter (\<lambda>v. v \<noteq> n_id n) (n_voters n)"
  shows "replicas n i = card (stored_by n i)"
proof -
  let ?acked = "filter (\<lambda>p. i \<le> pr_match_index p) (n_progress n)"
  have "distinct (map pr_id (n_progress n))" using assms(1) unfolding ids by simp
  then have "distinct (map pr_id ?acked)" by (rule distinct_map_filter)
  then have len: "length ?acked = card (pr_id ` set ?acked)"
    using distinct_card[of "map pr_id ?acked"] by simp
  have mem: "pr_id p \<in> set (n_voters n) \<and> pr_id p \<noteq> n_id n" if "p \<in> set (n_progress n)" for p
  proof -
    have "pr_id p \<in> set (map pr_id (n_progress n))" using that by simp
    then show ?thesis unfolding ids by simp
  qed
  have "stored_by n i = (if is_voter n then {n_id n} else {}) \<union> pr_id ` set ?acked"
    using mem by (auto simp: stored_by_def is_voter_def)
  moreover have "n_id n \<notin> pr_id ` set ?acked"
  proof
    assume "n_id n \<in> pr_id ` set ?acked"
    then obtain p where "p \<in> set (n_progress n)" "pr_id p = n_id n" by auto
    with mem show False by blast
  qed
  ultimately show ?thesis by (simp add: replicas_def len)
qed

lemma quorum_majority:
  assumes "distinct (n_voters n)"
    and "map pr_id (n_progress n) = filter (\<lambda>v. v \<noteq> n_id n) (n_voters n)"
  shows "quorum n \<le> replicas n i \<longleftrightarrow> length (n_voters n) < 2 * card (stored_by n i)"
  unfolding replicas_stored_by[OF assms] quorum_def by linarith

subsection \<open>Applying\<close>

text \<open>The commands of a range of indices, in order; configuration entries carry none.\<close>

definition commands_between :: "memory_log \<Rightarrow> raft_index \<Rightarrow> raft_index \<Rightarrow> action list" where
  "commands_between l a b =
     concat (map (\<lambda>i. apply_action l (word_of_nat i)) [unat a + 1..<unat b + 1])"

lemma commands_between_step:
  assumes "a < (b :: raft_index)"
  shows "commands_between l a b = apply_action l (a + 1) @ commands_between l (a + 1) b"
proof -
  have lt: "unat a < unat b" using assms by (simp add: word_less_nat_alt)
  then have u: "unat (a + 1) = unat a + 1"
    using unsigned_less[of b, where ?'a = nat] by (intro unat_plus_one) simp
  with lt have "[unat a + 1..<unat b + 1] = (unat a + 1) # [unat (a + 1) + 1..<unat b + 1]"
    by (simp add: upt_conv_Cons del: upt_Suc)
  then show ?thesis by (simp add: commands_between_def add.commute del: upt_Suc)
qed

text \<open>What an index is due to be applied as, read off the entry the log holds there.\<close>

definition command_at :: "memory_log \<Rightarrow> raft_index \<Rightarrow> action option" where
  "command_at l i =
     (case ml_entry l i of
        Some e \<Rightarrow> if le_kind e = NormalEntry then Some (Apply i (le_term e) (le_command e)) else None
      | None \<Rightarrow> None)"

lemma apply_action_command:
  assumes "ml_inv l"
  shows "apply_action l i = (case command_at l i of Some a \<Rightarrow> [a] | None \<Rightarrow> [])"
proof (cases "ml_entry l i")
  case (Some e)
  with assms have "le_index e = i" by (rule mem.entry_index)
  with Some show ?thesis
    by (cases "le_kind e") (simp_all add: apply_action_def command_at_def members_def)
qed (simp add: apply_action_def command_at_def)

lemma concat_map_option:
  "concat (map (\<lambda>x. case f x of Some y \<Rightarrow> [y] | None \<Rightarrow> []) xs) = List.map_filter f xs"
  by (induction xs) (simp_all add: map_filter_simps split: option.split)

lemma commands_between_entries:
  assumes "ml_inv l"
  shows "commands_between l a b
    = List.map_filter (command_at l \<circ> word_of_nat) [unat a + 1..<unat b + 1]"
  using concat_map_option[of "command_at l \<circ> word_of_nat" "[unat a + 1..<unat b + 1]"]
  by (simp add: commands_between_def apply_action_command[OF assms] del: upt_Suc)

lemma drain_loop_applies:
  "n_last_applied n \<le> n_commit_index n \<Longrightarrow>
   drain_loop n acts = (n\<lparr>n_last_applied := n_commit_index n\<rparr>,
     acts @ commands_between (n_log n) (n_last_applied n) (n_commit_index n))"
proof (induction n acts rule: drain_loop.induct)
  case (1 n acts)
  show ?case
  proof (cases "n_last_applied n < n_commit_index n")
    case True
    have "n_last_applied n + 1 \<le> n_commit_index n" using True by (rule inc_le)
    with "1.IH"[OF True refl] commands_between_step[OF True, of "n_log n"] True show ?thesis
      by (subst drain_loop.simps) (simp add: Let_def)
  next
    case False
    with "1.prems" have "n_last_applied n = n_commit_index n" by simp
    with False show ?thesis
      by (subst drain_loop.simps) (simp add: commands_between_def)
  qed
qed

lemma maybe_hint_last_applied: "n_last_applied (fst (maybe_hint_snapshot n acts)) = n_last_applied n"
  by (simp add: frame_simps)

lemma maybe_hint_acts:
  "snd (maybe_hint_snapshot n acts) = acts
   \<or> (\<exists>i t. snd (maybe_hint_snapshot n acts) = acts @ [SnapshotHint i t])"
  by (auto simp: maybe_hint_snapshot_def Let_def split: option.split)

subsection \<open>Backing up\<close>

lemma clamp_bounds: "lo \<le> hi \<Longrightarrow> lo \<le> clamp x lo hi \<and> clamp x lo hi \<le> hi"
  by (auto simp: clamp_def)

lemma rejected_next_bounds:
  "m + 1 \<le> rejected_next n nx m ci ct"
  "rejected_next n nx m ci ct \<le> max (if nx < 1 then 0 else nx - 1) (m + 1)"
  by (simp_all add: rejected_next_def rejected_range_def Let_def clamp_bounds)

lemma minus_one_less: "0 < (x :: u64) \<Longrightarrow> x - 1 < x"
  using unat_minus_one_less[of 0 x] by (simp add: word_less_nat_alt)

subsection \<open>Sending\<close>

lemma range_agrees:
  assumes "ml_inv l"
  shows "agrees l (ml_entries_range l a b)"
proof -
  have "ml_term_at l (le_index e) = Some (le_term e)" if "e \<in> set (ml_entries l)" for e
  proof -
    from that obtain k where k: "k < length (ml_entries l)" "e = ml_entries l ! k"
      by (metis in_set_conv_nth)
    have "indexed_from (al_base (ml_abs l)) (ml_entries l)"
      using assms by (simp add: ml_inv_def al_wf_def)
    with k have "unat (le_index e) = unat (ml_base_index l) + k + 1" by (simp add: indexed_from_def)
    with k assms show ?thesis
      by (simp add: mem.term_at al_term_at_def al_entry_def al_last_def)
  qed
  then show ?thesis
    by (auto simp: agrees_def ml_entries_range_def Let_def dest!: in_set_takeD in_set_dropD
        split: if_splits)
qed

lemma al_range_indexed:
  assumes "al_wf a" "0 < i" "al_base a < i" "i \<le> al_last a + 1"
  shows "indexed_from (i - 1) (al_range a i j)"
proof -
  have "indexed_from (al_base a + (i - 1 - al_base a)) (drop (i - 1 - al_base a) (al_ents a))"
    using assms by (intro indexed_from_drop) (auto simp: al_wf_def al_last_def)
  then show ?thesis using assms(3) by (simp add: al_range_def indexed_from_take)
qed

lemma ml_range_indexed:
  assumes "ml_inv l" "ml_base_index l < i" "unat i \<le> al_last (ml_abs l) + 1"
  shows "indexed_from (unat i - 1) (ml_entries_range l i j)"
proof -
  have "al_wf (ml_abs l)" using assms(1) by (rule mem.inv_wf)
  moreover have "0 < unat i" "al_base (ml_abs l) < unat i"
    using assms(2) by (simp_all add: word_less_nat_alt)
  ultimately have "indexed_from (unat i - 1) (al_range (ml_abs l) (unat i) (unat j))"
    using assms(3) by (intro al_range_indexed)
  then show ?thesis using mem.entries[OF assms(1), of i j] by simp
qed

text \<open>The message \<open>send_append\<close> builds from the log.\<close>

definition append_message :: "nat \<Rightarrow> node \<Rightarrow> append_entries" where
  "append_message i n =
     (let next = pr_next_index (n_progress n ! i); last_i = ml_last_index (n_log n)
      in \<lparr>ae_term = n_current_term n, ae_leader = n_id n, ae_prev_log_index = next - 1,
          ae_prev_log_term = (case ml_term_at (n_log n) (next - 1) of Some t \<Rightarrow> t | None \<Rightarrow> 0),
          ae_entries = (if next \<le> last_i
             then ml_entries_range (n_log n) next (min last_i (next + n_max_batch n - 1)) else []),
          ae_leader_commit = n_commit_index n\<rparr>)"

lemma send_append_message:
  "\<not> pr_next_index (n_progress n ! i) \<le> ml_snapshot_index (n_log n) \<Longrightarrow>
   snd (send_append i n acts)
     = acts @ [Send (pr_id (n_progress n ! i)) (AppendEntries (append_message i n))]"
  by (simp add: send_append_def append_message_def Let_def)

subsection \<open>Properties\<close>

text \<open>
  C24: Leader append-only: an event that a node handles as a leader and after which it still
  leads keeps every entry of its log, at its index, other than those it has compacted into a
  snapshot.
\<close>

theorem leader_append_only:
  assumes "is_leader n" "is_leader (fst (step ev n))" "ml_inv (n_log n)" "log_room ev n"
    and "ml_snapshot_index (n_log (fst (step ev n))) < i" "ml_entry (n_log n) i = Some e"
  shows "ml_entry (n_log (fst (step ev n))) i = Some e"
  using leader_keeps_entries[of n ev i e] assms by (simp add: is_leader_def)

lemma ml_inv_code [code]:
  "ml_inv l \<longleftrightarrow> (let b = uint (ml_base_index l) in
     b + int (length (ml_entries l)) < 18446744073709551616
   \<and> (\<forall>(k, e) \<in> set (enumerate 0 (ml_entries l)). uint (le_index e) = b + int k + 1)
   \<and> (case ml_snapshot l of None \<Rightarrow> b = 0 \<and> ml_base_term l = 0 | Some d \<Rightarrow> 0 < b))"
proof -
  have "unat x = unat b + k + 1 \<longleftrightarrow> uint x = uint b + int k + 1" for x b :: u64 and k
    unfolding uint_nat by (rule iffI) linarith+
  then have 1: "indexed_from (unat (ml_base_index l)) (ml_entries l) \<longleftrightarrow>
    (\<forall>(k, e) \<in> set (enumerate 0 (ml_entries l)).
       uint (le_index e) = uint (ml_base_index l) + int k + 1)"
    by (simp add: indexed_from_def in_set_enumerate_eq Ball_def)
  have power_64: "(2 :: nat) ^ 64 = 18446744073709551616" by simp
  have 2: "unat (ml_base_index l) + length (ml_entries l) < 2 ^ 64 \<longleftrightarrow>
    uint (ml_base_index l) + int (length (ml_entries l)) < 18446744073709551616"
    unfolding uint_nat power_64 by linarith
  have 3: "0 < unat x \<longleftrightarrow> 0 < uint x" "unat x = 0 \<longleftrightarrow> uint x = 0" for x :: u64
    unfolding uint_nat by linarith+
  show ?thesis
    by (simp add: ml_inv_def al_wf_def al_last_def Let_def ml_get_snapshot_def
        snapshot_with_config_def 1 2[unfolded power_64] 3 split: option.split del: unat_eq_zero unat_gt_0)
qed

theorem leader_append_only_witness:
  "ml_entry (n_log (fst (step (Propose [9]) committed))) 1 = Some (entry_new 1 1 [7])"
proof -
  have 1: "is_leader committed" by code_simp
  have 2: "is_leader (fst (step (Propose [9]) committed))" by code_simp
  have 3: "ml_inv (n_log committed)" by code_simp
  have 4: "log_room (Propose [9]) committed" by code_simp
  have 5: "ml_snapshot_index (n_log (fst (step (Propose [9]) committed))) < 1" by code_simp
  have 6: "ml_entry (n_log committed) 1 = Some (entry_new 1 1 [7])" by code_simp
  from leader_append_only[OF 1 2 3 4 5 6] show ?thesis .
qed

text \<open>
  C25: The commit rule, for a leader whose voters are distinct and whose progress table lists
  the other voters: its commit index never goes back; when it advances, the new index holds an
  entry of the leader's current term, and more than half of the voters store it, counting the
  leader itself and the voters that have acknowledged the index; and, in a log whose terms do not
  decrease, no later entry of the current term is stored by more than half of the voters.
\<close>

theorem commit_rule:
  assumes "n' = fst (advance_commit n acts)" "distinct (n_voters n)"
    and "map pr_id (n_progress n) = filter (\<lambda>v. v \<noteq> n_id n) (n_voters n)"
  shows "n_commit_index n \<le> n_commit_index n'
    \<and> (n_commit_index n < n_commit_index n' \<longrightarrow>
         n_commit_index n' \<le> ml_last_index (n_log n)
       \<and> ml_term_at (n_log n) (n_commit_index n') = Some (n_current_term n)
       \<and> length (n_voters n) < 2 * card (stored_by n (n_commit_index n')))
    \<and> ((\<forall>a b t u. a \<le> b \<longrightarrow> ml_term_at (n_log n) a = Some t \<longrightarrow>
           ml_term_at (n_log n) b = Some u \<longrightarrow> t \<le> u) \<longrightarrow>
       (\<forall>j. n_commit_index n' < j \<longrightarrow> j \<le> ml_last_index (n_log n) \<longrightarrow>
          ml_term_at (n_log n) j = Some (n_current_term n) \<longrightarrow>
          2 * card (stored_by n j) \<le> length (n_voters n)))"
proof -
  note q = quorum_majority[OF assms(2,3)]
  have sorted: "2 * card (stored_by n j) \<le> length (n_voters n)"
    if "\<forall>a b t u. a \<le> b \<longrightarrow> ml_term_at (n_log n) a = Some t \<longrightarrow>
           ml_term_at (n_log n) b = Some u \<longrightarrow> t \<le> u" "n_commit_index n' < j"
      "j \<le> ml_last_index (n_log n)" "ml_term_at (n_log n) j = Some (n_current_term n)" for j
    using commit_scan_maximal[OF that(1) _ that(3,4)] that(2) q[of j]
    by (simp add: assms(1) advance_commit_index)
  show ?thesis
    using commit_scan_sound[of n "ml_last_index (n_log n)"] sorted q
    by (auto simp: assms(1) advance_commit_index)
qed

theorem commit_rule_witness:
  "3 < 2 * card (stored_by (proposed\<lparr>n_progress := map (\<lambda>p. p\<lparr>pr_match_index := 1\<rparr>) (n_progress proposed)\<rparr>)
         (n_commit_index (fst (advance_commit
           (proposed\<lparr>n_progress := map (\<lambda>p. p\<lparr>pr_match_index := 1\<rparr>) (n_progress proposed)\<rparr>) []))))"
proof -
  let ?n = "proposed\<lparr>n_progress := map (\<lambda>p. p\<lparr>pr_match_index := 1\<rparr>) (n_progress proposed)\<rparr>"
  have 1: "n_commit_index ?n < n_commit_index (fst (advance_commit ?n []))" by code_simp
  have 2: "n_voters ?n = [1, 2, 3]" by code_simp
  have 3: "map pr_id (n_progress ?n) = filter (\<lambda>v. v \<noteq> n_id ?n) (n_voters ?n)" by code_simp
  have 4: "distinct (n_voters ?n)" by code_simp
  from commit_rule[OF refl 4 3, of "[]"] 1 show ?thesis by (simp add: 2)
qed

text \<open>
  C26: Committed commands are applied in order, each once and with no gap: draining brings the
  applied index up to the commit index and returns, for the indices in between in increasing
  order, the index, term and command of every entry of the log that is not a configuration
  entry, then at most one snapshot hint; with nothing in between it returns no command, and
  the applied index never goes back.
\<close>

theorem drain_in_order:
  assumes "ml_inv (n_log n)"
  shows "n_last_applied (fst (drain_applies n acts)) = max (n_last_applied n) (n_commit_index n)
    \<and> n_log (fst (drain_applies n acts)) = n_log n
    \<and> (\<exists>hint. snd (drain_applies n acts) = acts
          @ List.map_filter (command_at (n_log n) \<circ> word_of_nat)
              [unat (n_last_applied n) + 1..<unat (n_commit_index n) + 1] @ hint
        \<and> (hint = [] \<or> (\<exists>i t. hint = [SnapshotHint i t])))"
proof (cases "n_last_applied n \<le> n_commit_index n")
  case True
  with maybe_hint_acts[of "n\<lparr>n_last_applied := n_commit_index n\<rparr>"
      "acts @ commands_between (n_log n) (n_last_applied n) (n_commit_index n)"]
  show ?thesis
    by (auto simp: drain_applies_def drain_loop_applies[OF True] maybe_hint_last_applied frame_simps
        commands_between_entries[OF assms] max_def)
next
  case False
  then have "\<not> n_last_applied n < n_commit_index n" by simp
  then have "drain_loop n acts = (n, acts)" by (subst drain_loop.simps) (rule if_not_P)
  moreover have "[unat (n_last_applied n) + 1..<unat (n_commit_index n) + 1] = []"
    using False by (simp add: word_le_nat_alt del: upt_Suc)
  ultimately show ?thesis
    using maybe_hint_acts[of n acts] False
    by (auto simp: drain_applies_def maybe_hint_last_applied frame_simps map_filter_simps)
qed

theorem drain_in_order_witness:
  "n_last_applied (fst (drain_applies (proposed\<lparr>n_commit_index := 1\<rparr>) [])) = 1
   \<and> (\<exists>hint. snd (drain_applies (proposed\<lparr>n_commit_index := 1\<rparr>) []) = Apply 1 1 [7] # hint)"
proof -
  have 1: "n_last_applied proposed = 0" by code_simp
  have 2: "ml_entry (n_log proposed) 1 = Some (entry_new 1 1 [7])" by code_simp
  have 3: "ml_inv (n_log (proposed\<lparr>n_commit_index := 1\<rparr>))" by code_simp
  from 2 have 4: "command_at (n_log proposed) 1 = Some (Apply 1 1 [7])"
    by (simp add: command_at_def entry_new_def)
  from drain_in_order[OF 3, of "[]"] show ?thesis
    by (auto simp: 1 4 map_filter_simps max_def)
qed

text \<open>
  C29: A rejected leader backs up and makes progress, whatever the follower answers: the range
  its next index is clamped to is never empty, so \<open>clamp\<close> cannot panic; the next index it
  tries is above what the follower is known to match; it is below the index just tried whenever
  that one was above the match, and the first unmatched index otherwise.
\<close>

theorem rejected_next_progress:
  "fst (rejected_range nx m) \<le> snd (rejected_range nx m)
   \<and> fst (rejected_range nx m) = m + 1
   \<and> m + 1 \<le> rejected_next n nx m ci ct
   \<and> (m + 1 < nx \<longrightarrow> rejected_next n nx m ci ct < nx)
   \<and> (nx \<le> m + 1 \<longrightarrow> rejected_next n nx m ci ct = m + 1)"
proof -
  note b = rejected_next_bounds[where n = n and nx = nx and m = m and ci = ci and ct = ct]
  have low: "(if nx < 1 then 0 else nx - 1) \<le> nx" "0 < nx \<Longrightarrow> (if nx < 1 then 0 else nx - 1) < nx"
    using minus_one_less[of nx] by (auto simp: word_gt_0)
  have "rejected_next n nx m ci ct < nx" if "m + 1 < nx"
  proof -
    have "0 < nx" using that by (metis word_gt_0 word_zero_le not_le)
    with low(2) that b(2) show ?thesis by (auto simp: max_def split: if_splits)
  qed
  moreover have "rejected_next n nx m ci ct = m + 1" if "nx \<le> m + 1"
    using that low(1) b by (intro antisym) (auto simp: max_def split: if_splits)
  ultimately show ?thesis using b(1) by (simp add: rejected_range_def Let_def)
qed

theorem rejected_next_progress_witness: "rejected_next fresh 9 3 6 0 < 9 \<and> rejected_next fresh 2 3 6 0 = 4"
  using rejected_next_progress[of 9 3 fresh 6 0] rejected_next_progress[of 2 3 fresh 6 0] by simp

text \<open>
  C27: What a leader replicates is a slice of its own log: the message \<open>send_append\<close> sends names
  a preceding entry the leader has, carries consecutive entries of the leader's log right after
  it, at most \<open>max_batch\<close> of them, and at least one when the follower lacks any.
\<close>

theorem send_append_slice:
  assumes "ml_inv (n_log n)" "ml_snapshot_index (n_log n) < pr_next_index (n_progress n ! i)"
    and "unat (pr_next_index (n_progress n ! i)) \<le> unat (ml_last_index (n_log n)) + 1"
    and "1 \<le> n_max_batch n"
    and "unat (pr_next_index (n_progress n ! i)) + unat (n_max_batch n) \<le> 2 ^ 64"
  shows "snd (send_append i n acts)
      = acts @ [Send (pr_id (n_progress n ! i)) (AppendEntries (append_message i n))]
    \<and> accepts (append_message i n) (n_log n)
    \<and> agrees (n_log n) (ae_entries (append_message i n))
    \<and> indexed_from (unat (ae_prev_log_index (append_message i n)))
        (ae_entries (append_message i n))
    \<and> length (ae_entries (append_message i n)) \<le> unat (n_max_batch n)
    \<and> (pr_next_index (n_progress n ! i) \<le> ml_last_index (n_log n) \<longrightarrow>
         ae_entries (append_message i n) \<noteq> [])"
proof -
  let ?nx = "pr_next_index (n_progress n ! i)" and ?l = "n_log n"
  note li = mem.last_index[OF assms(1)]
  have pos: "0 < ?nx" using assms(2) by (metis word_gt_0 word_zero_le not_le)
  have un: "unat (?nx - 1) = unat ?nx - 1" using pos by (rule unat_minus_one_pos)
  have base: "ml_base_index ?l < ?nx" using assms(2) by (simp add: ml_snapshot_index_def)
  then have b1: "ml_snapshot_index ?l \<le> ?nx - 1"
    using un by (simp add: ml_snapshot_index_def word_le_nat_alt word_less_nat_alt)
  have "ml_term_at ?l (?nx - 1) \<noteq> None"
    using mem.term_at_None[OF assms(1), of "?nx - 1"] b1 assms(3) un pos
    by (auto simp: word_less_nat_alt word_le_nat_alt)
  then have acc: "accepts (append_message i n) ?l"
    using b1 by (auto simp: accepts_def append_message_def Let_def)
  have agr: "agrees ?l (ae_entries (append_message i n))"
    using range_agrees[OF assms(1)] by (auto simp: append_message_def Let_def agrees_def)
  have ix: "indexed_from (unat (ae_prev_log_index (append_message i n)))
      (ae_entries (append_message i n))"
    using ml_range_indexed[OF assms(1) base] assms(3) un li
    by (simp add: append_message_def Let_def)
  let ?last = "min (ml_last_index ?l) (?nx + n_max_batch n - 1)"
  have "unat (n_max_batch n - 1) = unat (n_max_batch n) - 1" "0 < unat (n_max_batch n)"
    using assms(4) by (auto simp: word_le_nat_alt unat_minus_le)
  then have top: "unat (?nx + n_max_batch n - 1) = unat ?nx + unat (n_max_batch n) - 1"
    using assms(5) unat_word_ariths(1)[of ?nx "n_max_batch n - 1"]
    by (simp add: add_diff_eq[symmetric])
  have len: "length (ae_entries (append_message i n)) \<le> unat (n_max_batch n)
    \<and> (?nx \<le> ml_last_index ?l \<longrightarrow> ae_entries (append_message i n) \<noteq> [])"
  proof (cases "?nx \<le> ml_last_index ?l")
    case True
    have ent: "ae_entries (append_message i n) = al_range (ml_abs ?l) (unat ?nx) (unat ?last)"
    proof -
      have "?nx \<le> ?last"
        using True top \<open>0 < unat (n_max_batch n)\<close> by (simp add: word_le_nat_alt)
      then have "\<not> ?last < ?nx" "?nx \<noteq> 0" using pos by (simp_all only: not_less)
      with True show ?thesis
        using mem.entries[OF assms(1), of ?nx ?last]
        by (simp add: append_message_def Let_def)
    qed
    have b: "unat (ml_base_index ?l) < unat ?nx" using base by (simp add: word_less_nat_alt)
    have ul: "unat ?last \<le> unat ?nx + unat (n_max_batch n) - 1" "unat ?nx \<le> unat ?last"
      using True top \<open>0 < unat (n_max_batch n)\<close>
      by (auto simp: min_def word_le_nat_alt)
    have "length (ae_entries (append_message i n)) \<le> unat ?last - (unat ?nx - 1)"
    proof -
      have "max (unat ?nx - 1) (unat (ml_base_index ?l)) = unat ?nx - 1" using b by simp
      then show ?thesis unfolding ent al_range_def by simp
    qed
    moreover have "al_entry (ml_abs ?l) (unat ?nx) \<noteq> None"
      using b True li by (simp add: al_entry_def word_le_nat_alt)
    then have "al_range (ml_abs ?l) (unat ?nx) (unat ?last) \<noteq> []"
      using al_range_step[of "unat ?nx" "unat ?last" "ml_abs ?l"] b ul by auto
    ultimately show ?thesis using ul b ent by auto
  qed (simp add: append_message_def Let_def)
  show ?thesis
    using send_append_message[of n i acts] assms(2) acc agr ix len by simp
qed

theorem send_append_slice_witness:
  "accepts (append_message 1 proposed) (n_log proposed)
   \<and> ae_entries (append_message 1 proposed) \<noteq> []"
proof -
  have 1: "ml_inv (n_log proposed)" by code_simp
  have 2: "ml_snapshot_index (n_log proposed) = 0" by code_simp
  have 3: "pr_next_index (n_progress proposed ! 1) = 1" by code_simp
  have 4: "ml_last_index (n_log proposed) = 1" by code_simp
  have 5: "n_max_batch proposed = 64" by code_simp
  show ?thesis
    using send_append_slice[OF 1, of 1 "[]"] 2 3 4 5 by simp
qed

subsection \<open>Client calls\<close>

text \<open>A membership change and its result, when it is accepted.\<close>

lemma advance_commit_voters: "n_voters (fst (advance_commit n acts)) = n_voters n"
  by (simp add: frame_simps)

lemma change_membership_voters:
  assumes "sorted_wrt (<) (n_voters n)"
  shows "n_voters (fst (change_membership n add rem)) = n_voters n
    \<or> (\<exists>ms. n_voters (fst (change_membership n add rem)) = sorted_members ms
        \<and> set ms = (case add of None \<Rightarrow> set (n_voters n) | Some i \<Rightarrow> insert i (set (n_voters n)))
             - (case rem of None \<Rightarrow> {} | Some i \<Rightarrow> {i}))"
proof -
  let ?ms1 = "case add of Some i \<Rightarrow> if i \<in> set (n_voters n) then n_voters n else n_voters n @ [i]
    | None \<Rightarrow> n_voters n"
  let ?ms = "case rem of Some i \<Rightarrow> filter (\<lambda>m. m \<noteq> i) ?ms1 | None \<Rightarrow> ?ms1"
  have "set ?ms = (case add of None \<Rightarrow> set (n_voters n) | Some i \<Rightarrow> insert i (set (n_voters n)))
             - (case rem of None \<Rightarrow> {} | Some i \<Rightarrow> {i})"
    by (auto split: option.split)
  moreover have "n_voters (fst (change_membership n add rem)) \<in> {n_voters n, sorted_members ?ms}"
    by (simp add: change_membership_def Let_def append_one ml_sync_def case_prod_unfold frame_simps
        set_config_def rebuild_progress_def)
  ultimately show ?thesis by blast
qed

text \<open>
  Membership changes one server at a time: an accepted change leads to a configuration that
  differs from the old one by at most one member, so a majority of the old configuration and a
  majority of the new one always share a server.
\<close>

theorem membership_majorities_overlap:
  assumes "sorted_wrt (<) (n_voters n)" "ev = AddServer i \<or> ev = RemoveServer i"
    and "majority (n_voters n) A" "majority (n_voters (fst (step ev n))) B"
  shows "A \<inter> B \<noteq> {}"
proof -
  have d: "distinct (n_voters n)" using assms(1) by (simp add: strict_sorted_iff)
  show ?thesis
  proof (cases "n_voters (fst (step ev n)) = n_voters n")
    case True
    with assms(3,4) show ?thesis by (intro maj.overlap) auto
  next
    case changed: False
    from assms(2) have "one_apart (n_voters n) (n_voters (fst (step ev n)))"
    proof
      assume "ev = AddServer i"
      with changed change_membership_voters[OF assms(1), of "Some i" None] d show ?thesis
        by (auto simp: step_def one_apart_def sorted_members_distinct)
    next
      assume "ev = RemoveServer i"
      with changed change_membership_voters[OF assms(1), of None "Some i"]
      obtain ms where ms: "n_voters (fst (step ev n)) = sorted_members ms"
        "set ms = set (n_voters n) - {i}" by (auto simp: step_def)
      then have "set (n_voters n) = insert (if i \<in> set (n_voters n) then i else hd (n_voters n)) (set ms)"
        using changed by (cases "n_voters n") (auto simp: sorted_members_def)
      with ms d show ?thesis by (auto simp: one_apart_def sorted_members_distinct)
    qed
    with assms(3,4) show ?thesis by (intro adjacent.overlap) auto
  qed
qed

theorem membership_majorities_overlap_witness:
  "{1, 2} \<inter> {2, 3, 4} \<noteq> ({} :: node_id set)"
proof -
  have 1: "n_voters committed = [1, 2, 3]" by code_simp
  have 2: "n_voters (fst (step (AddServer 4) committed)) = [1, 2, 3, 4]" by code_simp
  show ?thesis
    by (rule membership_majorities_overlap[of committed "AddServer 4" 4])
       (simp_all add: 1 2 majority_def)
qed

text \<open>
  Client errors are exact and harmless: a node that does not lead, or is handing its
  leadership over, refuses a proposal and a membership change with the leader it knows of; a
  leader whose last configuration is not yet committed refuses another change as in progress;
  in each case the node is left exactly as it was.
\<close>

theorem refused_calls:
  assumes "\<not> is_leader n \<or> n_transfer_target n \<noteq> None \<or> n_commit_index n < n_config_index n"
    and "ev = AddServer i \<or> ev = RemoveServer i
       \<or> ev = Propose c \<and> (\<not> is_leader n \<or> n_transfer_target n \<noteq> None)"
  shows "step ev n = (n, Inl (if \<not> is_leader n \<or> n_transfer_target n \<noteq> None
     then NotLeader (n_leader_id n) else ConfigInProgress))"
  using assms by (auto simp: step_def propose_def change_membership_def is_leader_def)

theorem refused_calls_witness:
  "step (Propose [1]) appended = (appended, Inl (NotLeader (Some 1)))"
proof -
  have "\<not> is_leader appended" "n_leader_id appended = Some 1" by code_simp+
  with refused_calls[of appended "Propose [1]" _ "[1]"] show ?thesis by simp
qed

text \<open>
  An accepted proposal is one new entry: a leader that is not handing over appends the
  command once, in its current term, at the index after its last entry, and returns success.
\<close>

theorem propose_appends_one:
  assumes "is_leader n" "n_transfer_target n = None" "ml_inv (n_log n)"
    and "unat (ml_last_index (n_log n)) + 1 < 2 ^ 64"
  shows "ml_entries (n_log (fst (step (Propose c) n)))
      = ml_entries (n_log n) @ [entry_new (n_current_term n) (ml_last_index (n_log n) + 1) c]
    \<and> (\<exists>acts. snd (step (Propose c) n) = Inr acts)
    \<and> ml_entry (n_log (fst (step (Propose c) n))) (ml_last_index (n_log n) + 1)
      = Some (entry_new (n_current_term n) (ml_last_index (n_log n) + 1) c)"
proof -
  let ?e = "entry_new (n_current_term n) (ml_last_index (n_log n) + 1) c"
  let ?l = "(n_log n)\<lparr>ml_entries := ml_entries (n_log n) @ [?e]\<rparr>"
  have log: "n_log (fst (step (Propose c) n)) = ?l"
    using assms(1,2) by (simp add: step_def propose_def Let_def append_one ml_sync_def
        case_prod_unfold frame_simps is_leader_def)
  have li: "unat (ml_last_index (n_log n)) = al_last (ml_abs (n_log n))"
    by (rule mem.last_index[OF assms(3)])
  then have "al_last (ml_abs (n_log n)) + length [?e] < 2 ^ 64" using assms(4) by simp
  from mem.append_ok[OF assms(3) append_one this]
  have "ml_inv ?l" "ml_abs ?l = al_append (ml_abs (n_log n)) [?e]" by simp_all
  then have "ml_entry ?l (ml_last_index (n_log n) + 1) = Some ?e"
    using mem.entry[of ?l] unat_plus_one[of "ml_last_index (n_log n)"] assms(4) li
    by (simp add: al_entry_append)
  with log show ?thesis
    using assms(1,2) by (simp add: step_def propose_def Let_def append_one ml_sync_def
        case_prod_unfold is_leader_def)
qed

theorem propose_appends_one_witness:
  "ml_entry (n_log (fst (step (Propose [9]) committed))) (1 + 1) = Some (entry_new 1 (1 + 1) [9])"
proof -
  have 1: "is_leader committed" by code_simp
  have 2: "n_transfer_target committed = None" by code_simp
  have 3: "ml_inv (n_log committed)" by code_simp
  have 4: "ml_last_index (n_log committed) = 1" by code_simp
  have 5: "n_current_term committed = 1" by code_simp
  show ?thesis using propose_appends_one[OF 1 2 3, of "[9]"] 4 5 by simp
qed

subsection \<open>The log across a step\<close>

text \<open>
  C33: The log stays well formed: whatever event a node handles and however the handling ends, its
  log's entries remain at consecutive indices above the snapshot boundary, within 64 bits.
\<close>

theorem log_stays_well_formed:
  assumes "ml_inv (n_log n)" "log_room ev n"
  shows "ml_inv (n_log (fst (step ev n)))"
  using step_ml_inv[OF assms] .

theorem log_stays_well_formed_witness: "ml_inv (n_log (fst (step (Propose [9]) committed)))"
proof -
  have "ml_inv (n_log committed)" "log_room (Propose [9]) committed" by code_simp+
  then show ?thesis by (rule log_stays_well_formed)
qed

text \<open>
  C35: A snapshot event compacts only what is applied: it moves the log's boundary, if at all, to
  the given index, which is committed and applied; the snapshot it stores has the term of the
  entry there and the configuration in force there; and every entry above it stays as it was.
\<close>

theorem snapshot_event_compacts_applied:
  assumes "ml_inv (n_log n)" "n' = fst (step (SnapshotEvent i d) n)"
  shows "(\<forall>j > i. ml_entry (n_log n') j = ml_entry (n_log n) j)
    \<and> (ml_snapshot_index (n_log n') \<noteq> ml_snapshot_index (n_log n) \<longrightarrow>
         ml_snapshot_index (n_log n') = i \<and> i \<le> n_commit_index n \<and> i \<le> n_last_applied n
       \<and> (\<exists>t. ml_term_at (n_log n) i = Some t
            \<and> ml_get_snapshot (n_log n') = Some (snapshot_with_config i t (config_at n i) d)))"
proof (cases "same_log (n_log n) (n_log n')")
  case True
  with same_log_reads[OF True] same_log_sel[OF True] show ?thesis
    by (simp add: ml_snapshot_index_def)
next
  case False
  with step_log_effect[of "SnapshotEvent i d" n] assms(2) obtain t where t:
    "i \<le> n_commit_index n" "i \<le> n_last_applied n" "ml_term_at (n_log n) i = Some t"
    "n_log n' = fst (ml_apply_snapshot (n_log n) (snapshot_with_config i t (config_at n i) d))"
    by (auto simp: log_effect_def)
  let ?sn = "snapshot_with_config i t (config_at n i) d"
  obtain l' where l': "ml_apply_snapshot (n_log n) ?sn = (l', Inr ())"
    by (metis ml_apply_snapshot_never_fails prod.collapse)
  have stale: "l' = n_log n" if "\<not> ml_base_index (n_log n) < i"
    using that l' by (auto simp: ml_apply_snapshot_def not_less)
  have base: "ml_base_index l' = i" if "ml_base_index (n_log n) < i"
    using that l' by (auto simp: ml_apply_snapshot_def Let_def not_le split: if_splits)
  have above: "ml_entry l' j = ml_entry (n_log n) j" if "i < j" for j
  proof (cases "ml_base_index (n_log n) < i")
    case True
    with ml_entry_snapshot[OF assms(1), of ?sn j] t(3) l' base[OF True] that show ?thesis by simp
  qed (simp add: stale)
  show ?thesis
  proof (cases "ml_base_index (n_log n) < i")
    case True
    with mem.snapshot_boundary[OF assms(1) l'] t l' above base show ?thesis
      by (auto simp: ml_snapshot_index_def)
  qed (use stale t l' in simp)
qed

theorem snapshot_event_compacts_applied_witness:
  "ml_snapshot_index (n_log (fst (step (SnapshotEvent 1 [42]) committed))) = 1
   \<and> 1 \<le> n_last_applied committed"
proof -
  have 1: "ml_inv (n_log committed)" by code_simp
  have 2: "ml_snapshot_index (n_log committed) = 0" by code_simp
  have 3: "ml_snapshot_index (n_log (fst (step (SnapshotEvent 1 [42]) committed))) = 1" by code_simp
  show ?thesis using snapshot_event_compacts_applied[OF 1 refl, of 1 "[42]"] 2 3 by simp
qed

subsection \<open>Where the code and its documentation part\<close>

text \<open>A follower that has committed index 2 receives a heartbeat that only reaches index 1,
  from a leader that does not know how far the follower is, and takes the smaller of the
  leader's commit and that index: its commit index goes back to 1, below what it has applied.\<close>

definition two_committed :: node where
  "two_committed = deliver (AppendEntries \<lparr>ae_term = 1, ae_leader = 1, ae_prev_log_index = 0,
     ae_prev_log_term = 0, ae_entries = [entry_new 1 1 [7], entry_new 1 2 [8]],
     ae_leader_commit = 2\<rparr>) fresh"

lemma commit_index_goes_back:
  "n_commit_index two_committed = 2 \<and> n_last_applied two_committed = 2
   \<and> n_commit_index (deliver (AppendEntries \<lparr>ae_term = 1, ae_leader = 1, ae_prev_log_index = 1,
       ae_prev_log_term = 1, ae_entries = [], ae_leader_commit = 3\<rparr>) two_committed) = 1"
  by code_simp

text \<open>With the largest batch size, the end of the batch wraps around as soon as the next index
  is 2, and the leader sends no entries although the follower lacks some.\<close>

lemma largest_batch_sends_nothing:
  assumes "n_max_batch n = u64_max" "pr_next_index (n_progress n ! i) = 2"
  shows "ae_entries (append_message i n) = []"
  by (simp add: append_message_def Let_def assms ml_entries_range_def less_max_iff_disj)

text \<open>A \<open>TimeoutNow\<close> of the largest term makes the node's term wrap to zero.\<close>

lemma largest_term_wraps:
  "n_current_term (deliver (TimeoutNow \<lparr>tn_term = u64_max, tn_leader = 1\<rparr>) appended) = 0
   \<and> n_current_term appended = 1"
  by code_simp

end
