(* ===== verification/Protocol_Refinement.thy ===== *)
theory Protocol_Refinement
  imports Raft_Protocol Full_Log Static_Membership Leader_Properties
begin

text \<open>
  A node of fixed membership takes the steps of the protocol of \<^verbatim>\<open>Ledger\<close>: the relation
  \<open>linked\<close> between a \<open>RaftNode\<close> and its part of a protocol state, what every message vouches
  for (\<open>msg_ok\<close>), and, handler by handler, the protocol steps behind what \<^verbatim>\<open>src/node.rs\<close>
  does. \<open>good\<close> is the relation of a node and the actions it has collected so far.
\<close>

subsection \<open>The relation\<close>

text \<open>An index up to which the node's log is decided.\<close>

definition settled :: "node_id list \<Rightarrow> spec \<Rightarrow> node_id \<Rightarrow> raft_index \<Rightarrow> bool" where
  "settled vs A i x \<longleftrightarrow> unat x \<le> length (s_log A i)
     \<and> decided (majority vs) A (s_term A i) (take (unat x) (s_log A i))"

text \<open>What a candidate has counted are votes cast, what a leader knows its peers to match
  they have stored.\<close>

definition tallied :: "node_id list \<Rightarrow> spec \<Rightarrow> node_id \<Rightarrow> node \<Rightarrow> bool" where
  "tallied vs A i n \<longleftrightarrow>
     (n_role n \<noteq> Follower \<longrightarrow> distinct (n_votes n)
        \<and> (\<forall>j \<in> set (n_votes n). j \<in> set vs \<and> (n_current_term n, j, i) \<in> s_votes A))
   \<and> (n_role n = Candidate \<longrightarrow> n_progress n = [])
   \<and> (n_role n = Leader \<longrightarrow> distinct (map pr_id (n_progress n))
        \<and> (\<forall>p \<in> set (n_progress n). pr_id p \<in> set vs - {i}
             \<and> unat (pr_match_index p) \<le> s_acks A (n_current_term n) (pr_id p)))"

definition linked :: "node_id list \<Rightarrow> spec \<Rightarrow> node_id \<Rightarrow> node \<Rightarrow> bool" where
  "linked vs A i n \<longleftrightarrow> n_id n = i \<and> s_term A i = n_current_term n \<and> s_role A i = n_role n
     \<and> (\<forall>k. (n_current_term n, i, k) \<in> s_votes A \<longleftrightarrow> n_voted_for n = Some k)
     \<and> compacts (n_log n) (s_log A i)
     \<and> settled vs A i (n_commit_index n) \<and> settled vs A i (n_last_applied n)
     \<and> settled vs A i (ml_base_index (n_log n))
     \<and> tallied vs A i n"

text \<open>The entries of an \<open>AppendEntries\<close> are a slice of the leader's log, after the position
  it names. To a follower the leader believes further than it is, it names a position that
  it lacks, with term 0.\<close>

definition slice_of :: "log_entry list \<Rightarrow> append_entries \<Rightarrow> nat \<Rightarrow> bool" where
  "slice_of L ae k \<longleftrightarrow> unat (ae_prev_log_index ae) + k \<le> length L
     \<and> ae_prev_log_term ae = term_of L (unat (ae_prev_log_index ae))
     \<and> ae_entries ae = take k (drop (unat (ae_prev_log_index ae)) L)"

definition append_ok :: "node_id list \<Rightarrow> spec \<Rightarrow> append_entries \<Rightarrow> bool" where
  "append_ok vs A ae \<longleftrightarrow> (\<exists>L. s_ledger A (ae_term ae) = Some L
     \<and> unat (ae_leader_commit ae) \<le> length L
     \<and> decided (majority vs) A (ae_term ae) (take (unat (ae_leader_commit ae)) L)
     \<and> ((\<exists>k. slice_of L ae k) \<or> 0 < ae_prev_log_index ae \<and> ae_prev_log_term ae = 0))"

definition snapshot_ok :: "node_id list \<Rightarrow> spec \<Rightarrow> install_snapshot \<Rightarrow> bool" where
  "snapshot_ok vs A rpc \<longleftrightarrow> (\<exists>L. s_ledger A (ins_term rpc) = Some L
     \<and> 0 < sn_index (ins_snapshot rpc) \<and> unat (sn_index (ins_snapshot rpc)) \<le> length L
     \<and> sn_term (ins_snapshot rpc) = term_of L (unat (sn_index (ins_snapshot rpc)))
     \<and> decided (majority vs) A (ins_term rpc) (take (unat (sn_index (ins_snapshot rpc))) L))"

definition msg_ok :: "node_id list \<Rightarrow> spec \<Rightarrow> node_id \<Rightarrow> message \<Rightarrow> bool" where
  "msg_ok vs A j m \<longleftrightarrow> (case m of
     RequestVote rv \<Rightarrow> (\<exists>xs. s_cand A (rv_term rv) (rv_candidate rv) = Some xs
        \<and> unat (rv_last_log_index rv) = length xs \<and> rv_last_log_term rv = last_term xs)
   | RequestVoteReply r \<Rightarrow> rvr_vote_granted r \<longrightarrow>
        rvr_from r \<in> set vs \<and> (rvr_term r, rvr_from r, j) \<in> s_votes A
   | AppendEntries ae \<Rightarrow> append_ok vs A ae
   | AppendEntriesReply r \<Rightarrow> aer_success r \<longrightarrow>
        unat (aer_match_index r) \<le> s_acks A (aer_term r) (aer_from r)
   | InstallSnapshot rpc \<Rightarrow> snapshot_ok vs A rpc
   | InstallSnapshotReply r \<Rightarrow> unat (insr_last_index r) \<le> s_acks A (insr_term r) (insr_from r)
   | _ \<Rightarrow> True)"

text \<open>A command applied at an index is that of a decided log there.\<close>

definition apply_ok :: "node_id list \<Rightarrow> spec \<Rightarrow> raft_index \<Rightarrow> byte list \<Rightarrow> bool" where
  "apply_ok vs A x c \<longleftrightarrow> (\<exists>t xs. decided (majority vs) A t xs \<and> 0 < x \<and> unat x \<le> length xs
     \<and> le_command (xs ! (unat x - 1)) = c)"

definition acts_ok :: "node_id list \<Rightarrow> spec \<Rightarrow> action list \<Rightarrow> bool" where
  "acts_ok vs A acts \<longleftrightarrow> (\<forall>j m. Send j m \<in> set acts \<longrightarrow> msg_ok vs A j m)
     \<and> (\<forall>x t c. Apply x t c \<in> set acts \<longrightarrow> apply_ok vs A x c)"

definition good :: "node_id list \<Rightarrow> spec \<Rightarrow> node_id \<Rightarrow> ctx \<Rightarrow> bool" where
  "good vs A i m \<longleftrightarrow> distinct vs \<and> i \<in> set vs \<and> protocol_inv (majority vs) A
     \<and> plain_ctx vs m \<and> linked vs A i (fst m) \<and> acts_ok vs A (snd m)"

subsection \<open>Growth of the protocol state\<close>

lemma slice_of_longer:
  assumes "slice_of L ae k" "take (length L) L' = L"
  shows "slice_of L' ae k"
proof -
  let ?p = "unat (ae_prev_log_index ae)"
  have D: "?p + k \<le> length L" "ae_prev_log_term ae = term_of L ?p" "ae_entries ae = take k (drop ?p L)"
    using assms(1) by (simp_all add: slice_of_def)
  have "take (?p + k) L' = take (?p + k) L" using assms(2) D(1) by (metis min.absorb1 take_take)
  then have "drop ?p (take (?p + k) L') = drop ?p (take (?p + k) L)" "term_of L' ?p = term_of L ?p"
    using term_of_cong[of "?p + k" L' L ?p] by simp_all
  then have "take k (drop ?p L') = take k (drop ?p L)" "term_of L' ?p = term_of L ?p"
    by (simp_all add: drop_take)
  moreover have "length L \<le> length L'" using assms(2) by (metis length_take min.cobounded1)
  ultimately show ?thesis using D by (simp add: slice_of_def)
qed

lemma append_ok_extends:
  assumes "append_ok vs A ae" "extends A A'"
  shows "append_ok vs A' ae"
proof -
  let ?c = "unat (ae_leader_commit ae)"
  obtain L where L: "s_ledger A (ae_term ae) = Some L" "?c \<le> length L"
    "decided (majority vs) A (ae_term ae) (take ?c L)"
    "(\<exists>k. slice_of L ae k) \<or> 0 < ae_prev_log_index ae \<and> ae_prev_log_term ae = 0"
    using assms(1) unfolding append_ok_def by blast
  obtain L' where L': "s_ledger A' (ae_term ae) = Some L'" "take (length L) L' = L"
    using extendsD(4)[OF assms(2) L(1)] by blast
  have "take ?c L' = take ?c L" using L(2) L'(2) by (metis min.absorb1 take_take)
  moreover from this have "?c \<le> length L'" using take_length_le[of ?c L L'] L(2) by simp
  ultimately show ?thesis
    using L(4) L' decided_extends[OF L(3) assms(2)] slice_of_longer[of L ae _ L']
    unfolding append_ok_def by metis
qed

lemma snapshot_ok_extends:
  assumes "snapshot_ok vs A rpc" "extends A A'"
  shows "snapshot_ok vs A' rpc"
proof -
  let ?s = "unat (sn_index (ins_snapshot rpc))"
  obtain L where L: "s_ledger A (ins_term rpc) = Some L" "0 < sn_index (ins_snapshot rpc)"
    "?s \<le> length L" "sn_term (ins_snapshot rpc) = term_of L ?s"
    "decided (majority vs) A (ins_term rpc) (take ?s L)"
    using assms(1) unfolding snapshot_ok_def by blast
  obtain L' where L': "s_ledger A' (ins_term rpc) = Some L'"
    using extendsD(4)[OF assms(2) L(1)] by blast
  have pre: "take ?s L' = take ?s L" by (rule extends_ledger[OF assms(2) L(1) L' L(3)])
  with L L' decided_extends[OF L(5) assms(2)] term_of_cong[OF pre, of ?s]
    take_length_le[OF pre[symmetric] L(3)]
  show ?thesis unfolding snapshot_ok_def by auto
qed

lemma msg_ok_extends: "msg_ok vs A j m \<Longrightarrow> extends A A' \<Longrightarrow> msg_ok vs A' j m"
  by (cases m) (auto simp: msg_ok_def append_ok_extends snapshot_ok_extends
      intro: extendsD(2,3) order_trans[OF _ extendsD(5)])

lemma apply_ok_extends: "apply_ok vs A x c \<Longrightarrow> extends A A' \<Longrightarrow> apply_ok vs A' x c"
  unfolding apply_ok_def by (blast intro: decided_extends)

lemma acts_ok_extends: "acts_ok vs A acts \<Longrightarrow> extends A A' \<Longrightarrow> acts_ok vs A' acts"
  unfolding acts_ok_def by (blast intro: msg_ok_extends apply_ok_extends)

lemma settled_extends:
  "settled vs A i x \<Longrightarrow> extends A A' \<Longrightarrow> s_log A' i = s_log A i \<Longrightarrow> settled vs A' i x"
  using extendsD(1)[of A A' i] decided_extends[of "majority vs" A _ _ A']
  by (auto simp: settled_def intro: decided_later)

lemma tallied_extends: "tallied vs A i n \<Longrightarrow> extends A A' \<Longrightarrow> tallied vs A' i n"
  unfolding tallied_def by (blast intro: extendsD(2) order_trans[OF _ extendsD(5)])

text \<open>The steps of one node leave the link of another intact.\<close>

lemma linked_other:
  assumes "linked vs A j n" "(spec_step (majority vs) i)\<^sup>*\<^sup>* A A'" "extends A A'" "j \<noteq> i"
  shows "linked vs A' j n"
  using assms(1) raft.spec_steps_frame[OF assms(2,4)] settled_extends[OF _ assms(3), of vs j]
    tallied_extends[OF _ assms(3), of vs j n]
  unfolding linked_def by simp

subsection \<open>Reading the relation\<close>

lemma goodD:
  assumes "good vs A i (n, acts)"
  shows "distinct vs" "i \<in> set vs" "protocol_inv (majority vs) A" "plain_ctx vs (n, acts)"
    "linked vs A i n" "acts_ok vs A acts" "n_voters n = vs"
  using assms plain_ctxD(1)[of vs "(n, acts)"] by (simp_all add: good_def)

lemma linkedD:
  assumes "linked vs A i n"
  shows "n_id n = i" "s_term A i = n_current_term n" "s_role A i = n_role n"
    "(n_current_term n, i, k) \<in> s_votes A \<longleftrightarrow> n_voted_for n = Some k"
    "compacts (n_log n) (s_log A i)"
    "settled vs A i (n_commit_index n)" "settled vs A i (n_last_applied n)"
    "settled vs A i (ml_base_index (n_log n))" "tallied vs A i n"
  using assms by (simp_all add: linked_def)

lemma linked_cong:
  "n_id n' = n_id n \<Longrightarrow> n_current_term n' = n_current_term n \<Longrightarrow> n_role n' = n_role n \<Longrightarrow>
   n_voted_for n' = n_voted_for n \<Longrightarrow> n_log n' = n_log n \<Longrightarrow> n_commit_index n' = n_commit_index n \<Longrightarrow>
   n_last_applied n' = n_last_applied n \<Longrightarrow> n_votes n' = n_votes n \<Longrightarrow> n_progress n' = n_progress n \<Longrightarrow>
   linked vs A i n' \<longleftrightarrow> linked vs A i n"
  by (simp add: linked_def tallied_def)

text \<open>The fields the relation does not read.\<close>

lemma good_upd [simp]:
  "good vs A i (n\<lparr>n_leader_id := x1\<rparr>, acts) \<longleftrightarrow> good vs A i (n, acts)"
  "good vs A i (n\<lparr>n_election_elapsed := x2\<rparr>, acts) \<longleftrightarrow> good vs A i (n, acts)"
  "good vs A i (n\<lparr>n_heartbeat_elapsed := x3\<rparr>, acts) \<longleftrightarrow> good vs A i (n, acts)"
  "good vs A i (n\<lparr>n_pre_voting := x4\<rparr>, acts) \<longleftrightarrow> good vs A i (n, acts)"
  "good vs A i (n\<lparr>n_pre_votes := x5\<rparr>, acts) \<longleftrightarrow> good vs A i (n, acts)"
  "good vs A i (n\<lparr>n_transfer_target := x6\<rparr>, acts) \<longleftrightarrow> good vs A i (n, acts)"
  "good vs A i (n\<lparr>n_snapshot_hinted_at := x7\<rparr>, acts) \<longleftrightarrow> good vs A i (n, acts)"
  "good vs A i (n\<lparr>n_config_index := x8\<rparr>, acts) \<longleftrightarrow> good vs A i (n, acts)"
  "good vs A i (reset_election_timer n, acts) \<longleftrightarrow> good vs A i (n, acts)"
  by (simp_all only: good_def fst_conv snd_conv plain_ctx_upd)
    (simp_all add: linked_def tallied_def reset_election_timer_frame)

lemma acts_ok_simps [simp]:
  "acts_ok vs A []"
  "acts_ok vs A (xs @ ys) \<longleftrightarrow> acts_ok vs A xs \<and> acts_ok vs A ys"
  "acts_ok vs A (Send j m # xs) \<longleftrightarrow> msg_ok vs A j m \<and> acts_ok vs A xs"
  "acts_ok vs A (Apply x t c # xs) \<longleftrightarrow> apply_ok vs A x c \<and> acts_ok vs A xs"
  "acts_ok vs A (SnapshotHint x t # xs) \<longleftrightarrow> acts_ok vs A xs"
  "acts_ok vs A (RestoreSnapshot x t d # xs) \<longleftrightarrow> acts_ok vs A xs"
  "acts_ok vs A (MembershipChanged ms # xs) \<longleftrightarrow> acts_ok vs A xs"
  by (auto simp: acts_ok_def)

lemma good_snoc [simp]:
  "good vs A i (n, acts @ xs) \<longleftrightarrow> good vs A i (n, acts) \<and> plain_acts vs xs \<and> acts_ok vs A xs"
  by (auto simp: good_def)

lemma msg_ok_simps [simp]:
  "msg_ok vs A j (PreVote pv)" "msg_ok vs A j (PreVoteReply pr)" "msg_ok vs A j (TimeoutNow tn)"
  by (simp_all add: msg_ok_def)

lemma settled_le: "settled vs A i y \<Longrightarrow> x \<le> y \<Longrightarrow> settled vs A i x"
  using decided_take[of "majority vs" A "s_term A i" "take (unat y) (s_log A i)" "unat x"]
  by (simp add: settled_def word_le_nat_alt min.absorb1)

lemma settled_zero [simp]: "settled vs A i 0"
  by (simp add: settled_def decided_def)

subsection \<open>Applying and committing\<close>

lemma linked_indexed: "protocol_inv q A \<Longrightarrow> indexed_from 0 (s_log A i)"
  by (rule grounded_wf(1)[OF protocol_invD(1,3)])

lemma apply_action_ok:
  assumes c: "compacts l xs" and ix: "indexed_from 0 xs"
    and d: "decided (majority vs) A t (take c xs)" "c \<le> length xs" "unat x \<le> c"
  shows "acts_ok vs A (apply_action l x)"
proof (cases "ml_entry l x")
  case (Some e)
  then have e: "unat (ml_base_index l) < unat x" "unat x \<le> length xs" "e = xs ! (unat x - 1)"
    by (auto simp: compacts_entry[OF c] split: if_splits)
  then have "unat (le_index e) = unat x" using ix by (auto simp: indexed_from_def)
  then have "le_index e = x" by (simp add: word_unat_eq_iff)
  moreover have "apply_ok vs A x (le_command e)"
    unfolding apply_ok_def
    using d e by (intro exI[of _ t] exI[of _ "take c xs"]) (simp add: word_less_nat_alt min.absorb1)
  ultimately show ?thesis using Some by (simp add: apply_action_def)
qed (simp add: apply_action_def)

lemma drain_loop_ok:
  assumes "compacts (n_log n) xs" "indexed_from 0 xs" "unat (n_commit_index n) \<le> length xs"
    "decided (majority vs) A t (take (unat (n_commit_index n)) xs)" "acts_ok vs A acts"
  shows "acts_ok vs A (snd (drain_loop n acts))"
  using assms
proof (induction n acts rule: drain_loop.induct)
  case (1 n acts)
  show ?case
  proof (cases "n_last_applied n < n_commit_index n")
    case True
    have "unat (n_last_applied n + 1) \<le> unat (n_commit_index n)"
      using inc_le[OF True] by (simp add: word_le_nat_alt)
    with apply_action_ok[OF "1.prems"(1,2,4,3)]
    have "acts_ok vs A (acts @ apply_action (n_log n) (n_last_applied n + 1))"
      using "1.prems"(5) by simp
    with 1 True show ?thesis by (subst drain_loop.simps) (simp add: Let_def)
  next
    case False
    with "1.prems"(5) show ?thesis by (subst drain_loop.simps) simp
  qed
qed

lemma drain_last_applied:
  "n_last_applied (fst (drain_applies n acts)) = max (n_last_applied n) (n_commit_index n)"
  by (simp add: drain_applies_def case_prod_unfold frame_simps drain_loop_node)

lemma good_drain: "good vs A i (n, acts) \<Longrightarrow> good vs A i (drain_applies n acts)"
proof -
  assume g: "good vs A i (n, acts)"
  note G = goodD[OF g] and L = linkedD[OF goodD(5)[OF g]]
  have c: "unat (n_commit_index n) \<le> length (s_log A i)"
    "decided (majority vs) A (s_term A i) (take (unat (n_commit_index n)) (s_log A i))"
    using L(6) by (simp_all add: settled_def)
  have "acts_ok vs A (snd (drain_loop n acts))"
    by (rule drain_loop_ok[OF L(5) linked_indexed[OF G(3)] c G(6)])
  then have "acts_ok vs A (snd (drain_applies n acts))"
    using maybe_hint_acts[of "fst (drain_loop n acts)" "snd (drain_loop n acts)"]
    by (auto simp: drain_applies_def Let_def case_prod_unfold)
  moreover have "linked vs A i (fst (drain_applies n acts))"
    using G(5) L(6,7) by (simp add: linked_def tallied_def frame_simps drain_last_applied max_def)
  ultimately show ?thesis using G plain_drain_applies[OF G(4)] by (simp add: good_def)
qed

lemma majority_replicas:
  assumes vs: "distinct vs" "i \<in> set vs" "n_voters n = vs" "n_id n = i"
    and ps: "distinct (map pr_id (n_progress n))"
      "\<And>p. p \<in> set (n_progress n) \<Longrightarrow> pr_id p \<in> set vs - {i} \<and> unat (pr_match_index p) \<le> acks (pr_id p)"
    and k: "unat k \<le> acks i" "quorum n \<le> replicas n k"
  shows "\<exists>Q. majority vs Q \<and> (\<forall>j \<in> Q. unat k \<le> acks j)"
proof -
  let ?ps = "filter (\<lambda>p. k \<le> pr_match_index p) (n_progress n)"
  let ?Q = "insert i (pr_id ` set ?ps)"
  have "distinct (map pr_id ?ps)" using ps(1) by (simp add: distinct_map_filter)
  then have "card (pr_id ` set ?ps) = length ?ps" by (metis distinct_card length_map set_map)
  moreover have "i \<notin> pr_id ` set ?ps" using ps(2) by auto
  ultimately have "card ?Q = replicas n k" using vs by (simp add: replicas_def is_voter_def)
  then have "majority vs ?Q" using vs ps(2) k(2) by (auto simp: majority_def quorum_def)
  moreover have "unat k \<le> acks j" if "j \<in> ?Q" for j
    using that k(1) ps(2) by (auto simp: word_le_nat_alt intro: order_trans)
  ultimately show ?thesis by blast
qed

lemma linked_leader:
  assumes "good vs A i (n, acts)" "n_role n = Leader"
  shows "s_ledger A (n_current_term n) = Some (s_log A i)"
    "s_acks A (n_current_term n) i = length (s_log A i)"
    "distinct (map pr_id (n_progress n))"
    "p \<in> set (n_progress n) \<Longrightarrow> pr_id p \<in> set vs - {i}
       \<and> unat (pr_match_index p) \<le> s_acks A (n_current_term n) (pr_id p)"
  using protocol_leadersD(3,4)[OF goodD(3)[OF assms(1)], of i] linkedD[OF goodD(5)[OF assms(1)]] assms(2)
  by (simp_all add: tallied_def)

text \<open>The commit rule advances to a position whose entry is chosen.\<close>

lemma commit_scan_settled:
  assumes g: "good vs A i (n, acts)" and l: "n_role n = Leader"
  shows "settled vs A i (commit_scan n (ml_last_index (n_log n)))"
proof (cases "commit_scan n (ml_last_index (n_log n)) = n_commit_index n")
  case True
  with linkedD(6)[OF goodD(5)[OF g]] show ?thesis by simp
next
  case False
  let ?k = "commit_scan n (ml_last_index (n_log n))" and ?t = "n_current_term n"
  note G = goodD[OF g] and L = linkedD[OF goodD(5)[OF g]] and D = linked_leader[OF g l]
  from False commit_scan_sound[of n "ml_last_index (n_log n)"]
  have k: "n_commit_index n < ?k" "ml_term_at (n_log n) ?k = Some ?t" "quorum n \<le> replicas n ?k" by auto
  then have t: "unat ?k \<le> length (s_log A i)" "term_of (s_log A i) (unat ?k) = ?t"
    by (auto simp: compacts_term_at[OF L(5)] split: if_splits)
  moreover have "0 < unat ?k" using k(1) by (simp add: word_less_nat_alt)
  ultimately have "own_entry A ?t (unat ?k)" using D(1) by (simp add: own_entry_def)
  moreover have "\<exists>Q. majority vs Q \<and> (\<forall>j \<in> Q. unat ?k \<le> s_acks A ?t j)"
    using D t(1) by (intro majority_replicas[OF G(1,2,7) L(1) D(3,4) _ k(3)]) auto
  ultimately have "chosen (majority vs) A ?t (unat ?k)" by (simp add: chosen_def)
  then have "decided (majority vs) A ?t (take (unat ?k) (s_log A i))"
    using D(1) t(1) unfolding decided_def by (auto simp: min.absorb1)
  with t(1) L(2) show ?thesis by (simp add: settled_def)
qed

text \<open>What the leader does keeps a node that is \<open>good\<close> and leads so.\<close>

definition leads :: "node_id list \<Rightarrow> spec \<Rightarrow> node_id \<Rightarrow> ctx \<Rightarrow> bool" where
  "leads vs A i m \<longleftrightarrow> good vs A i m \<and> n_role (fst m) = Leader"

lemma leads_advance: "leads vs A i (n, acts) \<Longrightarrow> leads vs A i (advance_commit n acts)"
proof -
  assume a: "leads vs A i (n, acts)"
  then have g: "good vs A i (n, acts)" and l: "n_role n = Leader" by (simp_all add: leads_def)
  let ?k = "commit_scan n (ml_last_index (n_log n))"
  have "linked vs A i (n\<lparr>n_commit_index := ?k\<rparr>)"
    using goodD(5)[OF g] commit_scan_settled[OF g l] by (simp add: linked_def tallied_def)
  with g have "good vs A i (n\<lparr>n_commit_index := ?k\<rparr>, acts)" by (simp add: good_def)
  then have d: "good vs A i (drain_applies (n\<lparr>n_commit_index := ?k\<rparr>) acts)" by (rule good_drain)
  have "n_voters n = vs" "n_id n = i" "i \<in> set vs" using goodD[OF g] linkedD(1)[OF goodD(5)[OF g]] by auto
  then have "is_voter (fst (drain_applies (n\<lparr>n_commit_index := ?k\<rparr>) acts))"
    by (simp add: is_voter_def frame_simps)
  with a d l show ?thesis
    by (simp add: leads_def advance_commit_def Let_def case_prod_unfold frame_simps)
qed

subsection \<open>Sending\<close>

lemma upd_progress_ids:
  "(\<And>p. pr_id (f p) = pr_id p) \<Longrightarrow> map pr_id (n_progress (upd_progress j f n)) = map pr_id (n_progress n)"
  by (cases "j < length (n_progress n)")
     (auto simp: upd_progress_def map_update list_update_beyond simp del: map_update
       intro!: nth_equalityI simp: nth_list_update)

lemma upd_progress_all:
  assumes "\<And>p. p \<in> set (n_progress n) \<Longrightarrow> P p" "j < length (n_progress n) \<Longrightarrow> P (f (n_progress n ! j))"
    "p \<in> set (n_progress (upd_progress j f n))"
  shows "P p"
proof (cases "j < length (n_progress n)")
  case True
  with assms(3) set_update_subset_insert[of "n_progress n" j] have
    "p = f (n_progress n ! j) \<or> p \<in> set (n_progress n)" by (auto simp: upd_progress_def)
  with assms(1,2) True show ?thesis by blast
next
  case False
  with assms(1,3) show ?thesis by (simp add: upd_progress_def list_update_beyond)
qed

lemma leads_upd_progress:
  assumes l: "leads vs A i (n, acts)" and f: "\<And>p. pr_id (f p) = pr_id p"
    and m: "j < length (n_progress n) \<Longrightarrow> unat (pr_match_index (f (n_progress n ! j)))
      \<le> s_acks A (n_current_term n) (pr_id (n_progress n ! j))"
  shows "leads vs A i (upd_progress j f n, acts)"
proof -
  have g: "good vs A i (n, acts)" "n_role n = Leader" using l by (simp_all add: leads_def)
  note G = goodD[OF g(1)] and D = linked_leader[OF g]
  have "pr_id p \<in> set vs - {i} \<and> unat (pr_match_index p) \<le> s_acks A (n_current_term n) (pr_id p)"
    if "p \<in> set (n_progress (upd_progress j f n))" for p
    by (rule upd_progress_all[OF D(4) _ that]) (use f m D(4)[of "n_progress n ! j"] in auto)
  then have "linked vs A i (upd_progress j f n)"
    using G(5) D(3) g(2) upd_progress_ids[of f j n, OF f]
    by (simp add: linked_def tallied_def upd_progress_frame)
  with G l show ?thesis by (simp add: leads_def good_def upd_progress_frame)
qed

lemma leads_upd_keep:
  assumes "leads vs A i (n, acts)" "\<And>p. pr_id (f p) = pr_id p"
    "\<And>p. pr_match_index (f p) = pr_match_index p"
  shows "leads vs A i (upd_progress j f n, acts)"
  using assms linked_leader(4)[of vs A i n acts, OF _ _ nth_mem]
  by (intro leads_upd_progress) (auto simp: leads_def)

lemma snapshot_sent_ok:
  assumes g: "good vs A i (n, acts)" and l: "n_role n = Leader" and s: "ml_get_snapshot (n_log n) = Some s"
  shows "snapshot_ok vs A \<lparr>ins_term = n_current_term n, ins_leader = n_id n, ins_snapshot = s\<rparr>"
proof -
  note L = linkedD[OF goodD(5)[OF g]] and D = linked_leader[OF g l]
  obtain d where d: "ml_snapshot (n_log n) = Some d"
    "s = snapshot_with_config (ml_base_index (n_log n)) (ml_base_term (n_log n))
           (ml_snapshot_config (n_log n)) d"
    using s by (auto simp: ml_get_snapshot_def)
  have "0 < ml_base_index (n_log n)"
    using compactsD(1)[OF L(5)] s by (simp add: ml_inv_def al_wf_def word_less_nat_alt)
  with d(2) compactsD(2,4)[OF L(5)] D(1) L(2,8) show ?thesis
    by (auto simp: snapshot_ok_def settled_def)
qed

lemma append_sent_ok:
  assumes g: "good vs A i (n, acts)" and l: "n_role n = Leader"
    and nx: "\<not> pr_next_index (n_progress n ! j) \<le> ml_snapshot_index (n_log n)"
  shows "append_ok vs A (append_message j n)"
proof -
  let ?nx = "pr_next_index (n_progress n ! j)" and ?xs = "s_log A i"
  let ?ae = "append_message j n"
  note L = linkedD[OF goodD(5)[OF g]] and D = linked_leader[OF g l]
  have base: "ml_base_index (n_log n) < ?nx" using nx by (simp add: ml_snapshot_index_def not_le)
  then have pos: "0 < ?nx" by (metis word_gt_0 word_zero_le not_le)
  then have p: "unat (?nx - 1) = unat ?nx - 1" "0 < unat ?nx"
    by (simp_all add: unat_minus_one_pos word_less_nat_alt)
  have lt: "unat (ml_base_index (n_log n)) < unat ?nx" using base by (simp add: word_less_nat_alt)
  note last = compacts_last_index[OF L(5)]
  have "(\<exists>k. slice_of ?xs ?ae k) \<or> 0 < ae_prev_log_index ?ae \<and> ae_prev_log_term ?ae = 0"
  proof (cases "unat (?nx - 1) \<le> length ?xs")
    case True
    then have t: "ml_term_at (n_log n) (?nx - 1) = Some (term_of ?xs (unat (?nx - 1)))"
      using lt p by (simp add: compacts_term_at[OF L(5)])
    define k where "k = length (ae_entries ?ae)"
    obtain m where m: "ae_entries ?ae = take m (drop (unat (?nx - 1)) ?xs)"
    proof (cases "?nx \<le> ml_last_index (n_log n)")
      case True
      with that show ?thesis
        using compacts_range[OF L(5) base] p(1) by (simp add: append_message_def Let_def)
    next
      case False
      with that[of 0] show ?thesis by (simp add: append_message_def Let_def)
    qed
    then have "ae_entries ?ae = take k (drop (unat (?nx - 1)) ?xs)" "unat (?nx - 1) + k \<le> length ?xs"
      using True by (auto simp: k_def min_def)
    with t have "slice_of ?xs ?ae k" by (simp add: slice_of_def append_message_def Let_def)
    then show ?thesis by blast
  next
    case False
    then have "ml_term_at (n_log n) (?nx - 1) = None" by (simp add: compacts_term_at[OF L(5)])
    moreover have "0 < ?nx - 1" using False by (auto simp: word_gt_0)
    ultimately show ?thesis by (simp add: append_message_def Let_def)
  qed
  with D(1) L(2,6) show ?thesis
    unfolding append_ok_def by (intro exI[of _ ?xs]) (simp add: append_message_def Let_def settled_def)
qed

lemma leads_send_append: "leads vs A i (n, acts) \<Longrightarrow> leads vs A i (send_append j n acts)"
proof -
  assume l: "leads vs A i (n, acts)"
  then have g: "good vs A i (n, acts)" "n_role n = Leader" by (simp_all add: leads_def)
  have msgs: "snd (send_append j n acts) = acts \<or> (\<exists>to m. snd (send_append j n acts) = acts @ [Send to m]
     \<and> msg_ok vs A to m)"
  proof (cases "pr_next_index (n_progress n ! j) \<le> ml_snapshot_index (n_log n)")
    case True
    with snapshot_sent_ok[OF g] show ?thesis
      by (auto simp: send_append_def send_snapshot_def Let_def msg_ok_def frame_simps split: option.split)
  next
    case False
    with append_sent_ok[OF g False] send_append_message[OF False] show ?thesis by (simp add: msg_ok_def)
  qed
  have "leads vs A i (fst (send_append j n acts), acts)"
    using l leads_upd_keep[OF l] by (simp add: send_append_def send_snapshot_def Let_def split: option.split)
  with msgs plain_send_append[OF goodD(4)[OF g(1)], of j] show ?thesis
    by (auto simp: leads_def good_def plain_ctx_def)
qed

lemma leads_timeout: "leads vs A i (n, acts) \<Longrightarrow> leads vs A i (maybe_send_timeout_now t n acts)"
  by (simp add: maybe_send_timeout_now_def Let_def leads_def)

interpretation lead: leader_operations "leads vs A i" for vs A i
  by unfold_locales (rule leads_advance leads_send_append leads_timeout, assumption)+

subsection \<open>Protocol steps behind a handler\<close>

definition reaches :: "node_id list \<Rightarrow> node_id \<Rightarrow> spec \<Rightarrow> ctx \<Rightarrow> bool" where
  "reaches vs i A m \<longleftrightarrow> (\<exists>A'. (spec_step (majority vs) i)\<^sup>*\<^sup>* A A' \<and> good vs A' i m)"

lemma reaches_now: "good vs A i m \<Longrightarrow> reaches vs i A m"
  unfolding reaches_def by blast

lemma reaches_then:
  assumes "reaches vs i A m" "protocol_inv (majority vs) A"
    and "\<And>A'. extends A A' \<Longrightarrow> good vs A' i m \<Longrightarrow> reaches vs i A' m'"
  shows "reaches vs i A m'"
proof -
  obtain A' where A': "(spec_step (majority vs) i)\<^sup>*\<^sup>* A A'" "good vs A' i m"
    using assms(1) unfolding reaches_def by blast
  with assms(3)[of A'] raft.spec_steps_inv[OF A'(1) assms(2)]
  show ?thesis unfolding reaches_def by (meson rtranclp_trans)
qed

lemma good_step:
  assumes "good vs A i (n, acts)" "spec_step (majority vs) i A A'" "plain vs n'" "linked vs A' i n'"
  shows "good vs A' i (n', acts)"
  using assms(3,4) goodD[OF assms(1)] raft.spec_step_inv[OF _ assms(2)]
    acts_ok_extends[OF _ raft.step_extends[OF _ assms(2)]]
  by (auto simp: good_def plain_ctx_def)

lemma reaches_step:
  assumes "good vs A i (n, acts)" "spec_step (majority vs) i A A'" "plain vs n'" "linked vs A' i n'"
  shows "reaches vs i A (n', acts)"
  using good_step[OF assms] assms(2) unfolding reaches_def by blast

lemma goodD_step:
  assumes "good vs A i (n, acts)" "spec_step (majority vs) i A A'" "s_log A' i = s_log A i"
  shows "settled vs A i x \<Longrightarrow> settled vs A' i x"
  using settled_extends[OF _ raft.step_extends[OF goodD(3)[OF assms(1)] assms(2)] assms(3)] .

lemma good_plain: "good vs A i (n, acts) \<Longrightarrow> plain vs n"
  using plain_ctxD(5)[of vs "(n, acts)"] by (simp add: good_def)

subsection \<open>Elections\<close>

lemma no_future_vote:
  "protocol_inv q A \<Longrightarrow> s_term A i < t \<Longrightarrow> (t, i, k) \<notin> s_votes A"
  using protocol_votesD(1)[of q A t i k] by auto

text \<open>Stepping down to a follower in the current term.\<close>

lemma reaches_follower:
  assumes g: "good vs A i (n, acts)"
  shows "reaches vs i A (n\<lparr>n_role := Follower\<rparr>, acts)"
proof -
  let ?A = "A\<lparr>s_term := (s_term A)(i := s_term A i), s_role := (s_role A)(i := Follower)\<rparr>"
  have st: "spec_step (majority vs) i A ?A" by (rule spec_step.follow) simp
  have "linked vs ?A i (n\<lparr>n_role := Follower\<rparr>)"
    using linkedD[OF goodD(5)[OF g]] goodD_step[OF g st] by (simp add: linked_def tallied_def)
  with good_plain[OF g] show ?thesis by (intro reaches_step[OF g st]) (simp_all add: plain_def)
qed

lemma reaches_become_follower:
  assumes g: "good vs A i (n, acts)"
  shows "reaches vs i A (fst (become_follower t ld n), acts)"
proof -
  let ?t = "max (n_current_term n) t" and ?n = "fst (become_follower t ld n)"
  let ?A = "A\<lparr>s_term := (s_term A)(i := ?t), s_role := (s_role A)(i := Follower)\<rparr>"
  note G = goodD[OF g] and L = linkedD[OF goodD(5)[OF g]]
  have st: "spec_step (majority vs) i A ?A" by (rule spec_step.follow) (simp add: L(2))
  have "n_current_term n < t \<Longrightarrow> (t, i, k) \<notin> s_votes A" for k
    using no_future_vote[OF G(3), of i t k] L(2) by simp
  then have "linked vs ?A i ?n"
    using L goodD_step[OF g st]
    by (auto simp: linked_def tallied_def become_follower_def Let_def persist_hard_state_eq max_def)
  moreover have "plain vs ?n"
    using plain_ctxD(5)[OF plain_become_follower[OF G(4)]] by simp
  ultimately show ?thesis by (intro reaches_step[OF g st])
qed

text \<open>A candidate with the votes of a majority takes the lead.\<close>

lemma reaches_become_leader:
  assumes g: "good vs A i (n, acts)" and c: "n_role n = Candidate" and q: "quorum n \<le> length (n_votes n)"
  shows "reaches vs i A (become_leader n acts)"
proof -
  let ?A = "A\<lparr>s_role := (s_role A)(i := Leader), s_ledger := (s_ledger A)(s_term A i \<mapsto> s_log A i),
     s_acks := (s_acks A)(s_term A i := (s_acks A (s_term A i))(i := length (s_log A i)))\<rparr>"
  let ?n1 = "n\<lparr>n_role := Leader, n_leader_id := Some (n_id n), n_heartbeat_elapsed := 0,
                 n_transfer_target := None, n_pre_voting := False, n_pre_votes := []\<rparr>"
  let ?n = "rebuild_progress ?n1"
  note G = goodD[OF g] and L = linkedD[OF goodD(5)[OF g]]
  have T: "distinct (n_votes n)" "\<And>j. j \<in> set (n_votes n) \<Longrightarrow> j \<in> set vs \<and> (s_term A i, j, i) \<in> s_votes A"
    "n_progress n = []"
    using L(2,9) c by (auto simp: tallied_def)
  have "majority vs (set (n_votes n))"
    using T q G(7) by (auto simp: majority_def quorum_def distinct_card)
  then have st: "spec_step (majority vs) i A ?A"
    using T(2) L(3) c by (intro spec_step.lead) auto
  have "distinct (filter (\<lambda>j. j \<noteq> n_id n) (n_voters n))" using G(1,7) by simp
  then have "linked vs ?A i ?n"
    using L goodD_step[OF g st] T G(1,7)
    by (auto simp: linked_def tallied_def rebuild_progress_def Let_def o_def)
  moreover have "plain vs ?n" using good_plain[OF g] by (simp add: plain_def rebuild_progress_frame)
  ultimately have "good vs ?A i (?n, acts)" by (intro good_step[OF g st])
  then have "leads vs ?A i (?n, acts)" by (simp add: leads_def rebuild_progress_frame)
  then have "leads vs ?A i (become_leader n acts)"
    using lead.advance_after[OF lead.to_all]
    by (simp add: become_leader_def Let_def case_prod_unfold)
  with st show ?thesis unfolding reaches_def leads_def by blast
qed

lemma reaches_start_election:
  assumes g: "good vs A i (n, acts)" and room: "n_current_term n \<noteq> u64_max"
  shows "reaches vs i A (fst (start_election force n acts))"
proof -
  let ?t = "n_current_term n + 1"
  let ?A = "A\<lparr>s_term := (s_term A)(i := ?t), s_role := (s_role A)(i := Candidate),
        s_votes := insert (?t, i, i) (s_votes A),
        s_cand := (s_cand A)(?t := (s_cand A ?t)(i := Some (s_log A i)))\<rparr>"
  let ?n1 = "reset_election_timer (n\<lparr>n_role := Candidate, n_current_term := ?t,
                 n_voted_for := Some (n_id n), n_leader_id := None,
                 n_transfer_target := None, n_pre_voting := False, n_pre_votes := [],
                 n_progress := [], n_votes := [n_id n]\<rparr>)"
  let ?n = "fst (persist_hard_state ?n1)"
  note G = goodD[OF g] and L = linkedD[OF goodD(5)[OF g]]
  have lt: "s_term A i < ?t" using term_succ[OF room] L(2) by simp
  then have st: "spec_step (majority vs) i A ?A" by (rule spec_step.stand)
  have "linked vs ?A i ?n"
    using L G(2) goodD_step[OF g st] no_future_vote[OF G(3) lt]
    by (auto simp: linked_def tallied_def persist_hard_state_eq reset_election_timer_frame)
  moreover have "plain vs ?n"
    using good_plain[OF g] by (simp add: plain_def persist_hard_state_eq reset_election_timer_frame
        plain_log_hard)
  ultimately have g': "good vs ?A i (?n, acts)" by (intro good_step[OF g st])
  have "reaches vs i ?A (fst (start_election force n acts))"
  proof (cases "quorum ?n \<le> length (n_votes ?n)")
    case True
    then have "fst (start_election force n acts) = become_leader ?n acts"
      by (simp add: start_election_def Let_def persist_hard_state_eq)
    then show ?thesis
      using reaches_become_leader[OF g' _ True]
      by (simp add: persist_hard_state_eq reset_election_timer_frame)
  next
    case False
    have "msg_ok vs ?A j (RequestVote \<lparr>rv_term = n_current_term ?n, rv_candidate = n_id ?n,
        rv_last_log_index = ml_last_index (n_log ?n), rv_last_log_term = ml_last_term (n_log ?n),
        rv_force = force\<rparr>)" for j
      using linkedD(1,2,5)[OF goodD(5)[OF g']]
      by (simp add: msg_ok_def compacts_last_index compacts_last_term persist_hard_state_eq
          reset_election_timer_frame)
    with False g' show ?thesis
      by (intro reaches_now)
        (auto simp: start_election_def Let_def persist_hard_state_eq plain_acts_requests acts_ok_def)
  qed
  with st show ?thesis unfolding reaches_def by (meson converse_rtranclp_into_rtranclp)
qed

lemma reaches_start_pre_vote:
  assumes g: "good vs A i (n, acts)" and room: "n_current_term n \<noteq> u64_max"
  shows "reaches vs i A (fst (start_pre_vote n acts))"
proof (rule reaches_then[OF reaches_follower[OF g] goodD(3)[OF g]])
  fix A' assume g': "good vs A' i (n\<lparr>n_role := Follower\<rparr>, acts)"
  let ?n = "reset_election_timer (n\<lparr>n_role := Follower, n_leader_id := None, n_pre_voting := True,
                 n_pre_votes := [n_id n]\<rparr>)"
  have "good vs A' i (?n, acts)" using g' by simp
  moreover have "acts_ok vs A' (map (\<lambda>peer. Send peer (PreVote r)) ps)" for r ps
    by (auto simp: acts_ok_def)
  ultimately show "reaches vs i A' (fst (start_pre_vote n acts))"
    using reaches_start_election[of vs A' i ?n acts False] room
    by (auto simp: start_pre_vote_def Let_def reset_election_timer_frame plain_acts_requests
        intro: reaches_now)
qed

lemma reaches_tick:
  assumes g: "good vs A i (n, [])" and room: "n_current_term n \<noteq> u64_max"
  shows "reaches vs i A (fst (tick n))"
proof (cases "n_role n = Leader")
  case True
  with g have "leads vs A i (n\<lparr>n_heartbeat_elapsed := k\<rparr>, [])" for k by (simp add: leads_def)
  from lead.to_all[OF this] this True show ?thesis
    unfolding leads_def by (intro reaches_now) (simp add: tick_def Let_def)
next
  case False
  have "good vs A i (n\<lparr>n_election_elapsed := k\<rparr>, [])" for k using g by simp
  from reaches_start_pre_vote[OF this] reaches_now[OF this] room False show ?thesis
    by (simp add: tick_def Let_def)
qed

lemma reaches_request_vote:
  assumes g: "good vs A i (n, acts)" and m: "msg_ok vs A i (RequestVote rv)"
    and t: "rv_term rv \<le> n_current_term n"
  shows "reaches vs i A (fst (handle_request_vote rv n acts))"
proof -
  note G = goodD[OF g] and L = linkedD[OF goodD(5)[OF g]]
  let ?k = "rv_candidate rv"
  show ?thesis
  proof (cases "n_current_term n \<le> rv_term rv
            \<and> (case n_voted_for n of None \<Rightarrow> True | Some c \<Rightarrow> c = ?k)
            \<and> candidate_log_up_to_date n (rv_last_log_term rv) (rv_last_log_index rv)")
    case True
    with t have cur: "rv_term rv = s_term A i" by (simp add: L(2))
    obtain xs where xs: "s_cand A (s_term A i) ?k = Some xs"
      "unat (rv_last_log_index rv) = length xs" "rv_last_log_term rv = last_term xs"
      using m cur by (auto simp: msg_ok_def)
    let ?A = "A\<lparr>s_votes := insert (s_term A i, i, ?k) (s_votes A)\<rparr>"
    let ?n1 = "fst (persist_hard_state (n\<lparr>n_voted_for := Some ?k\<rparr>))"
    let ?n = "reset_election_timer ?n1"
    have "up_to_date (s_log A i) xs"
      using True xs(2,3) compacts_last_index[OF L(5)] compacts_last_term[OF L(5)]
      by (auto simp: candidate_log_up_to_date_def Let_def up_to_date_def word_le_nat_alt)
    moreover have own: "k' = ?k" if "(s_term A i, i, k') \<in> s_votes A" for k'
      using True that L(4)[of k'] by (simp add: L(2))
    ultimately have st: "spec_step (majority vs) i A ?A" by (intro spec_step.vote[OF xs(1)])
    have "linked vs ?A i ?n"
      using L goodD_step[OF g st] own
      by (auto simp: linked_def tallied_def persist_hard_state_eq reset_election_timer_frame)
    moreover have "plain vs ?n"
      using good_plain[OF g] by (simp add: plain_def persist_hard_state_eq reset_election_timer_frame
          plain_log_hard)
    ultimately have "good vs ?A i (?n, acts)" by (intro good_step[OF g st])
    moreover have "msg_ok vs ?A ?k (RequestVoteReply
        \<lparr>rvr_term = n_current_term ?n, rvr_vote_granted = True, rvr_from = n_id ?n\<rparr>)"
      using G(2) L(1,2) by (simp add: msg_ok_def persist_hard_state_eq reset_election_timer_frame)
    ultimately have "good vs ?A i (fst (handle_request_vote rv n acts))"
      using True by (simp add: handle_request_vote_def Let_def persist_hard_state_eq)
    with st show ?thesis unfolding reaches_def by blast
  next
    case False
    have "msg_ok vs A j (RequestVoteReply
        \<lparr>rvr_term = n_current_term n, rvr_vote_granted = False, rvr_from = n_id n\<rparr>)" for j
      by (simp add: msg_ok_def)
    moreover have "fst (handle_request_vote rv n acts) = (n, acts @ [Send ?k (RequestVoteReply
        \<lparr>rvr_term = n_current_term n, rvr_vote_granted = False, rvr_from = n_id n\<rparr>)])"
      using False by (simp only: handle_request_vote_def Let_def if_False fst_conv)
    ultimately show ?thesis using g by (intro reaches_now) simp
  qed
qed

lemma reaches_vote_reply:
  assumes g: "good vs A i (n, acts)" and m: "msg_ok vs A i (RequestVoteReply r)"
  shows "reaches vs i A (handle_vote_reply r n acts)"
proof -
  note G = goodD[OF g] and L = linkedD[OF goodD(5)[OF g]]
  let ?n = "n\<lparr>n_votes := n_votes n @ [rvr_from r]\<rparr>"
  show ?thesis
  proof (cases "n_role n = Candidate \<and> rvr_term r = n_current_term n \<and> rvr_vote_granted r
      \<and> rvr_from r \<notin> set (n_votes n)")
    case True
    with m have "rvr_from r \<in> set vs" "(n_current_term n, rvr_from r, i) \<in> s_votes A"
      by (simp_all add: msg_ok_def)
    then have "linked vs A i ?n" using G(5) True by (simp add: linked_def tallied_def)
    with G have g': "good vs A i (?n, acts)" by (simp add: good_def)
    show ?thesis
    proof (cases "quorum ?n \<le> length (n_votes ?n)")
      case q: True
      with reaches_become_leader[OF g' _ q] True show ?thesis by (simp add: handle_vote_reply_def)
    next
      case False
      with reaches_now[OF g'] True show ?thesis by (simp add: handle_vote_reply_def)
    qed
  next
    case False
    then have "handle_vote_reply r n acts = (n, acts)" by (auto simp: handle_vote_reply_def Let_def)
    with reaches_now[OF g] show ?thesis by simp
  qed
qed

lemma reaches_pre_vote_reply:
  assumes g: "good vs A i (n, acts)" and room: "n_current_term n \<noteq> u64_max"
  shows "reaches vs i A (fst (handle_pre_vote_reply r n acts))"
proof -
  have "good vs A i (n\<lparr>n_pre_voting := False, n_pre_votes := []\<rparr>, acts)"
    "good vs A i (n\<lparr>n_pre_votes := n_pre_votes n @ [pvr_from r]\<rparr>, acts)" using g by simp_all
  from reaches_become_follower[OF this(1), of "pvr_term r" None]
    reaches_start_election[OF this(2), of False] reaches_now[OF this(2)] reaches_now[OF g] room
  show ?thesis by (simp add: handle_pre_vote_reply_def Let_def with_acts_def case_prod_unfold)
qed

lemma reaches_timeout_now:
  "good vs A i (n, acts) \<Longrightarrow> n_current_term n \<noteq> u64_max \<Longrightarrow>
   reaches vs i A (fst (handle_timeout_now r n acts))"
  using reaches_start_election[of vs A i n acts True] reaches_now
  by (simp add: handle_timeout_now_def)

subsection \<open>The leader's replies and calls\<close>

lemma good_append_reply:
  assumes g: "good vs A i (n, acts)" and m: "msg_ok vs A i (AppendEntriesReply r)"
  shows "good vs A i (handle_append_reply r n acts)"
proof (cases "n_role n = Leader \<and> aer_term r = n_current_term n")
  case True
  with g have l: "leads vs A i (n, acts)" by (simp add: leads_def)
  note D = linked_leader[OF g conjunct1[OF True]]
  show ?thesis
  proof (cases "progress_index n (aer_from r)")
    case None
    with g show ?thesis by (simp add: handle_append_reply_def)
  next
    case (Some j)
    note j = progress_index_Some[OF this]
    have mt: "leads vs A i (upd_progress j (\<lambda>p. p\<lparr>pr_match_index := aer_match_index r\<rparr>) n, acts)"
      if "aer_success r"
      using that m True j by (intro leads_upd_progress[OF l]) (auto simp: msg_ok_def)
    have "leads vs A i (handle_append_reply r n acts)"
      using l mt leads_upd_keep True Some j lead.append
      by (simp add: handle_append_reply_def lead.tail[unfolded Let_def] Let_def frame_simps)
    then show ?thesis by (simp add: leads_def)
  qed
next
  case False
  with g show ?thesis by (auto simp: handle_append_reply_def)
qed

lemma good_snapshot_reply:
  assumes g: "good vs A i (n, acts)" and m: "msg_ok vs A i (InstallSnapshotReply r)"
  shows "good vs A i (handle_install_snapshot_reply r n acts)"
proof (cases "n_role n = Leader \<and> insr_term r = n_current_term n")
  case True
  with g have l: "leads vs A i (n, acts)" by (simp add: leads_def)
  show ?thesis
  proof (cases "progress_index n (insr_from r)")
    case None
    with g show ?thesis by (simp add: handle_install_snapshot_reply_def)
  next
    case (Some j)
    note j = progress_index_Some[OF this]
    have mt: "leads vs A i (upd_progress j (\<lambda>p. p\<lparr>pr_match_index := insr_last_index r\<rparr>) n, acts)"
      using m True j by (intro leads_upd_progress[OF l]) (auto simp: msg_ok_def)
    have "leads vs A i (handle_install_snapshot_reply r n acts)"
      using l mt leads_upd_keep True Some j lead.append
      by (simp add: handle_install_snapshot_reply_def lead.tail[unfolded Let_def] Let_def frame_simps)
    then show ?thesis by (simp add: leads_def)
  qed
next
  case False
  with g show ?thesis by (auto simp: handle_install_snapshot_reply_def)
qed

lemma reaches_propose:
  assumes g: "good vs A i (n, [])" and room: "unat (ml_last_index (n_log n)) + 1 < 2 ^ 64"
  shows "reaches vs i A (fst (propose n c), result_actions (snd (propose n c)))"
proof (cases "n_role n = Leader \<and> n_transfer_target n = None")
  case True
  note G = goodD[OF g] and L = linkedD[OF goodD(5)[OF g]] and D = linked_leader[OF g conjunct1[OF True]]
  let ?e = "entry_new (n_current_term n) (ml_last_index (n_log n) + 1) c"
  let ?l = "(n_log n)\<lparr>ml_entries := ml_entries (n_log n) @ [?e]\<rparr>" and ?xs = "s_log A i @ [?e]"
  let ?A = "A\<lparr>s_log := (s_log A)(i := ?xs), s_ledger := (s_ledger A)(s_term A i \<mapsto> ?xs),
        s_acks := (s_acks A)(s_term A i := (s_acks A (s_term A i))(i := length (s_log A i) + 1))\<rparr>"
  let ?n = "n\<lparr>n_log := ?l\<rparr>"
  have e: "le_term ?e = s_term A i" "le_index ?e = ml_last_index (n_log n) + 1" "members ?e = None"
    by (simp_all add: entry_new_def L(2) members_def)
  have st: "spec_step (majority vs) i A ?A"
    using True L(3) e compacts_last_index[OF L(5)] unat_plus_one[of "ml_last_index (n_log n)"] room
    by (intro spec_step.append) auto
  note ext = raft.step_extends[OF G(3) st]
  have "settled vs ?A i x" if "settled vs A i x" for x
    using that decided_extends[OF _ ext] by (auto simp: settled_def)
  moreover have "compacts ?l ?xs"
    using room compacts_last_index[OF L(5)] by (intro compacts_snoc[OF L(5) e(2)]) simp
  moreover have "tallied vs ?A i ?n" using tallied_extends[OF L(9) ext] by (simp add: tallied_def)
  ultimately have "linked vs ?A i ?n" using L by (simp add: linked_def)
  moreover have "plain vs ?n"
    using good_plain[OF g] e(3) by (simp add: plain_def plain_log_def ball_Un)
  ultimately have "good vs ?A i (?n, [])" by (intro good_step[OF g st])
  with True have "leads vs ?A i (?n, [])" by (simp add: leads_def)
  then have "leads vs ?A i (advance_commit (fst (replicate_to_streaming ?n []))
      (snd (replicate_to_streaming ?n [])))"
    by (intro lead.advance_after lead.to_streaming)
  with True st show ?thesis
    unfolding reaches_def leads_def
    by (intro exI[of _ ?A]) (auto simp: propose_def Let_def append_one e(2) ml_sync_def case_prod_unfold
        result_actions_def)
next
  case False
  with g show ?thesis by (intro reaches_now) (auto simp: propose_def result_actions_def)
qed

lemma good_transfer:
  assumes g: "good vs A i (n, [])"
  shows "good vs A i (fst (transfer_leadership n t), result_actions (snd (transfer_leadership n t)))"
proof (cases "n_role n = Leader")
  case True
  with g have "leads vs A i (n\<lparr>n_transfer_target := Some t\<rparr>, [])" by (simp add: leads_def)
  note m = lead.timeout[OF this, of t]
  then have "leads vs A i (send_append j (fst (maybe_send_timeout_now t (n\<lparr>n_transfer_target := Some t\<rparr>) []))
      (snd (maybe_send_timeout_now t (n\<lparr>n_transfer_target := Some t\<rparr>) [])))"
    if "progress_index (fst (maybe_send_timeout_now t (n\<lparr>n_transfer_target := Some t\<rparr>) [])) t = Some j" for j
    using progress_index_Some[OF that] by (intro lead.append) simp_all
  with m g show ?thesis
    by (auto simp: transfer_leadership_def Let_def case_prod_unfold leads_def result_actions_def
        split: option.split)
next
  case False
  with g show ?thesis by (simp add: transfer_leadership_def result_actions_def)
qed

subsection \<open>The follower\<close>

lemma good_refresh: "good vs A i (n, acts) \<Longrightarrow> good vs A i (refresh_config n acts)"
proof -
  assume g: "good vs A i (n, acts)"
  note G = goodD[OF g] and L = linkedD[OF goodD(5)[OF g]]
  have inv: "ml_inv (n_log n)" by (rule compactsD(1)[OF L(5)])
  have pl: "plain_log vs (n_log n)" "n_base_config n = vs"
    using good_plain[OF g] by (simp_all add: plain_def)
  have e: "refresh_config n acts = (if n_role n = Leader
      then rebuild_progress (n\<lparr>n_voters := vs, n_config_index := 0\<rparr>)
      else n\<lparr>n_voters := vs, n_config_index := 0\<rparr>, acts)"
    using latest_config_plain[OF inv pl(1)] pl(2) G(7)
    by (simp add: refresh_config_def set_config_def Let_def)
  have same: "linked vs A i (n\<lparr>n_voters := vs, n_config_index := 0\<rparr>)"
    using G(5) by (simp add: linked_def tallied_def)
  have "linked vs A i (rebuild_progress (n\<lparr>n_voters := vs, n_config_index := 0\<rparr>))" if l: "n_role n = Leader"
  proof -
    note D = linked_leader[OF g l]
    define mk where "mk j = (case find (\<lambda>p. pr_id p = j) (n_progress n) of Some p \<Rightarrow> p
      | None \<Rightarrow> \<lparr>pr_id = j, pr_next_index = ml_last_index (n_log n) + 1, pr_match_index = 0,
                 pr_state = Probe\<rparr>)" for j
    have mk: "pr_id (mk j) = j \<and> unat (pr_match_index (mk j)) \<le> s_acks A (n_current_term n) j" for j
    proof (cases "find (\<lambda>p. pr_id p = j) (n_progress n)")
      case (Some p)
      then have "p \<in> set (n_progress n)" "pr_id p = j" by (auto simp: find_Some_iff)
      with D(4)[of p] Some show ?thesis by (simp add: mk_def)
    qed (simp add: mk_def)
    have ps: "n_progress (rebuild_progress (n\<lparr>n_voters := vs, n_config_index := 0\<rparr>))
        = map mk (filter (\<lambda>j. j \<noteq> i) vs)"
      by (simp add: rebuild_progress_def Let_def mk_def L(1))
    have "tallied vs A i (rebuild_progress (n\<lparr>n_voters := vs, n_config_index := 0\<rparr>))"
      using L(9) l G(1) mk unfolding tallied_def ps by (simp add: rebuild_progress_frame o_def)
    with same show ?thesis by (simp add: linked_def rebuild_progress_frame)
  qed
  with same have "linked vs A i (fst (refresh_config n acts))" by (simp add: e)
  with G plain_refresh_config[OF G(4) inv] show ?thesis by (simp add: good_def) (simp add: e)
qed

lemma settled_ledger:
  assumes g: "good vs A i (n, acts)" and L: "s_ledger A (n_current_term n) = Some L"
    and x: "settled vs A i x"
  shows "unat x \<le> length (s_log A i)" "take (unat x) (s_log A i) = take (unat x) L"
    "unat x \<le> length L" "decided (majority vs) A (s_term A i) (take (unat x) (s_log A i))"
proof -
  show x: "unat x \<le> length (s_log A i)"
    and d: "decided (majority vs) A (s_term A i) (take (unat x) (s_log A i))"
    using x by (simp_all add: settled_def)
  have "s_ledger A (s_term A i) = Some L" using L linkedD(2)[OF goodD(5)[OF g]] by simp
  from decided_ledger(1)[OF protocol_invD(2)[OF goodD(3)[OF g]] d order_refl this] x
  show e: "take (unat x) (s_log A i) = take (unat x) L" by (simp add: min.absorb1)
  show "unat x \<le> length L" by (rule take_length_le[OF e x])
qed

text \<open>Taking over from the ledger of the current term.\<close>

lemma good_accept:
  assumes g: "good vs A i (n, acts)" and f: "n_role n = Follower"
    and L: "s_ledger A (n_current_term n) = Some L" and ys: "takes_over L (s_log A i) ys"
    and m: "m \<le> length L" "m \<le> length ys" "take m ys = take m L"
    and l: "compacts l ys" "plain_log vs l"
    and b: "decided (majority vs) A (n_current_term n) (take (unat (ml_base_index l)) ys)"
  obtains A' where "spec_step (majority vs) i A A'" "good vs A' i (n\<lparr>n_log := l\<rparr>, acts)"
    "s_log A' i = ys" "m \<le> s_acks A' (n_current_term n) i"
proof -
  note G = goodD[OF g] and N = linkedD[OF goodD(5)[OF g]]
  let ?t = "s_term A i"
  let ?A = "A\<lparr>s_log := (s_log A)(i := ys),
        s_acks := (s_acks A)(?t := (s_acks A ?t)(i := max (s_acks A ?t i) m))\<rparr>"
  have st: "spec_step (majority vs) i A ?A"
    using f L ys m N(2,3) by (intro spec_step.accept) auto
  note ext = raft.step_extends[OF G(3) st]
  have keep: "settled vs ?A i x" if "settled vs A i x" for x
  proof -
    note S = settled_ledger[OF g L that]
    from takes_over_keeps[OF ys S(2,3)] decided_extends[OF S(4) ext] S(2) show ?thesis
      by (simp add: settled_def)
  qed
  have "settled vs ?A i (ml_base_index l)"
    using compactsD(2)[OF l(1)] decided_extends[OF b ext] N(2) by (simp add: settled_def)
  moreover have "tallied vs ?A i (n\<lparr>n_log := l\<rparr>)" using f by (simp add: tallied_def)
  ultimately have "linked vs ?A i (n\<lparr>n_log := l\<rparr>)" using N l(1) keep by (simp add: linked_def)
  moreover have "plain vs (n\<lparr>n_log := l\<rparr>)" using good_plain[OF g] l(2) by (simp add: plain_def)
  ultimately have "good vs ?A i (n\<lparr>n_log := l\<rparr>, acts)" by (intro good_step[OF g st])
  with that[OF st] show ?thesis by (simp add: N(2))
qed

text \<open>A follower may report what it has settled.\<close>

lemma good_report:
  assumes g: "good vs A i (n, acts)" and f: "n_role n = Follower"
    and L: "s_ledger A (n_current_term n) = Some L" and x: "settled vs A i x"
  obtains A' where "spec_step (majority vs) i A A'" "good vs A' i (n, acts)"
    "unat x \<le> s_acks A' (n_current_term n) i"
proof -
  note G = goodD[OF g] and N = linkedD[OF goodD(5)[OF g]]
  note S = settled_ledger[OF g L x]
  have "plain_log vs (n_log n)" using good_plain[OF g] by (simp add: plain_def)
  with S obtain A' where "spec_step (majority vs) i A A'" "good vs A' i (n\<lparr>n_log := n_log n\<rparr>, acts)"
    "unat x \<le> s_acks A' (n_current_term n) i"
    using good_accept[OF g f L, of "s_log A i" "unat x" "n_log n"] N(2,5,8)
    by (auto simp: takes_over_def settled_def)
  with that show ?thesis by simp
qed

lemma good_commit:
  "good vs A i (n, acts) \<Longrightarrow> settled vs A i x \<Longrightarrow> good vs A i (drain_applies (n\<lparr>n_commit_index := x\<rparr>) acts)"
  by (rule good_drain) (simp add: good_def linked_def tallied_def)

lemma reachesI:
  "spec_step (majority vs) i A A' \<Longrightarrow> good vs A' i m \<Longrightarrow> reaches vs i A m"
  unfolding reaches_def by blast

lemma reaches_report:
  assumes g: "good vs A i (n, acts)" and f: "n_role n = Follower"
    and L: "s_ledger A (n_current_term n) \<noteq> None" and x: "settled vs A i x"
    and m: "\<And>A'. unat x \<le> s_acks A' (n_current_term n) i \<Longrightarrow> msg_ok vs A' j m" "plain_message vs m"
  shows "reaches vs i A (n, acts @ [Send j m])"
proof -
  obtain A' where "spec_step (majority vs) i A A'" "good vs A' i (n, acts)"
    "unat x \<le> s_acks A' (n_current_term n) i"
    using good_report[OF g f _ x] L by blast
  with m show ?thesis by (intro reachesI[of vs i A A']) simp_all
qed

lemma reply_ok: "msg_ok vs A j (AppendEntriesReply r) \<longleftrightarrow>
   (aer_success r \<longrightarrow> unat (aer_match_index r) \<le> s_acks A (aer_term r) (aer_from r))"
  "msg_ok vs A j (InstallSnapshotReply r') \<longleftrightarrow>
   unat (insr_last_index r') \<le> s_acks A (insr_term r') (insr_from r')"
  by (simp_all add: msg_ok_def)

text \<open>The part of \<open>handle_append_entries\<close> after the reset of the timer, by cases.\<close>

lemma append_refused:
  "ae_term ae < n_current_term n \<Longrightarrow>
   fst (handle_append_entries ae n acts) = (n, acts @ [ae_reply n ae False 0 0 0])"
  by (simp add: handle_append_entries_def)

lemma append_compacted:
  assumes "\<not> ae_term ae < n_current_term n" "ae_prev_log_index ae < ml_base_index (n_log n)"
    and "n1 = reset_election_timer (n\<lparr>n_role := Follower, n_leader_id := Some (ae_leader ae),
                      n_pre_voting := False\<rparr>)"
    and "m = (if n_commit_index n < ae_leader_commit ae
      then drain_applies (n1\<lparr>n_commit_index := min (ae_leader_commit ae) (ml_base_index (n_log n))\<rparr>) acts
      else (n1, acts))"
  shows "fst (handle_append_entries ae n acts)
    = (fst m, snd m @ [ae_reply (fst m) ae True (ml_base_index (n_log n)) 0 0])"
  using assms
  by (simp add: handle_append_entries_def Let_def case_prod_unfold frame_simps ml_snapshot_index_def)

lemma append_mismatch:
  assumes "\<not> ae_term ae < n_current_term n" "\<not> ae_prev_log_index ae < ml_base_index (n_log n)"
    "ml_term_at (n_log n) (ae_prev_log_index ae) \<noteq> Some (ae_prev_log_term ae)"
  shows "\<exists>ci ct. fst (handle_append_entries ae n acts) = (reset_election_timer
      (n\<lparr>n_role := Follower, n_leader_id := Some (ae_leader ae), n_pre_voting := False\<rparr>),
      acts @ [ae_reply n ae False 0 ci ct])"
  using assms
  by (simp add: handle_append_entries_def Let_def frame_simps ml_snapshot_index_def ae_reply_def)

lemma append_accepted:
  assumes "\<not> ae_term ae < n_current_term n" "\<not> ae_prev_log_index ae < ml_base_index (n_log n)"
    "ml_term_at (n_log n) (ae_prev_log_index ae) = Some (ae_prev_log_term ae)"
    and l: "append_from_leader (ae_entries ae) (n_log n) = (l, Inr (le_index (last (ae_entries ae)), tr))"
    and n1: "n1 = (reset_election_timer (n\<lparr>n_role := Follower, n_leader_id := Some (ae_leader ae),
                      n_pre_voting := False\<rparr>))\<lparr>n_log := l\<rparr>"
    and x: "x = (if ae_entries ae = [] then ae_prev_log_index ae else le_index (last (ae_entries ae)))"
  obtains m2 where "m2 = (n1, acts) \<or> m2 = refresh_config n1 acts"
    "fst (handle_append_entries ae n acts) =
       (let m = (if n_commit_index n < ae_leader_commit ae
                 then drain_applies (fst m2\<lparr>n_commit_index := min (ae_leader_commit ae) x\<rparr>) (snd m2)
                 else m2)
        in (fst m, snd m @ [ae_reply (fst m) ae True x 0 0]))"
proof -
  define n0 where "n0 = reset_election_timer (n\<lparr>n_role := Follower, n_leader_id := Some (ae_leader ae),
      n_pre_voting := False\<rparr>)"
  have f: "n_log n0 = n_log n" "n_commit_index n0 = n_commit_index n" by (simp_all add: n0_def frame_simps)
  have "ae_entries ae = [] \<Longrightarrow> l = n_log n0"
    using l f(1) by (simp add: append_from_leader_def)
  then have mid: "with_acts acts (if ae_entries ae = [] then (n0, Inr (ae_prev_log_index ae, False))
      else log_op n0 (append_from_leader (ae_entries ae) (n_log n0)))
    = ((n1, acts), Inr (x, ae_entries ae \<noteq> [] \<and> tr))"
    using l by (simp add: n1 x n0_def[symmetric] f(1))
  have c1: "n_commit_index n1 = n_commit_index n" using f(2) by (simp add: n1 n0_def[symmetric])
  let ?r = "(ae_entries ae \<noteq> [] \<and> tr) \<or> list_ex (\<lambda>e. members e \<noteq> None) (ae_entries ae)"
  let ?m2 = "if ?r then refresh_config n1 acts else (n1, acts)"
  have c2: "n_commit_index (fst ?m2) = n_commit_index n" by (simp add: frame_simps c1)
  have g: "\<not> ae_prev_log_index ae < ml_snapshot_index (n_log n0)"
    "\<not> (ml_term_at (n_log n0) (ae_prev_log_index ae) \<noteq> Some (ae_prev_log_term ae))"
    using assms(2,3) by (simp_all add: f ml_snapshot_index_def)
  have "fst (handle_append_entries ae n acts) =
       (let m = (if n_commit_index n < ae_leader_commit ae
                 then drain_applies (fst ?m2\<lparr>n_commit_index := min (ae_leader_commit ae) x\<rparr>) (snd ?m2)
                 else ?m2)
        in (fst m, snd m @ [ae_reply (fst m) ae True x 0 0]))"
    unfolding handle_append_entries_def Let_def n0_def[symmetric] mid
    unfolding if_not_P[OF assms(1)] if_not_P[OF g(1)] if_not_P[OF g(2)] and_then_Inr
    by (simp only: case_prod_unfold fst_conv snd_conv c2[symmetric] prod.collapse Let_def)
  then show ?thesis by (intro that[of ?m2]) simp_all
qed

lemma positive_terms:
  assumes "protocol_inv q A" "0 < k" "k \<le> length (s_log A i)"
  shows "0 < term_of (s_log A i) k"
  using term_of_in[OF assms(2,3)] grounded_wf(3)[OF protocol_invD(1,3)[OF assms(1)]] by fastforce

lemma drain_node [simp]: "n_id (fst (drain_applies n acts)) = n_id n"
  "n_current_term (fst (drain_applies n acts)) = n_current_term n"
  "n_role (fst (drain_applies n acts)) = n_role n"
  by (simp_all add: frame_simps)

text \<open>The highest index an accepted message settles the log up to.\<close>

definition last_sent :: "append_entries \<Rightarrow> raft_index" where
  "last_sent ae = (if ae_entries ae = [] then ae_prev_log_index ae else le_index (last (ae_entries ae)))"

lemma last_sent_slice:
  assumes "slice_of L ae k" "indexed_from 0 L"
  shows "unat (last_sent ae) = unat (ae_prev_log_index ae) + k"
proof -
  have k: "unat (ae_prev_log_index ae) + k \<le> length L"
    "ae_entries ae = take k (drop (unat (ae_prev_log_index ae)) L)"
    using assms(1) by (simp_all add: slice_of_def)
  then have "indexed_from (unat (ae_prev_log_index ae)) (ae_entries ae)" "length (ae_entries ae) = k"
    using indexed_slice[OF assms(2), of "unat (ae_prev_log_index ae)" k] by simp_all
  with last_index_of[OF this(1)] show ?thesis by (auto simp: last_sent_def)
qed

text \<open>A follower that has the preceding entry takes the slice over.\<close>

lemma accept_slice:
  assumes g: "good vs A i (n, acts)" and f: "n_role n = Follower"
    and L: "s_ledger A (n_current_term n) = Some L" and sl: "slice_of L ae k"
    and pm: "plain_message vs (AppendEntries ae)"
    and p: "\<not> ae_prev_log_index ae < ml_base_index (n_log n)"
      "ml_term_at (n_log n) (ae_prev_log_index ae) = Some (ae_prev_log_term ae)"
  obtains l tr A' where
    "append_from_leader (ae_entries ae) (n_log n) = (l, Inr (le_index (last (ae_entries ae)), tr))"
    "spec_step (majority vs) i A A'" "good vs A' i (n\<lparr>n_log := l\<rparr>, acts)"
    "unat (last_sent ae) \<le> s_acks A' (n_current_term n) i" "unat (last_sent ae) \<le> length (s_log A' i)"
    "take (unat (last_sent ae)) (s_log A' i) = take (unat (last_sent ae)) L"
proof -
  let ?p = "unat (ae_prev_log_index ae)" and ?xs = "s_log A i"
  note G = goodD[OF g] and N = linkedD[OF goodD(5)[OF g]]
  note W = ledgers_wfD[OF protocol_invD(1)[OF G(3)] L]
  note x = last_sent_slice[OF sl W(2)]
  have k: "?p + k \<le> length L" "ae_prev_log_term ae = term_of L ?p" "ae_entries ae = take k (drop ?p L)"
    using sl by (simp_all add: slice_of_def)
  have q: "unat (ml_base_index (n_log n)) \<le> ?p" "?p \<le> length ?xs" "?p \<le> length L"
    "term_of ?xs ?p = term_of L ?p"
    using p k by (auto simp: compacts_term_at[OF N(5)] not_less word_le_nat_alt split: if_splits)
  obtain l tr ys where l: "append_from_leader (ae_entries ae) (n_log n)
      = (l, Inr (le_index (last (ae_entries ae)), tr))"
    "compacts l ys" "takes_over L ?xs ys" "?p + k \<le> length ys" "take (?p + k) ys = take (?p + k) L"
    "ml_base_index l = ml_base_index (n_log n)"
    by (rule compacts_append_from_leader[OF N(5) protocol_invD(3)[OF G(3)] W(1,2) q k(3,1)])
  have pl: "plain_log vs l"
    using append_from_leader_plain[of vs "n_log n" "ae_entries ae"] l(1) pm good_plain[OF g]
    by (simp add: plain_def plain_message_def)
  have "settled vs A i (ml_base_index l)" using N(8) l(6) by simp
  note S = settled_ledger[OF g L this]
  have b: "decided (majority vs) A (n_current_term n) (take (unat (ml_base_index l)) ys)"
    using S(4) takes_over_keeps[OF l(3) S(2,3)] N(2) S(2) by simp
  obtain A' where "spec_step (majority vs) i A A'" "good vs A' i (n\<lparr>n_log := l\<rparr>, acts)"
    "s_log A' i = ys" "?p + k \<le> s_acks A' (n_current_term n) i"
    by (rule good_accept[OF g f L l(3) k(1) l(4,5,2) pl b])
  with that[OF l(1)] l(4,5) show ?thesis by (simp add: x)
qed

lemma settled_commit:
  assumes g: "good vs A i (n, acts)" and d: "decided (majority vs) A (n_current_term n) (take (unat c) L)"
    and x: "unat x \<le> length (s_log A i)" "take (unat x) (s_log A i) = take (unat x) L"
  shows "settled vs A i (min c x)"
proof -
  let ?m = "unat (min c x)"
  have m: "?m \<le> unat c" "?m \<le> unat x"
    unfolding word_le_nat_alt[symmetric] by (rule min.cobounded1, rule min.cobounded2)
  have "take ?m (s_log A i) = take ?m (take (unat c) L)"
    using take_shorter[OF x(2) m(2)] m(1) by (simp add: min.absorb1)
  with decided_take[OF d, of ?m] linkedD(2)[OF goodD(5)[OF g]] m(2) x(1) show ?thesis
    by (simp add: settled_def)
qed

text \<open>The commit index and the reply at the end of both accepting branches.\<close>

lemma good_commit_reply:
  assumes g: "good vs A i m" and t: "n_current_term (fst m) = t" "unat x \<le> s_acks A t i"
    and y: "b \<Longrightarrow> settled vs A i y"
    and m': "m' = (if b then drain_applies (fst m\<lparr>n_commit_index := y\<rparr>) (snd m) else m)"
  shows "good vs A i (fst m', snd m' @ [ae_reply (fst m') ae True x 0 0])"
proof -
  have "good vs A i (fst m', snd m')" using g good_commit[of vs A i "fst m" "snd m" y] y m' by simp
  moreover have "n_id (fst m') = i" "n_current_term (fst m') = t"
    using linkedD(1)[OF goodD(5), of vs A i "fst m" "snd m"] g t m' by simp_all
  ultimately show ?thesis using t(2) by (simp add: ae_reply_def reply_ok)
qed

lemma reaches_append_follower:
  assumes g: "good vs A i (n1, acts)" and ok: "append_ok vs A ae" and tm: "ae_term ae = n_current_term n"
    and pm: "plain_message vs (AppendEntries ae)"
    and n1: "n1 = reset_election_timer (n\<lparr>n_role := Follower, n_leader_id := Some (ae_leader ae),
      n_pre_voting := False\<rparr>)"
  shows "reaches vs i A (fst (handle_append_entries ae n acts))"
proof -
  let ?lc = "ae_leader_commit ae" and ?b = "ml_base_index (n_log n)"
  note G = goodD[OF g] and N = linkedD[OF goodD(5)[OF g]]
  have fr: "n_role n1 = Follower" "n_current_term n1 = n_current_term n" "n_log n1 = n_log n"
    by (simp_all add: n1 frame_simps)
  have cur: "\<not> ae_term ae < n_current_term n" using tm by simp
  obtain L where L: "s_ledger A (n_current_term n1) = Some L" "unat ?lc \<le> length L"
    "decided (majority vs) A (n_current_term n1) (take (unat ?lc) L)"
    "(\<exists>k. slice_of L ae k) \<or> 0 < ae_prev_log_index ae \<and> ae_prev_log_term ae = 0"
    using ok by (auto simp: append_ok_def tm fr)
  consider (compacted) "ae_prev_log_index ae < ?b"
    | (mismatch) "\<not> ae_prev_log_index ae < ?b"
        "ml_term_at (n_log n) (ae_prev_log_index ae) \<noteq> Some (ae_prev_log_term ae)"
    | (fits) "\<not> ae_prev_log_index ae < ?b"
        "ml_term_at (n_log n) (ae_prev_log_index ae) = Some (ae_prev_log_term ae)" by blast
  then show ?thesis
  proof cases
    case compacted
    have b: "settled vs A i ?b" using N(8) fr(3) by simp
    obtain A' where A': "spec_step (majority vs) i A A'" "good vs A' i (n1, acts)"
      "unat ?b \<le> s_acks A' (n_current_term n1) i" by (rule good_report[OF g fr(1) L(1) b])
    have s: "settled vs A' i (min ?lc ?b)"
      using linkedD(8)[OF goodD(5)[OF A'(2)]] fr(3) by (auto intro: settled_le)
    show ?thesis
      unfolding append_compacted[OF cur compacted n1 refl]
      by (rule reachesI[OF A'(1)], rule good_commit_reply[OF A'(2) _ A'(3) s,
          where b = "n_commit_index n < ?lc"]) simp_all
  next
    case mismatch
    obtain ci ct where "fst (handle_append_entries ae n acts) = (n1, acts @ [ae_reply n ae False 0 ci ct])"
      using append_mismatch[OF cur mismatch] n1 by blast
    with g show ?thesis by (intro reaches_now) (simp add: ae_reply_def reply_ok)
  next
    case fits
    have "\<not> (0 < ae_prev_log_index ae \<and> ae_prev_log_term ae = 0)"
      using positive_terms[OF G(3), of "unat (ae_prev_log_index ae)" i] fits(2)
      by (auto simp: word_less_nat_alt compacts_term_at[OF N(5)[unfolded fr]] split: if_splits)
    with L(4) obtain k where k: "slice_of L ae k" by blast
    obtain l tr A' where l: "append_from_leader (ae_entries ae) (n_log n)
        = (l, Inr (le_index (last (ae_entries ae)), tr))"
      and A': "spec_step (majority vs) i A A'" "good vs A' i (n1\<lparr>n_log := l\<rparr>, acts)"
      "unat (last_sent ae) \<le> s_acks A' (n_current_term n) i" "unat (last_sent ae) \<le> length (s_log A' i)"
      "take (unat (last_sent ae)) (s_log A' i) = take (unat (last_sent ae)) L"
      by (rule accept_slice[OF g fr(1) L(1) k pm, unfolded fr, OF fits])
    obtain m2 where m2: "m2 = (n1\<lparr>n_log := l\<rparr>, acts) \<or> m2 = refresh_config (n1\<lparr>n_log := l\<rparr>) acts"
      "fst (handle_append_entries ae n acts) =
         (let m = (if n_commit_index n < ?lc
             then drain_applies (fst m2\<lparr>n_commit_index := min ?lc (last_sent ae)\<rparr>) (snd m2) else m2)
          in (fst m, snd m @ [ae_reply (fst m) ae True (last_sent ae) 0 0]))"
      by (rule append_accepted[OF cur fits l arg_cong[OF n1, of "n_log_update (\<lambda>_. l)"] last_sent_def])
    have g2: "good vs A' i m2" using m2(1) A'(2) good_refresh[OF A'(2)] by auto
    have "decided (majority vs) A' (n_current_term (n1\<lparr>n_log := l\<rparr>)) (take (unat ?lc) L)"
      using decided_extends[OF L(3) raft.step_extends[OF G(3) A'(1)]] by simp
    note s = settled_commit[OF A'(2) this A'(4,5)]
    have "n_current_term (fst m2) = n_current_term n" using m2(1) fr(2) by (auto simp: frame_simps)
    from good_commit_reply[OF g2 this A'(3) s refl]
    show ?thesis unfolding m2(2) Let_def by (rule reachesI[OF A'(1)])
  qed
qed

lemma reaches_append_entries:
  assumes g: "good vs A i (n, acts)" and ok: "append_ok vs A ae"
    and t: "ae_term ae \<le> n_current_term n" and pm: "plain_message vs (AppendEntries ae)"
  shows "reaches vs i A (fst (handle_append_entries ae n acts))"
proof (cases "ae_term ae < n_current_term n")
  case True
  with g show ?thesis by (intro reaches_now) (simp add: append_refused ae_reply_def reply_ok)
next
  case False
  with t have tm: "ae_term ae = n_current_term n" by simp
  show ?thesis
  proof (rule reaches_then[OF reaches_follower[OF g] goodD(3)[OF g]])
    fix B assume "extends A B" and "good vs B i (n\<lparr>n_role := Follower\<rparr>, acts)"
    then show "reaches vs i B (fst (handle_append_entries ae n acts))"
      using append_ok_extends[OF ok] pm tm by (intro reaches_append_follower[OF _ _ _ _ refl]) simp_all
  qed
qed

subsection \<open>Snapshots\<close>

text \<open>What \<open>handle_install_snapshot\<close> does to the node when the snapshot is ahead of it.\<close>

definition installed :: "snapshot \<Rightarrow> ctx \<Rightarrow> ctx" where
  "installed sn m = (case m of (n, acts) \<Rightarrow>
     let n2 = (if sn_config sn \<noteq> [] then n\<lparr>n_base_config := sn_config sn\<rparr> else n);
         n3 = n2\<lparr>n_log := fst (ml_apply_snapshot (n_log n2) sn), n_commit_index := sn_index sn,
                 n_last_applied := sn_index sn\<rparr>;
         n4 = (if n_snapshot_hinted_at n3 < sn_index sn
               then n3\<lparr>n_snapshot_hinted_at := sn_index sn\<rparr> else n3);
         (n5, acts5) = refresh_config n4 acts
     in (n5, acts5 @ [RestoreSnapshot (sn_index sn) (sn_term sn) (sn_data sn)]))"

lemma install_cases:
  assumes "\<not> ins_term rpc < n_current_term n"
    and "n1 = reset_election_timer (n\<lparr>n_role := Follower, n_leader_id := Some (ins_leader rpc),
      n_pre_voting := False\<rparr>)"
    and "m = (if ml_base_index (n_log n) < sn_index (ins_snapshot rpc)
                \<and> n_commit_index n < sn_index (ins_snapshot rpc)
              then installed (ins_snapshot rpc) (n1, acts) else (n1, acts))"
  shows "fst (handle_install_snapshot rpc n acts) = (fst m, snd m @ [Send (ins_leader rpc)
     (InstallSnapshotReply \<lparr>insr_term = n_current_term (fst m), insr_from = n_id (fst m),
        insr_last_index = max (ml_base_index (n_log (fst m)))
           (min (sn_index (ins_snapshot rpc)) (n_commit_index (fst m)))\<rparr>)])"
proof -
  obtain l where l: "ml_apply_snapshot (n_log n) (ins_snapshot rpc) = (l, Inr ())"
    by (metis ml_apply_snapshot_never_fails prod.collapse)
  have f: "n_log n1 = n_log n" "n_commit_index n1 = n_commit_index n"
    by (simp_all add: assms(2) frame_simps)
  show ?thesis
    using assms(1) l f unfolding assms(3) handle_install_snapshot_def Let_def assms(2)[symmetric]
    by (cases "sn_config (ins_snapshot rpc) = []"; cases "n_snapshot_hinted_at n1 < sn_index (ins_snapshot rpc)")
       (simp_all add: installed_def Let_def case_prod_unfold ml_sync_def ml_snapshot_index_def)
qed

lemma good_installed:
  assumes g: "good vs A i (n, acts)" and f: "n_role n = Follower"
    and L: "s_ledger A (n_current_term n) = Some L"
    and sn: "unat (sn_index sn) \<le> length L" "sn_term sn = term_of L (unat (sn_index sn))"
      "decided (majority vs) A (n_current_term n) (take (unat (sn_index sn)) L)"
      "sn_config sn = vs"
    and above: "ml_base_index (n_log n) < sn_index sn"
  obtains A' where "spec_step (majority vs) i A A'" "good vs A' i (installed sn (n, acts))"
proof -
  note G = goodD[OF g] and N = linkedD[OF goodD(5)[OF g]]
  let ?l = "fst (ml_apply_snapshot (n_log n) sn)" and ?s = "unat (sn_index sn)"
  define ys where "ys = (if ?s \<le> length (s_log A i) \<and> term_of (s_log A i) ?s = sn_term sn
    then s_log A i else take ?s L)"
  note W = protocol_invD(3)[OF G(3), of i] ledgers_wfD(1)[OF protocol_invD(1)[OF G(3)] L]
  have c: "compacts ?l ys"
    using compacts_install_match[OF N(5) above] compacts_install_ledger[OF N(5) above sn(1) sn(2)[symmetric]]
    by (auto simp: ys_def)
  have tk: "takes_over L (s_log A i) ys"
    using install_takes_over[OF W sn(1)] sn(2) by (auto simp: ys_def takes_over_def)
  have m: "?s \<le> length ys" "take ?s ys = take ?s L"
    using grounded_match[OF W _ sn(1)] sn(1,2) by (auto simp: ys_def)
  have base: "ml_base_index ?l = sn_index sn"
    using install_fields(2)[OF compactsD(1)[OF N(5)] above] .
  have pl: "plain_log vs ?l"
    using plain_log_snapshot[of vs "n_log n" sn] good_plain[OF g] sn(4) by (simp add: plain_def)
  obtain A' where A': "spec_step (majority vs) i A A'" "good vs A' i (n\<lparr>n_log := ?l\<rparr>, acts)"
    "s_log A' i = ys"
    using good_accept[OF g f L tk sn(1) m c pl] sn(3) m(2) base by metis
  have "decided (majority vs) A' (s_term A' i) (take ?s ys)"
    using decided_extends[OF sn(3) raft.step_extends[OF G(3) A'(1)]] m(2)
      linkedD(2)[OF goodD(5)[OF A'(2)]] by simp
  then have s: "settled vs A' i (sn_index sn)" using m(1) A'(3) by (simp add: settled_def)
  let ?n2 = "if sn_config sn \<noteq> [] then n\<lparr>n_base_config := sn_config sn\<rparr> else n"
  let ?n3 = "?n2\<lparr>n_log := ?l, n_commit_index := sn_index sn, n_last_applied := sn_index sn\<rparr>"
  have "linked vs A' i ?n3" using goodD(5)[OF A'(2)] s by (simp add: linked_def tallied_def)
  moreover have "plain_ctx vs (?n3, acts)"
    using goodD(4)[OF A'(2)] sn(4) by (simp add: plain_ctx_def plain_def)
  ultimately have "good vs A' i (?n3, acts)" using A'(2) by (simp add: good_def)
  then have "good vs A' i (if n_snapshot_hinted_at ?n3 < sn_index sn
      then ?n3\<lparr>n_snapshot_hinted_at := sn_index sn\<rparr> else ?n3, acts)" by simp
  from good_refresh[OF this] have "good vs A' i (installed sn (n, acts))"
    by (simp add: installed_def Let_def case_prod_unfold plain_acts_other split: if_splits)
  with that[OF A'(1)] show ?thesis .
qed

lemma installed_frame:
  "n_role (fst (installed sn (n, acts))) = n_role n"
  "n_current_term (fst (installed sn (n, acts))) = n_current_term n"
  by (simp_all add: installed_def Let_def case_prod_unfold frame_simps)

lemma reaches_install_reply:
  assumes g: "good vs A i m" and f: "n_role (fst m) = Follower"
    and L: "s_ledger A (n_current_term (fst m)) \<noteq> None"
  shows "reaches vs i A (fst m, snd m @ [Send j (InstallSnapshotReply
     \<lparr>insr_term = n_current_term (fst m), insr_from = n_id (fst m),
      insr_last_index = max (ml_base_index (n_log (fst m))) (min s (n_commit_index (fst m)))\<rparr>)])"
proof -
  have g': "good vs A i (fst m, snd m)" using g by simp
  note N = linkedD[OF goodD(5)[OF g']]
  have "settled vs A i (min s (n_commit_index (fst m)))" using N(6) by (rule settled_le) simp
  with N(8) have "settled vs A i (max (ml_base_index (n_log (fst m))) (min s (n_commit_index (fst m))))"
    by (simp add: max_def)
  with N(1) show ?thesis by (intro reaches_report[OF g' f L]) (simp_all add: reply_ok)
qed

lemma reaches_install_snapshot:
  assumes g: "good vs A i (n, acts)" and ok: "snapshot_ok vs A rpc"
    and t: "ins_term rpc \<le> n_current_term n" and pm: "plain_message vs (InstallSnapshot rpc)"
  shows "reaches vs i A (fst (handle_install_snapshot rpc n acts))"
proof (cases "ins_term rpc < n_current_term n")
  case True
  with g show ?thesis
    by (intro reaches_now) (simp add: handle_install_snapshot_def reply_ok)
next
  case cur: False
  let ?sn = "ins_snapshot rpc"
  from cur t have tm: "ins_term rpc = n_current_term n" by simp
  show ?thesis
  proof (rule reaches_then[OF reaches_follower[OF g] goodD(3)[OF g]])
    fix B assume ext: "extends A B" and gB: "good vs B i (n\<lparr>n_role := Follower\<rparr>, acts)"
    define n1 where "n1 = reset_election_timer (n\<lparr>n_role := Follower, n_leader_id := Some (ins_leader rpc),
      n_pre_voting := False\<rparr>)"
    have g1: "good vs B i (n1, acts)" using gB by (simp add: n1_def)
    have fr: "n_role n1 = Follower" "n_current_term n1 = n_current_term n" "n_log n1 = n_log n"
      by (simp_all add: n1_def frame_simps)
    obtain L where L: "s_ledger B (n_current_term n1) = Some L" "unat (sn_index ?sn) \<le> length L"
      "sn_term ?sn = term_of L (unat (sn_index ?sn))"
      "decided (majority vs) B (n_current_term n1) (take (unat (sn_index ?sn)) L)"
      using snapshot_ok_extends[OF ok ext] by (auto simp: snapshot_ok_def tm fr)
    have vs: "sn_config ?sn = vs" using pm by (simp add: plain_message_def)
    show "reaches vs i B (fst (handle_install_snapshot rpc n acts))"
    proof (cases "ml_base_index (n_log n) < sn_index ?sn \<and> n_commit_index n < sn_index ?sn")
      case True
      then have "ml_base_index (n_log n1) < sn_index ?sn" using fr by simp
      from good_installed[OF g1 fr(1) L vs this] obtain C where
        C: "spec_step (majority vs) i B C" "good vs C i (installed ?sn (n1, acts))" by blast
      have "s_ledger C (n_current_term n1) \<noteq> None"
        using extendsD(4)[OF raft.step_extends[OF goodD(3)[OF g1] C(1)] L(1)] by auto
      with reaches_install_reply[OF C(2)] fr(1)
      have "reaches vs i C (fst (handle_install_snapshot rpc n acts))"
        using install_cases[OF cur n1_def refl] True by (simp add: installed_frame)
      with C(1) show ?thesis unfolding reaches_def by (meson converse_rtranclp_into_rtranclp)
    next
      case False
      with reaches_install_reply[OF g1] fr(1) L(1) show ?thesis
        using install_cases[OF cur n1_def refl] by auto
    qed
  qed
qed

lemma good_snapshot_event:
  assumes g: "good vs A i (n, [])"
  shows "good vs A i (fst (handle_snapshot_event x d n), result_actions (snd (handle_snapshot_event x d n)))"
proof (cases "n_commit_index n < x \<or> n_last_applied n < x \<or> x \<le> ml_snapshot_index (n_log n)
    \<or> ml_term_at (n_log n) x = None")
  case True
  with g show ?thesis by (auto simp: handle_snapshot_event_def result_actions_def)
next
  case False
  then obtain t where t: "ml_term_at (n_log n) x = Some t" by auto
  note G = goodD[OF g] and N = linkedD[OF goodD(5)[OF g]]
  let ?sn = "snapshot_with_config x t (config_at n x) d"
  let ?l = "fst (ml_apply_snapshot (n_log n) ?sn)" and ?n1 = "n\<lparr>n_base_config := config_at n x\<rparr>"
  have inv: "ml_inv (n_log n)" by (rule compactsD(1)[OF N(5)])
  have vs: "config_at n x = vs" by (rule config_at_plain[OF good_plain[OF g] inv])
  have x: "x \<le> n_commit_index n" "ml_base_index (n_log n) < x"
    using False by (auto simp: not_less not_le ml_snapshot_index_def)
  have tx: "unat x \<le> length (s_log A i)" "term_of (s_log A i) (unat x) = t"
    using t by (auto simp: compacts_term_at[OF N(5)] split: if_splits)
  have "compacts ?l (s_log A i)" using compacts_install_match[OF N(5), of ?sn] x(2) tx by simp
  moreover have "ml_base_index ?l = x" using install_fields(2)[OF inv, of ?sn] x(2) by simp
  moreover have "settled vs A i x" by (rule settled_le[OF N(6) x(1)])
  ultimately have "linked vs A i (?n1\<lparr>n_log := ?l\<rparr>)"
    using G(5) by (simp add: linked_def tallied_def)
  moreover have "plain_log vs ?l"
    using plain_log_snapshot[of vs "n_log n" ?sn] good_plain[OF g] vs by (simp add: plain_def)
  ultimately have "good vs A i (?n1\<lparr>n_log := ?l\<rparr>, [])" using G vs by (simp add: good_def)
  then have "good vs A i (if n_snapshot_hinted_at n < x
      then ?n1\<lparr>n_log := ?l, n_snapshot_hinted_at := x\<rparr> else ?n1\<lparr>n_log := ?l\<rparr>, [])" by simp
  from good_refresh[OF this] have "good vs A i (refresh_config (if n_snapshot_hinted_at n < x
      then ?n1\<lparr>n_log := ?l, n_snapshot_hinted_at := x\<rparr> else ?n1\<lparr>n_log := ?l\<rparr>) [])" .
  with False t show ?thesis
    by (simp add: handle_snapshot_event_def Let_def case_prod_unfold log_op_apply_snapshot ml_sync_def
        result_actions_def split: if_splits)
qed

subsection \<open>The whole step\<close>

lemma reaches_dispatch:
  assumes g: "good vs A i (n, acts)" and ok: "msg_ok vs A i m" "plain_message vs m"
    and t: "message_term m \<le> n_current_term n"
    and room: "\<And>r. m = TimeoutNow r \<Longrightarrow> n_current_term n \<noteq> u64_max"
  shows "reaches vs i A (fst (dispatch m n acts))"
proof (cases m)
  case (RequestVote rv)
  with reaches_request_vote[OF g, of rv] ok t show ?thesis by (simp add: dispatch_def)
next
  case (RequestVoteReply r)
  with reaches_vote_reply[OF g, of r] ok show ?thesis by (simp add: dispatch_def)
next
  case (AppendEntries ae)
  with reaches_append_entries[OF g, of ae] ok t show ?thesis
    by (simp add: dispatch_def msg_ok_def)
next
  case (AppendEntriesReply r)
  with good_append_reply[OF g, of r] ok show ?thesis by (simp add: dispatch_def reaches_now)
next
  case (InstallSnapshot rpc)
  with reaches_install_snapshot[OF g, of rpc] ok t show ?thesis
    by (simp add: dispatch_def msg_ok_def)
next
  case (InstallSnapshotReply r)
  with good_snapshot_reply[OF g, of r] ok show ?thesis by (simp add: dispatch_def reaches_now)
next
  case (TimeoutNow r)
  with reaches_timeout_now[OF g room[OF TimeoutNow], of r] show ?thesis by (simp add: dispatch_def)
qed (use g in \<open>simp_all add: dispatch_def reaches_now\<close>)

lemma reaches_message:
  assumes g: "good vs A i (n, [])" and ok: "msg_ok vs A i m" "plain_message vs m"
    and room: "term_room (Message m) n"
  shows "reaches vs i A (fst (handle_message m n))"
proof (cases "sticky m n \<or> (\<exists>pv. m = PreVote pv) \<or> (\<exists>r. m = PreVoteReply r)")
  case True
  have "good vs A i (handle_pre_vote pv n [])" for pv
    using good_snoc[of vs A i n "[]"] g by (simp add: handle_pre_vote_def Let_def)
  with True g reaches_pre_vote_reply[OF g] room show ?thesis
    by (auto simp: handle_message_def term_room_def reaches_now)
next
  case False
  note gen = handle_message_generic[OF False]
  show ?thesis
  proof (cases "n_current_term n < message_term m")
    case True
    obtain n1 where bf: "become_follower (message_term m) None n = (n1, Inr ())"
      using become_follower_log_effect[of n "message_term m" None] by (metis prod.collapse)
    then have n1: "n_current_term n1 = max (n_current_term n) (message_term m)"
      using become_follower_log_effect[of n "message_term m" None] by simp
    have "reaches vs i A (n1, [])" using reaches_become_follower[OF g, of "message_term m" None] bf by simp
    then have "reaches vs i A (fst (dispatch m n1 []))"
    proof (rule reaches_then[OF _ goodD(3)[OF g]])
      fix B assume ext: "extends A B" and gB: "good vs B i (n1, [])"
      show "reaches vs i B (fst (dispatch m n1 []))"
        using room n1
        by (intro reaches_dispatch[OF gB msg_ok_extends[OF ok(1) ext] ok(2)])
          (auto simp: term_room_def max_def split: if_splits)
    qed
    with True show ?thesis by (simp add: gen bf)
  next
    case False
    with reaches_dispatch[OF g ok] room show ?thesis by (simp add: gen term_room_def)
  qed
qed

lemma reaches_finish:
  assumes "reaches vs i A (fst m)"
  shows "reaches vs i A (fst (finish m), result_actions (snd (finish m)))"
proof -
  obtain n acts r where m: "m = ((n, acts), r)" by (metis prod.collapse)
  have "good vs B i (n, acts) \<Longrightarrow> good vs B i (n, [])" for B by (simp add: good_def plain_ctx_def)
  with assms show ?thesis
    unfolding reaches_def m by (cases r) (auto simp: result_actions_def)
qed

text \<open>Whatever event other than a membership change a node handles, the protocol can take
  steps of that node after which the node and the actions it returns are again linked.\<close>

theorem reaches_step_event:
  assumes g: "good vs A i (n, [])" and ev: "plain_event vs ev"
    and ok: "\<And>m. ev = Message m \<Longrightarrow> msg_ok vs A i m"
    and room: "term_room ev n" "log_room ev n"
  shows "reaches vs i A (fst (step ev n), result_actions (snd (step ev n)))"
proof (cases ev)
  case Tick
  with reaches_finish[OF reaches_tick[OF g]] room show ?thesis by (simp add: step_def term_room_def)
next
  case (Message m)
  with reaches_finish[OF reaches_message[OF g ok]] ev room show ?thesis
    by (simp add: step_def plain_event_def)
next
  case (Propose c)
  with reaches_propose[OF g] room show ?thesis by (simp add: step_def log_room_def)
next
  case (SnapshotEvent x d)
  with good_snapshot_event[OF g] show ?thesis by (simp add: step_def reaches_now)
next
  case (TransferLeadership t)
  with good_transfer[OF g] show ?thesis by (simp add: step_def reaches_now)
qed (use ev in \<open>simp_all add: plain_event_def membership_event_def\<close>)

text \<open>A restart is a step down: the term and the vote are the persisted ones, the commit and
  applied indices fall back to the snapshot boundary.\<close>

lemma reaches_restart:
  assumes g: "good vs A i (n, [])" and p: "persisted n"
    and c: "cfg_id cf = i" "sorted_members (cfg_peers cf @ [cfg_id cf]) = vs"
  shows "reaches vs i A (node_with_log cf (n_log n), [])"
proof (rule reaches_then[OF reaches_follower[OF g] goodD(3)[OF g]])
  fix B assume gB: "good vs B i (n\<lparr>n_role := Follower\<rparr>, [])"
  note N = linkedD[OF goodD(5)[OF gB]] and G = goodD[OF gB]
  let ?n = "node_with_log cf (n_log n)"
  have f: "n_id ?n = i" "n_log ?n = n_log n" "n_role ?n = Follower" "n_current_term ?n = n_current_term n"
    "n_voted_for ?n = n_voted_for n" "n_commit_index ?n = ml_base_index (n_log n)"
    "n_last_applied ?n = ml_base_index (n_log n)"
    using p c(1) by (simp_all add: node_with_log_def Let_def case_prod_unfold ml_hard_state_def
        ml_snapshot_index_def persisted_def)
  have "linked vs B i ?n" using N by (simp add: linked_def tallied_def f)
  moreover have "plain vs ?n"
    using good_plain[OF gB] compactsD(1)[OF N(5)] c(2) by (intro plain_node_with_log) (simp_all add: plain_def)
  ultimately show "reaches vs i B (?n, [])" using G by (intro reaches_now) (simp add: good_def plain_ctxI)
qed

end
