(* ===== verification/Cluster.thy ===== *)
theory Cluster
  imports Static_Membership
begin

text \<open>
  A cluster: the nodes, each a \<open>RaftNode\<close> driven only through \<open>step\<close>, and the network
  their \<open>Send\<close> actions feed. The network is the set of all messages ever sent; a step may
  deliver any of them, or none, at any time and any number of times, so loss, delay,
  reordering and duplication are all schedules of this relation. A node may also crash at
  any moment and restart from its log. The ticks, proposals, snapshots and transfers are
  those of the node's \<open>Event\<close> type, chosen freely. A step is taken only while the 64-bit
  terms and indices it increments do not overflow (\<open>term_room\<close>, \<open>log_room\<close>).

  Two components are history only, written and never read by a step: the votes nodes have
  cast and the commands they have applied.
\<close>

record cluster =
  c_node :: "node_id \<Rightarrow> node"
  c_net :: "(node_id \<times> message) set"
  c_votes :: "(raft_term \<times> node_id \<times> node_id) set"
  c_applied :: "(node_id \<times> raft_index \<times> byte list) set"

definition sends :: "action list \<Rightarrow> (node_id \<times> message) set" where
  "sends acts = set (concat (map (\<lambda>a. case a of Send to m \<Rightarrow> [(to, m)] | _ \<Rightarrow> []) acts))"

definition applies :: "action list \<Rightarrow> (raft_index \<times> byte list) set" where
  "applies acts = set (concat (map (\<lambda>a. case a of Apply i t c \<Rightarrow> [(i, c)] | _ \<Rightarrow> []) acts))"

lemma mem_sends: "(to, m) \<in> sends acts \<longleftrightarrow> Send to m \<in> set acts"
  by (force simp: sends_def split: action.splits)

lemma mem_applies: "(i, c) \<in> applies acts \<longleftrightarrow> (\<exists>t. Apply i t c \<in> set acts)"
  by (force simp: applies_def split: action.splits)

definition votes_of :: "node \<Rightarrow> (raft_term \<times> node_id \<times> node_id) set" where
  "votes_of n = (case n_voted_for n of None \<Rightarrow> {} | Some k \<Rightarrow> {(n_current_term n, n_id n, k)})"

definition absorb :: "cluster \<Rightarrow> node_id \<Rightarrow> node \<Rightarrow> action list \<Rightarrow> cluster" where
  "absorb c i n acts =
     c\<lparr>c_node := (c_node c)(i := n),
       c_net := c_net c \<union> sends acts,
       c_votes := c_votes c \<union> votes_of n,
       c_applied := c_applied c \<union> {i} \<times> applies acts\<rparr>"

text \<open>An event of the environment, or the arrival of a message that was sent.\<close>

definition may_occur :: "cluster \<Rightarrow> node_id \<Rightarrow> event \<Rightarrow> bool" where
  "may_occur c i ev \<longleftrightarrow> (case ev of Message m \<Rightarrow> (i, m) \<in> c_net c | _ \<Rightarrow> True)"

inductive cluster_step ::
  "(event \<Rightarrow> bool) \<Rightarrow> node_id set \<Rightarrow> (node_id \<Rightarrow> raft_config) \<Rightarrow> cluster \<Rightarrow> cluster \<Rightarrow> bool"
  for allowed :: "event \<Rightarrow> bool" and ids :: "node_id set" and cfg :: "node_id \<Rightarrow> raft_config" where
  handle: "i \<in> ids \<Longrightarrow> allowed ev \<Longrightarrow> may_occur c i ev \<Longrightarrow> term_room ev (c_node c i) \<Longrightarrow>
     log_room ev (c_node c i) \<Longrightarrow>
     step ev (c_node c i) = (n, r) \<Longrightarrow>
     cluster_step allowed ids cfg c (absorb c i n (result_actions r))"
| restart: "i \<in> ids \<Longrightarrow>
     cluster_step allowed ids cfg c (absorb c i (node_with_log (cfg i) (n_log (c_node c i))) [])"

inductive_cases cluster_stepE: "cluster_step allowed ids cfg c c'"

definition cluster_init :: "(node_id \<Rightarrow> raft_config) \<Rightarrow> cluster" where
  "cluster_init cfg = \<lparr>c_node = (\<lambda>i. node_new (cfg i)), c_net = {}, c_votes = {}, c_applied = {}\<rparr>"

inductive reachable ::
  "(event \<Rightarrow> bool) \<Rightarrow> node_id set \<Rightarrow> (node_id \<Rightarrow> raft_config) \<Rightarrow> cluster \<Rightarrow> bool"
  for allowed :: "event \<Rightarrow> bool" and ids :: "node_id set" and cfg :: "node_id \<Rightarrow> raft_config" where
  init: "reachable allowed ids cfg (cluster_init cfg)"
| next_step: "reachable allowed ids cfg c \<Longrightarrow> cluster_step allowed ids cfg c c' \<Longrightarrow>
     reachable allowed ids cfg c'"

lemma absorb_sel [simp]:
  "c_node (absorb c i n acts) = (c_node c)(i := n)"
  "c_net (absorb c i n acts) = c_net c \<union> sends acts"
  "c_votes (absorb c i n acts) = c_votes c \<union> votes_of n"
  "c_applied (absorb c i n acts) = c_applied c \<union> {i} \<times> applies acts"
  by (simp_all add: absorb_def)

lemma node_with_log_sel [simp]:
  "n_id (node_with_log cf l) = cfg_id cf"
  "n_log (node_with_log cf l) = l"
  "n_role (node_with_log cf l) = Follower"
  "n_current_term (node_with_log cf l) = hs_term (ml_hard l)"
  "n_voted_for (node_with_log cf l) = hs_voted_for (ml_hard l)"
  "n_commit_index (node_with_log cf l) = ml_base_index l"
  "n_last_applied (node_with_log cf l) = ml_base_index l"
  by (simp_all add: node_with_log_def Let_def case_prod_unfold ml_hard_state_def ml_snapshot_index_def)

text \<open>A node recovered from its log is in the term and has the vote it last persisted.\<close>

lemma persisted_node_with_log: "persisted (node_with_log cf l)"
  by (simp add: persisted_def)

subsection \<open>The history of votes\<close>

definition votes_inv :: "node_id set \<Rightarrow> cluster \<Rightarrow> bool" where
  "votes_inv ids c \<longleftrightarrow>
     (\<forall>i \<in> ids. n_id (c_node c i) = i \<and> persisted (c_node c i))
   \<and> (\<forall>t i k. (t, i, k) \<in> c_votes c \<longrightarrow> i \<in> ids \<and> t \<le> n_current_term (c_node c i)
        \<and> (t = n_current_term (c_node c i) \<longrightarrow> n_voted_for (c_node c i) = Some k))
   \<and> (\<forall>i \<in> ids. \<forall>k. n_voted_for (c_node c i) = Some k \<longrightarrow>
        (n_current_term (c_node c i), i, k) \<in> c_votes c)
   \<and> (\<forall>t i k k'. (t, i, k) \<in> c_votes c \<longrightarrow> (t, i, k') \<in> c_votes c \<longrightarrow> k = k')
   \<and> (\<forall>to r. (to, RequestVoteReply r) \<in> c_net c \<longrightarrow> rvr_from r \<in> ids \<and>
        (rvr_vote_granted r \<longrightarrow> (rvr_term r, rvr_from r, to) \<in> c_votes c))"

lemma votes_invD:
  assumes "votes_inv ids c"
  shows "i \<in> ids \<Longrightarrow> n_id (c_node c i) = i" "i \<in> ids \<Longrightarrow> persisted (c_node c i)"
    and "(t, i, k) \<in> c_votes c \<Longrightarrow> i \<in> ids"
    and "(t, i, k) \<in> c_votes c \<Longrightarrow> t \<le> n_current_term (c_node c i)"
    and "(n_current_term (c_node c i), i, k) \<in> c_votes c \<Longrightarrow> n_voted_for (c_node c i) = Some k"
    and "i \<in> ids \<Longrightarrow> n_voted_for (c_node c i) = Some k \<Longrightarrow>
           (n_current_term (c_node c i), i, k) \<in> c_votes c"
    and "(t, i, k) \<in> c_votes c \<Longrightarrow> (t, i, k') \<in> c_votes c \<Longrightarrow> k = k'"
    and "(to, RequestVoteReply r) \<in> c_net c \<Longrightarrow> rvr_from r \<in> ids"
    and "(to, RequestVoteReply r) \<in> c_net c \<Longrightarrow> rvr_vote_granted r \<Longrightarrow>
           (rvr_term r, rvr_from r, to) \<in> c_votes c"
  using assms unfolding votes_inv_def by blast+

lemma sends_votes: "(to, RequestVoteReply r) \<in> sends acts \<longleftrightarrow> (to, r) \<in> set (votes_sent acts)"
  by (simp add: mem_sends votes_sent_mem)

lemma mem_votes_of:
  "(t, j, k) \<in> votes_of n \<longleftrightarrow> j = n_id n \<and> t = n_current_term n \<and> n_voted_for n = Some k"
  by (auto simp: votes_of_def split: option.splits)

text \<open>One node moves by a ballot step and sends honest replies: the history stays
  consistent. Both kinds of cluster step are of this form.\<close>

lemma votes_inv_absorb:
  assumes inv: "votes_inv ids c" and i: "i \<in> ids"
    and b: "ballot_step (c_node c i) n" and p: "persisted n" and h: "honest_votes n acts"
  shows "votes_inv ids (absorb c i n acts)"
proof -
  note D = votes_invD[OF inv]
  have id: "n_id n = i" using D(1)[OF i] b by (simp add: ballot_step_def)
  have old: "t \<le> n_current_term n \<and> (t = n_current_term n \<longrightarrow> n_voted_for n = Some k)"
    if "(t, i, k) \<in> c_votes c" for t k
    using D(4)[OF that] D(5)[of i k] that b by (auto simp: ballot_step_def)
  have fresh: "k = k'" if "(t, j, k) \<in> c_votes c" "(t, j, k') \<in> votes_of n" for t j k k'
    using that old[of t k] by (auto simp: mem_votes_of id)
  have reply: "rvr_from r = i \<and> (rvr_vote_granted r \<longrightarrow> (rvr_term r, i, to) \<in> votes_of n)"
    if "(to, RequestVoteReply r) \<in> sends acts" for to r
    using that h by (auto simp: sends_votes honest_votes_def mem_votes_of id)
  show ?thesis
    unfolding votes_inv_def absorb_sel
  proof (intro conjI allI ballI impI, goal_cases)
    case (3 t j k)
    then show ?case using D(3)[of t j k] i by (auto simp: mem_votes_of id)
  next
    case (4 t j k)
    then show ?case using D(4)[of t j k] old[of t k] by (auto simp: mem_votes_of id)
  next
    case (5 t j k)
    show ?case
    proof (cases "j = i")
      case True
      with 5 old[of t k] show ?thesis by (elim UnE) (simp_all add: mem_votes_of)
    next
      case False
      with 5 have "(t, j, k) \<in> c_votes c" "t = n_current_term (c_node c j)"
        by (simp_all add: mem_votes_of id)
      with D(5)[of j k] False show ?thesis by simp
    qed
  next
    case (6 j k)
    then show ?case using D(6)[of j k] by (auto simp: mem_votes_of id split: if_splits)
  next
    case (7 t j k k')
    then show ?case using D(7)[of t j k k'] fresh[of t j k k'] fresh[of t j k' k]
      by (elim UnE) (simp_all add: mem_votes_of)
  next
    case (8 to r)
    then show ?case using D(8)[of to r] reply[of to r] i by auto
  next
    case (9 to r)
    then show ?case using D(9)[of to r] reply[of to r] by auto
  qed (use D(1,2) p id in auto)
qed

lemma votes_inv_init: "(\<And>i. i \<in> ids \<Longrightarrow> cfg_id (cfg i) = i) \<Longrightarrow> votes_inv ids (cluster_init cfg)"
  by (auto simp: votes_inv_def cluster_init_def node_new_def ml_new_def hard_state_default_def
      persisted_node_with_log)

lemma votes_inv_step:
  assumes "votes_inv ids c" "cluster_step allowed ids cfg c c'"
    and "\<And>i. i \<in> ids \<Longrightarrow> cfg_id (cfg i) = i"
  shows "votes_inv ids c'"
  using assms(2)
proof cases
  case (handle i ev n r)
  have "sound_step (event_reply ev) (c_node c i) (n, case r of Inl _ \<Rightarrow> [] | Inr acts \<Rightarrow> acts)"
    using handle votes_invD(2)[OF assms(1)] by (intro step_sound) auto
  with handle assms(1) show ?thesis
    by (auto simp: sound_step_def result_actions_def intro!: votes_inv_absorb)
next
  case (restart i)
  have "persisted (c_node c i)" "n_id (c_node c i) = i"
    using restart votes_invD(1,2)[OF assms(1)] by auto
  with restart assms show ?thesis
    by (auto intro!: votes_inv_absorb simp: persisted_node_with_log honest_none ballot_step_def
        persisted_def)
qed

lemma votes_inv_reachable:
  "reachable allowed ids cfg c \<Longrightarrow> (\<And>i. i \<in> ids \<Longrightarrow> cfg_id (cfg i) = i) \<Longrightarrow> votes_inv ids c"
  by (induction rule: reachable.induct) (auto intro: votes_inv_init votes_inv_step)

end
