(* ===== verification/Schedule.thy ===== *)
theory Schedule
  imports Cluster Samples "HOL-Library.AList"
begin

text \<open>
  Schedules: a cluster driven by an explicit list of events, with the guards of the step
  relation checked along the way. The cluster is kept in an executable form, an association
  list of the nodes and lists of the messages sent and commands applied. A schedule that
  passes the check is a run of the step relation, which is how the concrete runs of the
  development are evaluated.
\<close>

record roster =
  r_nodes :: "(node_id \<times> node) list"
  r_net :: "(node_id \<times> message) list"
  r_applied :: "(node_id \<times> raft_index \<times> byte list) list"

definition represents :: "node_id set \<Rightarrow> roster \<Rightarrow> cluster \<Rightarrow> bool" where
  "represents ids R c \<longleftrightarrow>
     (\<forall>i n. map_of (r_nodes R) i = Some n \<longrightarrow> i \<in> ids \<and> c_node c i = n)
   \<and> set (r_net R) \<subseteq> c_net c \<and> set (r_applied R) \<subseteq> c_applied c"

definition roster_init :: "node_id list \<Rightarrow> (node_id \<Rightarrow> raft_config) \<Rightarrow> roster" where
  "roster_init ids cfg =
     \<lparr>r_nodes = map (\<lambda>i. (i, node_new (cfg i))) ids, r_net = [], r_applied = []\<rparr>"

definition sent :: "action list \<Rightarrow> (node_id \<times> message) list" where
  "sent acts = concat (map (\<lambda>a. case a of Send to m \<Rightarrow> [(to, m)] | _ \<Rightarrow> []) acts)"

definition applied :: "node_id \<Rightarrow> action list \<Rightarrow> (node_id \<times> raft_index \<times> byte list) list" where
  "applied j acts = concat (map (\<lambda>a. case a of Apply i t c \<Rightarrow> [(j, i, c)] | _ \<Rightarrow> []) acts)"

definition turn :: "node_id \<Rightarrow> event \<Rightarrow> node \<Rightarrow> roster \<Rightarrow> roster" where
  "turn i ev n R = (case step ev n of (n', r) \<Rightarrow>
     R\<lparr>r_nodes := AList.update i n' (r_nodes R), r_net := sent (result_actions r) @ r_net R,
       r_applied := applied i (result_actions r) @ r_applied R\<rparr>)"

definition guard :: "(event \<Rightarrow> bool) \<Rightarrow> node_id \<Rightarrow> event \<Rightarrow> node \<Rightarrow> roster \<Rightarrow> bool" where
  "guard allowed i ev n R \<longleftrightarrow> allowed ev
     \<and> (case ev of Message m \<Rightarrow> (i, m) \<in> set (r_net R) | _ \<Rightarrow> True)
     \<and> term_room ev n \<and> log_room ev n"

fun play :: "(event \<Rightarrow> bool) \<Rightarrow> (node_id \<times> event) list \<Rightarrow> roster \<Rightarrow> roster option" where
  "play allowed [] R = Some R"
| "play allowed ((i, ev) # evs) R =
     (case map_of (r_nodes R) i of
        Some n \<Rightarrow> if guard allowed i ev n R then play allowed evs (turn i ev n R) else None
      | None \<Rightarrow> None)"

lemma set_sent: "set (sent acts) = sends acts"
  by (simp add: sent_def sends_def)

lemma set_applied: "set (applied i acts) = {i} \<times> applies acts"
  by (induction acts) (auto simp: applied_def applies_def split: action.split)

lemma map_of_tabulate:
  "map_of (map (\<lambda>i. (i, f i)) is) j = (if j \<in> set is then Some (f j) else None)"
  by (induction "is") auto

lemma represents_init:
  "represents (set ids) (roster_init ids cfg) (cluster_init cfg)"
  by (simp add: represents_def roster_init_def cluster_init_def map_of_tabulate)

lemma turn_step:
  assumes rep: "represents ids R c" and n: "map_of (r_nodes R) i = Some n"
    and g: "guard allowed i ev n R"
  obtains c' where "cluster_step allowed ids cfg c c'" "represents ids (turn i ev n R) c'"
proof -
  obtain n' r where st: "step ev n = (n', r)" by fastforce
  let ?c = "absorb c i n' (result_actions r)"
  have i: "i \<in> ids" "c_node c i = n" using rep n by (auto simp: represents_def)
  have "cluster_step allowed ids cfg c ?c"
    using rep g i st by (intro cluster_step.handle)
      (auto simp: guard_def may_occur_def represents_def split: event.splits)
  moreover have "represents ids (turn i ev n R) ?c"
    using rep i unfolding represents_def turn_def st
    by (auto simp: update_conv' set_sent set_applied split: if_splits)
  ultimately show ?thesis using that by blast
qed

lemma play_steps:
  assumes "play allowed evs R = Some R'" "represents ids R c"
  obtains c' where "(cluster_step allowed ids cfg)\<^sup>*\<^sup>* c c'" "represents ids R' c'"
proof -
  have "\<exists>c'. (cluster_step allowed ids cfg)\<^sup>*\<^sup>* c c' \<and> represents ids R' c'"
    using assms
  proof (induction evs arbitrary: R c)
    case Nil
    then show ?case by auto
  next
    case (Cons e evs)
    obtain i ev where e: "e = (i, ev)" by fastforce
    with Cons.prems(1) obtain n where n: "map_of (r_nodes R) i = Some n"
      "guard allowed i ev n R" "play allowed evs (turn i ev n R) = Some R'"
      by (auto split: option.splits if_splits)
    obtain c1 where "cluster_step allowed ids cfg c c1" "represents ids (turn i ev n R) c1"
      using turn_step[OF Cons.prems(2) n(1,2)] by blast
    with Cons.IH[OF n(3)] show ?case by (meson converse_rtranclp_into_rtranclp)
  qed
  then show ?thesis using that by blast
qed

lemma steps_reachable:
  "(cluster_step allowed ids cfg)\<^sup>*\<^sup>* c c' \<Longrightarrow> reachable allowed ids cfg c \<Longrightarrow>
   reachable allowed ids cfg c'"
  by (induction rule: rtranclp_induct) (auto intro: reachable.next_step)

text \<open>The state a schedule ends in, from the start.\<close>

lemma play_reachable:
  assumes "play allowed evs (roster_init ids cfg) = Some R"
  obtains c where "reachable allowed (set ids) cfg c" "represents (set ids) R c"
  using play_steps[OF assms represents_init, where cfg = cfg]
    steps_reachable[OF _ reachable.init] by metis

subsection \<open>A cluster of three\<close>

text \<open>Shorter schedules: an event of the environment, or the delivery to a node of the newest
  message addressed to it.\<close>

datatype move = Do node_id event | Newest node_id

definition move_event :: "move \<Rightarrow> roster \<Rightarrow> (node_id \<times> event) option" where
  "move_event mv R =
     (case mv of
        Do i ev \<Rightarrow> Some (i, ev)
      | Newest i \<Rightarrow> map_option (\<lambda>r. (i, Message (snd r))) (find (\<lambda>r. fst r = i) (r_net R)))"

fun play_moves :: "(event \<Rightarrow> bool) \<Rightarrow> move list \<Rightarrow> roster \<Rightarrow> roster option" where
  "play_moves allowed [] R = Some R"
| "play_moves allowed (mv # mvs) R =
     (case move_event mv R of
        Some e \<Rightarrow> (case play allowed [e] R of Some R' \<Rightarrow> play_moves allowed mvs R' | None \<Rightarrow> None)
      | None \<Rightarrow> None)"

lemma play_moves_steps:
  assumes "play_moves allowed mvs R = Some R'" "represents ids R c"
  shows "\<exists>c'. (cluster_step allowed ids cfg)\<^sup>*\<^sup>* c c' \<and> represents ids R' c'"
  using assms
proof (induction mvs arbitrary: R c)
  case Nil
  then show ?case by auto
next
  case (Cons mv mvs)
  then obtain e R1 where e: "play allowed [e] R = Some R1" "play_moves allowed mvs R1 = Some R'"
    by (auto simp del: play.simps split: option.splits)
  obtain c1 where "(cluster_step allowed ids cfg)\<^sup>*\<^sup>* c c1" "represents ids R1 c1"
    using play_steps[OF e(1) Cons.prems(2), where cfg = cfg] by blast
  with Cons.IH[OF e(2)] show ?case by (meson rtranclp_trans)
qed

lemma play_moves_reachable:
  assumes "play_moves allowed mvs (roster_init ids cfg) = Some R"
  obtains c where "reachable allowed (set ids) cfg c" "represents (set ids) R c"
  using play_moves_steps[OF assms represents_init, where cfg = cfg]
    steps_reachable[OF _ reachable.init] by metis

text \<open>The schedule by which node 1 of the sample cluster is elected.\<close>

definition elect_one :: "(node_id \<times> event) list" where
  "elect_one =
     [(1, Tick),
      (2, Message (PreVote \<lparr>pv_term = 1, pv_candidate = 1, pv_last_log_index = 0,
                            pv_last_log_term = 0\<rparr>)),
      (1, Message (PreVoteReply \<lparr>pvr_term = 0, pvr_vote_granted = True, pvr_from = 2\<rparr>)),
      (2, Message request_by_1),
      (1, Message grant_by_2)]"

end
