(* ===== verification/Election_Safety.thy ===== *)
theory Election_Safety
  imports Schedule
begin

text \<open>
  Election safety for a cluster of fixed membership: a node that leads a term has the votes
  of a majority, recorded in the history, and no two nodes have that in the same term.
\<close>

text \<open>The schedules of a fixed membership: every event but the membership changes.\<close>

definition fixed_members :: "event \<Rightarrow> bool" where
  "fixed_members ev \<longleftrightarrow> \<not> membership_event ev"

text \<open>A deployment: the ids, their configurations, and the voter vector they all derive.\<close>

definition deployed :: "node_id list \<Rightarrow> node_id set \<Rightarrow> (node_id \<Rightarrow> raft_config) \<Rightarrow> bool" where
  "deployed vs ids cfg \<longleftrightarrow> set vs = ids
     \<and> (\<forall>i \<in> ids. cfg_id (cfg i) = i \<and> sorted_members (cfg_peers (cfg i) @ [i]) = vs)"

definition static_inv :: "node_id list \<Rightarrow> node_id set \<Rightarrow> cluster \<Rightarrow> bool" where
  "static_inv vs ids c \<longleftrightarrow>
     (\<forall>i \<in> ids. plain vs (c_node c i) \<and> ml_inv (n_log (c_node c i)))
   \<and> (\<forall>to m. (to, m) \<in> c_net c \<longrightarrow> plain_message vs m)"

lemma plain_acts_sends: "plain_acts vs acts \<Longrightarrow> (to, m) \<in> sends acts \<Longrightarrow> plain_message vs m"
  by (auto simp: plain_acts_def mem_sends)

lemma static_inv_absorb:
  assumes "static_inv vs ids c" "plain_ctx vs (n, acts)" "ml_inv (n_log n)"
  shows "static_inv vs ids (absorb c i n acts)"
  using assms by (auto simp: static_inv_def plain_ctx_def dest: plain_acts_sends)

lemma static_inv_init: "deployed vs ids cfg \<Longrightarrow> static_inv vs ids (cluster_init cfg)"
  by (auto simp: static_inv_def cluster_init_def deployed_def ml_inv_new intro!: plain_node_new)
     (simp add: node_new_def ml_inv_new)

lemma static_inv_step:
  assumes inv: "static_inv vs ids c" and step: "cluster_step fixed_members ids cfg c c'"
    and dep: "deployed vs ids cfg"
  shows "static_inv vs ids c'"
  using step
proof cases
  case (handle i ev n r)
  then have p: "plain vs (c_node c i)" "ml_inv (n_log (c_node c i))"
    using inv by (auto simp: static_inv_def)
  have ev: "plain_event vs ev"
    using handle inv by (auto simp: plain_event_def fixed_members_def may_occur_def static_inv_def
        split: event.split)
  have "plain_ctx vs (n, result_actions r)"
    using step_plain[OF p ev] handle by (simp add: result_actions_def)
  moreover have "ml_inv (n_log n)"
    using step_ml_inv[OF p(2), of ev] handle by simp
  ultimately show ?thesis using inv handle by (simp add: static_inv_absorb)
next
  case (restart i)
  then have p: "plain vs (c_node c i)" "ml_inv (n_log (c_node c i))"
    using inv by (auto simp: static_inv_def)
  then have "plain vs (node_with_log (cfg i) (n_log (c_node c i)))"
    using dep restart by (intro plain_node_with_log) (auto simp: plain_def deployed_def)
  with p restart inv show ?thesis by (auto intro!: static_inv_absorb plain_ctxI)
qed

text \<open>The counted votes of a candidate or leader are votes in the history.\<close>

definition tally_inv :: "node_id list \<Rightarrow> node_id set \<Rightarrow> cluster \<Rightarrow> bool" where
  "tally_inv vs ids c \<longleftrightarrow> (\<forall>i \<in> ids. n_role (c_node c i) \<noteq> Follower \<longrightarrow>
     distinct (n_votes (c_node c i))
   \<and> (\<forall>j \<in> set (n_votes (c_node c i)).
        j \<in> ids \<and> (n_current_term (c_node c i), j, i) \<in> c_votes c)
   \<and> (n_role (c_node c i) = Leader \<longrightarrow>
        length vs div 2 + 1 \<le> length (n_votes (c_node c i))))"

lemma tally_inv_init: "tally_inv vs ids (cluster_init cfg)"
  by (simp add: tally_inv_def cluster_init_def node_new_def)

lemma tally_inv_absorb:
  assumes inv: "tally_inv vs ids c" and i: "i \<in> ids" and id: "n_id n = i"
    and q: "quorum (c_node c i) = length vs div 2 + 1"
    and t: "tally_step rep (c_node c i) n"
    and rep: "\<And>r. rep = Some r \<Longrightarrow> rvr_vote_granted r \<Longrightarrow>
        rvr_from r \<in> ids \<and> (rvr_term r, rvr_from r, i) \<in> c_votes c"
    and idc: "n_id (c_node c i) = i"
  shows "tally_inv vs ids (absorb c i n acts)"
proof -
  have "distinct (n_votes n)
     \<and> (\<forall>j \<in> set (n_votes n). j \<in> ids \<and> (n_current_term n, j, i) \<in> c_votes c \<union> votes_of n)
     \<and> (n_role n = Leader \<longrightarrow> length vs div 2 + 1 \<le> length (n_votes n))"
    if nf: "n_role n \<noteq> Follower"
    using t[unfolded tally_step_def]
  proof (elim disjE, goal_cases)
    case 1
    with nf show ?case by simp
  next
    case 2
    with inv i nf show ?case by (simp add: tally_inv_def)
  next
    case 3
    then obtain r where r: "rep = Some r" "rvr_vote_granted r"
      "rvr_term r = n_current_term (c_node c i)" "n_role (c_node c i) = Candidate"
      "rvr_from r \<notin> set (n_votes (c_node c i))"
      "n_votes n = n_votes (c_node c i) @ [rvr_from r]"
      "n_current_term n = n_current_term (c_node c i)"
      "n_role n = Leader \<longrightarrow> quorum (c_node c i) \<le> length (n_votes n)" by auto
    moreover from r(4) inv i have "distinct (n_votes (c_node c i))
      \<and> (\<forall>j \<in> set (n_votes (c_node c i)). j \<in> ids \<and> (n_current_term (c_node c i), j, i) \<in> c_votes c)"
      by (simp add: tally_inv_def)
    ultimately show ?case using rep[OF r(1,2)] q by auto
  next
    case 4
    then have "n_voted_for n = Some i" "n_votes n = [i]"
      "n_role n = Leader \<longrightarrow> quorum (c_node c i) \<le> 1" by (simp_all add: idc)
    with i id q show ?case by (simp add: mem_votes_of)
  qed
  with inv show ?thesis by (auto simp: tally_inv_def)
qed

lemma static_quorum: "static_inv vs ids c \<Longrightarrow> i \<in> ids \<Longrightarrow> quorum (c_node c i) = length vs div 2 + 1"
  by (simp add: static_inv_def plain_def quorum_def)

lemma tally_inv_step:
  assumes inv: "tally_inv vs ids c" "votes_inv ids c" "static_inv vs ids c"
    and step: "cluster_step fixed_members ids cfg c c'" and dep: "deployed vs ids cfg"
  shows "tally_inv vs ids c'"
  using step
proof cases
  case (handle i ev n r)
  note D = votes_invD[OF inv(2)]
  have s: "sound_step (event_reply ev) (c_node c i) (n, case r of Inl _ \<Rightarrow> [] | Inr acts \<Rightarrow> acts)"
    using handle D(2) by (intro step_sound) auto
  have id: "n_id (c_node c i) = i" using handle D(1) by simp
  have rep: "rvr_from x \<in> ids \<and> (rvr_term x, rvr_from x, i) \<in> c_votes c"
    if "event_reply ev = Some x" "rvr_vote_granted x" for x
  proof -
    from that(1) have "ev = Message (RequestVoteReply x)"
      by (auto simp: event_reply_def vote_reply_of_def split: event.splits message.splits)
    with handle have "(i, RequestVoteReply x) \<in> c_net c" by (simp add: may_occur_def)
    with D(8,9) that(2) show ?thesis by blast
  qed
  have "tally_inv vs ids (absorb c i n (result_actions r))"
    using s id handle static_quorum[OF inv(3)] rep
    by (intro tally_inv_absorb[OF inv(1)]) (auto simp: sound_step_def ballot_step_def)
  with handle show ?thesis by simp
next
  case (restart i)
  then show ?thesis using inv(1) by (auto simp: tally_inv_def)
qed

lemma reachable_invs:
  assumes "reachable fixed_members ids cfg c" "deployed vs ids cfg"
  shows "static_inv vs ids c \<and> votes_inv ids c \<and> tally_inv vs ids c"
  using assms(1)
proof induction
  case init
  with assms(2) show ?case
    by (auto simp: static_inv_init tally_inv_init deployed_def intro: votes_inv_init)
next
  case (next_step c c')
  then show ?case
    using static_inv_step[OF _ _ assms(2)] tally_inv_step[OF _ _ _ _ assms(2)]
      votes_inv_step[of ids c fixed_members cfg c'] assms(2)
    by (auto simp: deployed_def)
qed

text \<open>The votes of a majority for \<open>i\<close> in term \<open>t\<close> are in the history.\<close>

definition elected :: "node_id list \<Rightarrow> cluster \<Rightarrow> raft_term \<Rightarrow> node_id \<Rightarrow> bool" where
  "elected vs c t i \<longleftrightarrow> (\<exists>Q. majority vs Q \<and> (\<forall>j \<in> Q. (t, j, i) \<in> c_votes c))"

lemma leader_elected:
  assumes "static_inv vs ids c" "tally_inv vs ids c" "set vs = ids" "i \<in> ids" "is_leader (c_node c i)"
  shows "elected vs c (n_current_term (c_node c i)) i"
proof -
  let ?Q = "set (n_votes (c_node c i))"
  from assms have "distinct (n_votes (c_node c i))" "?Q \<subseteq> ids"
    "\<forall>j \<in> ?Q. (n_current_term (c_node c i), j, i) \<in> c_votes c"
    "length vs div 2 + 1 \<le> length (n_votes (c_node c i))"
    by (auto simp: tally_inv_def is_leader_def)
  then show ?thesis
    using assms(3) by (auto simp: elected_def majority_def distinct_card intro!: exI[of _ ?Q])
qed

lemma elected_unique:
  assumes "votes_inv ids c" "elected vs c t i" "elected vs c t j"
  shows "i = j"
proof -
  from assms(2,3) obtain A B where AB: "majority vs A" "majority vs B"
    "\<And>v. v \<in> A \<Longrightarrow> (t, v, i) \<in> c_votes c" "\<And>v. v \<in> B \<Longrightarrow> (t, v, j) \<in> c_votes c"
    unfolding elected_def by blast
  show ?thesis
    by (rule maj.one_winner[OF AB(1,2), where voted = "\<lambda>v k. (t, v, k) \<in> c_votes c"])
       (use AB(3,4) votes_invD(7)[OF assms(1)] in auto)
qed

lemma cluster_step_votes: "cluster_step allowed ids cfg c c' \<Longrightarrow> c_votes c \<subseteq> c_votes c'"
  by (auto elim!: cluster_stepE)

lemma cluster_steps_votes: "(cluster_step allowed ids cfg)\<^sup>*\<^sup>* c c' \<Longrightarrow> c_votes c \<subseteq> c_votes c'"
  by (induction rule: rtranclp_induct) (auto dest: cluster_step_votes)

lemma elected_mono: "elected vs c t i \<Longrightarrow> c_votes c \<subseteq> c_votes c' \<Longrightarrow> elected vs c' t i"
  by (auto simp: elected_def)

subsection \<open>Properties\<close>

text \<open>
  C3: Election safety. In a cluster whose membership is fixed, under any schedule of ticks,
  requests, crashes, restarts, message losses, delays, reorderings and duplications, two nodes
  that lead the same term, at the same moment or at different ones, are the same node.
\<close>

theorem election_safety:
  assumes "deployed vs ids cfg" and "reachable fixed_members ids cfg c"
    and "(cluster_step fixed_members ids cfg)\<^sup>*\<^sup>* c c'"
    and "i \<in> ids" "is_leader (c_node c i)" and "j \<in> ids" "is_leader (c_node c' j)"
    and "n_current_term (c_node c i) = n_current_term (c_node c' j)"
  shows "i = j"
proof -
  have set: "set vs = ids" using assms(1) by (simp add: deployed_def)
  note inv = reachable_invs[OF assms(2,1)]
  note inv' = reachable_invs[OF steps_reachable[OF assms(3,2)] assms(1)]
  have "elected vs c' (n_current_term (c_node c i)) i"
    using leader_elected[of vs ids c i] inv set assms(4,5) cluster_steps_votes[OF assms(3)]
    by (blast intro: elected_mono)
  moreover have "elected vs c' (n_current_term (c_node c i)) j"
    using leader_elected[of vs ids c' j] inv' set assms(6,7,8) by simp
  ultimately show ?thesis using elected_unique inv' by blast
qed

lemma three_deployed: "deployed [1, 2, 3] (set [1, 2, 3]) three"
  by code_simp

lemma three_elects:
  "case play fixed_members elect_one (roster_init [1, 2, 3] three) of
     Some R \<Rightarrow> (case map_of (r_nodes R) 1 of
         Some n \<Rightarrow> is_leader n \<and> n_current_term n = 1 | None \<Rightarrow> False)
   | None \<Rightarrow> False"
  by code_simp

theorem election_safety_witness:
  "\<exists>c. reachable fixed_members (set [1, 2, 3]) three c \<and> is_leader (c_node c 1)
     \<and> (\<forall>j \<in> set [1, 2, 3]. is_leader (c_node c j) \<and> n_current_term (c_node c j) = 1 \<longrightarrow> 1 = j)"
proof -
  obtain R n where R: "play fixed_members elect_one (roster_init [1, 2, 3] three) = Some R"
    "map_of (r_nodes R) 1 = Some n" "is_leader n" "n_current_term n = 1"
    using three_elects by (auto split: option.splits)
  obtain c where c: "reachable fixed_members (set [1, 2, 3]) three c"
    "represents (set [1, 2, 3]) R c" by (rule play_reachable[OF R(1)])
  then have "c_node c 1 = n" using R(2) by (simp add: represents_def)
  with R election_safety[OF three_deployed c(1) rtranclp.rtrancl_refl, of 1] c(1) show ?thesis
    by (intro exI[of _ c]) auto
qed

end
