(* ===== verification/State_Machine_Safety.thy ===== *)
theory State_Machine_Safety
  imports Protocol_Refinement Election_Safety
begin

text \<open>
  A cluster of fixed membership refines the protocol of \<^verbatim>\<open>Ledger\<close>, so what the protocol
  guarantees holds of the nodes of \<^verbatim>\<open>src/node.rs\<close>: their logs match, a leader has every
  committed entry, and no two nodes apply different commands at the same index.
\<close>

subsection \<open>Forward simulation\<close>

text \<open>A relation that every concrete step preserves by finitely many abstract ones, while an
  invariant of the concrete system holds.\<close>

locale simulation =
  fixes cstep :: "'c \<Rightarrow> 'c \<Rightarrow> bool" and astep :: "'a \<Rightarrow> 'a \<Rightarrow> bool"
    and R :: "'a \<Rightarrow> 'c \<Rightarrow> bool" and I :: "'c \<Rightarrow> bool"
  assumes simulates: "R a c \<Longrightarrow> I c \<Longrightarrow> cstep c c' \<Longrightarrow> \<exists>a'. astep\<^sup>*\<^sup>* a a' \<and> R a' c'"
    and keeps: "I c \<Longrightarrow> cstep c c' \<Longrightarrow> I c'"
begin

lemma runs:
  assumes "cstep\<^sup>*\<^sup>* c c'" "R a c" "I c"
  shows "\<exists>a'. astep\<^sup>*\<^sup>* a a' \<and> R a' c' \<and> I c'"
  using assms
proof induction
  case (step b b')
  then obtain a' where "astep\<^sup>*\<^sup>* a a'" "R a' b" "I b" by blast
  with step(2) simulates[of a' b b'] keeps[of b b'] show ?case by (meson rtranclp_trans)
qed auto

end

subsection \<open>The cluster and the protocol\<close>

definition models :: "node_id list \<Rightarrow> spec \<Rightarrow> cluster \<Rightarrow> bool" where
  "models vs A c \<longleftrightarrow> protocol_inv (majority vs) A
     \<and> (\<forall>i \<in> set vs. linked vs A i (c_node c i))
     \<and> (\<forall>j m. (j, m) \<in> c_net c \<longrightarrow> msg_ok vs A j m)
     \<and> (\<forall>j x a. (j, x, a) \<in> c_applied c \<longrightarrow> apply_ok vs A x a)"

definition protocol_step :: "node_id list \<Rightarrow> spec \<Rightarrow> spec \<Rightarrow> bool" where
  "protocol_step vs A A' \<longleftrightarrow> (\<exists>i \<in> set vs. spec_step (majority vs) i A A')"

definition cluster_inv :: "node_id list \<Rightarrow> node_id set \<Rightarrow> (node_id \<Rightarrow> raft_config) \<Rightarrow> cluster \<Rightarrow> bool" where
  "cluster_inv vs ids cfg c \<longleftrightarrow> deployed vs ids cfg
     \<and> static_inv vs ids c \<and> votes_inv ids c \<and> tally_inv vs ids c"

lemma deployedD:
  assumes "deployed vs ids cfg"
  shows "set vs = ids" "i \<in> ids \<Longrightarrow> cfg_id (cfg i) = i"
    "i \<in> ids \<Longrightarrow> sorted_members (cfg_peers (cfg i) @ [i]) = vs"
    "i \<in> ids \<Longrightarrow> distinct vs"
  using assms sorted_members_distinct unfolding deployed_def by (blast, blast, blast, metis)

lemma steps_of_one:
  "(spec_step (majority vs) i)\<^sup>*\<^sup>* A A' \<Longrightarrow> i \<in> set vs \<Longrightarrow> (protocol_step vs)\<^sup>*\<^sup>* A A'"
  by (erule mono_rtranclp[rule_format, rotated]) (auto simp: protocol_step_def)

lemma protocol_run:
  assumes "(protocol_step vs)\<^sup>*\<^sup>* A A'" "protocol_inv (majority vs) A"
  shows "protocol_inv (majority vs) A' \<and> extends A A'"
  using assms
proof induction
  case (step B C)
  then obtain i where "spec_step (majority vs) i B C" by (auto simp: protocol_step_def)
  with step raft.spec_step_inv[of vs B i C] raft.step_extends[of vs B i C] show ?case
    by (blast intro: extends_trans)
qed simp

text \<open>One node moves, and the rest of the cluster stays linked.\<close>

lemma models_absorb:
  assumes m: "models vs A c" and i: "i \<in> set vs" and r: "reaches vs i A (n, acts)"
  shows "\<exists>A'. (protocol_step vs)\<^sup>*\<^sup>* A A' \<and> models vs A' (absorb c i n acts)"
proof -
  obtain A' where A': "(spec_step (majority vs) i)\<^sup>*\<^sup>* A A'" "good vs A' i (n, acts)"
    using r unfolding reaches_def by blast
  have inv: "protocol_inv (majority vs) A" using m by (simp add: models_def)
  have ext: "extends A A'" using raft.spec_steps_inv[OF A'(1) inv] by simp
  note G = goodD[OF A'(2)]
  have "linked vs A' j (c_node (absorb c i n acts) j)" if "j \<in> set vs" for j
    using that m linked_other[OF _ A'(1) ext, of j] G(5) by (simp add: models_def)
  moreover have "msg_ok vs A' j x" if "(j, x) \<in> c_net (absorb c i n acts)" for j x
    using that m msg_ok_extends[OF _ ext] G(6) by (auto simp: models_def acts_ok_def mem_sends)
  moreover have "apply_ok vs A' x a" if "(j, x, a) \<in> c_applied (absorb c i n acts)" for j x a
    using that m apply_ok_extends[OF _ ext] G(6) by (auto simp: models_def acts_ok_def mem_applies)
  ultimately have "models vs A' (absorb c i n acts)" using G(3) unfolding models_def by blast
  with steps_of_one[OF A'(1) i] show ?thesis by blast
qed

lemma models_good:
  assumes "models vs A c" "cluster_inv vs ids cfg c" "i \<in> ids"
  shows "good vs A i (c_node c i, [])"
proof -
  have d: "deployed vs ids cfg" using assms(2) by (simp add: cluster_inv_def)
  have "i \<in> set vs" "distinct vs" using deployedD(1)[OF d] deployedD(4)[OF d assms(3)] assms(3) by auto
  with assms show ?thesis
    by (auto simp: good_def models_def cluster_inv_def static_inv_def plain_ctxI deployedD(1)[OF d])
qed

lemma models_step:
  assumes m: "models vs A c" and inv: "cluster_inv vs ids cfg c"
    and step: "cluster_step fixed_members ids cfg c c'"
  shows "\<exists>A'. (protocol_step vs)\<^sup>*\<^sup>* A A' \<and> models vs A' c'"
proof -
  have d: "deployed vs ids cfg" using inv by (simp add: cluster_inv_def)
  from step show ?thesis
  proof cases
    case (handle i ev n r)
    note g = models_good[OF m inv handle(2)]
    have ev: "plain_event vs ev"
      using handle inv by (auto simp: plain_event_def fixed_members_def may_occur_def static_inv_def
          cluster_inv_def split: event.split)
    have "msg_ok vs A i x" if "ev = Message x" for x
      using that handle m by (simp add: may_occur_def models_def)
    from reaches_step_event[OF g ev this handle(5,6)] handle(7)
    have "reaches vs i A (n, result_actions r)" by simp
    with models_absorb[OF m] handle(1,2) deployedD(1)[OF d] show ?thesis by simp
  next
    case (restart i)
    note g = models_good[OF m inv restart(2)]
    have "persisted (c_node c i)" using inv restart(2) by (auto simp: cluster_inv_def dest: votes_invD(2))
    from reaches_restart[OF g this] deployedD(2,3)[OF d restart(2)]
    have "reaches vs i A (node_with_log (cfg i) (n_log (c_node c i)), [])" by simp
    with models_absorb[OF m] restart deployedD(1)[OF d] show ?thesis by simp
  qed
qed

lemma cluster_inv_step:
  "cluster_inv vs ids cfg c \<Longrightarrow> cluster_step fixed_members ids cfg c c' \<Longrightarrow> cluster_inv vs ids cfg c'"
  using static_inv_step tally_inv_step votes_inv_step[of ids c fixed_members cfg c']
  by (auto simp: cluster_inv_def deployedD(2))

interpretation refines: simulation "cluster_step fixed_members ids cfg" "protocol_step vs"
  "models vs" "cluster_inv vs ids cfg" for vs ids cfg
  by unfold_locales (rule models_step cluster_inv_step; assumption)+

lemma cluster_inv_reachable:
  "reachable fixed_members ids cfg c \<Longrightarrow> deployed vs ids cfg \<Longrightarrow> cluster_inv vs ids cfg c"
  using reachable_invs by (simp add: cluster_inv_def)

lemma reachable_steps:
  "reachable allowed ids cfg c \<Longrightarrow> (cluster_step allowed ids cfg)\<^sup>*\<^sup>* (cluster_init cfg) c"
  by (induction rule: reachable.induct) auto

lemma models_init:
  assumes "deployed vs ids cfg"
  shows "models vs spec_init (cluster_init cfg)"
proof -
  have "linked vs spec_init i (node_new (cfg i))" if "i \<in> set vs" for i
    using that deployedD(1)[OF assms] deployedD(2)[OF assms, of i]
    by (simp add: linked_def tallied_def node_new_def compacts_new)
      (simp add: spec_init_def ml_new_def hard_state_default_def compacts_new[unfolded ml_new_def hard_state_default_def])
  then show ?thesis by (simp add: models_def protocol_init cluster_init_def)
qed

lemma cluster_modelled:
  assumes "deployed vs ids cfg" "reachable fixed_members ids cfg c"
  shows "\<exists>A. (protocol_step vs)\<^sup>*\<^sup>* spec_init A \<and> models vs A c"
proof -
  have "cluster_inv vs ids cfg (cluster_init cfg)"
    using assms(1) by (intro cluster_inv_reachable reachable.init)
  from refines.runs[OF reachable_steps[OF assms(2)] models_init[OF assms(1)] this] show ?thesis by blast
qed

lemma later_modelled:
  assumes "deployed vs ids cfg" "reachable fixed_members ids cfg c"
    "(cluster_step fixed_members ids cfg)\<^sup>*\<^sup>* c c'" "models vs A c"
  shows "\<exists>A'. extends A A' \<and> models vs A' c'"
proof -
  have inv: "cluster_inv vs ids cfg c" by (rule cluster_inv_reachable[OF assms(2,1)])
  have "protocol_inv (majority vs) A" using assms(4) by (simp add: models_def)
  with refines.runs[OF assms(3,4) inv] protocol_run show ?thesis by blast
qed

subsection \<open>Reading a cluster's logs\<close>

lemma modelsD:
  assumes "models vs A c"
  shows "protocol_inv (majority vs) A" "i \<in> set vs \<Longrightarrow> linked vs A i (c_node c i)"
    "(j, x, a) \<in> c_applied c \<Longrightarrow> apply_ok vs A x a"
  using assms by (auto simp: models_def)

lemma decided_entry:
  assumes "protocol_inv (majority vs) A" "decided (majority vs) A t xs" "decided (majority vs) A t' ys"
    "k < length xs" "k < length ys"
  shows "xs ! k = ys ! k"
proof (cases "length xs \<le> length ys")
  case True
  from decided_agree[OF protocol_invD(2)[OF assms(1)] assms(2,3) True] assms(4,5) show ?thesis
    by (metis nth_take)
next
  case False
  then have "length ys \<le> length xs" by simp
  from decided_agree[OF protocol_invD(2)[OF assms(1)] assms(3,2) this] assms(4,5) show ?thesis
    by (metis nth_take)
qed

lemma apply_unique:
  assumes "protocol_inv (majority vs) A" "apply_ok vs A x a" "apply_ok vs A x b"
  shows "a = b"
proof -
  obtain t xs t' ys where "decided (majority vs) A t xs" "decided (majority vs) A t' ys"
    "0 < x" "unat x \<le> length xs" "unat x \<le> length ys"
    "le_command (xs ! (unat x - 1)) = a" "le_command (ys ! (unat x - 1)) = b"
    using assms(2,3) unfolding apply_ok_def by blast
  with decided_entry[OF assms(1), of t xs t' ys "unat x - 1"] show ?thesis
    by (simp add: word_less_nat_alt)
qed

text \<open>Where a node has an entry, so has the log it stands for.\<close>

lemma linked_log:
  assumes "linked vs A i n"
  shows "ml_term_at (n_log n) x = Some t \<Longrightarrow> unat x \<le> length (s_log A i) \<and> term_of (s_log A i) (unat x) = t"
    and "ml_entry (n_log n) y = (if ml_snapshot_index (n_log n) < y \<and> unat y \<le> length (s_log A i)
           then Some (s_log A i ! (unat y - 1)) else None)"
    and "z \<le> n_commit_index n \<Longrightarrow> unat z \<le> length (s_log A i)
           \<and> decided (majority vs) A (n_current_term n) (take (unat z) (s_log A i))"
  using compacts_term_at[OF linkedD(5)[OF assms], of x] compacts_entry[OF linkedD(5)[OF assms], of y]
    settled_le[OF linkedD(6)[OF assms], of z] linkedD(2)[OF assms]
  by (auto simp: settled_def ml_snapshot_index_def word_less_nat_alt split: if_splits)

lemma same_prefix_entry:
  assumes li: "linked vs A i n" and lj: "linked vs B j m"
    and p: "take k (s_log A i) = take k (s_log B j)" "k \<le> length (s_log A i)" "unat y \<le> k"
    and e: "ml_entry (n_log n) y = Some e"
  shows "ml_entry (n_log m) y = Some e \<or> y \<le> ml_snapshot_index (n_log m)"
proof -
  have y: "0 < unat y" "s_log A i ! (unat y - 1) = e"
    using e unfolding linked_log(2)[OF li] by (auto simp: word_less_nat_alt split: if_splits)
  have "unat y \<le> length (s_log B j)" using take_length_le[OF p(1,2)] p(3) by simp
  moreover have "s_log B j ! (unat y - 1) = e"
    using y p(1,3) by (metis nth_take diff_less less_le_trans zero_less_one)
  ultimately show ?thesis unfolding linked_log(2)[OF lj] by (auto simp: not_less)
qed

subsection \<open>Properties\<close>

text \<open>
  C1: State machine safety. In a cluster whose membership is fixed, under any schedule of ticks,
  requests, snapshots, leadership transfers, crashes, restarts, message losses, delays,
  reorderings and duplications, the commands that any two nodes ever apply at the same index
  are the same command.
\<close>

theorem state_machine_safety:
  assumes "deployed vs ids cfg" "reachable fixed_members ids cfg c"
    and "(i, x, a) \<in> c_applied c" "(j, x, b) \<in> c_applied c"
  shows "a = b"
proof -
  obtain A where "models vs A c" using cluster_modelled[OF assms(1,2)] by blast
  note M = modelsD[OF this]
  show ?thesis by (rule apply_unique[OF M(1) M(3)[OF assms(3)] M(3)[OF assms(4)]])
qed

text \<open>A run in which node 1 is elected, commits a command with node 2, and node 2 learns it.\<close>

definition commit_seven :: "move list" where
  "commit_seven = [Do 1 Tick, Newest 2, Newest 1, Newest 2, Newest 1, Newest 2, Newest 1,
     Do 1 (Propose [7]), Newest 2, Newest 1, Do 1 Tick, Do 1 Tick, Do 1 Tick, Newest 2]"

definition seven_committed :: "node \<Rightarrow> bool" where
  "seven_committed n \<longleftrightarrow> n_commit_index n = 1 \<and> n_current_term n = 1
     \<and> ml_entry (n_log n) 1 = Some (entry_new 1 1 [7]) \<and> ml_term_at (n_log n) 1 = Some 1
     \<and> ml_snapshot_index (n_log n) = 0"

lemma commit_seven_play:
  "case play_moves fixed_members commit_seven (roster_init [1, 2, 3] three) of
     Some R \<Rightarrow> (1, 1, [7]) \<in> set (r_applied R) \<and> (2, 1, [7]) \<in> set (r_applied R)
       \<and> (case map_of (r_nodes R) 1 of Some n \<Rightarrow> is_leader n \<and> seven_committed n | None \<Rightarrow> False)
       \<and> (case map_of (r_nodes R) 2 of Some n \<Rightarrow> seven_committed n | None \<Rightarrow> False)
   | None \<Rightarrow> False"
  by code_simp

lemma commit_seven_run:
  obtains c where "reachable fixed_members (set [1, 2, 3]) three c"
    "(1, 1, [7]) \<in> c_applied c" "(2, 1, [7]) \<in> c_applied c" "is_leader (c_node c 1)"
    "seven_committed (c_node c 1)" "seven_committed (c_node c 2)"
proof -
  obtain R n m where R: "play_moves fixed_members commit_seven (roster_init [1, 2, 3] three) = Some R"
    "(1, 1, [7]) \<in> set (r_applied R)" "(2, 1, [7]) \<in> set (r_applied R)"
    "map_of (r_nodes R) 1 = Some n" "is_leader n" "seven_committed n"
    "map_of (r_nodes R) 2 = Some m" "seven_committed m"
    using commit_seven_play by (auto split: option.splits)
  obtain c where c: "reachable fixed_members (set [1, 2, 3]) three c"
    "represents (set [1, 2, 3]) R c" by (rule play_moves_reachable[OF R(1)])
  with R have "c_node c 1 = n" "c_node c 2 = m" by (simp_all add: represents_def)
  with that[OF c(1)] c(2) R show ?thesis by (auto simp: represents_def)
qed

theorem state_machine_safety_witness:
  "\<exists>c. reachable fixed_members (set [1, 2, 3]) three c \<and> (1, 1, [7]) \<in> c_applied c
     \<and> (\<forall>b. (2, 1, b) \<in> c_applied c \<longrightarrow> [7] = b)"
proof -
  obtain c where "reachable fixed_members (set [1, 2, 3]) three c" "(1, 1, [7]) \<in> c_applied c"
    by (rule commit_seven_run)
  with state_machine_safety[OF three_deployed] show ?thesis by blast
qed

text \<open>
  C2: Leader completeness. In a cluster whose membership is fixed, an entry that a node has
  committed is in the log of every node that leads the same or a later term, then or at any
  later moment, at the same index, unless that leader has compacted it into its snapshot.
\<close>

theorem leader_completeness:
  assumes dep: "deployed vs ids cfg" and run: "reachable fixed_members ids cfg c"
    "(cluster_step fixed_members ids cfg)\<^sup>*\<^sup>* c c'" and ij: "i \<in> ids" "j \<in> ids"
    and e: "y \<le> n_commit_index (c_node c i)" "ml_entry (n_log (c_node c i)) y = Some e"
    and l: "is_leader (c_node c' j)" "n_current_term (c_node c i) \<le> n_current_term (c_node c' j)"
  shows "ml_entry (n_log (c_node c' j)) y = Some e \<or> y \<le> ml_snapshot_index (n_log (c_node c' j))"
proof -
  obtain A where A: "models vs A c" using cluster_modelled[OF dep run(1)] by blast
  obtain B where B: "extends A B" "models vs B c'" using later_modelled[OF dep run A] by blast
  have set: "set vs = ids" using deployedD(1)[OF dep] .
  have li: "linked vs A i (c_node c i)" and lj: "linked vs B j (c_node c' j)"
    using modelsD(2)[OF A] modelsD(2)[OF B(2)] ij set by auto
  let ?p = "take (unat y) (s_log A i)"
  have d: "unat y \<le> length (s_log A i)" "decided (majority vs) B (n_current_term (c_node c i)) ?p"
    using linked_log(3)[OF li e(1)] decided_extends[OF _ B(1)] by auto
  have "s_ledger B (n_current_term (c_node c' j)) = Some (s_log B j)"
    using protocol_leadersD(3)[OF modelsD(1)[OF B(2)], of j] linkedD(2,3)[OF lj] l(1)
    by (simp add: is_leader_def)
  from decided_ledger(1)[OF protocol_invD(2)[OF modelsD(1)[OF B(2)]] d(2) l(2) this] d(1)
  have "take (unat y) (s_log A i) = take (unat y) (s_log B j)" by (simp add: min.absorb1)
  from same_prefix_entry[OF li lj this d(1) order_refl e(2)] show ?thesis .
qed

theorem leader_completeness_witness:
  "\<exists>c. reachable fixed_members (set [1, 2, 3]) three c \<and> n_commit_index (c_node c 2) = 1
     \<and> ml_entry (n_log (c_node c 1)) 1 = Some (entry_new 1 1 [7])"
proof -
  obtain c where c: "reachable fixed_members (set [1, 2, 3]) three c" "is_leader (c_node c 1)"
    "seven_committed (c_node c 1)" "seven_committed (c_node c 2)" by (rule commit_seven_run)
  then have "ml_entry (n_log (c_node c 1)) 1 = Some (entry_new 1 1 [7])
    \<or> 1 \<le> ml_snapshot_index (n_log (c_node c 1))"
    by (intro leader_completeness[OF three_deployed c(1) rtranclp.rtrancl_refl, of 2])
      (simp_all add: seven_committed_def)
  with c show ?thesis by (intro exI[of _ c]) (auto simp: seven_committed_def)
qed

text \<open>
  C4: Log matching. In a cluster whose membership is fixed, if two logs, of any two nodes at any
  two moments, have an entry of the same term at an index, then every entry the one has at that
  index or below the other has at the same index too, unless it has compacted it.
\<close>

theorem log_matching:
  assumes dep: "deployed vs ids cfg" and run: "reachable fixed_members ids cfg c"
    "(cluster_step fixed_members ids cfg)\<^sup>*\<^sup>* c c'" and ij: "i \<in> ids" "j \<in> ids"
    and t: "ml_term_at (n_log (c_node c i)) x = Some t" "ml_term_at (n_log (c_node c' j)) x = Some t"
    and e: "y \<le> x" "ml_entry (n_log (c_node c i)) y = Some e"
  shows "ml_entry (n_log (c_node c' j)) y = Some e \<or> y \<le> ml_snapshot_index (n_log (c_node c' j))"
proof -
  obtain A where A: "models vs A c" using cluster_modelled[OF dep run(1)] by blast
  obtain B where B: "extends A B" "models vs B c'" using later_modelled[OF dep run A] by blast
  have set: "set vs = ids" using deployedD(1)[OF dep] .
  have li: "linked vs A i (c_node c i)" and lj: "linked vs B j (c_node c' j)"
    using modelsD(2)[OF A] modelsD(2)[OF B(2)] ij set by auto
  note ti = linked_log(1)[OF li t(1)] and tj = linked_log(1)[OF lj t(2)]
  have "take (unat x) (s_log A i) = take (unat x) (s_log B j)"
    using ti tj by (intro grounded_match[OF grounded_extends[OF protocol_invD(3)[OF modelsD(1)[OF A]] B(1)]
          protocol_invD(3)[OF modelsD(1)[OF B(2)]]]) auto
  from same_prefix_entry[OF li lj this _ _ e(2)] ti e(1) show ?thesis by (simp add: word_le_nat_alt)
qed

theorem log_matching_witness:
  "\<exists>c. reachable fixed_members (set [1, 2, 3]) three c
     \<and> ml_entry (n_log (c_node c 2)) 1 = Some (entry_new 1 1 [7])"
proof -
  obtain c where c: "reachable fixed_members (set [1, 2, 3]) three c"
    "seven_committed (c_node c 1)" "seven_committed (c_node c 2)" by (rule commit_seven_run)
  then have "ml_entry (n_log (c_node c 2)) 1 = Some (entry_new 1 1 [7])
    \<or> 1 \<le> ml_snapshot_index (n_log (c_node c 2))"
    by (intro log_matching[OF three_deployed c(1) rtranclp.rtrancl_refl, of 1 2 1 1])
      (simp_all add: seven_committed_def)
  with c show ?thesis by (intro exI[of _ c]) (auto simp: seven_committed_def)
qed

text \<open>
  C5: A cluster of fixed membership refines the protocol of \<^verbatim>\<open>Ledger\<close>: whatever schedule it
  has gone through, the protocol can take steps from its initial state to one that models the
  cluster, with every node's term, role, votes and log those of the protocol, every message in
  flight vouched for and every applied command decided.
\<close>

theorem cluster_refines_protocol:
  assumes "deployed vs ids cfg" "reachable fixed_members ids cfg c"
  shows "\<exists>A. (protocol_step vs)\<^sup>*\<^sup>* spec_init A \<and> models vs A c"
  using cluster_modelled[OF assms] .

theorem cluster_refines_protocol_witness:
  "\<exists>c A. (1, 1, [7]) \<in> c_applied c \<and> (protocol_step [1, 2, 3])\<^sup>*\<^sup>* spec_init A
     \<and> models [1, 2, 3] A c"
proof -
  obtain c where "reachable fixed_members (set [1, 2, 3]) three c" "(1, 1, [7]) \<in> c_applied c"
    by (rule commit_seven_run)
  with cluster_refines_protocol[OF three_deployed] show ?thesis by blast
qed

end
