(* ===== verification/Ballot_Properties.thy ===== *)
theory Ballot_Properties
  imports Node_Log Samples
begin

text \<open>
  What a node guarantees about its term and its vote, whatever event it handles, and what
  the pre-vote and leader stickiness guard.
\<close>

lemma sound: "persisted n \<Longrightarrow> term_room ev n \<Longrightarrow> sound_step (event_reply ev) n
    (fst (step ev n), case snd (step ev n) of Inl _ \<Rightarrow> [] | Inr acts \<Rightarrow> acts)"
  by (rule step_sound) simp_all

lemma sample_rooms:
  "persisted fresh \<and> term_room (Message request_by_1) fresh"
  "persisted appended \<and> term_room (Message request_by_1) appended"
  by code_simp+

text \<open>
  C19: Terms are monotone and a vote is cast once per term, short of the end of the term range:
  in a node whose term and vote are the ones its log holds, no event makes the term go back, and
  while the term stays the same a vote, once cast, is never withdrawn or changed. Excepted are the
  events of which the node could increment the largest term (\<open>term_room\<close>): any event when its
  own term is \<open>u64::MAX\<close>, and a \<open>TimeoutNow\<close> of that term, after which the term is 0
  (\<open>largest_term_wraps\<close>).
\<close>

theorem vote_is_final:
  assumes "persisted n" "term_room ev n"
  shows "n_current_term n \<le> n_current_term (fst (step ev n))
    \<and> (n_current_term (fst (step ev n)) = n_current_term n \<longrightarrow> n_voted_for n = Some k \<longrightarrow>
         n_voted_for (fst (step ev n)) = Some k)"
  using sound[OF assms] by (auto simp: sound_step_def ballot_step_def)

theorem vote_is_final_witness:
  "n_current_term fresh \<le> n_current_term (fst (step (Message request_by_1) fresh))"
  using vote_is_final[of fresh "Message request_by_1"] sample_rooms by blast

text \<open>
  The hard state is durable: after every event, on the error paths too, the term and the
  vote the node holds in memory are the ones it has written to its log.
\<close>

theorem hard_state_durable:
  assumes "persisted n" "term_room ev n"
  shows "persisted (fst (step ev n))"
  using sound[OF assms] by (simp add: sound_step_def)

theorem hard_state_durable_witness: "persisted (fst (step (Message request_by_1) fresh))"
  using hard_state_durable[of fresh "Message request_by_1"] sample_rooms by blast

text \<open>
  C20: A granted vote is on disk before it is sent: when a step returns a reply that grants a
  vote, the log the node holds records a vote for the destination in the reply's term.
\<close>

theorem granted_vote_is_recorded:
  assumes "persisted n" "term_room ev n" "snd (step ev n) = Inr acts"
    and "Send to (RequestVoteReply r) \<in> set acts" "rvr_vote_granted r"
  shows "ml_hard_state (n_log (fst (step ev n)))
       = \<lparr>hs_term = rvr_term r, hs_voted_for = Some to\<rparr>"
  using sound[OF assms(1,2)] assms(3-5)
  by (auto simp: sound_step_def honest_votes_def votes_sent_mem[symmetric] persisted_def
      ml_hard_state_def)

theorem granted_vote_is_recorded_witness:
  "ml_hard_state (n_log (fst (step (Message request_by_1) fresh)))
     = \<lparr>hs_term = 1, hs_voted_for = Some 1\<rparr>"
proof -
  let ?r = "\<lparr>rvr_term = 1, rvr_vote_granted = True, rvr_from = 2\<rparr>"
  have "snd (step (Message request_by_1) fresh) = Inr [Send 1 (RequestVoteReply ?r)]"
    by code_simp
  from granted_vote_is_recorded[OF _ _ this, of 1 ?r] sample_rooms show ?thesis by simp
qed

text \<open>
  A restart loses no promise: a node rebuilt from the log that any step left behind is in
  a term no earlier than before the step and, in the same term, still has its vote.
\<close>

theorem restart_keeps_ballot:
  assumes "persisted n" "term_room ev n"
    and "n' = node_with_log c (n_log (fst (step ev n)))"
  shows "n_role n' = Follower \<and> n_current_term n' = n_current_term (fst (step ev n))
    \<and> n_voted_for n' = n_voted_for (fst (step ev n)) \<and> n_current_term n \<le> n_current_term n'"
proof -
  have "persisted (fst (step ev n))" "n_current_term n \<le> n_current_term (fst (step ev n))"
    using sound[OF assms(1,2)] by (auto simp: sound_step_def ballot_step_def)
  then show ?thesis
    by (simp add: assms(3) persisted_def node_with_log_def Let_def case_prod_unfold
        ml_hard_state_def)
qed

theorem restart_keeps_ballot_witness:
  "n_voted_for (node_with_log (three 2) (n_log (fst (step (Message request_by_1) fresh))))
     = n_voted_for (fst (step (Message request_by_1) fresh))"
  using restart_keeps_ballot[OF _ _ refl, of fresh "Message request_by_1"] sample_rooms by blast

text \<open>
  A pre-vote is a probe: it is answered without any change of the node's state, and it is
  granted exactly when the probed term is not older, no leader has been heard from within the
  minimum election timeout, and the candidate's log is up to date.
\<close>

theorem pre_vote_is_a_probe:
  "step (Message (PreVote pv)) n = (n, Inr [Send (pv_candidate pv) (PreVoteReply
     \<lparr>pvr_term = n_current_term n,
      pvr_vote_granted = (n_current_term n \<le> pv_term pv
        \<and> (n_leader_id n = None \<or> n_election_timeout_min n \<le> n_election_elapsed n)
        \<and> (ml_last_term (n_log n) < pv_last_log_term pv
           \<or> pv_last_log_term pv = ml_last_term (n_log n)
             \<and> ml_last_index (n_log n) \<le> pv_last_log_index pv)),
      pvr_from = n_id n\<rparr>)])"
  by (auto simp: step_def handle_message_def sticky_def handle_pre_vote_def Let_def
      have_active_leader_def candidate_log_up_to_date_def)

text \<open>
  C38: A disruptive server is ignored: while a node has heard from a live leader within the
  minimum election timeout, no sequence of pre-votes and unforced vote requests, of whatever
  terms and from whatever senders, changes its state.
\<close>

theorem disruption_is_ignored:
  assumes "n_leader_id n \<noteq> None" "n_election_elapsed n < n_election_timeout_min n"
    and "\<forall>m \<in> set ms. (\<exists>pv. m = PreVote pv) \<or> (\<exists>rv. m = RequestVote rv \<and> \<not> rv_force rv)"
  shows "fold (\<lambda>m n. fst (step (Message m) n)) ms n = n"
  using assms(3)
proof (induction ms)
  case (Cons m ms)
  have "fst (step (Message m) n) = n"
    using Cons.prems assms(1,2)
    by (auto simp: step_def handle_message_def sticky_def handle_pre_vote_def Let_def)
  with Cons show ?case by simp
qed simp

theorem disruption_is_ignored_witness:
  "fold (\<lambda>m n. fst (step (Message m) n))
     [RequestVote \<lparr>rv_term = 9, rv_candidate = 3, rv_last_log_index = 9,
                   rv_last_log_term = 9, rv_force = False\<rparr>,
      PreVote \<lparr>pv_term = 10, pv_candidate = 3, pv_last_log_index = 9, pv_last_log_term = 9\<rparr>]
     appended = appended"
proof -
  have "n_leader_id appended \<noteq> None" "n_election_elapsed appended < n_election_timeout_min appended"
    by code_simp+
  then show ?thesis by (intro disruption_is_ignored) simp_all
qed

text \<open>
  A node that cannot reach a majority never raises its term: in a configuration of more
  than one voter a tick, however often it fires, changes neither the term nor the vote.
\<close>

theorem tick_keeps_term:
  assumes "2 \<le> length (n_voters n)"
  shows "n_current_term (fst (step Tick n)) = n_current_term n
    \<and> n_voted_for (fst (step Tick n)) = n_voted_for n"
proof -
  have q: "\<not> quorum n' \<le> Suc 0" if "n_voters n' = n_voters n" for n'
    using assms that by (simp add: quorum_def)
  show ?thesis
    by (simp add: step_def tick_def start_pre_vote_def Let_def q frame_simps)
qed

theorem tick_keeps_term_witness:
  "n_current_term (fst (step Tick fresh)) = n_current_term fresh"
proof -
  have "2 \<le> length (n_voters fresh)" by code_simp
  then show ?thesis by (rule tick_keeps_term[THEN conjunct1])
qed

subsection \<open>How up to date a log is\<close>

text \<open>The position of a log's end, ordered by term and then by index: the order by which a vote
  is granted or refused.\<close>

datatype log_pos = LogPos (pos_term: raft_term) (pos_index: raft_index)

instantiation log_pos :: linorder
begin

definition less_eq_log_pos :: "log_pos \<Rightarrow> log_pos \<Rightarrow> bool" where
  "p \<le> q \<longleftrightarrow> pos_term p < pos_term q \<or> pos_term p = pos_term q \<and> pos_index p \<le> pos_index q"

definition less_log_pos :: "log_pos \<Rightarrow> log_pos \<Rightarrow> bool" where
  "p < q \<longleftrightarrow> p \<le> q \<and> \<not> q \<le> (p :: log_pos)"

instance
proof
  fix p q r :: log_pos
  show "p < q \<longleftrightarrow> p \<le> q \<and> \<not> q \<le> p" by (rule less_log_pos_def)
  show "p \<le> p" by (simp add: less_eq_log_pos_def)
  show "p \<le> q \<Longrightarrow> q \<le> r \<Longrightarrow> p \<le> r" by (auto simp: less_eq_log_pos_def)
  show "p \<le> q \<Longrightarrow> q \<le> p \<Longrightarrow> p = q" by (auto simp: less_eq_log_pos_def intro: log_pos.expand)
  show "p \<le> q \<or> q \<le> p" by (auto simp: less_eq_log_pos_def)
qed

end

definition end_of_log :: "memory_log \<Rightarrow> log_pos" where
  "end_of_log l = LogPos (ml_last_term l) (ml_last_index l)"

lemma up_to_date_iff:
  "candidate_log_up_to_date n t i \<longleftrightarrow> end_of_log (n_log n) \<le> LogPos t i"
  by (auto simp: candidate_log_up_to_date_def Let_def end_of_log_def less_eq_log_pos_def)

lemma request_vote_grants:
  assumes "Send to (RequestVoteReply r) \<in> set (snd (fst (handle_request_vote rv n [])))"
    and "rvr_vote_granted r"
  shows "to = rv_candidate rv \<and> rvr_term r = n_current_term n \<and> n_current_term n \<le> rv_term rv
    \<and> candidate_log_up_to_date n (rv_last_log_term rv) (rv_last_log_index rv)"
  using assms by (auto simp: handle_request_vote_def Let_def persist_hard_state_eq frame_simps
      split: if_splits)

lemma step_request_vote:
  obtains n1 where "same_log (n_log n) (n_log n1)" "n_current_term n1 = max (n_current_term n) (rv_term rv)"
    "step (Message (RequestVote rv)) n = (n, Inr [])
     \<or> step (Message (RequestVote rv)) n = finish (handle_request_vote rv n1 [])"
proof (cases "n_current_term n < rv_term rv")
  case True
  obtain n1 where bf: "become_follower (rv_term rv) None n = (n1, Inr ())"
    using become_follower_log_effect[of n "rv_term rv" None] by (metis prod.collapse)
  then show ?thesis
    using that[of n1] become_follower_log_effect[of n "rv_term rv" None] True
    by (simp add: step_def handle_message_def dispatch_def)
next
  case False
  then show ?thesis
    using that[of n] by (simp add: step_def handle_message_def dispatch_def max_def)
qed

text \<open>
  C21: A vote goes only to a candidate whose log is at least as up to date: when a node answers a
  vote request by granting it, its own log's last term and index, compared in that order, are not
  above the ones the candidate claims, and the vote is for that candidate in the request's term.
\<close>

theorem vote_needs_up_to_date_log:
  assumes "snd (step (Message (RequestVote rv)) n) = Inr acts"
    and "Send to (RequestVoteReply r) \<in> set acts" "rvr_vote_granted r"
  shows "to = rv_candidate rv \<and> rvr_term r = rv_term rv
    \<and> end_of_log (n_log n) \<le> LogPos (rv_last_log_term rv) (rv_last_log_index rv)"
proof -
  obtain n1 where n1: "same_log (n_log n) (n_log n1)"
    "n_current_term n1 = max (n_current_term n) (rv_term rv)"
    "step (Message (RequestVote rv)) n = (n, Inr [])
     \<or> step (Message (RequestVote rv)) n = finish (handle_request_vote rv n1 [])"
    by (rule step_request_vote)
  with assms have "Send to (RequestVoteReply r) \<in> set (snd (fst (handle_request_vote rv n1 [])))"
    by (cases "handle_request_vote rv n1 []") (auto simp: finish_def split: sum.splits)
  from request_vote_grants[OF this assms(3)] n1(2)
  have "to = rv_candidate rv" "rvr_term r = rv_term rv"
    "candidate_log_up_to_date n1 (rv_last_log_term rv) (rv_last_log_index rv)"
    by (auto simp: max_def split: if_splits)
  moreover have "end_of_log (n_log n1) = end_of_log (n_log n)"
    using same_log_sel[OF n1(1)]
    by (simp add: end_of_log_def ml_last_term_def ml_last_index_def split: list.split)
  ultimately show ?thesis by (simp add: up_to_date_iff)
qed

theorem vote_needs_up_to_date_log_witness:
  "end_of_log (n_log fresh) \<le> LogPos 0 0"
proof -
  let ?r = "\<lparr>rvr_term = 1, rvr_vote_granted = True, rvr_from = 2\<rparr>"
  have "snd (step (Message request_by_1) fresh) = Inr [Send 1 (RequestVoteReply ?r)]"
    by code_simp
  from vote_needs_up_to_date_log[OF this[unfolded request_by_1_def], of 1 ?r]
  show ?thesis by simp
qed

end
