(* ===== verification/Leader_Waits.thy ===== *)
theory Leader_Waits
  imports Samples Leader_Properties
begin

text \<open>
  What makes a leader in \<^verbatim>\<open>src/node.rs\<close> decline requests, and for how long: a leadership transfer
  in progress, and a membership change that is not known to be committed. The locale
  \<open>leadership\<close> carries an invariant of a leader through every message of its term; it is
  interpreted for both.
\<close>

text \<open>A message to the leader keeps the invariant, or ends its leadership of the term.\<close>

definition kept :: "(ctx \<Rightarrow> bool) \<Rightarrow> node \<Rightarrow> unit fallible \<Rightarrow> bool" where
  "kept P n m \<longleftrightarrow> P (fst m) \<and> snd m = Inr ()
     \<or> n_role (fst (fst m)) = Follower \<or> n_current_term (fst (fst m)) \<noteq> n_current_term n"

locale leadership = leader_invariant +
  assumes vote_recorded: "P (n, acts) \<Longrightarrow> P (n\<lparr>n_voted_for := v, n_log := (n_log n)\<lparr>ml_hard := h\<rparr>\<rparr>, acts)"
    and timer: "P (n, acts) \<Longrightarrow> P (reset_election_timer n, acts)"
    and probed: "P (n, acts) \<Longrightarrow> P (n\<lparr>n_pre_votes := ps\<rparr>, acts)"
    and said: "P (n, acts) \<Longrightarrow> P (n, acts @ xs)"
begin

lemma vote_kept:
  assumes "P (n, [])"
  shows "kept P n (handle_request_vote rv n [])"
  using said[OF timer[OF vote_recorded[OF assms]]] said[OF assms]
  by (auto simp: kept_def handle_request_vote_def Let_def persist_hard_state_eq)

lemma append_kept:
  assumes "P (n, [])"
  shows "kept P n (handle_append_entries ae n [])"
proof (cases "ae_term ae < n_current_term n")
  case True
  with said[OF assms] show ?thesis by (simp add: kept_def handle_append_entries_def)
next
  case False
  obtain l r where "append_from_leader (ae_entries ae) (n_log n) = (l, r)" by fastforce
  with False show ?thesis
    by (cases r) (auto simp: kept_def handle_append_entries_def Let_def case_prod_unfold frame_simps
         log_op_def with_acts_def)
qed

lemma install_kept:
  assumes "P (n, [])"
  shows "kept P n (handle_install_snapshot rpc n [])"
proof (cases "ins_term rpc < n_current_term n")
  case True
  with said[OF assms] show ?thesis by (simp add: kept_def handle_install_snapshot_def)
next
  case False
  obtain l r where lr: "ml_apply_snapshot (n_log n) (ins_snapshot rpc) = (l, r)" by fastforce
  then have "r = Inr ()" using ml_apply_snapshot_never_fails[of "n_log n"] by (metis snd_conv)
  with lr False show ?thesis
    by (auto simp: kept_def handle_install_snapshot_def Let_def case_prod_unfold frame_simps ml_sync_def)
qed

lemma election_kept: "n_current_term n = n_current_term n0 \<Longrightarrow> n_current_term n \<noteq> u64_max \<Longrightarrow>
    kept P n0 (start_election f n acts)"
  using start_election_outcome[OF _ refl, of n f acts] by (simp add: kept_def)

lemma dispatch_kept:
  assumes "P (n, [])" "n_role n = Leader" "n_current_term n \<noteq> u64_max"
  shows "kept P n (dispatch m n [])"
proof -
  have same: "kept P n ((n, []), Inr ())" using assms(1) by (simp add: kept_def)
  have "kept P n (handle_append_reply r n [], Inr ())" for r
    using append_reply[OF assms(1), of r] by (simp add: kept_def)
  moreover have "kept P n (handle_install_snapshot_reply r n [], Inr ())" for r
    using snapshot_reply[OF assms(1), of r] by (simp add: kept_def)
  moreover have "kept P n (handle_timeout_now rpc n [])" for rpc
    using election_kept[OF refl assms(3)] same by (simp add: handle_timeout_now_def)
  moreover have "kept P n (handle_vote_reply r n [], Inr ())" for r
    using same assms(2) by (simp add: handle_vote_reply_def)
  ultimately show ?thesis
    using vote_kept[OF assms(1)] append_kept[OF assms(1)] install_kept[OF assms(1)] same
    by (simp add: dispatch_def split: message.split)
qed

lemma pre_vote_reply_kept:
  assumes "P (n, [])" "n_current_term n \<noteq> u64_max"
  shows "kept P n (handle_pre_vote_reply r n [])"
proof -
  have "n_role (fst (become_follower x None n')) = Follower" for x n'
    by (simp add: become_follower_def Let_def persist_hard_state_eq)
  then have down: "kept P n (with_acts [] (become_follower x None n'))" for x n'
    by (simp add: kept_def with_acts_def case_prod_unfold)
  show ?thesis
    using assms(1) probed[OF assms(1)] down assms(2)
      election_kept[of "n\<lparr>n_pre_votes := n_pre_votes n @ [pvr_from r]\<rparr>" n False "[]"]
    by (auto simp: handle_pre_vote_reply_def Let_def kept_def)
qed

lemma message_kept:
  assumes h: "P (n, [])" "n_role n = Leader" and p: "persisted n" "term_room (Message m) n"
  shows "kept P n (handle_message m n)"
proof (cases "sticky m n \<or> (\<exists>pv. m = PreVote pv) \<or> (\<exists>r. m = PreVoteReply r)")
  case True
  have "kept P n (handle_pre_vote pv n [], Inr ())" for pv
    using said[OF h(1)] by (simp add: handle_pre_vote_def Let_def kept_def)
  with True h(1) pre_vote_reply_kept[OF h(1)] p(2) show ?thesis
    by (auto simp: handle_message_def term_room_def kept_def[of _ _ "((n, []), Inr ())"])
next
  case False
  show ?thesis
  proof (cases "n_current_term n < message_term m")
    case True
    obtain n1 where bf: "become_follower (message_term m) None n = (n1, Inr ())"
      using become_follower_outcome[OF refl p(1), of "message_term m" None] by (metis old.unit.exhaust prod.collapse)
    then have n1: "persisted n1" "n_current_term n1 = message_term m"
      using become_follower_outcome[OF bf[symmetric] p(1)] True by auto
    have "sound_step (vote_reply_of m) n1 (fst (dispatch m n1 []))"
      using n1 p(2) by (intro dispatch_sound) (auto simp: term_room_def)
    then have "n_current_term (fst (fst (dispatch m n1 []))) \<noteq> n_current_term n"
      using n1(2) True by (auto simp: sound_step_def ballot_step_def)
    with True show ?thesis by (simp add: handle_message_generic[OF False] bf kept_def)
  next
    case nt: False
    have "n_current_term n \<noteq> u64_max" using p(2) by (simp add: term_room_def)
    from dispatch_kept[OF h this] nt show ?thesis by (simp add: handle_message_generic[OF False])
  qed
qed

text \<open>A message and a tick, as steps.\<close>

lemma message_step:
  assumes "P (n, [])" "is_leader n" "persisted n" "term_room (Message m) n" "step (Message m) n = (n', r)"
    and "is_leader n'" "get_term n' = get_term n"
  shows "\<exists>acts. r = Inr acts \<and> P (n', acts)"
  using message_kept[OF assms(1) _ assms(3,4)] assms(2,5-7)
  by (auto simp: step_def finish_def kept_def is_leader_def get_term_def split: prod.splits)

end

subsection \<open>Leadership transfer\<close>

definition signal :: "node_id \<Rightarrow> node \<Rightarrow> action" where
  "signal t n = Send t (TimeoutNow \<lparr>tn_term = n_current_term n, tn_leader = n_id n\<rparr>)"

text \<open>The target is kept by a leader until it has been signalled.\<close>

definition handing :: "node_id \<Rightarrow> node \<Rightarrow> ctx \<Rightarrow> bool" where
  "handing t n0 m \<longleftrightarrow> n_id (fst m) = n_id n0 \<and> n_current_term (fst m) = n_current_term n0
     \<and> (n_role (fst m) = Leader \<longrightarrow> n_transfer_target (fst m) = Some t
          \<or> n_transfer_target (fst m) = None \<and> signal t n0 \<in> set (snd m))"

lemma drain_loop_adds: "set acts \<subseteq> set (snd (drain_loop n acts))"
proof (induction n acts rule: drain_loop.induct)
  case (1 n acts)
  then show ?case by (subst drain_loop.simps) (auto simp: Let_def)
qed

lemma advance_commit_adds: "set acts \<subseteq> set (snd (advance_commit n acts))"
  using drain_loop_adds[of acts "n\<lparr>n_commit_index := commit_scan n (ml_last_index (n_log n))\<rparr>"]
  by (auto simp: advance_commit_def Let_def case_prod_unfold drain_applies_def maybe_hint_snapshot_def
      split: option.splits)

lemma send_append_adds: "set acts \<subseteq> set (snd (send_append i n acts))"
  by (auto simp: send_append_def send_snapshot_def Let_def split: option.splits)

interpretation hd: leadership "handing t n0" for t n0
proof (unfold_locales, goal_cases)
  case (1 n acts)
  then show ?case
    using advance_commit_role[of n acts] advance_commit_adds[of acts n] by (auto simp: handing_def frame_simps)
next
  case (2 n acts i)
  then show ?case using send_append_adds[of acts i n] by (auto simp: handing_def frame_simps)
next
  case (3 n acts u)
  then show ?case by (auto simp: handing_def maybe_send_timeout_now_def signal_def Let_def)
qed (auto simp: handing_def frame_simps)

text \<open>
  C36: While a leader hands over to a target it declines every proposal and every membership change,
  and stays as it is. It goes on handing over until it has signalled the target to campaign, is
  told to hand over to another, or no longer leads the term; so however often it ticks, the
  transfer does not lapse.
\<close>

theorem transfer_in_progress:
  assumes "is_leader n" "n_transfer_target n = Some t" "persisted n" "term_room ev n"
    and "\<forall>u. ev \<noteq> TransferLeadership u" "step ev n = (n', r)"
  shows "(is_leader n' \<and> get_term n' = get_term n \<longrightarrow> n_transfer_target n' = Some t
       \<or> n_transfer_target n' = None \<and> (\<exists>acts. r = Inr acts \<and> signal t n \<in> set acts))
    \<and> (ev = Tick \<longrightarrow> is_leader n' \<and> n_transfer_target n' = Some t)
    \<and> ((\<exists>c. ev = Propose c) \<or> (\<exists>i. ev = AddServer i \<or> ev = RemoveServer i) \<longrightarrow>
         n' = n \<and> r = Inl (NotLeader (n_leader_id n)))"
proof (cases ev)
  case (Message m)
  have "handing t n (n, [])" using assms(2) by (simp add: handing_def)
  from hd.message_step[OF this assms(1,3) _ _] assms(1,4,6) Message show ?thesis
    by (fastforce simp: handing_def is_leader_def)
next
  case Tick
  have "n_role (fst (fst (tick n))) = Leader \<and> n_transfer_target (fst (fst (tick n))) = Some t"
    using assms(1,2) by (simp add: tick_def is_leader_def Let_def frame_simps)
  with Tick assms(6) show ?thesis by (auto simp: step_def fst_finish is_leader_def dest: arg_cong[of _ _ fst])
next
  case (SnapshotEvent i d)
  have "n_transfer_target (fst (handle_snapshot_event i d n)) = n_transfer_target n"
    by (simp add: handle_snapshot_event_def Let_def case_prod_unfold frame_simps ml_sync_def
        log_op_apply_snapshot split: option.split)
  with SnapshotEvent assms(2,6) show ?thesis by (auto simp: step_def)
qed (use assms in \<open>auto simp: step_def propose_def change_membership_def is_leader_def\<close>)

text \<open>A leader that has yet to hear from the node it hands over to.\<close>

definition handing_over :: node where
  "handing_over = fst (step (TransferLeadership 2) proposed)"

definition handing_sample :: "node \<Rightarrow> bool" where
  "handing_sample n \<longleftrightarrow> is_leader n \<and> n_transfer_target n = Some 2 \<and> persisted n \<and> n_leader_id n = Some 1
     \<and> n_current_term n \<noteq> u64_max"

lemma handing_over_sample: "handing_sample handing_over"
  by code_simp

theorem transfer_in_progress_witness:
  "is_leader (fst (step Tick handing_over)) \<and> n_transfer_target (fst (step Tick handing_over)) = Some 2
   \<and> step (Propose [7]) handing_over = (handing_over, Inl (NotLeader (Some 1)))"
proof -
  note S = handing_over_sample[unfolded handing_sample_def]
  have room: "term_room Tick handing_over" "term_room (Propose [7]) handing_over" using S by (simp_all add: term_room_def)
  obtain a b x y where ab: "step Tick handing_over = (a, b)" "step (Propose [7]) handing_over = (x, y)"
    by fastforce
  from S transfer_in_progress[OF _ _ _ room(1) _ ab(1), of 2] transfer_in_progress[OF _ _ _ room(2) _ ab(2), of 2] ab
  show ?thesis by auto
qed

subsection \<open>Membership changes\<close>

text \<open>A leader that has no entry of its own term, and does not know its configuration to be
  committed.\<close>

definition unsettled :: "node \<Rightarrow> bool" where
  "unsettled n \<longleftrightarrow> is_leader n \<and> n_commit_index n < n_config_index n
     \<and> (\<forall>i. ml_term_at (n_log n) i \<noteq> Some (n_current_term n))"

definition waiting :: "node \<Rightarrow> ctx \<Rightarrow> bool" where
  "waiting n0 m \<longleftrightarrow> (n_role (fst m) = Leader \<longrightarrow> n_current_term (fst m) = n_current_term n0
     \<and> same_log (n_log n0) (n_log (fst m)) \<and> n_commit_index (fst m) = n_commit_index n0
     \<and> n_config_index (fst m) = n_config_index n0)
   \<and> (\<forall>i. ml_term_at (n_log n0) i \<noteq> Some (n_current_term n0))"

lemma commit_scan_none:
  "\<forall>i. ml_term_at (n_log n) i \<noteq> Some (n_current_term n) \<Longrightarrow> commit_scan n i = n_commit_index n"
proof (induction n i rule: commit_scan.induct)
  case (1 n i)
  then show ?case by (subst commit_scan.simps) (auto split: option.split)
qed

lemma waiting_advance: "waiting n0 (n, acts) \<Longrightarrow> waiting n0 (advance_commit n acts)"
proof (cases "n_role n = Leader")
  case True
  assume w: "waiting n0 (n, acts)"
  with True have "commit_scan n i = n_commit_index n" for i
    by (intro commit_scan_none) (auto simp: waiting_def same_log_reads)
  with w show ?thesis by (simp add: advance_commit_def Let_def)
next
  case False
  assume "waiting n0 (n, acts)"
  with False advance_commit_role[of n acts] show ?thesis by (auto simp: waiting_def)
qed

interpretation wt: leadership "waiting n0" for n0
proof (unfold_locales, goal_cases)
  case 1
  then show ?case by (rule waiting_advance)
next
  case (5 n acts v h)
  then show ?case using same_log_trans[OF _ same_log_hard] by (auto simp: waiting_def)
qed (auto simp: waiting_def frame_simps)

lemma unsettled_declines:
  "unsettled n \<Longrightarrow> change_membership n a d =
     (n, Inl (if n_transfer_target n = None then ConfigInProgress else NotLeader (n_leader_id n)))"
  by (simp add: change_membership_def unsettled_def is_leader_def)

text \<open>
  C37: A leader with no entry of its own term learns nothing about the commitment of the
  configuration it took over: whatever messages, ticks, membership changes and transfers it is
  given, as long as it leads the term its log and its commit index stay, and every membership
  change is declined without effect. Only a proposal gets it out.
\<close>

theorem membership_change_waits:
  assumes "unsettled n" "persisted n" "term_room ev n" "step ev n = (n', r)"
    and "\<forall>c. ev \<noteq> Propose c" "\<forall>i d. ev \<noteq> SnapshotEvent i d"
  shows "(is_leader n' \<and> get_term n' = get_term n \<longrightarrow> unsettled n' \<and> n_commit_index n' = n_commit_index n)
    \<and> ((\<exists>i. ev = AddServer i \<or> ev = RemoveServer i) \<longrightarrow>
         n' = n \<and> r = Inl (if n_transfer_target n = None then ConfigInProgress else NotLeader (n_leader_id n)))"
proof -
  have w: "waiting n (n, [])" using assms(1) by (simp add: waiting_def unsettled_def)
  have still: "unsettled n' \<and> n_commit_index n' = n_commit_index n" if "waiting n (n', acts)" "is_leader n'" for acts
    using that assms(1) by (auto simp: waiting_def unsettled_def is_leader_def same_log_reads)
  have lead: "is_leader n" using assms(1) by (simp add: unsettled_def)
  show ?thesis
  proof (cases ev)
    case (Message m)
    with wt.message_step[OF w lead assms(2)] assms(3,4) still show ?thesis by fastforce
  next
    case Tick
    have "waiting n (fst (tick n))"
      using wt.to_all[of n "n\<lparr>n_heartbeat_elapsed := 0\<rparr>" "[]"] w lead
      by (auto simp: tick_def is_leader_def Let_def waiting_def)
    with still[of "snd (fst (tick n))"] assms(4) Tick show ?thesis
      by (auto simp: step_def fst_finish dest!: arg_cong[of _ _ fst])
  next
    case (TransferLeadership t)
    have "waiting n (fst (transfer_leadership n t), [])"
      using w by (simp add: transfer_leadership_def Let_def case_prod_unfold waiting_def frame_simps split: option.split)
    with still assms(4) TransferLeadership show ?thesis by (auto simp: step_def)
  qed (use assms lead unsettled_declines[OF assms(1)] in \<open>auto simp: step_def\<close>)
qed

text \<open>Node 2 takes over with an entry of the term before that adds node 4.\<close>

definition successor :: node where
  "successor = fold deliver
     [AppendEntries (append_7\<lparr>ae_entries := [entry_config 1 1 [1, 2, 3, 4]]\<rparr>), TimeoutNow \<lparr>tn_term = 1, tn_leader = 1\<rparr>,
      RequestVoteReply \<lparr>rvr_term = 2, rvr_vote_granted = True, rvr_from = 1\<rparr>,
      RequestVoteReply \<lparr>rvr_term = 2, rvr_vote_granted = True, rvr_from = 3\<rparr>] fresh"

lemma no_own_entry:
  assumes "ml_inv l" "list_all (\<lambda>e. le_term e \<noteq> t) (ml_entries l)" "ml_base_term l \<noteq> t"
  shows "ml_term_at l i \<noteq> Some t"
proof (cases "ml_slot l i")
  case (Some s)
  then have "le_term (ml_entries l ! s) \<noteq> t"
    using assms(2) ml_slot_in_bounds[OF assms(1)] by (simp add: list_all_length)
  with assms(3) Some show ?thesis by (simp add: ml_term_at_def)
qed (use assms(3) in \<open>simp add: ml_term_at_def\<close>)

text \<open>What the theorem asks for, as a test that evaluates.\<close>

definition stuck_sample :: "node \<Rightarrow> bool" where
  "stuck_sample n \<longleftrightarrow> ml_inv (n_log n) \<and> list_all (\<lambda>e. le_term e \<noteq> n_current_term n) (ml_entries (n_log n))
     \<and> ml_base_term (n_log n) \<noteq> n_current_term n \<and> is_leader n \<and> n_commit_index n < n_config_index n
     \<and> persisted n \<and> n_transfer_target n = None \<and> n_current_term n \<noteq> u64_max
     \<and> is_leader (fst (step Tick n)) \<and> get_term (fst (step Tick n)) = get_term n"

lemma successor_stuck: "stuck_sample successor"
  by code_simp

theorem membership_change_waits_witness:
  "unsettled (fst (step Tick successor)) \<and> step (RemoveServer 1) successor = (successor, Inl ConfigInProgress)"
proof -
  note S = successor_stuck[unfolded stuck_sample_def]
  have u: "unsettled successor" using S no_own_entry by (simp add: unsettled_def)
  have room: "term_room Tick successor" "term_room (RemoveServer 1) successor" using S by (simp_all add: term_room_def)
  obtain a b x y where ab: "step Tick successor = (a, b)" "step (RemoveServer 1) successor = (x, y)" by fastforce
  from S membership_change_waits[OF u _ room(1) ab(1)] membership_change_waits[OF u _ room(2) ab(2)] ab
  show ?thesis by auto
qed

end
