(* ===== verification/Node_Mail.thy ===== *)
theory Node_Mail
  imports Cluster Append_Properties Leader_Properties
begin

text \<open>
  What a node of fixed membership sends, and to whom, as long as no leadership transfer is
  under way: every message carries its sender and, but for a pre-vote, its sender's term; it
  goes to another member; and no index in it lies beyond a bound that only a proposal
  raises. The term of a node rises only in an election, which needs a pre-vote first.
\<close>

subsection \<open>Letters\<close>

fun sender :: "message \<Rightarrow> node_id" where
  "sender (PreVote m) = pv_candidate m"
| "sender (PreVoteReply m) = pvr_from m"
| "sender (RequestVote m) = rv_candidate m"
| "sender (RequestVoteReply m) = rvr_from m"
| "sender (AppendEntries m) = ae_leader m"
| "sender (AppendEntriesReply m) = aer_from m"
| "sender (InstallSnapshot m) = ins_leader m"
| "sender (InstallSnapshotReply m) = insr_from m"
| "sender (TimeoutNow m) = tn_leader m"

text \<open>The last index a message would have its receiver store.\<close>

fun extent :: "message \<Rightarrow> nat" where
  "extent (AppendEntries m) =
     (if ae_entries m = [] then 0 else unat (ae_prev_log_index m) + length (ae_entries m))"
| "extent (InstallSnapshot m) = unat (sn_index (ins_snapshot m))"
| "extent _ = 0"

definition is_pre_vote :: "message \<Rightarrow> bool" where
  "is_pre_vote m = (case m of PreVote _ \<Rightarrow> True | _ \<Rightarrow> False)"

definition is_timeout_now :: "message \<Rightarrow> bool" where
  "is_timeout_now m = (case m of TimeoutNow _ \<Rightarrow> True | _ \<Rightarrow> False)"

definition is_install :: "message \<Rightarrow> bool" where
  "is_install m = (case m of InstallSnapshot _ \<Rightarrow> True | _ \<Rightarrow> False)"

lemma kind_simps [simp]:
  "is_pre_vote (PreVote a)" "\<not> is_pre_vote (PreVoteReply b)" "\<not> is_pre_vote (RequestVote c)"
  "\<not> is_pre_vote (RequestVoteReply d)" "\<not> is_pre_vote (AppendEntries e)"
  "\<not> is_pre_vote (AppendEntriesReply f)" "\<not> is_pre_vote (InstallSnapshot g)"
  "\<not> is_pre_vote (InstallSnapshotReply h)" "\<not> is_pre_vote (TimeoutNow k)"
  "\<not> is_timeout_now (PreVote a)" "\<not> is_timeout_now (PreVoteReply b)"
  "\<not> is_timeout_now (RequestVote c)" "\<not> is_timeout_now (RequestVoteReply d)"
  "\<not> is_timeout_now (AppendEntries e)" "\<not> is_timeout_now (AppendEntriesReply f)"
  "\<not> is_timeout_now (InstallSnapshot g)" "\<not> is_timeout_now (InstallSnapshotReply h)"
  "is_timeout_now (TimeoutNow k)"
  "\<not> is_install (PreVote a)" "\<not> is_install (PreVoteReply b)" "\<not> is_install (RequestVote c)"
  "\<not> is_install (RequestVoteReply d)" "\<not> is_install (AppendEntries e)"
  "\<not> is_install (AppendEntriesReply f)" "is_install (InstallSnapshot g)"
  "\<not> is_install (InstallSnapshotReply h)" "\<not> is_install (TimeoutNow k)"
  by (simp_all add: is_pre_vote_def is_timeout_now_def is_install_def)

text \<open>A policy says which snapshots and which commands the application hands to the nodes. What
  it says holds wherever they end up: in messages, in logs and among the commands applied.\<close>

record policy =
  po_snapshot :: "raft_index \<Rightarrow> byte list \<Rightarrow> bool"
  po_command :: "byte list \<Rightarrow> bool"

definition no_snapshots :: policy where
  "no_snapshots = \<lparr>po_snapshot = \<lambda>_ _. False, po_command = \<lambda>_. True\<rparr>"

definition any_snapshots :: policy where
  "any_snapshots = \<lparr>po_snapshot = \<lambda>_ _. True, po_command = \<lambda>_. True\<rparr>"

fun carries :: "policy \<Rightarrow> message \<Rightarrow> bool" where
  "carries pol (AppendEntries m) \<longleftrightarrow> (\<forall>e \<in> set (ae_entries m). po_command pol (le_command e))"
| "carries pol (InstallSnapshot m) \<longleftrightarrow>
     po_snapshot pol (sn_index (ins_snapshot m)) (sn_data (ins_snapshot m))"
| "carries pol _ \<longleftrightarrow> True"

definition keeps :: "policy \<Rightarrow> memory_log \<Rightarrow> bool" where
  "keeps pol l \<longleftrightarrow> (\<forall>e \<in> set (ml_entries l). po_command pol (le_command e))
     \<and> (\<forall>d. ml_snapshot l = Some d \<longrightarrow> po_snapshot pol (ml_base_index l) d)"

text \<open>A message of node \<open>i\<close> in term \<open>t\<close>, within the bound \<open>B\<close>.\<close>

definition letter :: "policy \<Rightarrow> nat \<Rightarrow> node_id \<Rightarrow> raft_term \<Rightarrow> message \<Rightarrow> bool" where
  "letter pol B i t m \<longleftrightarrow> sender m = i \<and> \<not> is_timeout_now m \<and> carries pol m
     \<and> (is_pre_vote m \<or> message_term m = t) \<and> extent m \<le> B"

definition posted :: "policy \<Rightarrow> nat \<Rightarrow> node_id list \<Rightarrow> node_id \<Rightarrow> raft_term \<Rightarrow> action list \<Rightarrow> bool" where
  "posted pol B vs i t acts \<longleftrightarrow>
     (\<forall>to m. Send to m \<in> set acts \<longrightarrow> to \<in> set vs - {i} \<and> letter pol B i t m)"

definition stored :: "policy \<Rightarrow> nat \<Rightarrow> memory_log \<Rightarrow> bool" where
  "stored pol B l \<longleftrightarrow> ml_inv l \<and> unat (ml_last_index l) \<le> B \<and> keeps pol l"

definition settling :: "node_id list \<Rightarrow> node_id \<Rightarrow> node \<Rightarrow> bool" where
  "settling vs i n \<longleftrightarrow> n_id n = i \<and> n_voters n = vs \<and> n_transfer_target n = None
     \<and> (\<forall>p \<in> set (n_progress n). pr_id p \<in> set vs - {i})"

definition mailed :: "policy \<Rightarrow> nat \<Rightarrow> node_id list \<Rightarrow> node_id \<Rightarrow> ctx \<Rightarrow> bool" where
  "mailed pol B vs i m \<longleftrightarrow> settling vs i (fst m) \<and> stored pol B (n_log (fst m))
     \<and> posted pol B vs i (n_current_term (fst m)) (snd m)"

lemma posted_simps [simp]:
  "posted pol B vs i t []"
  "posted pol B vs i t (xs @ ys) \<longleftrightarrow> posted pol B vs i t xs \<and> posted pol B vs i t ys"
  "posted pol B vs i t (Send to m # xs) \<longleftrightarrow>
     to \<in> set vs \<and> to \<noteq> i \<and> letter pol B i t m \<and> posted pol B vs i t xs"
  "posted pol B vs i t (Apply a b c # xs) \<longleftrightarrow> posted pol B vs i t xs"
  "posted pol B vs i t (SnapshotHint a b # xs) \<longleftrightarrow> posted pol B vs i t xs"
  "posted pol B vs i t (RestoreSnapshot a b d # xs) \<longleftrightarrow> posted pol B vs i t xs"
  "posted pol B vs i t (MembershipChanged ms # xs) \<longleftrightarrow> posted pol B vs i t xs"
  by (auto simp: posted_def)

lemma posted_map:
  "posted pol B vs i t (map (\<lambda>peer. Send peer (f peer)) (filter (\<lambda>peer. peer \<noteq> i) vs))
     \<longleftrightarrow> (\<forall>peer \<in> set vs - {i}. letter pol B i t (f peer))"
  by (auto simp: posted_def)

lemma mailedI:
  "settling vs i n \<Longrightarrow> stored pol B (n_log n) \<Longrightarrow> posted pol B vs i (n_current_term n) acts \<Longrightarrow>
   mailed pol B vs i (n, acts)"
  by (simp add: mailed_def)

lemma mailedD:
  assumes "mailed pol B vs i (n, acts)"
  shows "settling vs i n" "stored pol B (n_log n)" "posted pol B vs i (n_current_term n) acts"
  using assms by (simp_all add: mailed_def)

lemma settlingD:
  assumes "settling vs i n"
  shows "n_id n = i" "n_voters n = vs" "n_transfer_target n = None"
    "p \<in> set (n_progress n) \<Longrightarrow> pr_id p \<in> set vs \<and> pr_id p \<noteq> i"
  using assms by (auto simp: settling_def)

lemma keeps_hard [simp]: "keeps pol (l\<lparr>ml_hard := h\<rparr>) \<longleftrightarrow> keeps pol l"
  by (simp add: keeps_def)

text \<open>Without snapshots a log has all its entries.\<close>

lemma keeps_none:
  assumes "keeps no_snapshots l" "ml_inv l"
  shows "ml_snapshot l = None" "ml_base_index l = 0"
proof -
  show n: "ml_snapshot l = None" using assms(1) by (simp add: keeps_def no_snapshots_def)
  with assms(2) show "ml_base_index l = 0"
    by (simp add: ml_inv_def al_wf_def ml_get_snapshot_def unat_eq_0)
qed

lemma carries_none: "carries no_snapshots m \<longleftrightarrow> \<not> is_install m"
  by (cases m) (simp_all add: no_snapshots_def)

lemma any_policy [simp]:
  "po_snapshot any_snapshots x d" "po_command any_snapshots cmd" "po_command no_snapshots cmd"
  by (simp_all add: any_snapshots_def no_snapshots_def)

lemma carries_any [simp]: "carries any_snapshots m"
  by (cases m) (simp_all add: any_snapshots_def)

lemma stored_hard [simp]: "stored pol B (l\<lparr>ml_hard := h\<rparr>) \<longleftrightarrow> stored pol B l"
  by (simp add: stored_def ml_last_index_def)

lemma stored_same: "same_log l l' \<Longrightarrow> stored pol B l' \<longleftrightarrow> stored pol B l"
  by (auto simp: same_log_def)

lemma stored_mono: "stored pol B l \<Longrightarrow> B \<le> B' \<Longrightarrow> stored pol B' l"
  by (simp add: stored_def)

lemma letter_mono: "letter pol B i t m \<Longrightarrow> B \<le> B' \<Longrightarrow> letter pol B' i t m"
  by (simp add: letter_def)

lemma posted_mono: "posted pol B vs i t acts \<Longrightarrow> B \<le> B' \<Longrightarrow> posted pol B' vs i t acts"
  by (auto simp: posted_def dest: letter_mono)

text \<open>The fields the invariant does not read.\<close>

lemma settling_upd [simp]:
  "settling vs i (n\<lparr>n_base_config := x1\<rparr>) \<longleftrightarrow> settling vs i n"
  "settling vs i (n\<lparr>n_config_index := x2\<rparr>) \<longleftrightarrow> settling vs i n"
  "settling vs i (n\<lparr>n_role := x3\<rparr>) \<longleftrightarrow> settling vs i n"
  "settling vs i (n\<lparr>n_current_term := x4\<rparr>) \<longleftrightarrow> settling vs i n"
  "settling vs i (n\<lparr>n_voted_for := x5\<rparr>) \<longleftrightarrow> settling vs i n"
  "settling vs i (n\<lparr>n_leader_id := x6\<rparr>) \<longleftrightarrow> settling vs i n"
  "settling vs i (n\<lparr>n_commit_index := x7\<rparr>) \<longleftrightarrow> settling vs i n"
  "settling vs i (n\<lparr>n_last_applied := x8\<rparr>) \<longleftrightarrow> settling vs i n"
  "settling vs i (n\<lparr>n_election_elapsed := x9\<rparr>) \<longleftrightarrow> settling vs i n"
  "settling vs i (n\<lparr>n_heartbeat_elapsed := x10\<rparr>) \<longleftrightarrow> settling vs i n"
  "settling vs i (n\<lparr>n_votes := x11\<rparr>) \<longleftrightarrow> settling vs i n"
  "settling vs i (n\<lparr>n_pre_voting := x12\<rparr>) \<longleftrightarrow> settling vs i n"
  "settling vs i (n\<lparr>n_pre_votes := x13\<rparr>) \<longleftrightarrow> settling vs i n"
  "settling vs i (n\<lparr>n_snapshot_hinted_at := x14\<rparr>) \<longleftrightarrow> settling vs i n"
  "settling vs i (n\<lparr>n_log := x15\<rparr>) \<longleftrightarrow> settling vs i n"
  "settling vs i (reset_election_timer n) \<longleftrightarrow> settling vs i n"
  by (simp_all add: settling_def reset_election_timer_frame)

lemma settling_cleared:
  "settling vs i n \<Longrightarrow> settling vs i (n\<lparr>n_progress := []\<rparr>)"
  "settling vs i n \<Longrightarrow> settling vs i (n\<lparr>n_transfer_target := None\<rparr>)"
  "settling vs i n \<Longrightarrow> settling vs i (n\<lparr>n_transfer_target := None, n_progress := []\<rparr>)"
  by (simp_all add: settling_def)

subsection \<open>The leader's operations\<close>

lemma posted_drain_loop [simp]:
  "posted pol B vs i t (snd (drain_loop n acts)) \<longleftrightarrow> posted pol B vs i t acts"
proof (induction n acts rule: drain_loop.induct)
  case (1 n acts)
  have "posted pol B vs i t (apply_action l x)" for l x
    by (simp add: apply_action_def split: option.split)
  with 1 show ?case by (subst drain_loop.simps) (simp add: Let_def)
qed

lemma posted_drain [simp]:
  "posted pol B vs i t (snd (drain_applies n acts)) \<longleftrightarrow> posted pol B vs i t acts"
  by (auto simp: drain_applies_def Let_def case_prod_unfold maybe_hint_snapshot_def split: option.split)

lemma settling_drain [simp]: "settling vs i (fst (drain_applies n acts)) \<longleftrightarrow> settling vs i n"
  by (simp add: settling_def frame_simps)

lemma mailed_advance: "mailed pol B vs i (n, acts) \<Longrightarrow> mailed pol B vs i (advance_commit n acts)"
proof -
  assume m: "mailed pol B vs i (n, acts)"
  have "posted pol B vs i t (snd (advance_commit n acts)) \<longleftrightarrow> posted pol B vs i t acts" for t
    by (simp add: advance_commit_def Let_def case_prod_unfold)
  moreover have "settling vs i (fst (advance_commit n acts))"
    using advance_commit_role[of n acts] mailedD(1)[OF m] by (auto simp: settling_def frame_simps)
  ultimately show ?thesis using mailedD[OF m] by (simp add: mailed_def frame_simps)
qed

lemma settling_upd_progress:
  assumes "settling vs i n" "\<And>p. pr_id (f p) = pr_id p"
  shows "settling vs i (upd_progress k f n)"
proof (cases "k < length (n_progress n)")
  case True
  then have "n_progress n ! k \<in> set (n_progress n)" by simp
  with assms show ?thesis
    by (auto simp: settling_def upd_progress_def dest!: set_update_subset_insert[THEN subsetD])
next
  case False
  with assms show ?thesis by (simp add: settling_def upd_progress_def list_update_beyond)
qed

lemma range_subset: "set (ml_entries_range l a b) \<subseteq> set (ml_entries l)"
  by (auto simp: ml_entries_range_def Let_def dest!: in_set_takeD in_set_dropD)

text \<open>A batch of entries ends within the log.\<close>

lemma extent_append:
  assumes inv: "ml_inv (n_log n)" and nx: "ml_base_index (n_log n) < pr_next_index (n_progress n ! k)"
  shows "extent (AppendEntries (append_message k n)) \<le> unat (ml_last_index (n_log n))"
proof (cases "pr_next_index (n_progress n ! k) \<le> ml_last_index (n_log n)")
  case False
  then show ?thesis by (simp add: append_message_def Let_def)
next
  case True
  let ?next = "pr_next_index (n_progress n ! k)" and ?l = "n_log n"
  let ?to = "min (ml_last_index ?l) (?next + n_max_batch n - 1)"
  have pos: "0 < ?next" using nx by (metis word_gt_0 word_not_simps(1))
  then have pre: "unat (?next - 1) = unat ?next - 1" by (metis unat_minus_one word_gt_0)
  have last: "unat (ml_last_index ?l) = al_last (ml_abs ?l)" by (rule mem.last_index[OF inv])
  have b: "unat (ml_base_index ?l) < unat ?next" using nx by (simp add: word_less_nat_alt)
  have le: "unat ?next \<le> al_last (ml_abs ?l)" using True last by (simp add: word_le_nat_alt)
  have "ml_entries_range ?l ?next ?to = [] \<or>
      ml_entries_range ?l ?next ?to = al_range (ml_abs ?l) (unat ?next) (unat ?to)"
    using mem.entries[OF inv, of ?next ?to] by (simp split: if_splits)
  then have "length (ml_entries_range ?l ?next ?to) \<le> al_last (ml_abs ?l) - (unat ?next - 1)"
    using b by (auto simp: al_range_def al_last_def)
  then have "unat ?next - 1 + length (ml_entries_range ?l ?next ?to) \<le> al_last (ml_abs ?l)"
    using le by linarith
  with pre last True show ?thesis by (simp add: append_message_def Let_def)
qed

lemma mailed_send_append:
  assumes m: "mailed pol B vs i (n, acts)" and k: "k < length (n_progress n)"
  shows "mailed pol B vs i (send_append k n acts)"
proof -
  note S = settlingD[OF mailedD(1)[OF m]] and D = mailedD[OF m]
  have inv: "ml_inv (n_log n)" "unat (ml_last_index (n_log n)) \<le> B"
    "keeps pol (n_log n)"
    using D(2) by (simp_all add: stored_def)
  have set: "settling vs i (fst (send_append k n acts))"
    using S settling_upd_progress[OF D(1)] D(1)
    by (simp add: send_append_def send_snapshot_def Let_def split: option.split)
  have to: "pr_id (n_progress n ! k) \<in> set vs" "pr_id (n_progress n ! k) \<noteq> i"
    using S(4)[of "n_progress n ! k"] k by simp_all
  have "posted pol B vs i (n_current_term n) (snd (send_append k n acts))"
  proof (cases "pr_next_index (n_progress n ! k) \<le> ml_snapshot_index (n_log n)")
    case True
    have "sn_index s = ml_base_index (n_log n)" "po_snapshot pol (sn_index s) (sn_data s)"
      if "ml_get_snapshot (n_log n) = Some s" for s
      using that inv(3) by (auto simp: ml_get_snapshot_def snapshot_with_config_def keeps_def)
    moreover have "unat (ml_base_index (n_log n)) \<le> B"
      using inv(1,2) by (simp add: unat_ml_last_index)
    moreover have "pr_id (n_progress (upd_progress k (\<lambda>p. p\<lparr>pr_state := Probe\<rparr>) n) ! k) = pr_id (n_progress n ! k)"
      using k by (simp add: upd_progress_def)
    ultimately show ?thesis
      using True D(3) to S(1)
      by (auto simp: send_append_def send_snapshot_def Let_def letter_def upd_progress_frame split: option.split)
  next
    case False
    then have "extent (AppendEntries (append_message k n)) \<le> B"
      using order_trans[OF extent_append[OF inv(1), of k] inv(2)]
      by (simp add: ml_snapshot_index_def not_le del: extent.simps)
    moreover have "ae_leader (append_message k n) = i" "ae_term (append_message k n) = n_current_term n"
      using S(1) by (simp_all add: append_message_def Let_def)
    moreover have "carries pol (AppendEntries (append_message k n))"
      using inv(3) by (auto simp: append_message_def Let_def keeps_def dest!: range_subset[THEN subsetD])
    ultimately show ?thesis
      using D(3) to by (simp add: send_append_message[OF False] letter_def del: extent.simps carries.simps)
  qed
  with set D(2) show ?thesis by (simp add: mailed_def frame_simps)
qed

lemma mailed_timeout:
  "mailed pol B vs i (n, acts) \<Longrightarrow> mailed pol B vs i (maybe_send_timeout_now t n acts)"
  by (simp add: maybe_send_timeout_now_def Let_def mailed_def settling_def)

interpretation ml: leader_operations "mailed pol B vs i" for pol B vs i
  by unfold_locales (rule mailed_advance mailed_send_append mailed_timeout; assumption)+

lemma mailed_upd:
  "mailed pol B vs i (n, acts) \<Longrightarrow> (\<And>p. pr_id (f p) = pr_id p) \<Longrightarrow> mailed pol B vs i (upd_progress k f n, acts)"
  using settling_upd_progress[of vs i n f k] by (simp add: mailed_def upd_progress_frame)

lemma mailed_append_reply:
  "mailed pol B vs i (n, acts) \<Longrightarrow> mailed pol B vs i (handle_append_reply r n acts)"
  by (auto simp: handle_append_reply_def Let_def frame_simps intro!: mailed_upd ml.append
      ml.tail[unfolded Let_def] dest: progress_index_Some split: option.split)

lemma mailed_snapshot_reply:
  "mailed pol B vs i (n, acts) \<Longrightarrow> mailed pol B vs i (handle_install_snapshot_reply r n acts)"
  by (auto simp: handle_install_snapshot_reply_def Let_def frame_simps intro!: mailed_upd
      ml.tail[unfolded Let_def] dest: progress_index_Some split: option.split)

subsection \<open>Elections\<close>

lemma settling_rebuild:
  "settling vs i n \<Longrightarrow> settling vs i (rebuild_progress (n\<lparr>n_role := Leader, n_leader_id := x1,
     n_heartbeat_elapsed := x2, n_transfer_target := None, n_pre_voting := x3, n_pre_votes := x4\<rparr>))"
  by (auto simp: settling_def rebuild_progress_def Let_def find_Some_iff split: option.split)

lemma mailed_become_leader:
  assumes "mailed pol B vs i (n, acts)"
  shows "mailed pol B vs i (become_leader n acts)"
proof -
  note D = mailedD[OF assms]
  have "mailed pol B vs i (replicate_to_all (rebuild_progress (n\<lparr>n_role := Leader,
      n_leader_id := Some (n_id n), n_heartbeat_elapsed := 0, n_transfer_target := None,
      n_pre_voting := False, n_pre_votes := []\<rparr>)) acts)"
    using D settling_rebuild[OF D(1)] by (intro ml.to_all mailedI) (simp_all add: frame_simps)
  then show ?thesis
    using ml.advance_after by (simp add: become_leader_def Let_def case_prod_unfold)
qed

lemma mailed_start_election:
  assumes "mailed pol B vs i (n, [])"
  shows "mailed pol B vs i (fst (start_election f n []))"
proof -
  note D = mailedD[OF assms] and S = settlingD[OF mailedD(1)[OF assms]]
  let ?m = "reset_election_timer (n\<lparr>n_role := Candidate, n_current_term := n_current_term n + 1,
      n_voted_for := Some (n_id n), n_leader_id := None, n_transfer_target := None,
      n_pre_voting := False, n_pre_votes := [], n_progress := [], n_votes := [n_id n]\<rparr>)"
  let ?n = "?m\<lparr>n_log := (n_log ?m)\<lparr>ml_hard := \<lparr>hs_term = n_current_term ?m, hs_voted_for = n_voted_for ?m\<rparr>\<rparr>\<rparr>"
  have m: "mailed pol B vs i (?n, [])"
    using D(2) S by (intro mailedI) (simp_all add: settling_def frame_simps)
  have "fst (start_election f n []) = (if quorum ?n \<le> 1 then become_leader ?n []
      else (?n, map (\<lambda>peer. Send peer (RequestVote
          \<lparr>rv_term = n_current_term ?n, rv_candidate = i, rv_last_log_index = ml_last_index (n_log ?n),
           rv_last_log_term = ml_last_term (n_log ?n), rv_force = f\<rparr>)) (filter (\<lambda>peer. peer \<noteq> i) vs)))"
    using S by (simp add: start_election_def Let_def persist_hard_state_eq frame_simps)
  moreover have "posted pol B vs i (n_current_term ?n) (map (\<lambda>peer. Send peer (RequestVote
          \<lparr>rv_term = n_current_term ?n, rv_candidate = i, rv_last_log_index = ml_last_index (n_log ?n),
           rv_last_log_term = ml_last_term (n_log ?n), rv_force = f\<rparr>)) (filter (\<lambda>peer. peer \<noteq> i) vs))"
    by (simp only: posted_map) (simp add: letter_def)
  ultimately show ?thesis
    using mailed_become_leader[OF m] mailedD(1,2)[OF m] by (simp add: mailedI split del: if_split) (simp add: mailedI)
qed

lemma mailed_start_pre_vote:
  assumes "mailed pol B vs i (n, [])"
  shows "mailed pol B vs i (fst (start_pre_vote n []))"
proof -
  note D = mailedD[OF assms] and S = settlingD[OF mailedD(1)[OF assms]]
  let ?n = "reset_election_timer (n\<lparr>n_role := Follower, n_leader_id := None, n_pre_voting := True,
      n_pre_votes := [n_id n]\<rparr>)"
  have m: "mailed pol B vs i (?n, [])" using D by (intro mailedI) (simp_all add: frame_simps)
  have "posted pol B vs i (n_current_term ?n) (map (\<lambda>peer. Send peer (PreVote
          \<lparr>pv_term = n_current_term ?n + 1, pv_candidate = i, pv_last_log_index = ml_last_index (n_log ?n),
           pv_last_log_term = ml_last_term (n_log ?n)\<rparr>)) (filter (\<lambda>peer. peer \<noteq> i) vs))"
    by (simp only: posted_map) (simp add: letter_def)
  with mailed_start_election[OF m, of False] mailedD(1,2)[OF m] S show ?thesis
    by (simp add: start_pre_vote_def Let_def mailedI frame_simps)
qed

lemma mailed_tick:
  assumes "mailed pol B vs i (n, [])"
  shows "mailed pol B vs i (fst (tick n))"
proof -
  note D = mailedD[OF assms]
  have "mailed pol B vs i (n\<lparr>n_heartbeat_elapsed := x\<rparr>, [])"
    "mailed pol B vs i (n\<lparr>n_election_elapsed := x'\<rparr>, [])" for x x'
    using D by (simp_all add: mailed_def)
  then show ?thesis
    by (simp add: tick_def Let_def ml.to_all mailed_start_pre_vote)
qed

lemma mailed_vote_reply:
  "mailed pol B vs i (n, []) \<Longrightarrow> mailed pol B vs i (handle_vote_reply r n [])"
  by (auto simp: handle_vote_reply_def Let_def mailed_def intro!: mailed_become_leader[unfolded mailed_def])

lemma mailed_become_follower:
  "mailed pol B vs i (n, []) \<Longrightarrow> mailed pol B vs i (fst (become_follower t ld n), [])"
  by (simp add: become_follower_def Let_def persist_hard_state_eq mailed_def settling_def)

lemma mailed_pre_vote_reply:
  assumes "mailed pol B vs i (n, [])"
  shows "mailed pol B vs i (fst (handle_pre_vote_reply r n []))"
proof -
  have "mailed pol B vs i (n\<lparr>n_pre_voting := False, n_pre_votes := []\<rparr>, [])"
    "mailed pol B vs i (n\<lparr>n_pre_votes := x\<rparr>, [])" for x
    using assms by (simp_all add: mailed_def)
  with assms mailed_become_follower[OF this(1)] mailed_start_election[OF this(2)] show ?thesis
    by (simp add: handle_pre_vote_reply_def Let_def with_acts_def case_prod_unfold)
qed

lemma mailed_request_vote:
  "mailed pol B vs i (n, []) \<Longrightarrow> rv_candidate rv \<in> set vs - {i} \<Longrightarrow>
   mailed pol B vs i (fst (handle_request_vote rv n []))"
  by (auto simp: handle_request_vote_def Let_def persist_hard_state_eq mailed_def letter_def frame_simps
      dest: settlingD)

lemma mailed_pre_vote:
  "mailed pol B vs i (n, []) \<Longrightarrow> pv_candidate pv \<in> set vs - {i} \<Longrightarrow>
   mailed pol B vs i (handle_pre_vote pv n [])"
  by (auto simp: handle_pre_vote_def Let_def mailed_def letter_def dest: settlingD)

subsection \<open>The follower\<close>

lemma settling_refresh:
  assumes "settling vs i n" "plain vs n" "ml_inv (n_log n)"
  shows "settling vs i (fst (refresh_config n acts))"
    "posted pol B vs i t (snd (refresh_config n acts)) \<longleftrightarrow> posted pol B vs i t acts"
proof -
  have r: "refresh_config n acts = set_config n vs 0 acts"
    using assms(2) latest_config_plain[OF assms(3), of vs] by (simp add: refresh_config_def plain_def)
  show "settling vs i (fst (refresh_config n acts))"
    using assms(1) by (auto simp: r set_config_def Let_def settling_def rebuild_progress_def
        find_Some_iff split: option.split)
  show "posted pol B vs i t (snd (refresh_config n acts)) \<longleftrightarrow> posted pol B vs i t acts"
    by (simp add: r set_config_def Let_def)
qed

text \<open>What the leader sends is appended without an error, within the bound.\<close>

lemma stored_append:
  assumes st: "stored pol B l" and acc: "accepts ae l" and ix: "indexed_from (unat (ae_prev_log_index ae)) (ae_entries ae)"
    and es: "ae_entries ae \<noteq> []" "extent (AppendEntries ae) \<le> B" and B: "B < 2 ^ 63"
    and cs: "carries pol (AppendEntries ae)"
  shows "\<exists>l' m tr. append_from_leader (ae_entries ae) l = (l', Inr (m, tr)) \<and> stored pol B l'"
proof (cases "agrees l (ae_entries ae)")
  case True
  with st append_from_leader_agrees show ?thesis by blast
next
  case False
  let ?p = "unat (ae_prev_log_index ae)"
  have inv: "ml_inv l" using st by (simp add: stored_def)
  have p: "al_base (ml_abs l) \<le> ?p" "?p \<le> al_last (ml_abs l)"
    using acc mem.term_at_None[OF inv, of "ae_prev_log_index ae"] mem.last_index[OF inv]
    by (auto simp: accepts_def word_le_nat_alt word_less_nat_alt not_less ml_snapshot_index_def)
  have room: "?p + length (ae_entries ae) < 2 ^ 64" using es B by simp
  obtain k l' tr where k: "k < length (ae_entries ae)"
    "append_from_leader (ae_entries ae) l = (l', Inr (le_index (last (ae_entries ae)), tr))" "ml_inv l'"
    "ml_abs l' = al_append (al_truncate (ml_abs l) (?p + k + 1)) (drop k (ae_entries ae))"
    "?p + k \<le> al_last (ml_abs l)"
    using append_from_leader_conflict[OF inv ix p False room] by blast
  have b: "unat (ml_base_index l') = unat (ml_base_index l)" "ml_get_snapshot l' = ml_get_snapshot l"
    using k(4) ml_abs_sel(1,4)[of l'] by (simp_all add: al_append_def al_truncate_def)
  have "al_last (ml_abs l') = ?p + length (ae_entries ae)"
    using k(1,4,5) p by (auto simp: al_append_def al_truncate_def al_last_def min_def)
  then have "unat (ml_last_index l') \<le> B" using mem.last_index[OF k(3)] es by simp
  moreover have "ml_base_index l' = ml_base_index l" using b(1) by (simp add: word_unat_eq_iff)
  moreover have "ml_snapshot l' = ml_snapshot l"
    using arg_cong[OF b(2), of "map_option sn_data"]
    by (simp add: ml_get_snapshot_def snapshot_with_config_def option.map_comp comp_def option.map_ident)
  moreover have "set (ml_entries l') \<subseteq> set (ml_entries l) \<union> set (ae_entries ae)"
  proof -
    have "ml_entries l' = take (?p + k - unat (ml_base_index l)) (ml_entries l) @ drop k (ae_entries ae)"
      using k(4) ml_abs_sel(3)[of l'] by (simp add: al_append_def al_truncate_def)
    then show ?thesis by (auto dest: in_set_takeD in_set_dropD)
  qed
  ultimately have "keeps pol l'" using st cs by (fastforce simp: stored_def keeps_def)
  with \<open>unat (ml_last_index l') \<le> B\<close> show ?thesis using k(2,3) by (auto simp: stored_def)
qed

lemma append_handled:
  assumes m: "mailed pol B vs i (n, [])" and pl: "plain vs n" and ldr: "ae_leader ae \<in> set vs - {i}"
    and msg: "plain_message vs (AppendEntries ae)" "extent (AppendEntries ae) \<le> B" "B < 2 ^ 63"
      "carries pol (AppendEntries ae)"
    and ix: "accepts ae (n_log n) \<Longrightarrow> indexed_from (unat (ae_prev_log_index ae)) (ae_entries ae)"
  shows "snd (handle_append_entries ae n []) = Inr () \<and> mailed pol B vs i (fst (handle_append_entries ae n []))"
proof -
  note D = mailedD[OF m] and S = settlingD[OF mailedD(1)[OF m]]
  have inv: "ml_inv (n_log n)" and pll: "plain_log vs (n_log n)"
    using D(2) pl by (simp_all add: stored_def plain_def)
  have es: "\<forall>e \<in> set (ae_entries ae). members e = None" using msg by (simp add: plain_message_def)
  have reply: "posted pol B vs i t [ae_reply n' ae a b c d]" if "n_id n' = i" "n_current_term n' = t" for n' :: node and a b c d t
    using ldr that by (simp add: ae_reply_def letter_def)
  show ?thesis
  proof (cases "accepts ae (n_log n) \<and> ae_entries ae \<noteq> []")
    case True
    then obtain l' mt tr where l: "append_from_leader (ae_entries ae) (n_log n) = (l', Inr (mt, tr))" "stored pol B l'"
      using stored_append[OF D(2) _ ix _ msg(2,3,4)] by blast
    have "plain_log vs l'" "ml_inv l'"
      using append_from_leader_plain[OF pll es] l by (simp_all add: stored_def)
    with True l m pl S reply D show ?thesis
      by (auto simp: handle_append_entries_def Let_def case_prod_unfold frame_simps accepts_def
          mailed_def settling_refresh plain_def)
  next
    case False
    with m pl S reply D inv show ?thesis
      by (auto simp: handle_append_entries_def Let_def case_prod_unfold frame_simps accepts_def
          mailed_def settling_refresh plain_def split: option.split)
  qed
qed

lemma stored_install:
  assumes st: "stored pol B l" and idx: "unat (sn_index s) \<le> B" "po_snapshot pol (sn_index s) (sn_data s)"
  shows "stored pol B (fst (ml_apply_snapshot l s))"
proof (cases "sn_index s \<le> ml_base_index l")
  case True
  with st show ?thesis by (simp add: ml_apply_snapshot_def)
next
  case False
  let ?l = "fst (ml_apply_snapshot l s)" and ?d = "min (unat (sn_index s - ml_base_index l)) (length (ml_entries l))"
  have inv: "ml_inv l" "ml_inv ?l" using st ml_apply_snapshot_inv by (simp_all add: stored_def)
  have d: "unat (sn_index s - ml_base_index l) = unat (sn_index s) - unat (ml_base_index l)"
    using False by (simp add: unat_sub)
  have "unat (ml_last_index ?l) \<le> max (unat (sn_index s)) (unat (ml_last_index l))"
    using False d unfolding unat_ml_last_index[OF inv(1)] unat_ml_last_index[OF inv(2)]
    by (auto simp: ml_apply_snapshot_def Let_def word_le_nat_alt)
  moreover have "keeps pol ?l"
    using st idx(2) False
    by (auto simp: stored_def keeps_def ml_apply_snapshot_def Let_def dest: in_set_dropD)
  ultimately show ?thesis using st idx inv(2) by (auto simp: stored_def max_def split: if_splits)
qed

lemma install_handled:
  assumes m: "mailed pol B vs i (n, [])" and pl: "plain vs n" and ldr: "ins_leader rpc \<in> set vs - {i}"
    and msg: "plain_message vs (InstallSnapshot rpc)" "extent (InstallSnapshot rpc) \<le> B" "carries pol (InstallSnapshot rpc)"
  shows "snd (handle_install_snapshot rpc n []) = Inr () \<and> mailed pol B vs i (fst (handle_install_snapshot rpc n []))"
proof -
  note D = mailedD[OF m] and S = settlingD[OF mailedD(1)[OF m]]
  have inv: "ml_inv (n_log n)" and pll: "plain_log vs (n_log n)"
    using D(2) pl by (simp_all add: stored_def plain_def)
  have cfg: "sn_config (ins_snapshot rpc) = vs" using msg by (simp add: plain_message_def)
  obtain l where l: "ml_apply_snapshot (n_log n) (ins_snapshot rpc) = (l, Inr ())"
    by (metis ml_apply_snapshot_never_fails prod.collapse)
  have l': "stored pol B l" "plain_log vs l" "ml_inv l"
    using stored_install[OF D(2), of "ins_snapshot rpc"] plain_log_snapshot[OF pll cfg] msg(2,3) l
      ml_apply_snapshot_inv[OF inv, of "ins_snapshot rpc"] by simp_all
  show ?thesis
    using m pl S D l l' ldr cfg
    by (auto simp: handle_install_snapshot_def Let_def case_prod_unfold frame_simps ml_sync_def
        mailed_def settling_refresh plain_def letter_def)
qed

subsection \<open>The whole step\<close>

text \<open>A message fit for node \<open>i\<close>: from another member, within the bound.\<close>

definition incoming :: "policy \<Rightarrow> nat \<Rightarrow> node_id list \<Rightarrow> node_id \<Rightarrow> message \<Rightarrow> bool" where
  "incoming pol B vs i m \<longleftrightarrow> sender m \<in> set vs - {i} \<and> \<not> is_timeout_now m \<and> carries pol m
     \<and> extent m \<le> B \<and> plain_message vs m"

definition indexed_batch :: "message \<Rightarrow> memory_log \<Rightarrow> bool" where
  "indexed_batch m l \<longleftrightarrow> (case m of
     AppendEntries ae \<Rightarrow> accepts ae l \<longrightarrow> indexed_from (unat (ae_prev_log_index ae)) (ae_entries ae)
   | _ \<Rightarrow> True)"

lemma indexed_batch_same: "same_log l l' \<Longrightarrow> indexed_batch m l' \<longleftrightarrow> indexed_batch m l"
  using same_log_reads[of l l'] same_log_sel[of l l']
  by (auto simp: indexed_batch_def accepts_def ml_snapshot_index_def split: message.split)

lemma dispatch_handled:
  assumes "mailed pol B vs i (n, [])" "plain vs n" "incoming pol B vs i m" "indexed_batch m (n_log n)" "B < 2 ^ 63"
  shows "snd (dispatch m n []) = Inr () \<and> mailed pol B vs i (fst (dispatch m n []))"
proof (cases m)
  case (AppendEntries ae)
  with append_handled[of pol B vs i n ae] assms show ?thesis
    by (simp add: dispatch_def incoming_def indexed_batch_def)
next
  case (InstallSnapshot rpc)
  with install_handled[of pol B vs i n rpc] assms show ?thesis by (simp add: dispatch_def incoming_def)
next
  case (RequestVote rv)
  have "snd (handle_request_vote rv n []) = Inr ()"
    by (simp add: handle_request_vote_def Let_def persist_hard_state_eq)
  with RequestVote assms mailed_request_vote show ?thesis by (simp add: dispatch_def incoming_def)
qed (use assms in \<open>auto simp: dispatch_def incoming_def mailed_vote_reply mailed_append_reply mailed_snapshot_reply\<close>)

lemma start_election_ok [simp]: "snd (start_election f n acts) = Inr ()"
  by (simp add: start_election_def Let_def persist_hard_state_eq)

lemma message_handled:
  assumes m: "mailed pol B vs i (n, [])" and pl: "plain vs n" and inc: "incoming pol B vs i m"
    and ix: "indexed_batch m (n_log n)" and B: "B < 2 ^ 63"
  shows "snd (handle_message m n) = Inr () \<and> mailed pol B vs i (fst (handle_message m n))"
proof (cases "sticky m n \<or> (\<exists>pv. m = PreVote pv) \<or> (\<exists>r. m = PreVoteReply r)")
  case True
  have "snd (handle_pre_vote_reply r n []) = Inr ()" for r
    using become_follower_log_effect
    by (simp add: handle_pre_vote_reply_def Let_def with_acts_def case_prod_unfold)
  with True m inc mailed_pre_vote_reply[OF m] mailed_pre_vote[OF m] show ?thesis
    by (auto simp: handle_message_def incoming_def)
next
  case False
  obtain n1 where bf: "become_follower (message_term m) None n = (n1, Inr ())"
    using become_follower_log_effect[of n "message_term m" None] by (metis prod.collapse)
  have same: "same_log (n_log n) (n_log n1)"
    using become_follower_log_effect[of n "message_term m" None] bf by simp
  have "mailed pol B vs i (n1, [])" using mailed_become_follower[OF m, of "message_term m" None] bf by simp
  moreover have "plain vs n1"
    using plain_become_follower[OF plain_ctxI[OF pl, of "[]"], of "message_term m" None] bf plain_ctxD(5) by force
  moreover have "indexed_batch m (n_log n1)" using ix indexed_batch_same[OF same] by simp
  ultimately show ?thesis
    using dispatch_handled[of pol B vs i n1 m] dispatch_handled[OF m pl inc ix B] inc B bf
    by (simp add: handle_message_generic[OF False])
qed

lemma mailed_propose:
  assumes m: "mailed pol B vs i (n, [])" and B: "B < 2 ^ 63" and c: "po_command pol c"
  shows "snd (propose n c) = Inl (NotLeader (n_leader_id n)) \<and> n_role n \<noteq> Leader \<and> fst (propose n c) = n
    \<or> (\<exists>acts. snd (propose n c) = Inr acts \<and> mailed pol (B + 1) vs i (fst (propose n c), acts))"
proof (cases "n_role n = Leader")
  case True
  note D = mailedD[OF m] and S = settlingD[OF mailedD(1)[OF m]]
  let ?e = "entry_new (n_current_term n) (ml_last_index (n_log n) + 1) c"
  let ?l = "(n_log n)\<lparr>ml_entries := ml_entries (n_log n) @ [?e]\<rparr>"
  have st: "ml_inv (n_log n)" "unat (ml_last_index (n_log n)) \<le> B" using D(2) by (simp_all add: stored_def)
  then have room: "unat (ml_last_index (n_log n)) + 1 < 2 ^ 64" using B by simp
  then have inv: "ml_inv ?l" using st(1) by (intro ml_inv_snoc) (simp_all add: entry_new_def)
  moreover have "unat (ml_last_index ?l) \<le> B + 1"
    using st unfolding unat_ml_last_index[OF inv] unat_ml_last_index[OF st(1)] by simp
  moreover have "keeps pol ?l" using D(2) c by (auto simp: stored_def keeps_def entry_new_def)
  ultimately have "stored pol (B + 1) ?l" by (simp add: stored_def)
  with D(1) have "mailed pol (B + 1) vs i (n\<lparr>n_log := ?l\<rparr>, [])" by (simp add: mailed_def)
  from ml.advance_after[OF ml.to_streaming[OF this]] True S(3) show ?thesis
    by (auto simp: propose_def Let_def append_one entry_new_def ml_sync_def case_prod_unfold)
next
  case False
  then show ?thesis by (simp add: propose_def)
qed

lemma mailed_snapshot_event:
  assumes m: "mailed pol B vs i (n, [])" and pl: "plain vs n" and d: "po_snapshot pol x d"
  shows "\<exists>acts. snd (handle_snapshot_event x d n) = Inr acts
    \<and> mailed pol B vs i (fst (handle_snapshot_event x d n), acts)"
proof (cases "n_commit_index n < x \<or> n_last_applied n < x \<or> x \<le> ml_snapshot_index (n_log n)
    \<or> ml_term_at (n_log n) x = None")
  case True
  with m show ?thesis by (auto simp: handle_snapshot_event_def)
next
  case False
  note D = mailedD[OF m]
  have inv: "ml_inv (n_log n)" and pll: "plain_log vs (n_log n)"
    using D(2) pl by (simp_all add: stored_def plain_def)
  obtain t where t: "ml_term_at (n_log n) x = Some t" using False by auto
  let ?sn = "snapshot_with_config x t (config_at n x) d"
  obtain l where l: "ml_apply_snapshot (n_log n) ?sn = (l, Inr ())"
    by (metis ml_apply_snapshot_never_fails prod.collapse)
  have "x \<le> ml_last_index (n_log n)"
    using mem.term_at_None[OF inv, of x] t by (auto simp: not_less)
  then have "unat x \<le> B" using D(2) by (auto simp: stored_def word_le_nat_alt)
  then have l': "stored pol B l" "plain_log vs l" "ml_inv l"
    using stored_install[OF D(2), of ?sn] d plain_log_snapshot[OF pll, of ?sn] config_at_plain[OF pl inv] l
      ml_apply_snapshot_inv[OF inv, of ?sn] by simp_all
  have "plain vs (n\<lparr>n_base_config := config_at n x, n_log := l\<rparr>)"
    using pl l' config_at_plain[OF pl inv] by (simp add: plain_def)
  with D t False l l' show ?thesis
    by (auto simp: handle_snapshot_event_def Let_def case_prod_unfold ml_sync_def mailed_def
        settling_refresh frame_simps plain_def)
qed

subsection \<open>Terms\<close>

text \<open>
  A step in which the node adopts at most the term of the message it handles, and starts no
  pre-vote; or one in which it leaves its pre-vote for the next term.
\<close>

definition adopts :: "raft_term \<Rightarrow> node \<Rightarrow> node \<Rightarrow> bool" where
  "adopts t n n' \<longleftrightarrow> n_current_term n' \<le> max (n_current_term n) t \<and> (n_pre_voting n' \<longrightarrow> n_pre_voting n)"

definition elects :: "node \<Rightarrow> node \<Rightarrow> bool" where
  "elects n n' \<longleftrightarrow> n_current_term n' = n_current_term n + 1 \<and> \<not> n_pre_voting n'"

lemma become_leader_term [frame_simps]:
  "n_current_term (fst (become_leader n acts)) = n_current_term n"
  by (simp add: become_leader_def Let_def case_prod_unfold frame_simps)

lemma advance_pre_voting: "n_pre_voting (fst (advance_commit n acts)) \<Longrightarrow> n_pre_voting n"
  by (auto simp: advance_commit_def Let_def case_prod_unfold frame_simps step_down_to_follower_def
      split: if_splits)

lemma become_leader_pre_voting: "\<not> n_pre_voting (fst (become_leader n acts))"
  by (auto simp: become_leader_def Let_def case_prod_unfold frame_simps dest!: advance_pre_voting)

lemma start_election_elects: "elects n (fst (fst (start_election f n acts)))"
  by (simp add: elects_def start_election_def Let_def persist_hard_state_eq frame_simps
      become_leader_pre_voting)

lemma start_pre_vote_term:
  "elects n (fst (fst (start_pre_vote n acts)))
   \<or> n_current_term (fst (fst (start_pre_vote n acts))) = n_current_term n"
  using start_election_elects[of "reset_election_timer (n\<lparr>n_role := Follower, n_leader_id := None,
      n_pre_voting := True, n_pre_votes := [n_id n]\<rparr>)" False acts]
  by (auto simp: start_pre_vote_def Let_def elects_def frame_simps)

lemma tick_term:
  "elects n (fst (fst (tick n))) \<or> n_current_term (fst (fst (tick n))) = n_current_term n"
  using start_pre_vote_term[of "n\<lparr>n_election_elapsed := n_election_elapsed n + 1\<rparr>" "[]"]
  by (auto simp: tick_def Let_def elects_def frame_simps)

lemma reply_terms [frame_simps]:
  "n_current_term (fst (handle_append_reply r n acts)) = n_current_term n"
  "n_current_term (fst (handle_install_snapshot_reply rr n acts)) = n_current_term n"
  "n_current_term (fst (handle_vote_reply vr n acts)) = n_current_term n"
  "n_current_term (fst (handle_pre_vote pv n acts)) = n_current_term n"
  by (simp_all add: handle_append_reply_def handle_install_snapshot_reply_def handle_vote_reply_def
      handle_pre_vote_def Let_def case_prod_unfold frame_simps split: option.split)

lemma reply_pre_voting:
  "n_pre_voting (fst (handle_append_reply r n acts)) \<Longrightarrow> n_pre_voting n"
  "n_pre_voting (fst (handle_install_snapshot_reply rr n acts)) \<Longrightarrow> n_pre_voting n"
  "n_pre_voting (fst (handle_vote_reply vr n acts)) \<Longrightarrow> n_pre_voting n"
  by (auto simp: handle_append_reply_def handle_install_snapshot_reply_def handle_vote_reply_def
      Let_def case_prod_unfold frame_simps become_leader_pre_voting
      dest: advance_pre_voting split: option.splits if_splits)

lemma append_terms:
  "n_current_term (fst (fst (handle_append_entries ae n acts))) = n_current_term n
   \<and> (n_pre_voting (fst (fst (handle_append_entries ae n acts))) \<longrightarrow> n_pre_voting n)"
proof -
  obtain l r where lr: "append_from_leader (ae_entries ae) (n_log n) = (l, r)" by fastforce
  show ?thesis
    by (cases r) (auto simp: handle_append_entries_def Let_def case_prod_unfold frame_simps log_op_def
        with_acts_def lr split: option.splits if_splits)
qed

lemma install_terms:
  "n_current_term (fst (fst (handle_install_snapshot rpc n acts))) = n_current_term n
   \<and> (n_pre_voting (fst (fst (handle_install_snapshot rpc n acts))) \<longrightarrow> n_pre_voting n)"
proof -
  obtain l where l: "ml_apply_snapshot (n_log n) (ins_snapshot rpc) = (l, Inr ())"
    by (metis ml_apply_snapshot_never_fails prod.collapse)
  show ?thesis
    by (auto simp: handle_install_snapshot_def Let_def case_prod_unfold frame_simps ml_sync_def l
        split: if_splits)
qed

lemma dispatch_adopts: "\<not> is_timeout_now m \<Longrightarrow> adopts t n (fst (fst (dispatch m n acts)))"
  using append_terms[of _ n acts] install_terms[of _ n acts]
  by (cases m) (auto simp: adopts_def dispatch_def frame_simps handle_request_vote_def Let_def
      persist_hard_state_eq dest: reply_pre_voting split: if_splits)

lemma message_term_growth:
  assumes "\<not> is_timeout_now m"
  shows "adopts (if is_pre_vote m then 0 else message_term m) n (fst (fst (handle_message m n)))
    \<or> n_pre_voting n \<and> elects n (fst (fst (handle_message m n)))"
proof (cases "sticky m n \<or> (\<exists>pv. m = PreVote pv) \<or> (\<exists>r. m = PreVoteReply r)")
  case True
  then consider (quiet) "sticky m n \<or> (\<exists>pv. m = PreVote pv)" | (reply) r where "\<not> sticky m n" "m = PreVoteReply r"
    by blast
  then show ?thesis
  proof cases
    case quiet
    then show ?thesis by (auto simp: handle_message_def adopts_def handle_pre_vote_def)
  next
    case reply
    then show ?thesis
      using start_election_elects[of "n\<lparr>n_pre_votes := n_pre_votes n @ [pvr_from r]\<rparr>" False "[]"]
      by (auto simp: handle_message_def handle_pre_vote_reply_def adopts_def elects_def Let_def
          with_acts_def case_prod_unfold become_follower_def persist_hard_state_eq max_def)
  qed
next
  case False
  obtain n1 where bf: "become_follower (message_term m) None n = (n1, Inr ())"
    using become_follower_log_effect[of n "message_term m" None] by (metis prod.collapse)
  have "n_current_term n1 = max (n_current_term n) (message_term m)" "\<not> n_pre_voting n1"
    using become_follower_log_effect[of n "message_term m" None] bf
    by (auto simp: become_follower_def Let_def persist_hard_state_eq split: if_splits)
  with False bf dispatch_adopts[OF assms, of 0 n1] dispatch_adopts[OF assms, of "message_term m" n] show ?thesis
    by (auto simp: handle_message_generic[OF False] adopts_def is_pre_vote_def split: message.split)
qed

end
