(* ===== verification/Apply_Order.thy ===== *)
theory Apply_Order
  imports Node_Mail
begin

text \<open>
  What a step tells the application (its news), as long as no snapshot is installed: the commands of the log
  from the index after the last one applied up to the new one, in order and without gaps, and
  between them hints to take a snapshot of all that was applied so far.
\<close>

definition is_apply :: "action \<Rightarrow> bool" where
  "is_apply a = (case a of Apply _ _ _ \<Rightarrow> True | _ \<Rightarrow> False)"

fun is_hint :: "action \<Rightarrow> bool" where
  "is_hint (SnapshotHint _ _) = True"
| "is_hint _ = False"

fun is_restore :: "action \<Rightarrow> bool" where
  "is_restore (RestoreSnapshot _ _ _) = True"
| "is_restore _ = False"

abbreviation is_news :: "action \<Rightarrow> bool" where
  "is_news a \<equiv> is_apply a \<or> is_hint a \<or> is_restore a"

text \<open>\<open>told l a acts b\<close>: with the log \<open>l\<close>, the news \<open>acts\<close> take the application from \<open>a\<close> to \<open>b\<close>.\<close>

inductive told :: "memory_log \<Rightarrow> raft_index \<Rightarrow> action list \<Rightarrow> raft_index \<Rightarrow> bool" for l a where
  start: "told l a [] a"
| commands: "told l a acts b \<Longrightarrow> b \<le> c \<Longrightarrow> told l a (acts @ commands_between l b c) c"
| hint: "told l a acts b \<Longrightarrow> told l a (acts @ [SnapshotHint b t]) b"

declare told.start [simp]

definition drained :: "raft_index \<Rightarrow> ctx \<Rightarrow> bool" where
  "drained a m \<longleftrightarrow> told (n_log (fst m)) a (filter is_news (snd m)) (n_last_applied (fst m))"

lemma is_apply_simps [simp]:
  "is_apply (Apply a b c)" "\<not> is_apply (Send x y)" "\<not> is_apply (SnapshotHint d e)"
  "\<not> is_apply (RestoreSnapshot f g h)" "\<not> is_apply (MembershipChanged k)"
  by (simp_all add: is_apply_def)

lemma commands_between_same [simp]: "commands_between l a a = []"
  by (simp add: commands_between_def)

lemma commands_between_append:
  assumes "a \<le> b" "b \<le> c"
  shows "commands_between l a b @ commands_between l b c = commands_between l a c"
proof -
  have "unat a + 1 \<le> unat b + 1" "unat b + 1 \<le> unat c + 1" using assms by (simp_all add: word_le_nat_alt)
  then have "[unat a + 1..<unat b + 1] @ [unat b + 1..<unat c + 1] = [unat a + 1..<unat c + 1]"
    using upt_add_eq_append[of "unat a + 1" "unat b + 1" "unat c - unat b"] by simp
  then show ?thesis by (simp only: commands_between_def flip: concat_append map_append)
qed

lemma commands_between_news [simp]:
  "filter is_news (commands_between l a b) = commands_between l a b"
  "filter is_apply (commands_between l a b) = commands_between l a b"
proof -
  have "filter is_news (apply_action l x) = apply_action l x" "filter is_apply (apply_action l x) = apply_action l x" for x
    by (simp_all add: apply_action_def split: option.split)
  then show "filter is_news (commands_between l a b) = commands_between l a b"
    "filter is_apply (commands_between l a b) = commands_between l a b"
    by (simp_all add: commands_between_def filter_concat comp_def)
qed

lemma commands_between_log:
  "same_log l l' \<Longrightarrow> commands_between l' a b = commands_between l a b"
  using same_log_reads[of l l'] by (simp add: commands_between_def apply_action_def)

lemma told_applies: "told l a acts b \<Longrightarrow> a \<le> b \<and> filter is_apply acts = commands_between l a b"
  by (induction rule: told.induct) (auto simp: commands_between_append intro: order_trans)

lemma drained_start: "n_last_applied n' = a \<Longrightarrow> drained a (n', [])"
  using told.start by (auto simp: drained_def)

lemma drained_snoc [simp]:
  "drained a (n, acts @ [Send to m]) \<longleftrightarrow> drained a (n, acts)"
  by (simp add: drained_def)

lemma drained_hint: "drained a (n, acts) \<Longrightarrow> drained a (maybe_hint_snapshot n acts)"
  using told.hint[of "n_log n" a "filter is_news acts" "n_last_applied n"]
  by (auto simp: drained_def maybe_hint_snapshot_def Let_def split: option.split)

lemma drained_drain: "drained a (n, acts) \<Longrightarrow> drained a (drain_applies n acts)"
proof -
  assume d: "drained a (n, acts)"
  have "drained a (drain_loop n acts)"
  proof (cases "n_last_applied n \<le> n_commit_index n")
    case True
    with d told.commands[OF _ True, of "n_log n" a "filter is_news acts"] show ?thesis
      by (simp add: drain_loop_applies drained_def)
  next
    case False
    then have "drain_loop n acts = (n, acts)" by (subst drain_loop.simps) auto
    with d show ?thesis by simp
  qed
  then have "drained a (fst (drain_loop n acts), snd (drain_loop n acts))" by simp
  from drained_hint[OF this] show ?thesis by (simp add: drain_applies_def Let_def case_prod_unfold)
qed

lemma drained_advance: "drained a (n, acts) \<Longrightarrow> drained a (advance_commit n acts)"
proof -
  assume d: "drained a (n, acts)"
  then have "drained a (n\<lparr>n_commit_index := x\<rparr>, acts)" for x by (simp add: drained_def)
  note drained_drain[OF this]
  with d show ?thesis
    by (simp add: advance_commit_def Let_def case_prod_unfold drained_def step_down_to_follower_def)
qed

lemma drained_send_append: "drained a (n, acts) \<Longrightarrow> drained a (send_append k n acts)"
  by (simp add: drained_def frame_simps) (simp add: send_append_def send_snapshot_def Let_def split: option.split)

lemma drained_timeout: "drained a (n, acts) \<Longrightarrow> drained a (maybe_send_timeout_now t n acts)"
  by (simp add: drained_def maybe_send_timeout_now_def Let_def)

interpretation dr: leader_invariant "drained a" for a
  by unfold_locales (simp_all add: drained_advance drained_send_append drained_timeout,
    simp add: drained_def)

subsection \<open>The handlers\<close>

lemma drained_become_leader: "drained a (n, acts) \<Longrightarrow> drained a (become_leader n acts)"
proof -
  assume d: "drained a (n, acts)"
  have "drained a (replicate_to_all (rebuild_progress (n\<lparr>n_role := Leader, n_leader_id := Some (n_id n),
      n_heartbeat_elapsed := 0, n_transfer_target := None, n_pre_voting := False, n_pre_votes := []\<rparr>)) acts)"
    using d by (intro dr.to_all) (simp add: drained_def frame_simps)
  then show ?thesis using dr.advance_after by (simp add: become_leader_def Let_def case_prod_unfold)
qed

lemma news_map_send [simp]: "filter is_news (map (\<lambda>p. Send p (f p)) ps) = []"
  by (induction ps) simp_all

lemma drained_start_election: "drained a (fst (start_election f n []))" if "n_last_applied n = a"
proof -
  let ?m = "reset_election_timer (n\<lparr>n_role := Candidate, n_current_term := n_current_term n + 1,
      n_voted_for := Some (n_id n), n_leader_id := None, n_transfer_target := None,
      n_pre_voting := False, n_pre_votes := [], n_progress := [], n_votes := [n_id n]\<rparr>)"
  have "drained a (?m\<lparr>n_log := l\<rparr>, [])" for l using that by (intro drained_start) (simp add: frame_simps)
  from drained_become_leader[OF this] this show ?thesis
    by (simp add: start_election_def Let_def persist_hard_state_eq) (simp add: drained_def)
qed

lemma drained_tick: "drained (n_last_applied n) (fst (tick n))"
proof -
  have "drained (n_last_applied n) (n\<lparr>n_heartbeat_elapsed := x\<rparr>, [])" for x by (simp add: drained_def)
  note h = dr.to_all[OF this]
  have "drained (n_last_applied n) (fst (start_pre_vote n' []))" if "n_last_applied n' = n_last_applied n" for n'
    using that drained_start_election[of "reset_election_timer n''" "n_last_applied n" False for n'']
    by (simp add: start_pre_vote_def Let_def frame_simps) (simp add: drained_def frame_simps)
  with h show ?thesis by (simp add: tick_def Let_def) (simp add: drained_def)
qed

lemma drained_upd [simp]:
  "drained a (n\<lparr>n_commit_index := x1\<rparr>, acts) \<longleftrightarrow> drained a (n, acts)"
  "drained a (n\<lparr>n_role := x2\<rparr>, acts) \<longleftrightarrow> drained a (n, acts)"
  "drained a (n\<lparr>n_leader_id := x3\<rparr>, acts) \<longleftrightarrow> drained a (n, acts)"
  "drained a (n\<lparr>n_pre_voting := x4\<rparr>, acts) \<longleftrightarrow> drained a (n, acts)"
  "drained a (reset_election_timer n, acts) \<longleftrightarrow> drained a (n, acts)"
  "drained a (n, acts @ [ae_reply n' ae b c d e]) \<longleftrightarrow> drained a (n, acts)"
  "n_last_applied n = a \<Longrightarrow> drained a (n, [])"
  "n_last_applied n = a \<Longrightarrow> drained a (n, [ae_reply n' ae b c d e])"
  by (auto simp: drained_def reset_election_timer_frame ae_reply_def)

lemma drained_refresh: "drained a (n, acts) \<Longrightarrow> drained a (refresh_config n acts)"
  by (simp add: drained_def frame_simps)
    (simp add: refresh_config_def set_config_def Let_def split: option.split)

lemma drained_after:
  "drained a m \<Longrightarrow> drained a (drain_applies (fst m \<lparr>n_commit_index := x\<rparr>) (snd m))"
  by (intro drained_drain) simp

lemma drained_append_entries:
  assumes "n_last_applied n = a"
  shows "drained a (fst (handle_append_entries ae n []))"
proof -
  obtain l r where lr: "append_from_leader (ae_entries ae) (n_log n) = (l, r)" by fastforce
  have e: "drained a (refresh_config n' [])" "drained a (drain_applies n' [])"
    "drained a (drain_applies (fst (refresh_config n' []) \<lparr>n_commit_index := x\<rparr>) (snd (refresh_config n' [])))"
    if "n_last_applied n' = a" for n' x
    using that by (simp_all add: drained_refresh drained_drain drained_after)
  show ?thesis
    using assms
    by (cases r) (simp_all add: handle_append_entries_def Let_def case_prod_unfold log_op_def
        with_acts_def lr e reset_election_timer_frame)
qed

lemma drained_become_follower:
  "n_last_applied (fst (become_follower t ld n)) = n_last_applied n"
  by (simp add: become_follower_def Let_def persist_hard_state_eq)

lemma drained_dispatch:
  assumes "n_last_applied n = a" "\<not> is_install m"
  shows "drained a (fst (dispatch m n []))"
proof (cases m)
  case (RequestVote rv)
  with assms(1) show ?thesis
    by (simp add: dispatch_def handle_request_vote_def Let_def persist_hard_state_eq)
      (simp add: drained_def reset_election_timer_frame)
next
  case (RequestVoteReply r)
  have "drained a (n\<lparr>n_votes := x\<rparr>, [])" for x using assms(1) by simp
  with RequestVoteReply assms(1) show ?thesis
    by (simp add: dispatch_def handle_vote_reply_def Let_def drained_become_leader)
next
  case (TimeoutNow r)
  with assms(1) show ?thesis by (simp add: dispatch_def handle_timeout_now_def drained_start_election)
qed (use assms in \<open>simp_all add: dispatch_def drained_append_entries dr.append_reply dr.snapshot_reply\<close>)

lemma drained_message:
  assumes "\<not> is_install m"
  shows "drained (n_last_applied n) (fst (handle_message m n))"
proof (cases "sticky m n \<or> (\<exists>pv. m = PreVote pv) \<or> (\<exists>r. m = PreVoteReply r)")
  case True
  have "drained (n_last_applied n) (fst (handle_pre_vote_reply r n []))" for r
    using drained_start_election[of "n\<lparr>n_pre_votes := x\<rparr>" "n_last_applied n" False for x]
      drained_become_follower[of "pvr_term r" None "n\<lparr>n_pre_voting := False, n_pre_votes := []\<rparr>"]
    by (simp add: handle_pre_vote_reply_def Let_def with_acts_def case_prod_unfold)
  then show ?thesis
    using True by (auto simp: handle_message_def handle_pre_vote_def Let_def drained_def)
next
  case False
  obtain n1 where bf: "become_follower (message_term m) None n = (n1, Inr ())"
    using become_follower_log_effect[of n "message_term m" None] by (metis prod.collapse)
  with drained_become_follower[of "message_term m" None n] have "n_last_applied n1 = n_last_applied n" by simp
  with False bf assms show ?thesis
    by (simp add: handle_message_generic[OF False] drained_dispatch)
qed

lemma drained_propose:
  assumes "propose n c = (n', Inr acts)"
  shows "drained (n_last_applied n) (n', acts)"
proof -
  let ?e = "entry_new (n_current_term n) (ml_last_index (n_log n) + 1) c"
  have "drained (n_last_applied n) (n\<lparr>n_log := (n_log n)\<lparr>ml_entries := ml_entries (n_log n) @ [?e]\<rparr>\<rparr>, [])" by simp
  from dr.advance_after[OF dr.to_streaming[OF this]] assms show ?thesis
    by (auto simp: propose_def Let_def append_one entry_new_def ml_sync_def case_prod_unfold split: if_splits)
qed

text \<open>The whole step.\<close>

lemma step_told:
  assumes "step ev n = (n', Inr acts)" and "case ev of Tick \<Rightarrow> True | Message m \<Rightarrow> \<not> is_install m
    | Propose c \<Rightarrow> True | _ \<Rightarrow> False"
  shows "told (n_log n') (n_last_applied n) (filter is_news acts) (n_last_applied n')"
proof -
  have fin: "drained a (n', acts)" if "drained a (fst m)" "finish m = (n', Inr acts)" for a m
    using that by (auto simp: finish_def split: prod.splits sum.splits)
  have "drained (n_last_applied n) (n', acts)"
    using assms fin[OF drained_tick] fin[OF drained_message] drained_propose[of n _ n' acts]
    by (cases ev) (auto simp: step_def)
  then show ?thesis by (simp add: drained_def)
qed

lemma step_applies:
  assumes "step ev n = (n', Inr acts)" and "case ev of Tick \<Rightarrow> True | Message m \<Rightarrow> \<not> is_install m
    | Propose c \<Rightarrow> True | _ \<Rightarrow> False"
  shows "n_last_applied n \<le> n_last_applied n'
    \<and> filter is_apply acts = commands_between (n_log n') (n_last_applied n) (n_last_applied n')"
proof -
  have "filter is_apply (filter is_news acts) = filter is_apply acts"
    by (simp add: filter_filter conj_commute) (rule filter_cong, auto)
  with told_applies[OF step_told[OF assms]] show ?thesis by simp
qed

end
