(* ===== verification/Snapshot_Properties.thy ===== *)
theory Snapshot_Properties
  imports Apply_Order
begin

text \<open>
  The follower's side of snapshot transfer: what \<open>handle_install_snapshot\<close> of \<^verbatim>\<open>src/node.rs\<close> does
  with an \<open>InstallSnapshot\<close> of its leader.
\<close>

definition install_reply :: "install_snapshot \<Rightarrow> node \<Rightarrow> raft_index \<Rightarrow> action" where
  "install_reply rpc n i = Send (ins_leader rpc)
     (InstallSnapshotReply \<lparr>insr_term = ins_term rpc, insr_from = n_id n, insr_last_index = i\<rparr>)"

lemma refresh_restores: "filter is_restore (snd (refresh_config n acts)) = filter is_restore acts"
  by (simp add: refresh_config_def set_config_def Let_def split: option.split)

text \<open>What is left of a log above a newer snapshot.\<close>

lemma entries_above:
  assumes "ml_inv l" "ml_apply_snapshot l s = (l', Inr ())" "ml_snapshot_index l < sn_index s"
  shows "ml_entry l' j = (if sn_index s < j \<and> ml_term_at l (sn_index s) = Some (sn_term s) then ml_entry l j else None)"
proof -
  note ok = mem.apply_snapshot_ok[OF assms(1,2)]
  have "al_base (ml_abs l) < unat (sn_index s)" using assms(3) by (simp add: word_less_nat_alt ml_snapshot_index_def)
  from al_entry_install[OF this] ok show ?thesis
    by (simp add: ml_entry_abs ml_term_at_abs assms(1) word_less_nat_alt)
qed

text \<open>In the term of the message.\<close>

lemma install_outcome:
  assumes "n_current_term n = ins_term rpc" "m = handle_install_snapshot rpc n []" "s = ins_snapshot rpc"
  shows "snd m = Inr () \<and> n_role (fst (fst m)) = Follower \<and> n_leader_id (fst (fst m)) = Some (ins_leader rpc)
    \<and> n_current_term (fst (fst m)) = ins_term rpc \<and> n_id (fst (fst m)) = n_id n
    \<and> (if ml_snapshot_index (n_log n) < sn_index s \<and> n_commit_index n < sn_index s
       then n_log (fst (fst m)) = fst (ml_apply_snapshot (n_log n) s)
          \<and> n_commit_index (fst (fst m)) = sn_index s \<and> n_last_applied (fst (fst m)) = sn_index s
          \<and> filter is_restore (snd (fst m)) = [RestoreSnapshot (sn_index s) (sn_term s) (sn_data s)]
          \<and> install_reply rpc n (sn_index s) \<in> set (snd (fst m))
       else n_log (fst (fst m)) = n_log n \<and> n_commit_index (fst (fst m)) = n_commit_index n
          \<and> n_last_applied (fst (fst m)) = n_last_applied n
          \<and> snd (fst m) = [install_reply rpc n (max (ml_snapshot_index (n_log n)) (min (sn_index s) (n_commit_index n)))])"
proof -
  obtain l where l: "ml_apply_snapshot (n_log n) s = (l, Inr ())" by (metis ml_apply_snapshot_never_fails prod.collapse)
  have "ml_base_index l = sn_index s" if "ml_base_index (n_log n) < sn_index s"
    using that l by (auto simp: ml_apply_snapshot_def Let_def not_le split: if_splits)
  with l assms show ?thesis
    by (simp add: handle_install_snapshot_def Let_def case_prod_unfold frame_simps ml_sync_def refresh_restores
        install_reply_def ml_snapshot_index_def)
qed

text \<open>
  C34: A follower takes its leader's snapshot if it is newer than what it has committed, and only
  then: the snapshot becomes the boundary of its log, the entries above it stay if the log agrees
  with the snapshot there and go otherwise, it counts as committed and applied, the application
  is told once to restore it, and the reply says so. An older snapshot changes neither the log nor
  what is committed or applied, and the reply says how far the follower is.
\<close>

theorem snapshot_installed:
  assumes "ml_inv (n_log n)" "n_current_term n \<le> ins_term rpc" "s = ins_snapshot rpc"
    and "step (Message (InstallSnapshot rpc)) n = (n', r)"
  shows "\<exists>acts. r = Inr acts \<and> \<not> is_leader n' \<and> get_term n' = ins_term rpc \<and> get_leader n' = Some (ins_leader rpc)
    \<and> (if ml_snapshot_index (n_log n) < sn_index s \<and> n_commit_index n < sn_index s
       then ml_get_snapshot (n_log n') = Some s
          \<and> (\<forall>j. ml_entry (n_log n') j = (if sn_index s < j \<and> ml_term_at (n_log n) (sn_index s) = Some (sn_term s)
                                         then ml_entry (n_log n) j else None))
          \<and> n_commit_index n' = sn_index s \<and> n_last_applied n' = sn_index s
          \<and> filter is_restore acts = [RestoreSnapshot (sn_index s) (sn_term s) (sn_data s)]
          \<and> install_reply rpc n (sn_index s) \<in> set acts
       else (\<forall>j. ml_entry (n_log n') j = ml_entry (n_log n) j)
          \<and> ml_snapshot_index (n_log n') = ml_snapshot_index (n_log n)
          \<and> n_commit_index n' = n_commit_index n \<and> n_last_applied n' = n_last_applied n
          \<and> acts = [install_reply rpc n (max (ml_snapshot_index (n_log n)) (min (sn_index s) (n_commit_index n)))])"
proof -
  let ?m = "InstallSnapshot rpc"
  define n1 where "n1 = (if n_current_term n < ins_term rpc then fst (become_follower (ins_term rpc) None n) else n)"
  have n1: "same_log (n_log n) (n_log n1)" "n_last_applied n1 = n_last_applied n" "n_commit_index n1 = n_commit_index n"
    "n_current_term n1 = ins_term rpc" "n_id n1 = n_id n"
    using assms(2) become_follower_log_effect[of n "ins_term rpc" None] drained_become_follower[of "ins_term rpc" None n]
    by (auto simp: n1_def become_follower_def Let_def persist_hard_state_eq)
  have "(if n_current_term n < message_term ?m then become_follower (message_term ?m) None n else (n, Inr ())) = (n1, Inr ())"
    using become_follower_log_effect[of n "ins_term rpc" None] by (auto simp: n1_def prod_eq_iff)
  then have "handle_message ?m n = handle_install_snapshot rpc n1 []"
    by (simp add: handle_message_def sticky_def dispatch_def)
  with assms(4) have st: "finish (handle_install_snapshot rpc n1 []) = (n', r)" by (simp add: step_def)
  note I = install_outcome[OF n1(4) refl assms(3)]
  obtain acts where acts: "handle_install_snapshot rpc n1 [] = ((n', acts), Inr ())" "r = Inr acts"
    using I st by (auto simp: finish_def prod_eq_iff split: prod.splits)
  have inv: "ml_inv (n_log n1)" using same_log_inv[OF n1(1)] assms(1) by simp
  have reads: "ml_snapshot_index (n_log n1) = ml_snapshot_index (n_log n)"
    "ml_term_at (n_log n1) j = ml_term_at (n_log n) j" "ml_entry (n_log n1) j = ml_entry (n_log n) j" for j
    using same_log_reads[OF n1(1)] same_log_sel[OF n1(1)] by (simp_all add: ml_snapshot_index_def)
  obtain l where l: "ml_apply_snapshot (n_log n1) s = (l, Inr ())" by (metis ml_apply_snapshot_never_fails prod.collapse)
  have new: "ml_get_snapshot l = Some s \<and> (\<forall>j. ml_entry l j =
      (if sn_index s < j \<and> ml_term_at (n_log n) (sn_index s) = Some (sn_term s) then ml_entry (n_log n) j else None))"
    if "ml_snapshot_index (n_log n) < sn_index s"
    using mem.snapshot_boundary[OF inv l] entries_above[OF inv l] that reads l by simp
  show ?thesis
    using I acts l new reads n1(2,3,5)
    by (auto simp: is_leader_def get_term_def get_leader_def install_reply_def split: if_splits)
qed

definition install_5 :: install_snapshot where
  "install_5 = \<lparr>ins_term = 1, ins_leader = 1, ins_snapshot = snapshot_new 5 1 [9]\<rparr>"

definition behind_5 :: "node \<Rightarrow> bool" where
  "behind_5 n \<longleftrightarrow> ml_inv (n_log n) \<and> n_current_term n \<le> 1 \<and> ml_snapshot_index (n_log n) < 5 \<and> n_commit_index n < 5"

lemma appended_behind: "behind_5 appended"
  by code_simp

theorem snapshot_installed_witness:
  "\<exists>n' acts. step (Message (InstallSnapshot install_5)) appended = (n', Inr acts) \<and> n_last_applied n' = 5
     \<and> filter is_restore acts = [RestoreSnapshot 5 1 [9]] \<and> ml_entry (n_log n') 1 = None"
proof -
  note B = appended_behind[unfolded behind_5_def]
  obtain n' r where st: "step (Message (InstallSnapshot install_5)) appended = (n', r)" by fastforce
  have s: "n_current_term appended \<le> ins_term install_5" "ins_snapshot install_5 = snapshot_new 5 1 [9]"
    using B by (simp_all add: install_5_def)
  from snapshot_installed[OF _ s(1) s(2)[symmetric] st] B st show ?thesis
    by (auto simp: snapshot_new_def install_5_def)
qed

end
