(* ===== verification/Election_Liveness.thy ===== *)
theory Election_Liveness
  imports Samples Leader_Properties
begin

text \<open>
  Elections that succeed: a voter whose election timer runs out campaigns, and leads as soon as
  a majority has granted first its pre-votes and then its votes (\<^verbatim>\<open>src/node.rs\<close>: \<open>tick\<close>,
  \<open>start_pre_vote\<close>, \<open>handle_pre_vote_reply\<close>, \<open>start_election\<close>, \<open>handle_vote_reply\<close>,
  \<open>become_leader\<close>).
\<close>

text \<open>A node that handles events in turn, with all actions it returns.\<close>

definition hear_one :: "event \<Rightarrow> ctx \<Rightarrow> ctx" where
  "hear_one ev m = (case step ev (fst m) of (n, r) \<Rightarrow> (n, snd m @ (case r of Inl _ \<Rightarrow> [] | Inr acts \<Rightarrow> acts)))"

definition hear :: "event list \<Rightarrow> node \<Rightarrow> ctx" where
  "hear evs n = fold hear_one evs (n, [])"

lemma hear_from: "fold hear_one evs (n, acts) = (fst (hear evs n), acts @ snd (hear evs n))"
proof -
  have "fold hear_one evs (n, acts @ more) = (fst (fold hear_one evs (n, more)), acts @ snd (fold hear_one evs (n, more)))"
    for more by (induction evs arbitrary: n more) (simp_all add: hear_one_def split: prod.split)
  from this[of "[]"] show ?thesis by (simp add: hear_def)
qed

lemma hear_append:
  "hear (xs @ ys) n = (fst (hear ys (fst (hear xs n))), snd (hear xs n) @ snd (hear ys (fst (hear xs n))))"
  using hear_from[of ys "fst (hear xs n)" "snd (hear xs n)"] by (simp add: hear_def)

lemma hear_Nil [simp]: "hear [] n = (n, [])"
  by (simp add: hear_def)

lemma hear_Cons:
  "step ev n = (n1, Inr acts) \<Longrightarrow> hear (ev # evs) n = (fst (hear evs n1), acts @ snd (hear evs n1))"
  using hear_from[of evs n1 acts] by (simp add: hear_def hear_one_def)

text \<open>What a campaign leaves alone.\<close>

definition same_voter :: "node \<Rightarrow> node \<Rightarrow> bool" where
  "same_voter n0 n \<longleftrightarrow> n_id n = n_id n0 \<and> n_voters n = n_voters n0 \<and> same_log (n_log n0) (n_log n)"

definition others :: "node \<Rightarrow> node_id set" where
  "others n = set (n_voters n) - {n_id n}"

definition pre_vote_of :: "node \<Rightarrow> message" where
  "pre_vote_of n = PreVote \<lparr>pv_term = n_current_term n + 1, pv_candidate = n_id n,
     pv_last_log_index = ml_last_index (n_log n), pv_last_log_term = ml_last_term (n_log n)\<rparr>"

definition request_of :: "node \<Rightarrow> message" where
  "request_of n = RequestVote \<lparr>rv_term = n_current_term n + 1, rv_candidate = n_id n,
     rv_last_log_index = ml_last_index (n_log n), rv_last_log_term = ml_last_term (n_log n), rv_force = False\<rparr>"

lemma same_last_term: "same_log l l' \<Longrightarrow> ml_last_term l' = ml_last_term l"
  using same_log_sel[of l l'] by (simp add: ml_last_term_def split: list.split)

lemma same_voterD:
  assumes "same_voter n0 n"
  shows "n_id n = n_id n0" "n_voters n = n_voters n0" "quorum n = quorum n0" "is_voter n = is_voter n0"
    "ml_last_index (n_log n) = ml_last_index (n_log n0)" "ml_last_term (n_log n) = ml_last_term (n_log n0)"
    "same_log (n_log n0) (n_log n)"
  using assms by (auto simp: same_voter_def quorum_def is_voter_def same_last_term dest: same_log_reads)

lemma wins:
  assumes "is_voter n"
  shows "n_role (fst (become_leader n acts)) = Leader"
proof -
  let ?m = "replicate_to_all (rebuild_progress (n\<lparr>n_role := Leader, n_leader_id := Some (n_id n),
    n_heartbeat_elapsed := 0, n_transfer_target := None, n_pre_voting := False, n_pre_votes := []\<rparr>)) acts"
  have "is_voter (fst ?m)" "n_role (fst ?m) = Leader" using assms by (simp_all add: is_voter_def frame_simps)
  with advance_commit_role[of "fst ?m" "snd ?m"] have "n_role (fst (advance_commit (fst ?m) (snd ?m))) = Leader" by simp
  then show ?thesis by (simp add: become_leader_def Let_def case_prod_unfold)
qed

text \<open>The candidate, once it has opened its election: it leads at once if it needs no other vote.\<close>

definition campaigning :: "node \<Rightarrow> node \<Rightarrow> bool" where
  "campaigning n0 n \<longleftrightarrow> same_voter n0 n \<and> n_current_term n = n_current_term n0 + 1
     \<and> (if quorum n0 \<le> 1 then n_role n = Leader else n_role n = Candidate \<and> n_votes n = [n_id n0])"

lemma election_opens:
  assumes "same_voter n0 n" "n_current_term n = n_current_term n0" "is_voter n0"
  shows "\<exists>n' acts. start_election False n [] = ((n', acts), Inr ()) \<and> campaigning n0 n'
    \<and> (1 < quorum n0 \<longrightarrow> (\<forall>v \<in> others n0. Send v (request_of n0) \<in> set acts))"
proof -
  note S = same_voterD[OF assms(1)]
  define m where "m = fst (persist_hard_state (reset_election_timer (n\<lparr>n_role := Candidate,
      n_current_term := n_current_term n + 1, n_voted_for := Some (n_id n), n_leader_id := None,
      n_transfer_target := None, n_pre_voting := False, n_pre_votes := [], n_progress := [],
      n_votes := [n_id n]\<rparr>)))"
  have m: "n_id m = n_id n0" "n_voters m = n_voters n0" "n_current_term m = n_current_term n0 + 1" "n_role m = Candidate"
    "n_votes m = [n_id n0]" "same_log (n_log n0) (n_log m)"
    using S assms(2) same_log_trans[OF S(7) same_log_hard]
    by (simp_all add: m_def persist_hard_state_eq frame_simps)
  then have sv: "same_voter n0 m" by (simp add: same_voter_def)
  note M = same_voterD[OF sv]
  have e: "start_election False n [] = (if quorum m \<le> 1 then (become_leader m [], Inr ())
      else ((m, map (\<lambda>peer. Send peer (request_of n0)) (filter (\<lambda>peer. peer \<noteq> n_id m) (n_voters m))), Inr ()))"
    using m M by (simp add: start_election_def Let_def m_def[symmetric] persist_hard_state_eq[symmetric] request_of_def
        prod_eq_iff) (simp add: m_def persist_hard_state_eq)
  show ?thesis
  proof (cases "quorum n0 \<le> 1")
    case True
    have "campaigning n0 (fst (become_leader m []))"
      using True wins[of m "[]"] M assms(3) m(1-3,6) by (simp add: campaigning_def same_voter_def frame_simps)
    with True e M(3) show ?thesis by (cases "become_leader m []") auto
  next
    case False
    with e M(3) m sv show ?thesis by (auto simp: campaigning_def others_def)
  qed
qed

subsection \<open>Pre-votes\<close>

text \<open>The poll: how many pre-votes the node has, its own among them.\<close>

definition polling :: "node \<Rightarrow> node_id list \<Rightarrow> node \<Rightarrow> bool" where
  "polling n0 vs n \<longleftrightarrow> same_voter n0 n \<and> n_current_term n = n_current_term n0 \<and> n_pre_voting n \<and> n_pre_votes n = vs"

definition pre_granted :: "node \<Rightarrow> pre_vote_reply \<Rightarrow> bool" where
  "pre_granted n r \<longleftrightarrow> pvr_vote_granted r \<and> pvr_term r \<le> n_current_term n"

lemma poll_counts:
  assumes "polling n0 vs n" "pre_granted n0 r" "pvr_from r \<notin> set vs" "is_voter n0"
  shows "\<exists>n' acts. step (Message (PreVoteReply r)) n = (n', Inr acts)
    \<and> (if length vs + 1 < quorum n0 then polling n0 (vs @ [pvr_from r]) n'
       else campaigning n0 n' \<and> (1 < quorum n0 \<longrightarrow> (\<forall>v \<in> others n0. Send v (request_of n0) \<in> set acts)))"
proof -
  let ?n = "n\<lparr>n_pre_votes := vs @ [pvr_from r]\<rparr>"
  have p: "same_voter n0 n" "n_current_term n = n_current_term n0" "n_pre_voting n" "n_pre_votes n = vs"
    using assms(1) by (simp_all add: polling_def)
  have sv: "same_voter n0 ?n" using p(1) by (simp add: same_voter_def)
  have nl: "\<not> n_current_term n0 < pvr_term r" "pvr_vote_granted r" using assms(2) by (auto simp: pre_granted_def)
  have h: "handle_message (PreVoteReply r) n =
      (if quorum n0 \<le> length vs + 1 then start_election False ?n [] else ((?n, []), Inr ()))"
    using p nl assms(3) same_voterD(3)[OF sv]
    by (simp add: handle_message_def sticky_def handle_pre_vote_reply_def Let_def)
  show ?thesis
  proof (cases "length vs + 1 < quorum n0")
    case True
    with h p sv show ?thesis by (simp add: step_def polling_def)
  next
    case False
    with h election_opens[OF sv _ assms(4)] p(2) show ?thesis by (auto simp: step_def)
  qed
qed

lemma poll_won:
  assumes "polling n0 vs n" "\<forall>r \<in> set rs. pre_granted n0 r" "distinct (vs @ map pvr_from rs)"
    "rs \<noteq> []" "length vs + length rs = quorum n0" "is_voter n0"
  shows "\<exists>n' acts. hear (map (\<lambda>r. Message (PreVoteReply r)) rs) n = (n', acts) \<and> campaigning n0 n'
    \<and> (1 < quorum n0 \<longrightarrow> (\<forall>v \<in> others n0. Send v (request_of n0) \<in> set acts))"
  using assms
proof (induction rs arbitrary: vs n)
  case (Cons r rs)
  have r: "pre_granted n0 r" "pvr_from r \<notin> set vs" using Cons.prems(2,3) by simp_all
  obtain n1 a1 where 1: "step (Message (PreVoteReply r)) n = (n1, Inr a1)"
    "if length vs + 1 < quorum n0 then polling n0 (vs @ [pvr_from r]) n1
       else campaigning n0 n1 \<and> (1 < quorum n0 \<longrightarrow> (\<forall>v \<in> others n0. Send v (request_of n0) \<in> set a1))"
    using poll_counts[OF Cons.prems(1) r Cons.prems(6)] by blast
  show ?case
  proof (cases "rs = []")
    case True
    with 1 Cons.prems(5) show ?thesis by (auto simp: hear_Cons)
  next
    case False
    then have p: "polling n0 (vs @ [pvr_from r]) n1" using 1(2) Cons.prems(5) by (cases rs) auto
    obtain n' acts where "hear (map (\<lambda>r. Message (PreVoteReply r)) rs) n1 = (n', acts)" "campaigning n0 n'"
      "1 < quorum n0 \<longrightarrow> (\<forall>v \<in> others n0. Send v (request_of n0) \<in> set acts)"
      using Cons.IH[OF p _ _ False _ Cons.prems(6)] Cons.prems(2,3,5) by auto
    then show ?thesis by (auto simp: hear_Cons[OF 1(1)])
  qed
qed simp

subsection \<open>Votes\<close>

definition counting :: "node \<Rightarrow> node_id list \<Rightarrow> node \<Rightarrow> bool" where
  "counting n0 vs n \<longleftrightarrow> same_voter n0 n \<and> n_current_term n = n_current_term n0 + 1
     \<and> n_role n = Candidate \<and> n_votes n = vs"

definition granted_in :: "node \<Rightarrow> request_vote_reply \<Rightarrow> bool" where
  "granted_in n r \<longleftrightarrow> rvr_vote_granted r \<and> rvr_term r = n_current_term n + 1"

lemma vote_counts:
  assumes "counting n0 vs n" "granted_in n0 r" "rvr_from r \<notin> set vs" "is_voter n0"
  shows "\<exists>n' acts. step (Message (RequestVoteReply r)) n = (n', Inr acts)
    \<and> (if length vs + 1 < quorum n0 then counting n0 (vs @ [rvr_from r]) n'
       else n_role n' = Leader \<and> n_current_term n' = n_current_term n0 + 1)"
proof -
  let ?n = "n\<lparr>n_votes := vs @ [rvr_from r]\<rparr>"
  have c: "same_voter n0 n" "n_current_term n = n_current_term n0 + 1" "n_role n = Candidate" "n_votes n = vs"
    using assms(1) by (simp_all add: counting_def)
  have sv: "same_voter n0 ?n" using c(1) by (simp add: same_voter_def)
  have h: "handle_message (RequestVoteReply r) n =
      (if quorum n0 \<le> length vs + 1 then become_leader ?n [] else (?n, []), Inr ())"
    using c assms(2,3) same_voterD(3)[OF sv]
    by (simp add: handle_message_def sticky_def dispatch_def handle_vote_reply_def Let_def granted_in_def)
  show ?thesis
  proof (cases "length vs + 1 < quorum n0")
    case True
    with h c sv show ?thesis by (simp add: step_def counting_def)
  next
    case False
    have "n_role (fst (become_leader ?n [])) = Leader" "n_current_term (fst (become_leader ?n [])) = n_current_term n0 + 1"
      using wins same_voterD(4)[OF sv] assms(4) c(2) by (simp_all add: frame_simps)
    with False h show ?thesis by (cases "become_leader ?n []") (auto simp: step_def)
  qed
qed

lemma votes_won:
  assumes "counting n0 vs n" "\<forall>r \<in> set rs. granted_in n0 r" "distinct (vs @ map rvr_from rs)"
    "rs \<noteq> []" "length vs + length rs = quorum n0" "is_voter n0"
  shows "\<exists>n' acts. hear (map (\<lambda>r. Message (RequestVoteReply r)) rs) n = (n', acts)
    \<and> n_role n' = Leader \<and> n_current_term n' = n_current_term n0 + 1"
  using assms
proof (induction rs arbitrary: vs n)
  case (Cons r rs)
  have r: "granted_in n0 r" "rvr_from r \<notin> set vs" using Cons.prems(2,3) by simp_all
  obtain n1 a1 where 1: "step (Message (RequestVoteReply r)) n = (n1, Inr a1)"
    "if length vs + 1 < quorum n0 then counting n0 (vs @ [rvr_from r]) n1
       else n_role n1 = Leader \<and> n_current_term n1 = n_current_term n0 + 1"
    using vote_counts[OF Cons.prems(1) r Cons.prems(6)] by blast
  show ?case
  proof (cases "rs = []")
    case True
    with 1 Cons.prems(5) show ?thesis by (auto simp: hear_Cons)
  next
    case False
    then have p: "counting n0 (vs @ [rvr_from r]) n1" using 1(2) Cons.prems(5) by (cases rs) auto
    from Cons.IH[OF p _ _ False _ Cons.prems(6)] Cons.prems(2,3,5) show ?thesis by (auto simp: hear_Cons[OF 1(1)])
  qed
qed simp

subsection \<open>The timer\<close>

lemma tick_waits:
  assumes "n_role n \<noteq> Leader" "n_election_elapsed n + 1 < n_election_timeout n"
  shows "step Tick n = (n\<lparr>n_election_elapsed := n_election_elapsed n + 1\<rparr>, Inr [])"
  using assms(1) assms(2)[unfolded not_le[symmetric]] by (simp add: step_def finish_def tick_def Let_def)

text \<open>The tick on which the timer runs out.\<close>

lemma tick_polls:
  assumes n: "same_voter n0 n" "n_current_term n = n_current_term n0" "n_role n \<noteq> Leader" "is_voter n0"
    and e: "n_election_timeout n \<le> n_election_elapsed n + 1"
  shows "\<exists>n' acts. step Tick n = (n', Inr acts) \<and> (if quorum n0 \<le> 1 then campaigning n0 n'
      else polling n0 [n_id n0] n' \<and> (\<forall>v \<in> others n0. Send v (pre_vote_of n0) \<in> set acts))"
proof -
  let ?n = "n\<lparr>n_election_elapsed := n_election_elapsed n + 1\<rparr>"
  define m where "m = reset_election_timer (?n\<lparr>n_role := Follower, n_leader_id := None, n_pre_voting := True,
      n_pre_votes := [n_id n]\<rparr>)"
  have sv: "same_voter n0 m" using n(1) by (simp add: m_def same_voter_def frame_simps)
  note S = same_voterD[OF sv]
  have m: "n_current_term m = n_current_term n0" "n_pre_voting m" "n_pre_votes m = [n_id n0]"
    using n(1,2) by (simp_all add: m_def frame_simps same_voter_def)
  have "tick n = start_pre_vote ?n []"
    using n(3,4) e same_voterD(4)[OF n(1)] by (simp add: tick_def Let_def is_voter_def)
  also have "\<dots> = (if quorum m \<le> 1 then start_election False m []
      else ((m, map (\<lambda>peer. Send peer (pre_vote_of m)) (filter (\<lambda>peer. peer \<noteq> n_id m) (n_voters m))), Inr ()))"
    using m(3) by (simp add: start_pre_vote_def Let_def m_def[symmetric] pre_vote_of_def)
  finally have t: "tick n = \<dots>" .
  have "pre_vote_of m = pre_vote_of n0" using S m(1) by (simp add: pre_vote_of_def)
  with t S m sv election_opens[OF sv m(1) n(4)] show ?thesis
    by (cases "quorum n0 \<le> 1") (auto simp: step_def polling_def others_def)
qed

text \<open>What is left on a timer does not wrap.\<close>

lemma timer_left:
  fixes e t :: "'a :: len word"
  assumes "e < t"
  shows "unat (t - e) = unat t - unat e" "0 < unat (t - e)" "j \<le> unat (t - e) \<Longrightarrow> unat (e + word_of_nat j) = unat e + j"
proof -
  show l: "unat (t - e) = unat t - unat e" "0 < unat (t - e)"
    using assms unat_sub[OF less_imp_le[OF assms]] by (simp_all add: word_less_nat_alt)
  show "unat (e + word_of_nat j) = unat e + j" if "j \<le> unat (t - e)"
  proof -
    have "unat e + j < 2 ^ LENGTH('a)"
      using that l(1) unsigned_less[of t, where ?'a = nat] assms unfolding word_less_nat_alt by linarith
    then show ?thesis by (simp add: unat_word_ariths unat_of_nat take_bit_nat_eq_self)
  qed
qed

lemma timer_runs_out:
  assumes n: "n_role n \<noteq> Leader" "is_voter n" "n_election_elapsed n < n_election_timeout n"
    and k: "k = unat (n_election_timeout n - n_election_elapsed n)"
  shows "\<exists>n' acts. hear (replicate k Tick) n = (n', acts) \<and> (if quorum n \<le> 1 then campaigning n n'
      else polling n [n_id n] n' \<and> (\<forall>v \<in> others n. Send v (pre_vote_of n) \<in> set acts))"
proof -
  note left = timer_left[OF n(3), folded k]
  let ?at = "\<lambda>j. n\<lparr>n_election_elapsed := n_election_elapsed n + word_of_nat j\<rparr>"
  have next_at: "n_election_elapsed (?at j) + 1 = n_election_elapsed n + word_of_nat (j + 1)" for j
    by (simp add: add.commute add.left_commute)
  have waits: "hear (replicate j Tick) n = (?at j, [])" if "j < k" for j
    using that
  proof (induction j)
    case (Suc j)
    have "n_election_elapsed (?at j) + 1 < n_election_timeout (?at j)"
      unfolding next_at using left(1) left(3)[of "j + 1"] Suc.prems by (simp add: word_less_nat_alt del: of_nat_add)
    then have "step Tick (?at j) = (?at (Suc j), Inr [])"
      using tick_waits[of "?at j"] n(1) next_at[of j] by simp
    with Suc show ?case
      by (simp add: replicate_append_same[symmetric] hear_append hear_Cons del: replicate_append_same)
  qed simp
  have "n_election_timeout (?at (k - 1)) \<le> n_election_elapsed (?at (k - 1)) + 1"
    unfolding next_at using left(1,2) left(3)[of k] by (simp add: word_le_nat_alt)
  with tick_polls[of n "?at (k - 1)"] n(1,2) obtain n' acts where t: "step Tick (?at (k - 1)) = (n', Inr acts)"
    "if quorum n \<le> 1 then campaigning n n' else polling n [n_id n] n' \<and> (\<forall>v \<in> others n. Send v (pre_vote_of n) \<in> set acts)"
    by (auto simp: same_voter_def)
  have "replicate k Tick = replicate (k - 1) Tick @ [Tick]"
    using left(2) by (cases k) (simp_all add: replicate_append_same)
  with waits[of "k - 1"] left(2) t show ?thesis by (simp add: hear_append hear_Cons)
qed

text \<open>
  C14: Elections succeed: a voter that does not lead and hears nothing until its timer runs out
  asks every other voter for a pre-vote; when enough of them have granted it for a majority, it asks
  every other voter for a vote in the next term; and when enough have granted that, it leads the
  next term.
\<close>

theorem election_succeeds:
  assumes "\<not> is_leader n" "is_voter n" "n_election_elapsed n < n_election_timeout n"
    and "\<forall>r \<in> set ps. pre_granted n r" "distinct (get_id n # map pvr_from ps)" "length ps + 1 = quorum n"
    and "\<forall>r \<in> set vs. granted_in n r" "distinct (get_id n # map rvr_from vs)" "length vs + 1 = quorum n"
    and "hear (replicate (unat (n_election_timeout n - n_election_elapsed n)) Tick
        @ map (\<lambda>r. Message (PreVoteReply r)) ps @ map (\<lambda>r. Message (RequestVoteReply r)) vs) n = (n', acts)"
  shows "is_leader n' \<and> get_term n' = get_term n + 1
    \<and> (\<forall>v \<in> others n. Send v (pre_vote_of n) \<in> set acts \<and> Send v (request_of n) \<in> set acts)"
proof -
  obtain n1 a1 where 1: "hear (replicate (unat (n_election_timeout n - n_election_elapsed n)) Tick) n = (n1, a1)"
    "if quorum n \<le> 1 then campaigning n n1 else polling n [n_id n] n1 \<and> (\<forall>v \<in> others n. Send v (pre_vote_of n) \<in> set a1)"
    using timer_runs_out[OF _ assms(2,3) refl] assms(1) by (auto simp: is_leader_def)
  show ?thesis
  proof (cases "quorum n \<le> 1")
    case True
    then have "length (n_voters n) \<le> 1" by (simp add: quorum_def)
    then have "n_voters n = [n_id n]" using assms(2) by (cases "n_voters n") (auto simp: is_voter_def)
    then have no: "others n = {}" by (simp add: others_def)
    have "length ps = 0" "length vs = 0" using True assms(6,9) by linarith+
    then have "ps = []" "vs = []" by simp_all
    with 1(1) assms(10) have "n' = n1" by (simp add: hear_def)
    with True 1(2) no show ?thesis by (simp add: campaigning_def is_leader_def get_term_def)
  next
    case False
    with assms(6,9) have ne: "ps \<noteq> []" "vs \<noteq> []" by auto
    obtain n2 a2 where 2: "hear (map (\<lambda>r. Message (PreVoteReply r)) ps) n1 = (n2, a2)" "campaigning n n2"
      "\<forall>v \<in> others n. Send v (request_of n) \<in> set a2"
      using poll_won[of n "[n_id n]" n1 ps] 1(2) False ne(1) assms(2,4-6) by (auto simp: get_id_def)
    then have "counting n [n_id n] n2" using False by (simp add: counting_def campaigning_def)
    with votes_won[of n "[n_id n]" n2 vs] ne(2) assms(2,7-9) obtain n3 a3 where
      "hear (map (\<lambda>r. Message (RequestVoteReply r)) vs) n2 = (n3, a3)" "n_role n3 = Leader"
      "n_current_term n3 = n_current_term n + 1" by (auto simp: get_id_def)
    with 1 2 False assms(10) show ?thesis by (auto simp: hear_append is_leader_def get_term_def)
  qed
qed

theorem election_succeeds_witness:
  "is_leader (fst (hear [Tick, Message (PreVoteReply \<lparr>pvr_term = 0, pvr_vote_granted = True, pvr_from = 3\<rparr>),
     Message grant_by_2] (node_new (three 1))))"
proof -
  let ?n = "node_new (three 1)"
  let ?p = "\<lparr>pvr_term = 0, pvr_vote_granted = True, pvr_from = 3\<rparr> :: pre_vote_reply"
  let ?v = "\<lparr>rvr_term = 1, rvr_vote_granted = True, rvr_from = 2\<rparr> :: request_vote_reply"
  have 1: "\<not> is_leader ?n" "is_voter ?n" by code_simp+
  have 2: "n_election_elapsed ?n < n_election_timeout ?n" "unat (n_election_timeout ?n - n_election_elapsed ?n) = 1" by code_simp+
  have 3: "pre_granted ?n ?p" "granted_in ?n ?v" by code_simp+
  have 4: "get_id ?n = 1" "quorum ?n = 2" by code_simp+
  obtain n' acts where h: "hear (replicate (unat (n_election_timeout ?n - n_election_elapsed ?n)) Tick
      @ map (\<lambda>r. Message (PreVoteReply r)) [?p] @ map (\<lambda>r. Message (RequestVoteReply r)) [?v]) ?n = (n', acts)"
    by fastforce
  from election_succeeds[OF 1 2(1) _ _ _ _ _ _ h] 3 4 have "is_leader n'" by simp
  with h 2(2) show ?thesis by (simp add: grant_by_2_def)
qed

end
