(* ===== verification/Catch_Up.thy ===== *)
theory Catch_Up
  imports State_Machine_Safety Election_Liveness
begin

text \<open>
  Replication that catches up: from a heartbeat on, if the messages between a leader and one
  follower arrive, the follower gets the leader's log, whatever the two logs and the leader's view
  of the follower were (\<^verbatim>\<open>src/node.rs\<close>: \<open>send_append\<close>, \<open>handle_append_entries\<close>,
  \<open>handle_append_reply\<close>, \<open>rejected_next\<close>, \<open>send_snapshot\<close>, \<open>handle_install_snapshot\<close>,
  \<open>handle_install_snapshot_reply\<close>).
\<close>

subsection \<open>Mail to one node\<close>

definition letters_to :: "node_id \<Rightarrow> action list \<Rightarrow> message list" where
  "letters_to j acts = concat (map (\<lambda>a. case a of Send to m \<Rightarrow> if to = j then [m] else [] | _ \<Rightarrow> []) acts)"

lemma letters_to_simps [simp]:
  "letters_to j [] = []"
  "letters_to j (xs @ ys) = letters_to j xs @ letters_to j ys"
  "letters_to j (Send to m # xs) = (if to = j then m # letters_to j xs else letters_to j xs)"
  "letters_to j (Apply x t c # xs) = letters_to j xs"
  "letters_to j (SnapshotHint x t # xs) = letters_to j xs"
  "letters_to j (RestoreSnapshot x t d # xs) = letters_to j xs"
  "letters_to j (MembershipChanged ms # xs) = letters_to j xs"
  by (simp_all add: letters_to_def)






subsection \<open>What a node has stored of its term's ledger\<close>










subsection \<open>The follower answers\<close>




subsection \<open>The leader sends\<close>










subsection \<open>The leader hears\<close>









subsection \<open>One round\<close>



























subsection \<open>The heartbeat\<close>






subsection \<open>Property\<close>







end
