(* ===== verification/Log_Properties.thy ===== *)
theory Log_Properties
  imports Raft_Log Raft_Rng Raft_Config
begin

text \<open>
  Properties of the in-memory log, of the membership codec, and of the two small components a
  node is built from, its configuration and its random generator.
\<close>

definition log_of_two :: memory_log where
  "log_of_two = ml_new\<lparr>ml_entries := [entry_new 1 1 [5], entry_new 1 2 [6]]\<rparr>"

lemma log_of_two_inv: "ml_inv log_of_two"
  by (simp add: log_of_two_def ml_inv_def al_wf_def ml_new_def al_last_def ml_get_snapshot_def)

text \<open>
  Append is all or nothing and reads back: a batch that continues the log index by index is
  accepted, after which every index reads as before or, beyond the old end, as the batch; any
  other batch is rejected and leaves the log as it was.
\<close>

theorem append_reads_back:
  assumes "ml_inv l" "unat (ml_last_index l) + length es < 2 ^ 64"
  shows "if indexed_from (unat (ml_last_index l)) es
    then \<exists>l'. ml_append l es = (l', Inr ()) \<and> ml_inv l'
      \<and> unat (ml_last_index l') = unat (ml_last_index l) + length es
      \<and> (\<forall>i. ml_entry l' i = (if ml_last_index l < i \<and> unat i \<le> unat (ml_last_index l) + length es
                then Some (es ! (unat i - unat (ml_last_index l) - 1)) else ml_entry l i))
    else \<exists>e. ml_append l es = (l, Inl e)"
proof -
  have li: "unat (ml_last_index l) = al_last (ml_abs l)" by (rule mem.last_index[OF assms(1)])
  have room: "al_last (ml_abs l) + length es < 2 ^ 64" using assms(2) li by simp
  show ?thesis
  proof (cases "indexed_from (al_last (ml_abs l)) es")
    case True
    then obtain l' where l': "ml_append l es = (l', Inr ())"
      using ml_append_cases[OF assms(1) room] by auto
    note ok = mem.append_ok[OF assms(1) l' room]
    then have "unat (ml_last_index l') = unat (ml_last_index l) + length es"
      using mem.last_index[of l'] li by simp
    with True ok l' mem.append_read[OF assms(1) l' room] li show ?thesis by auto
  next
    case False
    with mem.append_reject[OF assms(1) room] li show ?thesis by simp
  qed
qed

theorem append_reads_back_witness:
  "\<exists>l'. ml_append log_of_two [entry_new 2 3 [7]] = (l', Inr ())
      \<and> ml_entry l' 3 = Some (entry_new 2 3 [7])"
proof -
  have "ml_last_index log_of_two = 2" by (simp add: log_of_two_def ml_new_def ml_last_index_def)
  with append_reads_back[OF log_of_two_inv, of "[entry_new 2 3 [7]]"] show ?thesis by auto
qed

text \<open>
  Truncation drops a suffix and nothing else: above the boundary it succeeds, keeps every
  entry before the given index and none from it on; at or below the boundary it is rejected and
  leaves the log as it was.
\<close>

theorem truncate_drops_suffix:
  assumes "ml_inv l"
  shows "if ml_snapshot_index l < i
    then \<exists>l'. ml_truncate l i = (l', Inr ()) \<and> ml_inv l'
      \<and> (\<forall>j. ml_entry l' j = (if j < i then ml_entry l j else None))
    else \<exists>e. ml_truncate l i = (l, Inl e)"
proof (cases "ml_base_index l < i")
  case True
  then obtain l' where l': "ml_truncate l i = (l', Inr ())"
    using ml_truncate_total by blast
  with mem.truncate_ok[OF assms l'] mem.truncate_read[OF assms l'] True show ?thesis
    by (auto simp: ml_snapshot_index_def)
qed (simp add: ml_snapshot_index_def ml_truncate_def not_less)

theorem truncate_drops_suffix_witness:
  "\<exists>l'. ml_truncate log_of_two 2 = (l', Inr ())
     \<and> ml_entry l' 2 = None \<and> ml_entry l' 1 = ml_entry log_of_two 1"
proof -
  have "ml_snapshot_index log_of_two = 0"
    by (simp add: log_of_two_def ml_new_def ml_snapshot_index_def)
  with truncate_drops_suffix[OF log_of_two_inv, of 2] show ?thesis by auto
qed

text \<open>
  Compaction refines the abstract log: installing a snapshot never fails, is ignored when it
  is not newer than the boundary, and otherwise makes the snapshot the boundary and keeps exactly
  the entries above it when the log has an entry of the snapshot's term there, none otherwise.
\<close>

theorem snapshot_refines:
  assumes "ml_inv l"
  shows "snd (ml_apply_snapshot l sn) = Inr ()
    \<and> ml_inv (fst (ml_apply_snapshot l sn))
    \<and> ml_abs (fst (ml_apply_snapshot l sn)) = al_install (ml_abs l) sn
    \<and> (ml_snapshot_index l < sn_index sn \<longrightarrow>
         ml_get_snapshot (fst (ml_apply_snapshot l sn)) = Some sn
       \<and> ml_term_at (fst (ml_apply_snapshot l sn)) (sn_index sn) = Some (sn_term sn))"
proof -
  obtain l' where l': "ml_apply_snapshot l sn = (l', Inr ())"
    by (metis ml_apply_snapshot_never_fails prod.collapse)
  with mem.apply_snapshot_ok[OF assms l'] mem.snapshot_boundary[OF assms l'] show ?thesis by auto
qed

theorem snapshot_refines_witness:
  "ml_term_at (fst (ml_apply_snapshot log_of_two (snapshot_new 1 1 [9]))) 1 = Some 1"
proof -
  have "ml_snapshot_index log_of_two = 0"
    by (simp add: log_of_two_def ml_new_def ml_snapshot_index_def)
  with snapshot_refines[OF log_of_two_inv, of "snapshot_new 1 1 [9]"] show ?thesis
    by (simp add: snapshot_new_def)
qed



text \<open>
  The membership codec round-trips: decoding returns the members encoded, even with up to
  seven stray bytes after them, and every byte string of whole members is the encoding of what it
  decodes to.
\<close>

theorem members_round_trip:
  "(length junk < 8 \<longrightarrow> decode_members (encode_members ids @ junk) = ids)
   \<and> (8 dvd length bs \<longrightarrow> encode_members (decode_members bs) = bs)"
  using decode_encode_append encode_decode_members by blast

theorem members_round_trip_witness:
  "decode_members (encode_members [1, 2, 18446744073709551615] @ [7]) = [1, 2, 18446744073709551615]"
  using members_round_trip[of "[7]" "[1, 2, 18446744073709551615]" "[]"] by simp

text \<open>
  Election timeouts are in range: from any configuration built with the builder methods and
  any generator state, the drawn timeout lies between the configured bounds, is at least one
  tick, and the draw consumes one generator step exactly when the range is not a single value.
\<close>

theorem timeout_in_range:
  assumes "c = fold build_step bs (config_new i peers)"
  shows "cfg_election_timeout_min c
       \<le> fst (gen_range r (cfg_election_timeout_min c) (cfg_election_timeout_max c))
    \<and> fst (gen_range r (cfg_election_timeout_min c) (cfg_election_timeout_max c))
       \<le> cfg_election_timeout_max c
    \<and> 1 \<le> fst (gen_range r (cfg_election_timeout_min c) (cfg_election_timeout_max c))
    \<and> snd (gen_range r (cfg_election_timeout_min c) (cfg_election_timeout_max c))
       = (if cfg_election_timeout_min c = cfg_election_timeout_max c then r else snd (next_u64 r))"
proof -
  have wf: "config_wf c" unfolding assms by (intro config_wf_fold config_wf_new)
  then have le: "cfg_election_timeout_min c \<le> cfg_election_timeout_max c"
    "1 \<le> cfg_election_timeout_min c" by (auto simp: config_wf_def)
  with gen_range_bounds[OF le(1), of r] show ?thesis
    by (auto simp: gen_range_def Let_def case_prod_unfold)
qed

theorem timeout_in_range_witness:
  "1 \<le> fst (gen_range (rng_new 1) (cfg_election_timeout_min (config_new 1 [2, 3]))
        (cfg_election_timeout_max (config_new 1 [2, 3])))"
  using timeout_in_range[of "config_new 1 [2, 3]" "[]" 1 "[2, 3]" "rng_new 1"] by simp

text \<open>
  C40: A configuration stays well formed: whatever sequence of builder calls is made, with
  whatever arguments, timeouts and heartbeat are at least one tick, the timeouts are in order,
  a batch holds at least one entry, and the node is not its own peer.
\<close>

theorem config_always_wf:
  "config_wf (fold build_step bs (config_new i peers))
   \<and> cfg_id (fold build_step bs (config_new i peers)) = i
   \<and> cfg_peers (fold build_step bs (config_new i peers)) = filter (\<lambda>p. p \<noteq> i) peers"
proof -
  have "cfg_id (fold build_step bs c) = cfg_id c \<and> cfg_peers (fold build_step bs c) = cfg_peers c" for c
    by (induction bs arbitrary: c) (simp_all add: build_step_identity)
  then show ?thesis by (auto simp: config_wf_fold config_wf_new) (simp_all add: config_new_def)
qed

end
