(* ===== verification/Raft_Wal.thy ===== *)
theory Raft_Wal
  imports Raft_Types
begin

text \<open>
  The record codec of \<^verbatim>\<open>src/wal_log.rs\<close>: the four kinds of record a \<open>WalLog\<close> writes, as
  bytes. A position in a record is a \<open>nat\<close>; a length field read from a record is a
  \<open>u64\<close>, and adding it to a position is checked, as in the code.
\<close>

datatype decoded =
    DEntry log_entry
  | DHardState hard_state
  | DTruncate raft_index
  | DSnapshot snapshot

definition tag_entry :: byte where "tag_entry = 1"
definition tag_hard_state :: byte where "tag_hard_state = 2"
definition tag_truncate :: byte where "tag_truncate = 3"
definition tag_snapshot :: byte where "tag_snapshot = 4"

definition record_error :: "string \<Rightarrow> rerror" where
  "record_error msg = Storage ''decode durable log record'' msg"

subsection \<open>Encoding\<close>

definition len_bytes :: "'a list \<Rightarrow> byte list" where
  "len_bytes xs = to_le_bytes (of_nat (length xs))"

definition encode_snapshot :: "snapshot \<Rightarrow> byte list" where
  "encode_snapshot s =
     tag_snapshot # to_le_bytes (sn_index s) @ to_le_bytes (sn_term s)
       @ len_bytes (sn_config s) @ encode_members (sn_config s)
       @ len_bytes (sn_data s) @ sn_data s"

fun kind_byte :: "entry_kind \<Rightarrow> byte" where
  "kind_byte NormalEntry = 0"
| "kind_byte ConfigEntry = 1"

definition kind_from_byte :: "byte \<Rightarrow> rerror + entry_kind" where
  "kind_from_byte b =
     (if b = 0 then Inr NormalEntry else if b = 1 then Inr ConfigEntry
      else Inl (record_error (''unknown entry kind '' @ decimal (ucast b))))"

definition encode_entry :: "log_entry \<Rightarrow> byte list" where
  "encode_entry e =
     tag_entry # to_le_bytes (le_term e) @ to_le_bytes (le_index e) @ [kind_byte (le_kind e)]
       @ len_bytes (le_command e) @ le_command e"

definition encode_hard_state :: "hard_state \<Rightarrow> byte list" where
  "encode_hard_state h =
     tag_hard_state # to_le_bytes (hs_term h)
       @ (case hs_voted_for h of
            Some i \<Rightarrow> 1 # to_le_bytes i
          | None \<Rightarrow> 0 # to_le_bytes 0)"

definition encode_truncate :: "raft_index \<Rightarrow> byte list" where
  "encode_truncate from = tag_truncate # to_le_bytes from"

subsection \<open>Decoding\<close>

text \<open>The \<open>?\<close> of a function without state.\<close>

definition attempt :: "rerror + 'a \<Rightarrow> ('a \<Rightarrow> rerror + 'b) \<Rightarrow> rerror + 'b" where
  "attempt m f = (case m of Inl e \<Rightarrow> Inl e | Inr x \<Rightarrow> f x)"

lemma attempt_simps [simp]: "attempt (Inl e) f = Inl e" "attempt (Inr x) f = f x"
  by (simp_all add: attempt_def)

lemma attempt_Inr: "attempt m f = Inr y \<longleftrightarrow> (\<exists>x. m = Inr x \<and> f x = Inr y)"
  by (cases m) auto

definition checked_add :: "nat \<Rightarrow> u64 \<Rightarrow> nat option" where
  "checked_add a n = (if a + unat n < 2 ^ 64 then Some (a + unat n) else None)"

lemma checked_add_code [code]:
  "checked_add a n =
     (if int a + uint n < 18446744073709551616 then Some (nat (int a + uint n)) else None)"
proof -
  have p: "(2 :: nat) ^ 64 = 18446744073709551616" by simp
  have "a + unat n < 2 ^ 64 \<longleftrightarrow> int a + uint n < 18446744073709551616"
    unfolding uint_nat p by linarith
  moreover have "nat (int a + uint n) = a + unat n"
    unfolding uint_nat by (simp only: of_nat_add[symmetric] nat_int)
  ultimately show ?thesis by (simp add: checked_add_def)
qed

definition read_u64 :: "byte list \<Rightarrow> nat \<Rightarrow> rerror + u64" where
  "read_u64 data offset =
     (if offset + 8 \<le> length data
      then Inr (from_le_bytes (take 8 (drop offset data)))
      else Inl (record_error ''record truncated''))"

definition byte_at :: "byte list \<Rightarrow> nat \<Rightarrow> string \<Rightarrow> rerror + byte" where
  "byte_at data i msg = (if i < length data then Inr (data ! i) else Inl (record_error msg))"

text \<open>The rest of the record from \<open>start\<close>, which must be exactly \<open>len\<close> bytes.\<close>

definition exact_rest :: "byte list \<Rightarrow> nat \<Rightarrow> u64 \<Rightarrow> string \<Rightarrow> rerror + byte list" where
  "exact_rest data start len msg =
     (case checked_add start len of
        Some stop \<Rightarrow> if stop = length data then Inr (take (stop - start) (drop start data))
                     else Inl (record_error msg)
      | None \<Rightarrow> Inl (record_error msg))"

fun read_members :: "byte list \<Rightarrow> nat \<Rightarrow> nat \<Rightarrow> rerror + node_id list" where
  "read_members data off 0 = Inr []"
| "read_members data off (Suc n) =
     attempt (read_u64 data off) (\<lambda>i. attempt (read_members data (off + 8) n) (\<lambda>is. Inr (i # is)))"

definition decode_entry :: "byte list \<Rightarrow> rerror + decoded" where
  "decode_entry data =
     attempt (read_u64 data 1) (\<lambda>t. attempt (read_u64 data 9) (\<lambda>i.
     attempt (byte_at data 17 ''entry truncated'') (\<lambda>k. attempt (kind_from_byte k) (\<lambda>kind.
     attempt (read_u64 data 18) (\<lambda>len.
     attempt (exact_rest data 26 len ''entry length mismatch'') (\<lambda>cmd.
       Inr (DEntry \<lparr>le_term = t, le_index = i, le_kind = kind, le_command = cmd\<rparr>)))))))"

definition decode_hard_state :: "byte list \<Rightarrow> rerror + decoded" where
  "decode_hard_state data =
     attempt (read_u64 data 1) (\<lambda>t. attempt (byte_at data 9 ''hard-state truncated'') (\<lambda>flag.
     attempt (read_u64 data 10) (\<lambda>vote.
       Inr (DHardState \<lparr>hs_term = t, hs_voted_for = (if flag = 1 then Some vote else None)\<rparr>))))"

definition decode_snapshot :: "byte list \<Rightarrow> rerror + decoded" where
  "decode_snapshot data =
     attempt (read_u64 data 1) (\<lambda>i. attempt (read_u64 data 9) (\<lambda>t. attempt (read_u64 data 17) (\<lambda>count.
       let max_members = (of_nat ((length data - 25) div 8) :: u64)
       in if max_members < count
          then Inl (record_error ''snapshot configuration length exceeds record'')
          else attempt (read_members data 25 (unat count)) (\<lambda>config.
               let off = 25 + 8 * unat count
               in attempt (read_u64 data off) (\<lambda>len.
                  attempt (exact_rest data (off + 8) len ''snapshot length mismatch'') (\<lambda>bytes.
                    Inr (DSnapshot (snapshot_with_config i t config bytes))))))))"

definition decode :: "byte list \<Rightarrow> rerror + decoded" where
  "decode data =
     (case data of
        [] \<Rightarrow> Inl (record_error ''empty record'')
      | tag # _ \<Rightarrow>
          if tag = tag_entry then decode_entry data
          else if tag = tag_hard_state then decode_hard_state data
          else if tag = tag_truncate then attempt (read_u64 data 1) (\<lambda>from. Inr (DTruncate from))
          else if tag = tag_snapshot then decode_snapshot data
          else Inl (record_error (''unknown record tag '' @ decimal (ucast tag))))"

fun encode :: "decoded \<Rightarrow> byte list" where
  "encode (DEntry e) = encode_entry e"
| "encode (DHardState h) = encode_hard_state h"
| "encode (DTruncate i) = encode_truncate i"
| "encode (DSnapshot s) = encode_snapshot s"

subsection \<open>Round trips\<close>

text \<open>Reading a field at its position.\<close>

lemma read_u64_at:
  "length pre = off \<Longrightarrow> read_u64 (pre @ to_le_bytes w @ rest) off = Inr w"
  by (simp add: read_u64_def)

lemma read_members_at:
  "length pre = off \<Longrightarrow> read_members (pre @ encode_members ids @ rest) off (length ids) = Inr ids"
proof (induction ids arbitrary: pre off)
  case (Cons i ids)
  have "read_members ((pre @ to_le_bytes i) @ encode_members ids @ rest) (off + 8) (length ids) = Inr ids"
    using Cons.prems by (intro Cons.IH) simp
  then show ?case using Cons.prems read_u64_at[of pre off i] by simp
qed simp

lemma unat_len: "length xs < 2 ^ 64 \<Longrightarrow> unat (of_nat (length xs) :: u64) = length xs"
  by (simp add: unat_of_nat take_bit_nat_eq_self)

lemma exact_rest_at:
  assumes "length pre = start" "start + length bytes < 2 ^ 64"
  shows "exact_rest (pre @ bytes) start (of_nat (length bytes)) msg = Inr bytes"
proof -
  have "unat (of_nat (length bytes) :: u64) = length bytes" using assms by (intro unat_len) simp
  with assms show ?thesis by (simp add: exact_rest_def checked_add_def)
qed

definition record_fits :: "decoded \<Rightarrow> bool" where
  "record_fits d \<longleftrightarrow> (case d of
     DEntry e \<Rightarrow> 26 + length (le_command e) < 2 ^ 64
   | DSnapshot s \<Rightarrow> 33 + 8 * length (sn_config s) + length (sn_data s) < 2 ^ 64
   | _ \<Rightarrow> True)"

lemma record_fits_code [code]:
  "record_fits d \<longleftrightarrow> (case d of
     DEntry e \<Rightarrow> 26 + int (length (le_command e)) < 18446744073709551616
   | DSnapshot s \<Rightarrow>
       33 + 8 * int (length (sn_config s)) + int (length (sn_data s)) < 18446744073709551616
   | _ \<Rightarrow> True)"
proof -
  have p: "(2 :: nat) ^ 64 = 18446744073709551616" by simp
  have "26 + a < 2 ^ 64 \<longleftrightarrow> 26 + int a < 18446744073709551616"
    "33 + 8 * a + b < 2 ^ 64 \<longleftrightarrow> 33 + 8 * int a + int b < 18446744073709551616" for a b :: nat
    unfolding p by linarith+
  then show ?thesis by (simp only: record_fits_def)
qed

lemma kind_round_trip [simp]: "kind_from_byte (kind_byte k) = Inr k"
  by (cases k) (simp_all add: kind_from_byte_def)

lemma decode_encode_entry:
  assumes "26 + length (le_command e) < 2 ^ 64"
  shows "decode_entry (encode_entry e) = Inr (DEntry e)"
proof -
  let ?t = "to_le_bytes (le_term e)" and ?i = "to_le_bytes (le_index e)"
    and ?k = "kind_byte (le_kind e)" and ?n = "len_bytes (le_command e)"
  let ?d = "encode_entry e"
  have 1: "read_u64 ?d 1 = Inr (le_term e)"
    using read_u64_at[of "[tag_entry]" 1] by (simp add: encode_entry_def)
  have 2: "read_u64 ?d 9 = Inr (le_index e)"
    using read_u64_at[of "tag_entry # ?t" 9] by (simp add: encode_entry_def)
  have 3: "byte_at ?d 17 m = Inr ?k" for m
    by (simp add: byte_at_def encode_entry_def nth_append)
  have 4: "read_u64 ?d 18 = Inr (of_nat (length (le_command e)))"
    using read_u64_at[of "tag_entry # ?t @ ?i @ [?k]" 18 "of_nat (length (le_command e))"]
    by (simp add: encode_entry_def len_bytes_def)
  have 5: "exact_rest ?d 26 (of_nat (length (le_command e))) m = Inr (le_command e)" for m
    using exact_rest_at[of "tag_entry # ?t @ ?i @ ?k # ?n" 26 "le_command e" m] assms
    by (simp add: encode_entry_def len_bytes_def)
  show ?thesis by (simp add: decode_entry_def 1[unfolded One_nat_def] 2 3 4 5)
qed

lemma decode_encode_hard_state:
  "decode_hard_state (encode_hard_state h @ junk) = Inr (DHardState h)"
proof -
  let ?t = "to_le_bytes (hs_term h)"
  let ?f = "(case hs_voted_for h of None \<Rightarrow> 0 | Some i \<Rightarrow> 1) :: byte"
    and ?v = "case hs_voted_for h of None \<Rightarrow> 0 | Some i \<Rightarrow> i"
  have d: "encode_hard_state h @ junk = tag_hard_state # ?t @ ?f # to_le_bytes ?v @ junk"
    by (simp add: encode_hard_state_def split: option.split)
  have 1: "read_u64 (tag_hard_state # ?t @ ?f # to_le_bytes ?v @ junk) 1 = Inr (hs_term h)"
    using read_u64_at[of "[tag_hard_state]" 1] by simp
  have 2: "byte_at (tag_hard_state # ?t @ ?f # to_le_bytes ?v @ junk) 9 m = Inr ?f" for m
    by (simp add: byte_at_def nth_append)
  have 3: "read_u64 (tag_hard_state # ?t @ ?f # to_le_bytes ?v @ junk) 10 = Inr ?v"
    using read_u64_at[of "tag_hard_state # ?t @ [?f]" 10 ?v junk] by simp
  have "(if ?f = 1 then Some ?v else None) = hs_voted_for h"
    by (simp split: option.split)
  then show ?thesis unfolding d by (simp add: decode_hard_state_def 1[unfolded One_nat_def] 2 3)
qed

lemma decode_encode_snapshot:
  assumes "33 + 8 * length (sn_config s) + length (sn_data s) < 2 ^ 64"
  shows "decode_snapshot (encode_snapshot s) = Inr (DSnapshot s)"
proof -
  let ?i = "to_le_bytes (sn_index s)" and ?t = "to_le_bytes (sn_term s)"
    and ?c = "sn_config s" and ?b = "sn_data s"
  let ?d = "encode_snapshot s"
  have uc: "unat (of_nat (length ?c) :: u64) = length ?c" using assms by (intro unat_len) simp
  have 1: "read_u64 ?d 1 = Inr (sn_index s)"
    using read_u64_at[of "[tag_snapshot]" 1] by (simp add: encode_snapshot_def)
  have 2: "read_u64 ?d 9 = Inr (sn_term s)"
    using read_u64_at[of "tag_snapshot # ?i" 9] by (simp add: encode_snapshot_def)
  have 3: "read_u64 ?d 17 = Inr (of_nat (length ?c))"
    using read_u64_at[of "tag_snapshot # ?i @ ?t" 17 "of_nat (length ?c)"]
    by (simp add: encode_snapshot_def len_bytes_def)
  have len: "length ?d = 33 + 8 * length ?c + length ?b"
    by (simp add: encode_snapshot_def len_bytes_def length_encode_members)
  have "(length ?d - 25) div 8 < 2 ^ 64" using assms len by simp
  then have "unat (of_nat ((length ?d - 25) div 8) :: u64) = (length ?d - 25) div 8"
    by (simp add: unat_of_nat take_bit_nat_eq_self)
  moreover have "length ?c \<le> (length ?d - 25) div 8" using len by simp
  ultimately have bound: "\<not> (of_nat ((length ?d - 25) div 8) :: u64) < of_nat (length ?c)"
    using uc by (simp only: word_less_nat_alt not_less)
  have 4: "read_members ?d 25 (length ?c) = Inr ?c"
    using read_members_at[of "tag_snapshot # ?i @ ?t @ len_bytes ?c" 25 ?c]
    by (simp add: encode_snapshot_def len_bytes_def)
  have 5: "read_u64 ?d (25 + 8 * length ?c) = Inr (of_nat (length ?b))"
    using read_u64_at[of "tag_snapshot # ?i @ ?t @ len_bytes ?c @ encode_members ?c"
        "25 + 8 * length ?c" "of_nat (length ?b)" ?b]
    by (simp add: encode_snapshot_def len_bytes_def length_encode_members)
  have 6: "exact_rest ?d (25 + 8 * length ?c + 8) (of_nat (length ?b)) m = Inr ?b" for m
    using exact_rest_at[of "tag_snapshot # ?i @ ?t @ len_bytes ?c @ encode_members ?c @ len_bytes ?b"
        "25 + 8 * length ?c + 8" ?b m] assms
    by (simp add: encode_snapshot_def len_bytes_def length_encode_members)
  show ?thesis
    using bound 6 by (simp add: decode_snapshot_def 1[unfolded One_nat_def] 2 3 4 5 uc Let_def snapshot_with_config_def)
qed

lemma decode_encode: "record_fits d \<Longrightarrow> decode (encode d) = Inr d"
  using decode_encode_hard_state[of _ "[]"] read_u64_at[of "[tag_truncate]" 1 _ "[]"]
    decode_encode_entry decode_encode_snapshot
  by (cases d) (auto simp: record_fits_def decode_def encode_entry_def encode_hard_state_def
      encode_truncate_def encode_snapshot_def tag_entry_def tag_hard_state_def tag_truncate_def
      tag_snapshot_def)

subsection \<open>Strictness\<close>

text \<open>What a successful read says of the bytes.\<close>

lemma read_u64_inv:
  assumes "read_u64 data off = Inr w"
  shows "drop off data = to_le_bytes w @ drop (off + 8) data"
proof -
  from assms have le: "off + 8 \<le> length data" and w: "w = from_le_bytes (take 8 (drop off data))"
    by (auto simp: read_u64_def split: if_splits)
  from le have "to_le_bytes w = take 8 (drop off data)"
    unfolding w by (intro to_le_from_le_bytes) simp
  then have "drop off data = to_le_bytes w @ drop 8 (drop off data)"
    by (simp only: append_take_drop_id)
  then show ?thesis by (simp add: add.commute)
qed

lemma read_members_inv:
  "read_members data off n = Inr ids \<Longrightarrow>
   drop off data = encode_members ids @ drop (off + 8 * n) data \<and> length ids = n"
proof (induction n arbitrary: off ids)
  case (Suc n)
  then obtain i rest where i: "read_u64 data off = Inr i"
    "read_members data (off + 8) n = Inr rest" "ids = i # rest"
    by (auto simp: attempt_Inr)
  with Suc.IH[OF i(2)] read_u64_inv[OF i(1)] show ?case by (simp add: add.assoc)
qed simp

lemma exact_rest_inv:
  assumes "exact_rest data start len msg = Inr bytes"
  shows "bytes = drop start data \<and> len_bytes bytes = to_le_bytes len"
proof -
  from assms have *: "start + unat len = length data" "bytes = drop start data"
    by (auto simp: exact_rest_def checked_add_def split: option.splits if_splits)
  then have "length bytes = unat len" by simp
  then show ?thesis using *(2) by (simp add: len_bytes_def)
qed

lemma byte_at_inv:
  "byte_at data i msg = Inr b \<Longrightarrow> drop i data = b # drop (i + 1) data"
  by (auto simp: byte_at_def Cons_nth_drop_Suc split: if_splits)

lemma kind_from_byte_inv: "kind_from_byte b = Inr k \<Longrightarrow> kind_byte k = b"
  by (auto simp: kind_from_byte_def split: if_splits)

lemma decode_entry_strict:
  assumes "decode_entry data = Inr d"
  shows "\<exists>e. d = DEntry e \<and> tag_entry # drop 1 data = encode_entry e"
proof -
  from assms obtain t i kb kind len cmd where r: "read_u64 data 1 = Inr t" "read_u64 data 9 = Inr i"
    "byte_at data 17 ''entry truncated'' = Inr kb" "kind_from_byte kb = Inr kind"
    "read_u64 data 18 = Inr len" "exact_rest data 26 len ''entry length mismatch'' = Inr cmd"
    "d = DEntry \<lparr>le_term = t, le_index = i, le_kind = kind, le_command = cmd\<rparr>"
    by (auto simp: decode_entry_def attempt_Inr)
  have "drop 1 data = to_le_bytes t @ to_le_bytes i @ kb # to_le_bytes len @ drop 26 data"
    using read_u64_inv[OF r(1)] read_u64_inv[OF r(2)] byte_at_inv[OF r(3)] read_u64_inv[OF r(5)]
    by simp
  with r(7) kind_from_byte_inv[OF r(4)] exact_rest_inv[OF r(6)] show ?thesis
    by (auto simp: encode_entry_def)
qed

lemma decode_snapshot_strict:
  assumes "decode_snapshot data = Inr d"
  shows "\<exists>s. d = DSnapshot s \<and> tag_snapshot # drop 1 data = encode_snapshot s"
proof -
  from assms obtain i t count config len bytes where r: "read_u64 data 1 = Inr i"
    "read_u64 data 9 = Inr t" "read_u64 data 17 = Inr count"
    "read_members data 25 (unat count) = Inr config"
    "read_u64 data (25 + 8 * unat count) = Inr len"
    "exact_rest data (25 + 8 * unat count + 8) len ''snapshot length mismatch'' = Inr bytes"
    "d = DSnapshot (snapshot_with_config i t config bytes)"
    by (auto simp: decode_snapshot_def attempt_Inr Let_def split: if_splits)
  note m = read_members_inv[OF r(4)]
  have "drop 1 data = to_le_bytes i @ to_le_bytes t @ to_le_bytes count @ encode_members config
      @ to_le_bytes len @ drop (25 + 8 * unat count + 8) data"
    using read_u64_inv[OF r(1)] read_u64_inv[OF r(2)] read_u64_inv[OF r(3)] m
      read_u64_inv[OF r(5)] by simp
  moreover have "len_bytes config = to_le_bytes count" using m by (simp add: len_bytes_def)
  ultimately show ?thesis
    using r(7) exact_rest_inv[OF r(6)] by (auto simp: encode_snapshot_def snapshot_with_config_def)
qed

text \<open>An entry or a snapshot record is accepted only in its canonical encoding.\<close>

lemma decode_strict:
  assumes "decode data = Inr d" "(\<exists>e. d = DEntry e) \<or> (\<exists>s. d = DSnapshot s)"
  shows "data = encode d"
proof -
  from assms(1) obtain tag rest where data: "data = tag # rest"
    by (cases data) (auto simp: decode_def)
  from assms data consider (entry) "tag = tag_entry" "decode_entry data = Inr d"
    | (snap) "tag = tag_snapshot" "decode_snapshot data = Inr d"
    by (auto simp: decode_def decode_hard_state_def attempt_Inr split: if_splits)
  then show ?thesis
  proof cases
    case entry
    with decode_entry_strict[OF entry(2)] data show ?thesis by auto
  next
    case snap
    with decode_snapshot_strict[OF snap(2)] data show ?thesis by auto
  qed
qed

end
