(* ===== verification/Raft_Wal_Log.thy ===== *)
theory Raft_Wal_Log
  imports Raft_Wal Raft_Log
begin

text \<open>
  \<open>WalLog\<close> of \<^verbatim>\<open>src/wal_log.rs\<close>: a write-ahead log with an in-memory index. The
  write-ahead log itself is the crate \<open>wal-db\<close>, which is not part of the sources; its
  operations are a parameter, the record \<open>wal_ops\<close>, over a type of handles \<open>'w\<close>. What
  \<open>WalLog\<close> relies on is the locale \<open>wal_db\<close>: appended records come back from the
  iterator in order, and \<open>truncate_before(lsn)\<close> drops the records before \<open>lsn\<close> when it
  succeeds and nothing when it fails.
\<close>

record 'w wal_ops =
  wop_append :: "'w \<Rightarrow> byte list \<Rightarrow> 'w \<times> (string + u64)"
  wop_sync :: "'w \<Rightarrow> 'w \<times> (string + unit)"
  wop_iter :: "'w \<Rightarrow> string + (string + byte list) list"
  wop_truncate_before :: "'w \<Rightarrow> u64 \<Rightarrow> 'w \<times> (string + unit)"

record 'w wal_log =
  wl_wal :: 'w
  wl_index :: memory_log

subsection \<open>Recovery\<close>

definition replay_one :: "decoded \<Rightarrow> memory_log \<Rightarrow> memory_log \<times> (rerror + unit)" where
  "replay_one d l =
     (case d of
        DEntry e \<Rightarrow> ml_append l [e]
      | DHardState h \<Rightarrow> ml_set_hard_state l h
      | DTruncate from \<Rightarrow> ml_truncate l from
      | DSnapshot s \<Rightarrow> ml_apply_snapshot l s)"

fun replay :: "(string + byte list) list \<Rightarrow> memory_log \<Rightarrow> rerror + memory_log" where
  "replay [] l = Inr l"
| "replay (Inl e # rs) l = Inl (Storage ''read durable log record'' e)"
| "replay (Inr data # rs) l =
     attempt (decode data) (\<lambda>d. case replay_one d l of (l', r) \<Rightarrow> attempt r (\<lambda>_. replay rs l'))"

text \<open>\<open>open\<close>, given what \<open>Wal::open\<close> returned for the path.\<close>

definition wl_open :: "'w wal_ops \<Rightarrow> string + 'w \<Rightarrow> rerror + 'w wal_log" where
  "wl_open W opened =
     (case opened of
        Inl e \<Rightarrow> Inl (Storage ''open durable log'' e)
      | Inr w \<Rightarrow> (case wop_iter W w of
          Inl e \<Rightarrow> Inl (Storage ''read durable log'' e)
        | Inr rs \<Rightarrow> attempt (replay rs ml_new) (\<lambda>l. Inr \<lparr>wl_wal = w, wl_index = l\<rparr>)))"

subsection \<open>Reads\<close>

text \<open>Every read is served by the in-memory index.\<close>

definition wl_last_index :: "'w wal_log \<Rightarrow> raft_index" where
  "wl_last_index l = ml_last_index (wl_index l)"

definition wl_last_term :: "'w wal_log \<Rightarrow> raft_term" where
  "wl_last_term l = ml_last_term (wl_index l)"

definition wl_term_at :: "'w wal_log \<Rightarrow> raft_index \<Rightarrow> raft_term option" where
  "wl_term_at l i = ml_term_at (wl_index l) i"

definition wl_entry :: "'w wal_log \<Rightarrow> raft_index \<Rightarrow> log_entry option" where
  "wl_entry l i = ml_entry (wl_index l) i"

definition wl_entries_range :: "'w wal_log \<Rightarrow> raft_index \<Rightarrow> raft_index \<Rightarrow> log_entry list" where
  "wl_entries_range l from to = ml_entries_range (wl_index l) from to"

definition wl_hard_state :: "'w wal_log \<Rightarrow> hard_state" where
  "wl_hard_state l = ml_hard_state (wl_index l)"

definition wl_snapshot_index :: "'w wal_log \<Rightarrow> raft_index" where
  "wl_snapshot_index l = ml_snapshot_index (wl_index l)"

definition wl_get_snapshot :: "'w wal_log \<Rightarrow> snapshot option" where
  "wl_get_snapshot l = ml_get_snapshot (wl_index l)"

lemmas wl_read_defs = wl_last_index_def wl_last_term_def wl_term_at_def wl_entry_def
  wl_entries_range_def wl_hard_state_def wl_snapshot_index_def wl_get_snapshot_def

subsection \<open>Operations\<close>

definition on_index ::
  "'w wal_log \<Rightarrow> (memory_log \<Rightarrow> memory_log \<times> (rerror + 'a)) \<Rightarrow> 'w wal_log \<times> (rerror + 'a)" where
  "on_index l f = (case f (wl_index l) of (i, r) \<Rightarrow> (l\<lparr>wl_index := i\<rparr>, r))"

definition wl_write ::
  "'w wal_ops \<Rightarrow> 'w wal_log \<Rightarrow> string \<Rightarrow> byte list \<Rightarrow> 'w wal_log \<times> (rerror + u64)" where
  "wl_write W l ctx data =
     (case wop_append W (wl_wal l) data of
        (w, Inl e) \<Rightarrow> (l\<lparr>wl_wal := w\<rparr>, Inl (Storage ctx e))
      | (w, Inr lsn) \<Rightarrow> (l\<lparr>wl_wal := w\<rparr>, Inr lsn))"

fun wl_write_entries ::
  "'w wal_ops \<Rightarrow> 'w wal_log \<Rightarrow> log_entry list \<Rightarrow> 'w wal_log \<times> (rerror + unit)" where
  "wl_write_entries W l [] = (l, Inr ())"
| "wl_write_entries W l (e # es) =
     and_then (wl_write W l ''append entry to durable log'' (encode_entry e))
       (\<lambda>l _. wl_write_entries W l es)"

definition wl_append ::
  "'w wal_ops \<Rightarrow> 'w wal_log \<Rightarrow> log_entry list \<Rightarrow> 'w wal_log \<times> (rerror + unit)" where
  "wl_append W l es =
     and_then (on_index l (\<lambda>i. ml_append i es)) (\<lambda>l _. wl_write_entries W l es)"

definition wl_truncate ::
  "'w wal_ops \<Rightarrow> 'w wal_log \<Rightarrow> raft_index \<Rightarrow> 'w wal_log \<times> (rerror + unit)" where
  "wl_truncate W l from =
     and_then (on_index l (\<lambda>i. ml_truncate i from)) (\<lambda>l _.
     and_then (wl_write W l ''truncate durable log'' (encode_truncate from)) (\<lambda>l _. (l, Inr ())))"

definition wl_set_hard_state ::
  "'w wal_ops \<Rightarrow> 'w wal_log \<Rightarrow> hard_state \<Rightarrow> 'w wal_log \<times> (rerror + unit)" where
  "wl_set_hard_state W l h =
     and_then (on_index l (\<lambda>i. ml_set_hard_state i h)) (\<lambda>l _.
     and_then (wl_write W l ''persist hard state'' (encode_hard_state h)) (\<lambda>l _. (l, Inr ())))"

definition wl_sync :: "'w wal_ops \<Rightarrow> 'w wal_log \<Rightarrow> 'w wal_log \<times> (rerror + unit)" where
  "wl_sync W l =
     (case wop_sync W (wl_wal l) of
        (w, Inl e) \<Rightarrow> (l\<lparr>wl_wal := w\<rparr>, Inl (Storage ''sync durable log'' e))
      | (w, Inr _) \<Rightarrow> (l\<lparr>wl_wal := w\<rparr>, Inr ()))"

definition wl_apply_snapshot ::
  "'w wal_ops \<Rightarrow> 'w wal_log \<Rightarrow> snapshot \<Rightarrow> 'w wal_log \<times> (rerror + unit)" where
  "wl_apply_snapshot W l s =
     (if sn_index s \<le> ml_snapshot_index (wl_index l) then (l, Inr ())
      else and_then (on_index l (\<lambda>i. ml_apply_snapshot i s)) (\<lambda>l _.
           and_then (wl_write W l ''persist snapshot'' (encode_snapshot s)) (\<lambda>l lsn.
           and_then (wl_write W l ''persist hard state''
                       (encode_hard_state (ml_hard_state (wl_index l)))) (\<lambda>l _.
             (l\<lparr>wl_wal := fst (wop_truncate_before W (wl_wal l) lsn)\<rparr>, Inr ())))))"

subsection \<open>The log contract\<close>

text \<open>The index after each operation: the reads of a \<open>WalLog\<close> are those of its index, and a
  write that succeeds changed the index as the in-memory log would have.\<close>

lemma wl_write_index: "wl_write W l c d = (l', r) \<Longrightarrow> wl_index l' = wl_index l"
  by (auto simp: wl_write_def split: prod.splits sum.splits)

lemma wl_write_entries_index: "wl_write_entries W l es = (l', r) \<Longrightarrow> wl_index l' = wl_index l"
proof (induction es arbitrary: l)
  case (Cons e es)
  obtain l1 r1 where w: "wl_write W l ''append entry to durable log'' (encode_entry e) = (l1, r1)"
    by fastforce
  with Cons wl_write_index[OF w] show ?case by (cases r1) auto
qed simp

lemma on_index_ok:
  "on_index l f = (s, Inr a) \<longleftrightarrow> (\<exists>i. f (wl_index l) = (i, Inr a) \<and> s = l\<lparr>wl_index := i\<rparr>)"
  by (auto simp: on_index_def split: prod.splits)

lemma ml_apply_stale: "sn_index s \<le> ml_base_index l \<Longrightarrow> ml_apply_snapshot l s = (l, Inr ())"
  by (simp add: ml_apply_snapshot_def)

lemma wl_append_index:
  "wl_append W l es = (l', Inr ()) \<Longrightarrow> ml_append (wl_index l) es = (wl_index l', Inr ())"
  by (auto simp: wl_append_def on_index_ok and_then_ok dest: wl_write_entries_index)

lemma wl_truncate_index:
  "wl_truncate W l i = (l', Inr ()) \<Longrightarrow> ml_truncate (wl_index l) i = (wl_index l', Inr ())"
  by (auto simp: wl_truncate_def on_index_ok and_then_ok dest: wl_write_index)

lemma wl_set_hard_state_index:
  "wl_set_hard_state W l h = (l', Inr ()) \<Longrightarrow>
   ml_set_hard_state (wl_index l) h = (wl_index l', Inr ())"
  by (auto simp: wl_set_hard_state_def on_index_ok and_then_ok dest: wl_write_index)

lemma wl_sync_index: "wl_sync W l = (l', r) \<Longrightarrow> wl_index l' = wl_index l"
  by (auto simp: wl_sync_def split: prod.splits sum.splits)

lemma wl_apply_snapshot_index:
  "wl_apply_snapshot W l s = (l', Inr ()) \<Longrightarrow>
   ml_apply_snapshot (wl_index l) s = (wl_index l', Inr ())"
  by (auto simp: wl_apply_snapshot_def on_index_ok and_then_ok ml_apply_stale
      ml_snapshot_index_def dest!: wl_write_index split: if_splits)

lemma wl_reject:
  "ml_append (wl_index l) es = (wl_index l, Inl e) \<Longrightarrow> wl_append W l es = (l, Inl e)"
  "ml_truncate (wl_index l) i = (wl_index l, Inl e) \<Longrightarrow> wl_truncate W l i = (l, Inl e)"
  by (simp_all add: wl_append_def wl_truncate_def on_index_def)

interpretation wal: raft_log "\<lambda>l. ml_inv (wl_index l)" "\<lambda>l. ml_abs (wl_index l)"
  wl_last_index wl_last_term wl_term_at wl_entry wl_entries_range "wl_append W" "wl_truncate W"
  wl_hard_state "wl_set_hard_state W" "wl_sync W" wl_snapshot_index wl_get_snapshot
  "wl_apply_snapshot W"
  for W :: "'w wal_ops"
proof (unfold_locales, unfold wl_read_defs, goal_cases)
  case (7 l es l')
  then show ?case by (intro mem.append_ok wl_append_index)
next
  case (8 l es)
  then show ?case using mem.append_reject[of "wl_index l" es] wl_reject(1) by metis
next
  case (9 l i l')
  then show ?case by (intro mem.truncate_ok wl_truncate_index)
next
  case (10 l i)
  then show ?case using mem.truncate_reject[of "wl_index l" i] wl_reject(2) by metis
next
  case (12 l h l')
  then show ?case by (intro mem.set_hard_ok wl_set_hard_state_index)
next
  case (13 l l')
  then show ?case by (auto dest: wl_sync_index)
next
  case (16 l sn l')
  then show ?case by (intro mem.apply_snapshot_ok wl_apply_snapshot_index)
qed (rule mem.inv_wf mem.last_index mem.last_term mem.term_at mem.entry mem.entries
    mem.get_hard mem.snapshot_index mem.get_snapshot, assumption?)+

end
