(* ===== verification/Wal_Recovery.thy ===== *)
theory Wal_Recovery
  imports Raft_Wal_Log
begin

text \<open>
  Recovery of a \<open>WalLog\<close>: reopening it after any sequence of successful calls rebuilds the
  index exactly, given what \<open>wal-db\<close> promises (\<open>wal_laws\<close>). One kind of call is excluded, a
  snapshot that leaves entries above it in the log, and the last part of the theory shows why:
  the records of those entries are dropped with the others before the snapshot record.
\<close>

text \<open>The laws of the write-ahead log, over the records (with their sequence numbers) a handle
  stands for.\<close>

definition wal_laws :: "'w wal_ops \<Rightarrow> ('w \<Rightarrow> (u64 \<times> byte list) list) \<Rightarrow> bool" where
  "wal_laws W recs \<longleftrightarrow>
     (\<forall>w d w' lsn. wop_append W w d = (w', Inr lsn) \<longrightarrow>
        recs w' = recs w @ [(lsn, d)] \<and> (\<forall>k \<in> fst ` set (recs w). k < lsn))
   \<and> (\<forall>w. wop_iter W w = Inr (map (\<lambda>r. Inr (snd r)) (recs w)))
   \<and> (\<forall>w w' r. wop_sync W w = (w', r) \<longrightarrow> recs w' = recs w)
   \<and> (\<forall>w lsn w' r. wop_truncate_before W w lsn = (w', r) \<longrightarrow>
        recs w' = (case r of Inl _ \<Rightarrow> recs w
                   | Inr _ \<Rightarrow> filter (\<lambda>r. lsn \<le> fst r) (recs w)))"

lemma wal_lawsD:
  assumes "wal_laws W recs"
  shows "wop_append W w d = (w', Inr lsn) \<Longrightarrow> recs w' = recs w @ [(lsn, d)]"
    and "wop_append W w d = (w', Inr lsn) \<Longrightarrow> k \<in> fst ` set (recs w) \<Longrightarrow> k < lsn"
    and "wop_iter W w = Inr (map (\<lambda>r. Inr (snd r)) (recs w))"
    and "wop_sync W w = (w', u) \<Longrightarrow> recs w' = recs w"
    and "wop_truncate_before W w lsn = (w', u) \<Longrightarrow>
       recs w' = (case u of Inl _ \<Rightarrow> recs w | Inr _ \<Rightarrow> filter (\<lambda>r. lsn \<le> fst r) (recs w))"
  using assms unfolding wal_laws_def by blast+

subsection \<open>Replay\<close>

definition replay_records :: "(u64 \<times> byte list) list \<Rightarrow> memory_log \<Rightarrow> rerror + memory_log" where
  "replay_records rs = replay (map (\<lambda>r. Inr (snd r)) rs)"

lemma replay_append: "replay (xs @ ys) l = attempt (replay xs l) (replay ys)"
proof (induction xs arbitrary: l)
  case (Cons x xs)
  show ?case
  proof (cases x)
    case (Inr data)
    then show ?thesis
      using Cons by (auto simp: attempt_def split: sum.split prod.split)
  qed simp
qed simp

lemma replay_records_append:
  "replay_records (xs @ ys) l = attempt (replay_records xs l) (replay_records ys)"
  by (simp add: replay_records_def replay_append)

lemma replay_record:
  "record_fits d \<Longrightarrow> replay_one d l = (l', Inr ()) \<Longrightarrow> replay_records [(k, encode d)] l = Inr l'"
  by (simp add: replay_records_def decode_encode)

lemma ml_append_split:
  "ml_append l (e # es) = (l', Inr ()) \<Longrightarrow>
   ml_append l [e] = (l\<lparr>ml_entries := ml_entries l @ [e]\<rparr>, Inr ())
   \<and> ml_append (l\<lparr>ml_entries := ml_entries l @ [e]\<rparr>) es = (l', Inr ())"
  by (cases es) (auto simp: ml_append_def Let_def ml_last_index_def split: if_splits)

text \<open>Entries are written one record each, and replayed one by one.\<close>

lemma replay_entries:
  assumes "ml_append l es = (l', Inr ())" "\<forall>e \<in> set es. record_fits (DEntry e)"
    and "map snd rs = map encode_entry es"
  shows "replay_records rs l = Inr l'"
  using assms
proof (induction es arbitrary: l rs)
  case Nil
  then show ?case by (simp add: ml_append_def replay_records_def)
next
  case (Cons e es)
  then obtain k rs' where rs: "rs = (k, encode_entry e) # rs'" "map snd rs' = map encode_entry es"
    by (cases rs) auto
  note sp = ml_append_split[OF Cons.prems(1)]
  have "replay_records [(k, encode (DEntry e))] l = Inr (l\<lparr>ml_entries := ml_entries l @ [e]\<rparr>)"
    using sp Cons.prems(2) by (intro replay_record) (simp_all add: replay_one_def)
  with Cons.IH[of "l\<lparr>ml_entries := ml_entries l @ [e]\<rparr>" rs'] sp Cons.prems(2) rs show ?case
    using replay_records_append[of "[(k, encode_entry e)]" rs' l] by simp
qed

subsection \<open>Every call keeps the records in step with the index\<close>

definition faithful :: "('w \<Rightarrow> (u64 \<times> byte list) list) \<Rightarrow> 'w wal_log \<Rightarrow> bool" where
  "faithful recs l \<longleftrightarrow> replay_records (recs (wl_wal l)) ml_new = Inr (wl_index l)"

lemma wl_write_records:
  assumes "wal_laws W recs" "wl_write W l c d = (l', Inr lsn)"
  shows "recs (wl_wal l') = recs (wl_wal l) @ [(lsn, d)] \<and> wl_index l' = wl_index l
    \<and> (\<forall>k \<in> fst ` set (recs (wl_wal l)). k < lsn)"
  using assms(2) wal_lawsD(1,2)[OF assms(1)]
  by (auto simp: wl_write_def split: prod.splits sum.splits)

lemma wl_write_entries_records:
  assumes "wal_laws W recs" "wl_write_entries W l es = (l', Inr ())"
  shows "\<exists>rs. recs (wl_wal l') = recs (wl_wal l) @ rs \<and> map snd rs = map encode_entry es"
  using assms(2)
proof (induction es arbitrary: l)
  case (Cons e es)
  then obtain l1 lsn where w: "wl_write W l ''append entry to durable log'' (encode_entry e) = (l1, Inr lsn)"
    "wl_write_entries W l1 es = (l', Inr ())" by (auto simp: and_then_ok)
  from Cons.IH[OF w(2)] obtain rs where "recs (wl_wal l') = recs (wl_wal l1) @ rs"
    "map snd rs = map encode_entry es" by blast
  with wl_write_records[OF assms(1) w(1)] show ?case
    by (intro exI[of _ "(lsn, encode_entry e) # rs"]) simp
qed simp

lemma faithful_append:
  assumes "wal_laws W recs" "faithful recs l" "wl_append W l es = (l', Inr ())"
    and "\<forall>e \<in> set es. record_fits (DEntry e)"
  shows "faithful recs l'"
proof -
  note ix = wl_append_index[OF assms(3)]
  from assms(3) ix have "wl_write_entries W (l\<lparr>wl_index := wl_index l'\<rparr>) es = (l', Inr ())"
    by (auto simp: wl_append_def on_index_ok and_then_ok)
  from wl_write_entries_records[OF assms(1) this] obtain rs where
    "recs (wl_wal l') = recs (wl_wal l) @ rs" "map snd rs = map encode_entry es" by auto
  with assms(2) replay_entries[OF ix assms(4), of rs] show ?thesis
    by (simp add: faithful_def replay_records_append)
qed

lemma faithful_one:
  assumes "wal_laws W recs" "faithful recs l" "record_fits d"
    and "replay_one d (wl_index l) = (i, Inr ())"
    and "wl_write W (l\<lparr>wl_index := i\<rparr>) c (encode d) = (l', Inr lsn)"
  shows "faithful recs l'"
  using wl_write_records[OF assms(1,5)] assms(2) replay_record[OF assms(3,4), of lsn]
  by (simp add: faithful_def replay_records_append)

lemma faithful_truncate:
  assumes "wal_laws W recs" "faithful recs l" "wl_truncate W l i = (l', Inr ())"
  shows "faithful recs l'"
proof -
  from assms(3) obtain x lsn where "ml_truncate (wl_index l) i = (x, Inr ())"
    "wl_write W (l\<lparr>wl_index := x\<rparr>) ''truncate durable log'' (encode (DTruncate i)) = (l', Inr lsn)"
    by (auto simp: wl_truncate_def on_index_ok and_then_ok)
  then show ?thesis
    by (intro faithful_one[OF assms(1,2), of "DTruncate i"]) (auto simp: replay_one_def record_fits_def)
qed

lemma faithful_set_hard_state:
  assumes "wal_laws W recs" "faithful recs l" "wl_set_hard_state W l h = (l', Inr ())"
  shows "faithful recs l'"
proof -
  from assms(3) obtain x lsn where "ml_set_hard_state (wl_index l) h = (x, Inr ())"
    "wl_write W (l\<lparr>wl_index := x\<rparr>) ''persist hard state'' (encode (DHardState h)) = (l', Inr lsn)"
    by (auto simp: wl_set_hard_state_def on_index_ok and_then_ok)
  then show ?thesis
    by (intro faithful_one[OF assms(1,2), of "DHardState h"]) (auto simp: replay_one_def record_fits_def)
qed

lemma faithful_sync:
  "wal_laws W recs \<Longrightarrow> faithful recs l \<Longrightarrow> wl_sync W l = (l', r) \<Longrightarrow> faithful recs l'"
  by (auto simp: wl_sync_def faithful_def split: prod.splits sum.splits dest: wal_lawsD(4))

text \<open>A snapshot: after it and the hard state are written, dropping what came before them does
  not change what is replayed, when the index keeps no entry.\<close>

definition keeps_no_tail :: "snapshot \<Rightarrow> memory_log \<Rightarrow> bool" where
  "keeps_no_tail s l \<longleftrightarrow> sn_index s \<le> ml_snapshot_index l
     \<or> ml_entries (fst (ml_apply_snapshot l s)) = []"

lemma replay_snapshot_alone:
  assumes "ml_base_index l < sn_index s" "ml_entries (fst (ml_apply_snapshot l s)) = []"
  shows "\<exists>i. ml_apply_snapshot ml_new s = (i, Inr ())
    \<and> i\<lparr>ml_hard := ml_hard l\<rparr> = fst (ml_apply_snapshot l s)"
proof -
  have "\<not> sn_index s \<le> ml_base_index l" using assms(1) by simp
  moreover have "\<not> sn_index s \<le> ml_base_index ml_new" "ml_term_at ml_new (sn_index s) = None"
  proof -
    have "0 < sn_index s" using assms(1) by (metis word_gt_0 word_zero_le not_le)
    then show "\<not> sn_index s \<le> ml_base_index ml_new" "ml_term_at ml_new (sn_index s) = None"
      by (auto simp: ml_new_def ml_term_at_def ml_slot_def ml_last_index_def)
  qed
  ultimately show ?thesis
    using assms(2) by (simp add: ml_apply_snapshot_def Let_def ml_new_def split: if_splits)
qed

lemma apply_snapshot_writes:
  assumes "wl_apply_snapshot W l s = (l', Inr ())" "\<not> sn_index s \<le> ml_snapshot_index (wl_index l)"
    and "ml_apply_snapshot (wl_index l) s = (x, Inr ())"
  obtains l1 lsn l2 lsn2 where
    "wl_write W (l\<lparr>wl_index := x\<rparr>) ''persist snapshot'' (encode (DSnapshot s)) = (l1, Inr lsn)"
    "wl_write W l1 ''persist hard state'' (encode (DHardState (ml_hard_state (wl_index l1)))) = (l2, Inr lsn2)"
    "l' = l2\<lparr>wl_wal := fst (wop_truncate_before W (wl_wal l2) lsn)\<rparr>"
  using assms by (auto simp: wl_apply_snapshot_def on_index_ok and_then_ok)

lemma faithful_apply_snapshot:
  assumes laws: "wal_laws W recs" and f: "faithful recs l" and ok: "wl_apply_snapshot W l s = (l', Inr ())"
    and fits: "record_fits (DSnapshot s)" and tail: "keeps_no_tail s (wl_index l)"
  shows "faithful recs l'"
proof (cases "sn_index s \<le> ml_snapshot_index (wl_index l)")
  case True
  with ok f show ?thesis by (simp add: wl_apply_snapshot_def)
next
  case False
  obtain x where x: "ml_apply_snapshot (wl_index l) s = (x, Inr ())"
    by (metis ml_apply_snapshot_never_fails prod.collapse)
  from ok False x obtain l1 lsn l2 lsn2 where
    w1: "wl_write W (l\<lparr>wl_index := x\<rparr>) ''persist snapshot'' (encode (DSnapshot s)) = (l1, Inr lsn)" and
    w2: "wl_write W l1 ''persist hard state'' (encode (DHardState (ml_hard_state (wl_index l1)))) = (l2, Inr lsn2)"
    and l': "l' = l2\<lparr>wl_wal := fst (wop_truncate_before W (wl_wal l2) lsn)\<rparr>"
    by (rule apply_snapshot_writes)
  note r1 = wl_write_records[OF laws w1] and r2 = wl_write_records[OF laws w2]
  let ?h = "DHardState (ml_hard x)"
  have recs2: "recs (wl_wal l2) = recs (wl_wal l) @ [(lsn, encode (DSnapshot s)), (lsn2, encode ?h)]"
    using r1 r2 by (simp add: ml_hard_state_def)
  have ix: "wl_index l' = x" using r1 r2 l' by simp
  obtain w u where t: "wop_truncate_before W (wl_wal l2) lsn = (w, u)" by fastforce
  have hard: "replay_records [(lsn2, encode ?h)] i = Inr (i\<lparr>ml_hard := ml_hard x\<rparr>)" for i
    by (rule replay_record) (simp_all add: record_fits_def replay_one_def ml_set_hard_state_def)
  have snap: "replay_records [(lsn, encode (DSnapshot s))] i = Inr i'"
    if "ml_apply_snapshot i s = (i', Inr ())" for i i'
    using fits that by (intro replay_record) (simp_all add: replay_one_def)
  have two: "replay_records [(lsn, encode (DSnapshot s)), (lsn2, encode ?h)] i
      = Inr (i'\<lparr>ml_hard := ml_hard x\<rparr>)" if "ml_apply_snapshot i s = (i', Inr ())" for i i'
    using replay_records_append[of "[(lsn, encode (DSnapshot s))]" "[(lsn2, encode ?h)]" i]
      snap[OF that] hard[of i'] by simp
  show ?thesis
  proof (cases u)
    case (Inl e)
    then have "recs w = recs (wl_wal l2)" using wal_lawsD(5)[OF laws t] by simp
    with f recs2 two[OF x] ix l' t show ?thesis
      by (simp add: faithful_def replay_records_append)
  next
    case (Inr v)
    have "k < lsn" if "(k, d) \<in> set (recs (wl_wal l))" for k d using r1 that by force
    then have "filter (\<lambda>r. lsn \<le> fst r) (recs (wl_wal l)) = []"
      by (fastforce simp: filter_empty_conv not_le)
    moreover have "lsn < lsn2" using r1 r2 by simp
    ultimately have rw: "recs w = [(lsn, encode (DSnapshot s)), (lsn2, encode ?h)]"
      using wal_lawsD(5)[OF laws t] Inr recs2 by simp
    have "ml_base_index (wl_index l) < sn_index s" "ml_entries (fst (ml_apply_snapshot (wl_index l) s)) = []"
      using False tail by (auto simp: keeps_no_tail_def ml_snapshot_index_def)
    from replay_snapshot_alone[OF this] obtain i where
      i: "ml_apply_snapshot ml_new s = (i, Inr ())" "i\<lparr>ml_hard := ml_hard (wl_index l)\<rparr> = x"
      using x by auto
    have "ml_hard x = ml_hard (wl_index l)" using i(2) by auto
    with two[OF i(1)] rw ix l' t i(2) show ?thesis by (simp add: faithful_def)
  qed
qed

subsection \<open>Sequences of calls\<close>

datatype log_call =
    CallAppend "log_entry list"
  | CallTruncate raft_index
  | CallHardState hard_state
  | CallSync
  | CallSnapshot snapshot

fun do_call :: "'w wal_ops \<Rightarrow> log_call \<Rightarrow> 'w wal_log \<Rightarrow> 'w wal_log \<times> (rerror + unit)" where
  "do_call W (CallAppend es) l = wl_append W l es"
| "do_call W (CallTruncate i) l = wl_truncate W l i"
| "do_call W (CallHardState h) l = wl_set_hard_state W l h"
| "do_call W CallSync l = wl_sync W l"
| "do_call W (CallSnapshot s) l = wl_apply_snapshot W l s"

text \<open>The calls recovery is proved for: records whose lengths fit in 64 bits, and no snapshot
  that leaves a tail.\<close>

fun recoverable :: "log_call \<Rightarrow> memory_log \<Rightarrow> bool" where
  "recoverable (CallAppend es) l \<longleftrightarrow> (\<forall>e \<in> set es. record_fits (DEntry e))"
| "recoverable (CallSnapshot s) l \<longleftrightarrow> record_fits (DSnapshot s) \<and> keeps_no_tail s l"
| "recoverable _ l \<longleftrightarrow> True"

fun run_calls :: "'w wal_ops \<Rightarrow> log_call list \<Rightarrow> 'w wal_log \<Rightarrow> 'w wal_log option" where
  "run_calls W [] l = Some l"
| "run_calls W (c # cs) l =
     (if recoverable c (wl_index l)
      then (case do_call W c l of (l', Inr _) \<Rightarrow> run_calls W cs l' | (_, Inl _) \<Rightarrow> None)
      else None)"

lemma faithful_call:
  assumes "wal_laws W recs" "faithful recs l" "do_call W c l = (l', Inr ())"
    and "recoverable c (wl_index l)"
  shows "faithful recs l'"
  using assms
  by (cases c) (auto intro: faithful_append faithful_truncate faithful_set_hard_state faithful_sync
      faithful_apply_snapshot)

lemma faithful_calls:
  assumes "wal_laws W recs" "faithful recs l" "run_calls W cs l = Some l'"
  shows "faithful recs l'"
  using assms(2,3)
proof (induction cs arbitrary: l)
  case (Cons c cs)
  then show ?case
    using faithful_call[OF assms(1)] by (auto split: if_splits prod.splits sum.splits)
qed simp

lemma wl_open_faithful:
  assumes "wal_laws W recs"
  shows "wl_open W (Inr w) = Inr l \<longleftrightarrow> wl_wal l = w \<and> faithful recs l"
proof -
  have "wl_open W (Inr w) = attempt (replay_records (recs w) ml_new)
      (\<lambda>i. Inr \<lparr>wl_wal = w, wl_index = i\<rparr>)"
    by (simp add: wl_open_def wal_lawsD(3)[OF assms] replay_records_def)
  then show ?thesis by (cases l) (auto simp: attempt_Inr faithful_def)
qed

subsection \<open>A concrete write-ahead log\<close>

text \<open>A list of records that satisfies the laws, for evaluation.\<close>

definition list_wal :: "(u64 \<times> byte list) list wal_ops" where
  "list_wal = \<lparr>
     wop_append = (\<lambda>w d. let top = fold (\<lambda>r m. max (fst r) m) w 0
        in if top = u64_max then (w, Inl ''full'') else (w @ [(top + 1, d)], Inr (top + 1))),
     wop_sync = (\<lambda>w. (w, Inr ())),
     wop_iter = (\<lambda>w. Inr (map (\<lambda>r. Inr (snd r)) w)),
     wop_truncate_before = (\<lambda>w lsn. (filter (\<lambda>r. lsn \<le> fst r) w, Inr ()))\<rparr>"

lemma fold_max_bound:
  "(m :: u64) \<le> fold (\<lambda>r m. max (fst r) m) w m
   \<and> (\<forall>k \<in> fst ` set w. k \<le> fold (\<lambda>r m. max (fst r) m) w m)"
proof (induction w arbitrary: m)
  case (Cons r w)
  from Cons[of "max (fst r) m"] show ?case by auto
qed simp

lemma list_wal_laws: "wal_laws list_wal (\<lambda>w. w)"
proof -
  have "k < fold (\<lambda>r m. max (fst r) m) w 0 + 1"
    if "fold (\<lambda>r m. max (fst r) m) w 0 \<noteq> u64_max" "k \<in> fst ` set w" for k :: u64 and w
  proof -
    let ?t = "fold (\<lambda>r m. max (fst r) m) w (0 :: u64)"
    have "unat ?t + 1 < 2 ^ LENGTH(64)" using that(1) by (simp only: not_max_room len_of_numeral_defs) simp
    then have "unat (?t + 1) = unat ?t + 1" by (rule unat_plus_one)
    moreover have "k \<le> ?t" using that(2) fold_max_bound[of 0 w] by blast
    ultimately show ?thesis by (simp add: word_less_nat_alt word_le_nat_alt)
  qed
  then show ?thesis
    unfolding wal_laws_def list_wal_def by (auto simp: Let_def split: if_splits)
qed

subsection \<open>Properties\<close>

text \<open>
  C31: The record codec is a bijection on what it writes: every record that fits in the address
  space decodes to itself, and an entry or snapshot record is accepted only in the one encoding
  the writer produces, so no two byte strings stand for the same entry or snapshot.
\<close>

theorem wal_codec:
  assumes "record_fits d"
  shows "decode (encode d) = Inr d
    \<and> ((\<exists>e. d = DEntry e) \<or> (\<exists>s. d = DSnapshot s) \<longrightarrow> (\<forall>data. decode data = Inr d \<longrightarrow> data = encode d))"
  using decode_encode[OF assms] decode_strict by blast

theorem wal_codec_witness:
  "decode (encode (DEntry (entry_new 3 9 [104, 105]))) = Inr (DEntry (entry_new 3 9 [104, 105]))"
  by (rule wal_codec[THEN conjunct1]) (simp add: record_fits_def)

text \<open>
  C30: Recovery is exact: after any sequence of successful appends, truncations, hard-state
  writes, syncs and tail-less snapshots, reopening the write-ahead log rebuilds the in-memory
  index that the \<open>WalLog\<close> had, entry for entry, boundary, snapshot and hard state included.
\<close>

theorem recovery_exact:
  assumes "wal_laws W recs" "wl_open W (Inr w) = Inr l0" "run_calls W cs l0 = Some l"
  shows "wl_open W (Inr (wl_wal l)) = Inr l"
  using faithful_calls[OF assms(1) _ assms(3)] assms(2)
  by (simp add: wl_open_faithful[OF assms(1)])

definition sample_calls :: "log_call list" where
  "sample_calls =
     [CallAppend [entry_new 1 1 [5], entry_new 1 2 [6], entry_new 1 3 [7]],
      CallHardState \<lparr>hs_term = 1, hs_voted_for = Some 2\<rparr>, CallTruncate 3,
      CallSnapshot (snapshot_with_config 2 1 [1, 2, 3] [9]), CallSync,
      CallAppend [entry_new 2 3 [8]]]"

lemma open_empty: "wl_open list_wal (Inr []) = Inr \<lparr>wl_wal = [], wl_index = ml_new\<rparr>"
  by (simp add: wl_open_def list_wal_def)

lemma sample_calls_run:
  "case run_calls list_wal sample_calls \<lparr>wl_wal = [], wl_index = ml_new\<rparr> of
     None \<Rightarrow> False | Some l \<Rightarrow> ml_last_index (wl_index l) = 3"
  by code_simp

theorem recovery_exact_witness:
  "\<exists>l. run_calls list_wal sample_calls \<lparr>wl_wal = [], wl_index = ml_new\<rparr> = Some l
     \<and> ml_last_index (wl_index l) = 3 \<and> wl_open list_wal (Inr (wl_wal l)) = Inr l"
proof -
  obtain l where l: "run_calls list_wal sample_calls \<lparr>wl_wal = [], wl_index = ml_new\<rparr> = Some l"
    "ml_last_index (wl_index l) = 3"
    using sample_calls_run by (auto split: option.splits)
  with recovery_exact[OF list_wal_laws open_empty l(1)] show ?thesis by blast
qed

subsection \<open>A snapshot that leaves a tail\<close>

text \<open>When the records before a snapshot are dropped, the snapshot and the hard state are all
  that is left, whatever the log held.\<close>

lemma apply_snapshot_records:
  assumes laws: "wal_laws W recs" and trunc: "\<And>w k. \<not> isl (snd (wop_truncate_before W w k))"
    and ok: "wl_apply_snapshot W l s = (l', Inr ())"
    and above: "ml_snapshot_index (wl_index l) < sn_index s"
  shows "\<exists>a b h. recs (wl_wal l') = [(a, encode (DSnapshot s)), (b, encode (DHardState h))]"
proof -
  obtain x where x: "ml_apply_snapshot (wl_index l) s = (x, Inr ())"
    by (metis ml_apply_snapshot_never_fails prod.collapse)
  from above have above': "\<not> sn_index s \<le> ml_snapshot_index (wl_index l)" by simp
  from ok above' x obtain l1 lsn l2 lsn2 where
    w1: "wl_write W (l\<lparr>wl_index := x\<rparr>) ''persist snapshot'' (encode (DSnapshot s)) = (l1, Inr lsn)" and
    w2: "wl_write W l1 ''persist hard state'' (encode (DHardState (ml_hard_state (wl_index l1)))) = (l2, Inr lsn2)"
    and l': "l' = l2\<lparr>wl_wal := fst (wop_truncate_before W (wl_wal l2) lsn)\<rparr>"
    by (rule apply_snapshot_writes)
  note r1 = wl_write_records[OF laws w1] and r2 = wl_write_records[OF laws w2]
  obtain w u where t: "wop_truncate_before W (wl_wal l2) lsn = (w, u)" by fastforce
  with trunc[of "wl_wal l2" lsn] obtain v where u: "u = Inr v" by (cases u) simp_all
  have "k < lsn" if "(k, d) \<in> set (recs (wl_wal l))" for k d using r1 that by force
  then have "filter (\<lambda>r. lsn \<le> fst r) (recs (wl_wal l)) = []"
    by (fastforce simp: filter_empty_conv not_le)
  moreover have "lsn \<le> lsn2" using r1 r2 by (simp add: less_imp_le)
  ultimately have "recs w = [(lsn, encode (DSnapshot s)),
      (lsn2, encode (DHardState (ml_hard_state (wl_index l1))))]"
    using wal_lawsD(5)[OF laws t] u r1 r2 by simp
  with l' t show ?thesis by auto
qed

lemma replay_snapshot_and_hard_state:
  assumes "record_fits (DSnapshot s)" "0 < sn_index s"
  shows "\<exists>i. replay_records [(a, encode (DSnapshot s)), (b, encode (DHardState h))] ml_new = Inr i
    \<and> ml_entries i = [] \<and> ml_base_index i = sn_index s"
proof -
  have "replay_records [(a, encode (DSnapshot s))] ml_new = Inr (fst (ml_apply_snapshot ml_new s))"
    using assms(1)
    by (intro replay_record) (simp_all add: replay_one_def prod_eq_iff ml_apply_snapshot_never_fails)
  moreover have "replay_records [(b, encode (DHardState h))] i = Inr (i\<lparr>ml_hard := h\<rparr>)" for i
    by (rule replay_record) (simp_all add: record_fits_def replay_one_def ml_set_hard_state_def)
  ultimately have "replay_records [(a, encode (DSnapshot s)), (b, encode (DHardState h))] ml_new
      = Inr ((fst (ml_apply_snapshot ml_new s))\<lparr>ml_hard := h\<rparr>)"
    using replay_records_append[of "[(a, encode (DSnapshot s))]" "[(b, encode (DHardState h))]" ml_new]
    by simp
  moreover have "ml_entries (fst (ml_apply_snapshot ml_new s)) = []"
    "ml_base_index (fst (ml_apply_snapshot ml_new s)) = sn_index s"
    using assms(2) by (simp_all add: ml_apply_snapshot_def Let_def ml_new_def not_le)
  ultimately show ?thesis by simp
qed

lemma replay_gap:
  assumes "le_index e \<noteq> ml_last_index i + 1" "record_fits (DEntry e)"
  shows "\<exists>err. replay_records ((k, encode_entry e) # rs) i = Inl err \<and> is_fatal err"
  using assms decode_encode[of "DEntry e"]
  by (simp add: replay_records_def replay_one_def ml_append_def Let_def)

text \<open>
  C32: A snapshot that leaves a tail loses it: once a snapshot has been installed while the index
  still holds entries above it, and the records before the snapshot have been dropped, reopening
  succeeds with a log that ends at the snapshot; and when any entries have been appended before
  reopening, it fails with a fatal error.
\<close>

theorem compaction_loses_tail:
  assumes "wal_laws W recs" "\<And>w k. \<not> isl (snd (wop_truncate_before W w k))"
    and "wl_apply_snapshot W l s = (l1, Inr ())" "record_fits (DSnapshot s)"
    and "ml_snapshot_index (wl_index l) < sn_index s"
    and "sn_index s < ml_last_index (wl_index l1)"
  shows "(\<exists>l2. wl_open W (Inr (wl_wal l1)) = Inr l2
        \<and> ml_entries (wl_index l2) = [] \<and> ml_last_index (wl_index l2) = sn_index s)
    \<and> (\<forall>e es l3. wl_append W l1 (e # es) = (l3, Inr ()) \<longrightarrow> record_fits (DEntry e) \<longrightarrow>
        (\<exists>err. wl_open W (Inr (wl_wal l3)) = Inl err \<and> is_fatal err))"
proof -
  obtain a b h where r: "recs (wl_wal l1) = [(a, encode (DSnapshot s)), (b, encode (DHardState h))]"
    using apply_snapshot_records[OF assms(1,2,3,5)] by blast
  have "0 < sn_index s" using assms(5) by (metis word_gt_0 word_zero_le not_le)
  from replay_snapshot_and_hard_state[OF assms(4) this, of a b h] r obtain i where
    i: "replay_records (recs (wl_wal l1)) ml_new = Inr i" "ml_entries i = []" "ml_base_index i = sn_index s"
    by auto
  have open_eq: "wl_open W (Inr w) = attempt (replay_records (recs w) ml_new)
      (\<lambda>i. Inr \<lparr>wl_wal = w, wl_index = i\<rparr>)" for w
    by (simp add: wl_open_def wal_lawsD(3)[OF assms(1)] replay_records_def)
  have last: "ml_last_index i = sn_index s" using i by (simp add: ml_last_index_def)
  have "\<exists>err. wl_open W (Inr (wl_wal l3)) = Inl err \<and> is_fatal err"
    if ap: "wl_append W l1 (e # es) = (l3, Inr ())" "record_fits (DEntry e)" for e es l3
  proof -
    note ix = wl_append_index[OF ap(1)]
    from ap(1) ix have "wl_write_entries W (l1\<lparr>wl_index := wl_index l3\<rparr>) (e # es) = (l3, Inr ())"
      by (auto simp: wl_append_def on_index_ok and_then_ok)
    from wl_write_entries_records[OF assms(1) this] obtain k rs where
      rs: "recs (wl_wal l3) = recs (wl_wal l1) @ (k, encode_entry e) # rs" by auto
    have "le_index e = ml_last_index (wl_index l1) + 1"
      using ix by (auto simp: ml_append_def Let_def split: if_splits)
    with assms(6) last have "le_index e \<noteq> ml_last_index i + 1" by auto
    from replay_gap[OF this ap(2), of k rs] show ?thesis
      by (auto simp: open_eq rs replay_records_append i(1))
  qed
  with i last show ?thesis by (simp add: open_eq)
qed

text \<open>Entries 1 to 3, compacted at 2, and entry 4 appended after that.\<close>

definition tail_start :: "(u64 \<times> byte list) list wal_log" where
  "tail_start = fst (wl_append list_wal \<lparr>wl_wal = [], wl_index = ml_new\<rparr>
     [entry_new 1 1 [5], entry_new 1 2 [6], entry_new 1 3 [7]])"

definition tail_compacted :: "(u64 \<times> byte list) list wal_log" where
  "tail_compacted = fst (wl_apply_snapshot list_wal tail_start (snapshot_with_config 2 1 [1] [9]))"

lemma tail_compacted_run:
  "snd (wl_apply_snapshot list_wal tail_start (snapshot_with_config 2 1 [1] [9])) = Inr ()"
  "ml_snapshot_index (wl_index tail_start) < 2" "2 < ml_last_index (wl_index tail_compacted)"
  "snd (wl_append list_wal tail_compacted [entry_new 1 4 [8]]) = Inr ()"
  by code_simp+

theorem compaction_loses_tail_witness:
  "(\<exists>l2. wl_open list_wal (Inr (wl_wal tail_compacted)) = Inr l2 \<and> ml_last_index (wl_index l2) = 2)
   \<and> (\<exists>err. wl_open list_wal (Inr (wl_wal (fst (wl_append list_wal tail_compacted [entry_new 1 4 [8]]))))
        = Inl err \<and> is_fatal err)"
proof -
  let ?s = "snapshot_with_config 2 1 [1] [9]"
  have t: "\<not> isl (snd (wop_truncate_before list_wal w k))" for w k by (simp add: list_wal_def)
  have 1: "wl_apply_snapshot list_wal tail_start ?s = (tail_compacted, Inr ())"
    using tail_compacted_run(1) by (simp add: tail_compacted_def prod_eq_iff)
  have 2: "wl_append list_wal tail_compacted [entry_new 1 4 [8]]
      = (fst (wl_append list_wal tail_compacted [entry_new 1 4 [8]]), Inr ())"
    using tail_compacted_run(4) by (simp add: prod_eq_iff)
  have fits: "record_fits (DSnapshot ?s)" "record_fits (DEntry (entry_new 1 4 [8]))"
    by (simp_all add: record_fits_def snapshot_with_config_def)
  have idx: "sn_index ?s = 2" by (simp add: snapshot_with_config_def)
  from compaction_loses_tail[OF list_wal_laws t 1 fits(1)] tail_compacted_run(2,3)
  show ?thesis using 2 fits(2) unfolding idx by blast
qed

end
