(* ===== verification/Raft_Transport.thy ===== *)
theory Raft_Transport
  imports Node_State
begin

text \<open>
  The two delivery components around a node: the recording transport of \<^verbatim>\<open>src/transport.rs\<close>
  and the wire framing of \<^verbatim>\<open>src/framing.rs\<close>. The framing calls the crate \<open>pack-io\<close>, whose two
  functions are a parameter here.
\<close>

subsection \<open>The transport\<close>

record memory_transport =
  mt_outbox :: "(node_id \<times> message) list"

definition mt_new :: memory_transport where
  "mt_new = \<lparr>mt_outbox = []\<rparr>"

definition mt_take :: "memory_transport \<Rightarrow> memory_transport \<times> (node_id \<times> message) list" where
  "mt_take t = (t\<lparr>mt_outbox := []\<rparr>, mt_outbox t)"

definition mt_pending :: "memory_transport \<Rightarrow> nat" where
  "mt_pending t = length (mt_outbox t)"

definition mt_send ::
  "node_id \<Rightarrow> message \<Rightarrow> memory_transport \<Rightarrow> memory_transport \<times> (rerror + unit)" where
  "mt_send to m t = (t\<lparr>mt_outbox := mt_outbox t @ [(to, m)]\<rparr>, Inr ())"

text \<open>What a driver relies on: a transport accepts messages and hands them over, oldest first.
  \<open>queued\<close> is what it still has to deliver.\<close>

locale transport =
  fixes queued :: "'t \<Rightarrow> (node_id \<times> message) list"
    and send :: "node_id \<Rightarrow> message \<Rightarrow> 't \<Rightarrow> 't \<times> (rerror + unit)"
    and take_all :: "'t \<Rightarrow> 't \<times> (node_id \<times> message) list"
  assumes send_ok: "\<exists>t'. send to m t = (t', Inr ()) \<and> queued t' = queued t @ [(to, m)]"
    and take_all: "snd (take_all t) = queued t" "queued (fst (take_all t)) = []"
begin

text \<open>The driver loop: every \<open>Send\<close> action is handed to the transport, the others are not.\<close>

lemma fold_send:
  "queued (fold (\<lambda>a t. case a of Send to m \<Rightarrow> fst (send to m t) | _ \<Rightarrow> t) acts t)
     = queued t @ concat (map (\<lambda>a. case a of Send to m \<Rightarrow> [(to, m)] | _ \<Rightarrow> []) acts)"
proof (induction acts arbitrary: t)
  case (Cons a acts)
  have "queued (fst (send to m t)) = queued t @ [(to, m)]" for to m
    using send_ok[of to m t] by auto
  with Cons show ?case by (cases a) simp_all
qed simp

end

interpretation mem_transport: transport mt_outbox mt_send mt_take
  by unfold_locales (simp_all add: mt_send_def mt_take_def)

subsection \<open>Framing\<close>

record pack_ops =
  pack_encode :: "message \<Rightarrow> string + byte list"
  pack_decode :: "byte list \<Rightarrow> string + message"

definition framing_encode :: "pack_ops \<Rightarrow> message \<Rightarrow> rerror + byte list" where
  "framing_encode P m =
     (case pack_encode P m of Inl e \<Rightarrow> Inl (Encoding ''encode message'' e) | Inr bs \<Rightarrow> Inr bs)"

definition framing_decode :: "pack_ops \<Rightarrow> byte list \<Rightarrow> rerror + message" where
  "framing_decode P bs =
     (case pack_decode P bs of Inl e \<Rightarrow> Inl (Encoding ''decode message'' e) | Inr m \<Rightarrow> Inr m)"

text \<open>What \<open>pack-io\<close> promises: what it encodes, it decodes.\<close>

definition pack_laws :: "pack_ops \<Rightarrow> bool" where
  "pack_laws P \<longleftrightarrow> (\<forall>m bs. pack_encode P m = Inr bs \<longrightarrow> pack_decode P bs = Inr m)"

text \<open>A codec of one message kind, for evaluation: eight bytes of term, eight of leader.\<close>

definition timeout_pack :: pack_ops where
  "timeout_pack = \<lparr>
     pack_encode = (\<lambda>m. case m of
         TimeoutNow r \<Rightarrow> Inr (to_le_bytes (tn_term r) @ to_le_bytes (tn_leader r))
       | _ \<Rightarrow> Inl ''unsupported''),
     pack_decode = (\<lambda>bs. if length bs = 16
       then Inr (TimeoutNow \<lparr>tn_term = from_le_bytes (take 8 bs), tn_leader = from_le_bytes (drop 8 bs)\<rparr>)
       else Inl ''length'')\<rparr>"

lemma timeout_pack_laws: "pack_laws timeout_pack"
  by (auto simp: pack_laws_def timeout_pack_def split: message.splits)

subsection \<open>Properties\<close>

text \<open>
  The driver delivers what a node sends: handing a node's actions to the transport queues
  exactly its messages, with their destinations and in the order it emitted them, after whatever
  was queued before; draining returns them all and leaves nothing, whatever the actions.
\<close>

theorem transport_in_order:
  "snd (mt_take (fold (\<lambda>a t. case a of Send to m \<Rightarrow> fst (mt_send to m t) | _ \<Rightarrow> t) acts t))
     = mt_outbox t @ concat (map (\<lambda>a. case a of Send to m \<Rightarrow> [(to, m)] | _ \<Rightarrow> []) acts)
   \<and> mt_pending (fst (mt_take (fold (\<lambda>a t. case a of Send to m \<Rightarrow> fst (mt_send to m t) | _ \<Rightarrow> t)
       acts t))) = 0"
  using mem_transport.take_all mem_transport.fold_send[of acts t] by (simp add: mt_pending_def)

text \<open>
  Framing is transparent and its failures are not fatal: given the round trip of the
  underlying codec, a message that encodes decodes to itself; any failure of either direction is
  an encoding error, which is neither fatal nor to be retried.
\<close>

theorem framing_round_trip:
  assumes "pack_laws P"
  shows "(framing_encode P m = Inr bs \<longrightarrow> framing_decode P bs = Inr m)
    \<and> (framing_encode P m = Inl e \<or> framing_decode P bs = Inl e \<longrightarrow>
         error_kind_of e = ''Encoding'' \<and> \<not> is_fatal e \<and> \<not> is_retryable e)"
  using assms
  by (auto simp: pack_laws_def framing_encode_def framing_decode_def split: sum.splits)

theorem framing_round_trip_witness:
  "framing_decode timeout_pack (to_le_bytes 7 @ to_le_bytes 1) = Inr (TimeoutNow \<lparr>tn_term = 7, tn_leader = 1\<rparr>)"
proof -
  have "framing_encode timeout_pack (TimeoutNow \<lparr>tn_term = 7, tn_leader = 1\<rparr>)
      = Inr (to_le_bytes 7 @ to_le_bytes 1)"
    by (simp add: framing_encode_def timeout_pack_def)
  with framing_round_trip[OF timeout_pack_laws] show ?thesis by blast
qed

end
