(* ===== verification/Membership_Hazard.thy ===== *)
theory Membership_Hazard
  imports Schedule
begin

text \<open>
  A schedule in which single-server membership changes break state machine safety. The
  quorums of consecutive configurations overlap, but two leaders of different terms may each
  start a change from the same old configuration, because a new leader may reconfigure before
  it has committed an entry of its own term; the two new configurations are then two servers
  apart, and their majorities need not meet.

  Node 1 leads term 1 of the cluster 1 to 4 and adds 5, which only 5 hears of. Node 2 is
  elected in term 2 by 2, 3 and 4, removes 1 and commits a command at index 2 with 3. Node 1
  is then elected in term 3 by 1, 4 and 5, a majority of its five servers, and commits another
  command at index 2.
\<close>

definition four :: "node_id \<Rightarrow> raft_config" where
  "four i = with_election_timeout 1 1 (config_new i [1, 2, 3, 4])"

definition two_leaders :: "move list" where
  "two_leaders =
     [Do 1 Tick, Newest 2, Newest 1, Newest 3, Newest 1,
      Newest 2, Newest 1, Newest 3, Newest 1,
      Do 1 (AddServer 5), Newest 5,
      Do 2 Tick, Newest 3, Newest 2, Newest 4, Newest 2,
      Newest 3, Newest 2, Newest 4, Newest 2,
      Do 2 (RemoveServer 1), Newest 3, Newest 2,
      Do 2 (Propose [88]), Newest 3, Newest 2,
      Do 1 Tick, Do 1 Tick, Do 1 Tick, Newest 4, Newest 1,
      Do 5 Tick, Do 1 Tick, Newest 4, Newest 1, Newest 5, Newest 1,
      Newest 4, Newest 1, Newest 5, Newest 1,
      Do 1 (Propose [99]), Newest 5, Newest 1, Newest 5, Newest 1,
      Newest 4, Newest 1, Newest 4, Newest 1]"

lemma two_leaders_play:
  "case play_moves (\<lambda>_. True) two_leaders (roster_init [1, 2, 3, 4, 5] four) of
     Some R \<Rightarrow> (2, 2, [88]) \<in> set (r_applied R) \<and> (1, 2, [99]) \<in> set (r_applied R)
   | None \<Rightarrow> False"
  by code_simp

text \<open>C39: single-server membership changes, as the code admits them, do not keep state machine
  safety. Some schedule of the five nodes above, in which every message is one that was sent
  and every membership change is accepted by the leader that proposes it, makes node 2 and
  node 1 apply different commands at index 2.\<close>
theorem membership_change_unsafe:
  "\<exists>c. reachable (\<lambda>_. True) (set [1, 2, 3, 4, 5]) four c
     \<and> (2, 2, [88]) \<in> c_applied c \<and> (1, 2, [99]) \<in> c_applied c"
proof -
  obtain R where R: "play_moves (\<lambda>_. True) two_leaders (roster_init [1, 2, 3, 4, 5] four) = Some R"
    "(2, 2, [88]) \<in> set (r_applied R)" "(1, 2, [99]) \<in> set (r_applied R)"
    using two_leaders_play by (auto split: option.splits)
  obtain c where "reachable (\<lambda>_. True) (set [1, 2, 3, 4, 5]) four c"
    "represents (set [1, 2, 3, 4, 5]) R c" by (rule play_moves_reachable[OF R(1)])
  with R(2,3) show ?thesis by (auto simp: represents_def)
qed

end
