(* ===== verification/Cluster_Budget.thy ===== *)
theory Cluster_Budget
  imports State_Machine_Safety Apply_Order
begin

text \<open>
  Clusters driven by ticks, proposals and snapshots, with no transfer of leadership: no step
  fails, and the terms and indices in the whole cluster are bounded by the number of ticks
  and of proposals so far. So the room that the step relation asks for is there as long as
  fewer than \<open>2 ^ 64 - 1\<close> ticks and \<open>2 ^ 63 - 1\<close> proposals were made.
\<close>

definition pre_voters :: "node_id list \<Rightarrow> cluster \<Rightarrow> node_id set" where
  "pre_voters vs c = {i \<in> set vs. n_pre_voting (c_node c i)}"

text \<open>No term lies beyond \<open>K\<close>. A node that is gathering pre-votes may still raise it by one,
  so \<open>T\<close> counts the pre-voters too.\<close>

definition in_terms :: "nat \<Rightarrow> node_id list \<Rightarrow> cluster \<Rightarrow> bool" where
  "in_terms K vs c \<longleftrightarrow> (\<forall>i \<in> set vs. unat (n_current_term (c_node c i)) \<le> K)
     \<and> (\<forall>j m. (j, m) \<in> c_net c \<longrightarrow> is_pre_vote m \<or> unat (message_term m) \<le> K)"

definition in_bounds :: "policy \<Rightarrow> nat \<Rightarrow> node_id list \<Rightarrow> cluster \<Rightarrow> bool" where
  "in_bounds pol B vs c \<longleftrightarrow>
     (\<forall>i \<in> set vs. settling vs i (c_node c i) \<and> stored pol B (n_log (c_node c i)))
   \<and> (\<forall>j m. (j, m) \<in> c_net c \<longrightarrow> j \<in> set vs \<and> incoming pol B vs j m)"

definition budgeted :: "policy \<Rightarrow> nat \<Rightarrow> nat \<Rightarrow> node_id list \<Rightarrow> cluster \<Rightarrow> bool" where
  "budgeted pol T B vs c \<longleftrightarrow> in_bounds pol B vs c
     \<and> (\<exists>K. in_terms K vs c \<and> K + card (pre_voters vs c) \<le> T)"

lemma incoming_mono: "incoming pol B vs i m \<Longrightarrow> B \<le> B' \<Longrightarrow> incoming pol B' vs i m"
  by (simp add: incoming_def)

lemma budgeted_mono: "budgeted pol T B vs c \<Longrightarrow> T \<le> T' \<Longrightarrow> B \<le> B' \<Longrightarrow> budgeted pol T' B' vs c"
  unfolding budgeted_def in_bounds_def by (meson incoming_mono order_trans stored_mono)

lemma budgetedD:
  assumes "budgeted pol T B vs c"
  shows "i \<in> set vs \<Longrightarrow> settling vs i (c_node c i)"
    "i \<in> set vs \<Longrightarrow> stored pol B (n_log (c_node c i))"
    "(j, m) \<in> c_net c \<Longrightarrow> j \<in> set vs \<and> incoming pol B vs j m"
    "i \<in> set vs \<Longrightarrow> unat (n_current_term (c_node c i)) \<le> T"
  using assms unfolding budgeted_def in_bounds_def in_terms_def by (blast, blast, blast, force)

text \<open>One node moves.\<close>

lemma in_bounds_absorb:
  assumes b: "in_bounds pol B vs c" "B \<le> B'" and i: "i \<in> set vs"
    and m: "mailed pol B' vs i (n, acts)" and pl: "plain_acts vs acts"
  shows "in_bounds pol B' vs (absorb c i n acts)"
proof -
  have new: "to \<in> set vs \<and> incoming pol B' vs to x" if "Send to x \<in> set acts" for to x
    using that mailedD(3)[OF m] pl i
    by (auto simp: posted_def letter_def incoming_def plain_acts_def)
  have "j \<in> set vs \<and> incoming pol B' vs j x" if "(j, x) \<in> c_net (absorb c i n acts)" for j x
    using that new b(1) incoming_mono[OF _ b(2)] by (auto simp: in_bounds_def mem_sends)
  moreover have "settling vs j (c_node (absorb c i n acts) j)
      \<and> stored pol B' (n_log (c_node (absorb c i n acts) j))" if "j \<in> set vs" for j
    using that m b(1) stored_mono[OF _ b(2)] by (simp add: in_bounds_def mailed_def)
  ultimately show ?thesis unfolding in_bounds_def by blast
qed

lemma in_terms_absorb:
  assumes "in_terms K vs c" "K \<le> K'" "unat (n_current_term n) \<le> K'"
    and "posted pol B vs i (n_current_term n) acts"
  shows "in_terms K' vs (absorb c i n acts)"
proof -
  have "is_pre_vote m \<or> unat (message_term m) \<le> K'" if "(j, m) \<in> c_net (absorb c i n acts)" for j m
  proof (cases "Send j m \<in> set acts")
    case True
    with assms(4) have "is_pre_vote m \<or> message_term m = n_current_term n"
      by (simp add: posted_def letter_def)
    with assms(3) show ?thesis by auto
  next
    case False
    with that assms(1,2) show ?thesis by (fastforce simp: in_terms_def mem_sends)
  qed
  moreover have "unat (n_current_term (c_node (absorb c i n acts) j)) \<le> K'" if "j \<in> set vs" for j
    using that assms(1-3) by (auto simp: in_terms_def intro: order_trans)
  ultimately show ?thesis unfolding in_terms_def by blast
qed

lemma card_pre_voters_absorb:
  assumes "i \<in> set vs"
  shows "n_pre_voting n \<longrightarrow> n_pre_voting (c_node c i) \<Longrightarrow>
      card (pre_voters vs (absorb c i n acts)) \<le> card (pre_voters vs c)"
    "card (pre_voters vs (absorb c i n acts)) \<le> card (pre_voters vs c) + 1"
    "\<not> n_pre_voting n \<Longrightarrow> n_pre_voting (c_node c i) \<Longrightarrow>
      card (pre_voters vs (absorb c i n acts)) + 1 = card (pre_voters vs c)"
proof -
  have fin: "finite (pre_voters vs c)" by (simp add: pre_voters_def)
  have sub: "pre_voters vs (absorb c i n acts) \<subseteq> insert i (pre_voters vs c)"
    by (auto simp: pre_voters_def)
  show "card (pre_voters vs (absorb c i n acts)) \<le> card (pre_voters vs c)"
    if "n_pre_voting n \<longrightarrow> n_pre_voting (c_node c i)"
    using that by (intro card_mono fin) (auto simp: pre_voters_def)
  show "card (pre_voters vs (absorb c i n acts)) \<le> card (pre_voters vs c) + 1"
    using card_mono[OF _ sub] fin card_insert_le_m1[of "card (pre_voters vs c) + 1" "pre_voters vs c" i]
    by (simp add: card_insert_if split: if_splits)
  show "card (pre_voters vs (absorb c i n acts)) + 1 = card (pre_voters vs c)"
    if "\<not> n_pre_voting n" "n_pre_voting (c_node c i)"
  proof -
    have "pre_voters vs c = insert i (pre_voters vs (absorb c i n acts))"
      "i \<notin> pre_voters vs (absorb c i n acts)"
      using that assms by (auto simp: pre_voters_def)
    then show ?thesis using fin by simp
  qed
qed

text \<open>The three ways a step may move the term, and what it costs.\<close>

lemma budgeted_absorb:
  assumes w: "budgeted pol T B vs c" "B \<le> B'" and i: "i \<in> set vs"
    and m: "mailed pol B' vs i (n, acts)" and pl: "plain_acts vs acts" and T: "T < 2 ^ 64 - 1"
  shows "adopts t (c_node c i) n \<Longrightarrow>
      (\<And>K. in_terms K vs c \<Longrightarrow> unat t \<le> K) \<Longrightarrow> budgeted pol T B' vs (absorb c i n acts)"
    "n_pre_voting (c_node c i) \<Longrightarrow> elects (c_node c i) n \<Longrightarrow> budgeted pol T B' vs (absorb c i n acts)"
    "elects (c_node c i) n \<or> n_current_term n = n_current_term (c_node c i) \<Longrightarrow>
      budgeted pol (T + 1) B' vs (absorb c i n acts)"
proof -
  obtain K where K: "in_terms K vs c" "K + card (pre_voters vs c) \<le> T"
    using w(1) unfolding budgeted_def by blast
  have b: "in_bounds pol B' vs (absorb c i n acts)"
    using w m pl by (intro in_bounds_absorb[OF _ w(2) i]) (simp_all add: budgeted_def)
  have now: "unat (n_current_term (c_node c i)) \<le> K" using K(1) i by (simp add: in_terms_def)
  have inc: "unat (n_current_term n) \<le> K + 1" if "n_current_term n = n_current_term (c_node c i) + 1"
    using that now K(2) T unat_plus_one[of "n_current_term (c_node c i)"] by simp
  note terms = in_terms_absorb[OF K(1) _ _ mailedD(3)[OF m]] and cards = card_pre_voters_absorb[OF i, where c = c and n = n and acts = acts]
  show "budgeted pol T B' vs (absorb c i n acts)"
    if "adopts t (c_node c i) n" "\<And>K. in_terms K vs c \<Longrightarrow> unat t \<le> K"
  proof -
    have "unat (n_current_term n) \<le> max (unat (n_current_term (c_node c i))) (unat t)"
      using that(1) by (auto simp: adopts_def word_le_nat_alt max_def split: if_splits)
    then have "in_terms K vs (absorb c i n acts)" using that(2)[OF K(1)] now by (intro terms) auto
    with b K(2) cards(1) that(1) show ?thesis unfolding budgeted_def adopts_def by (meson add_left_mono order_trans)
  qed
  show "budgeted pol T B' vs (absorb c i n acts)"
    if "n_pre_voting (c_node c i)" "elects (c_node c i) n"
    using that b K(2) cards(3) terms[of "K + 1"] inc unfolding budgeted_def elects_def
    by (intro conjI exI[of _ "K + 1"]) auto
  show "budgeted pol (T + 1) B' vs (absorb c i n acts)"
    if "elects (c_node c i) n \<or> n_current_term n = n_current_term (c_node c i)"
    using that
  proof
    assume "elects (c_node c i) n"
    with b K(2) cards(1) terms[of "K + 1"] inc show ?thesis
      unfolding budgeted_def elects_def by (intro conjI exI[of _ "K + 1"]) auto
  next
    assume "n_current_term n = n_current_term (c_node c i)"
    with b K(2) cards(2) terms[of K] now show ?thesis
      unfolding budgeted_def by (intro conjI exI[of _ K]) auto
  qed
qed

subsection \<open>Steps of a cluster within its bounds\<close>

text \<open>The entries in flight follow the index they name.\<close>

lemma models_indexed:
  assumes m: "models vs A c" and i: "i \<in> set vs" and net: "(i, x) \<in> c_net c"
  shows "indexed_batch x (n_log (c_node c i))"
proof -
  have "indexed_from (unat (ae_prev_log_index ae)) (ae_entries ae)"
    if x: "x = AppendEntries ae" and acc: "accepts ae (n_log (c_node c i))" for ae
  proof -
    let ?p = "ae_prev_log_index ae"
    have "msg_ok vs A i x" using m net by (simp add: models_def)
    then obtain L where L: "s_ledger A (ae_term ae) = Some L"
      "(\<exists>k. slice_of L ae k) \<or> 0 < ?p \<and> ae_prev_log_term ae = 0"
      unfolding x msg_ok_def append_ok_def by auto
    note inv = modelsD(1)[OF m] and N = linkedD[OF modelsD(2)[OF m i]]
    have "\<not> (0 < ?p \<and> ae_prev_log_term ae = 0)"
      using positive_terms[OF inv, of "unat ?p" i] acc
      by (auto simp: accepts_def word_less_nat_alt compacts_term_at[OF N(5)] split: if_splits)
    with L(2) obtain k where "slice_of L ae k" by blast
    with indexed_slice[of L "unat ?p" k] ledgers_wfD(2)[OF protocol_invD(1)[OF inv] L(1)]
    show ?thesis by (simp add: slice_of_def)
  qed
  then show ?thesis by (auto simp: indexed_batch_def split: message.split)
qed

text \<open>The cluster states this theory is about.\<close>

definition steady :: "policy \<Rightarrow> nat \<Rightarrow> nat \<Rightarrow> node_id list \<Rightarrow> (node_id \<Rightarrow> raft_config) \<Rightarrow> cluster \<Rightarrow> bool" where
  "steady pol T B vs cfg c \<longleftrightarrow> deployed vs (set vs) cfg \<and> reachable fixed_members (set vs) cfg c
     \<and> budgeted pol T B vs c \<and> T < 2 ^ 64 - 1 \<and> B < 2 ^ 63 - 1"

lemma steadyD:
  assumes "steady pol T B vs cfg c"
  shows "deployed vs (set vs) cfg" "reachable fixed_members (set vs) cfg c" "budgeted pol T B vs c"
    "T < 2 ^ 64 - 1" "B < 2 ^ 63 - 1"
    "i \<in> set vs \<Longrightarrow> mailed pol B vs i (c_node c i, [])" "i \<in> set vs \<Longrightarrow> plain vs (c_node c i)"
    "i \<in> set vs \<Longrightarrow> n_current_term (c_node c i) \<noteq> u64_max"
    "i \<in> set vs \<Longrightarrow> (i, m) \<in> c_net c \<Longrightarrow> indexed_batch m (n_log (c_node c i))"
proof -
  show d: "deployed vs (set vs) cfg" "reachable fixed_members (set vs) cfg c" "budgeted pol T B vs c"
    "T < 2 ^ 64 - 1" "B < 2 ^ 63 - 1"
    using assms by (simp_all add: steady_def)
  show "mailed pol B vs i (c_node c i, [])" if "i \<in> set vs"
    using budgetedD(1,2)[OF d(3) that] by (simp add: mailed_def)
  show "plain vs (c_node c i)" if "i \<in> set vs"
    using reachable_invs[OF d(2,1)] that by (simp add: static_inv_def)
  show "n_current_term (c_node c i) \<noteq> u64_max" if "i \<in> set vs"
    using budgetedD(4)[OF d(3) that] d(4) by (simp add: not_max_room)
  show "indexed_batch m (n_log (c_node c i))" if "i \<in> set vs" "(i, m) \<in> c_net c"
    using cluster_modelled[OF d(1,2)] models_indexed[OF _ that] by blast
qed

text \<open>A policy may be weakened.\<close>

definition allows :: "policy \<Rightarrow> policy \<Rightarrow> bool" where
  "allows p q \<longleftrightarrow> (\<forall>x d. po_snapshot p x d \<longrightarrow> po_snapshot q x d) \<and> (\<forall>c. po_command p c \<longrightarrow> po_command q c)"

lemma steady_allows:
  assumes "steady p T B vs cfg c" "allows p q"
  shows "steady q T B vs cfg c"
proof -
  have "carries p m \<Longrightarrow> carries q m" for m using assms(2) by (cases m) (auto simp: allows_def)
  moreover have "keeps p l \<Longrightarrow> keeps q l" for l using assms(2) by (auto simp: allows_def keeps_def)
  ultimately show ?thesis
    using assms(1) unfolding steady_def budgeted_def in_bounds_def stored_def incoming_def by blast
qed

text \<open>The steps: a result without error, for members other than the sender.\<close>

definition served :: "policy \<Rightarrow> nat \<Rightarrow> nat \<Rightarrow> node_id list \<Rightarrow> (node_id \<Rightarrow> raft_config) \<Rightarrow> cluster
    \<Rightarrow> node_id \<Rightarrow> event \<Rightarrow> bool" where
  "served pol T B vs cfg c i ev \<longleftrightarrow> (\<exists>n acts. step ev (c_node c i) = (n, Inr acts)
     \<and> (\<forall>to m. Send to m \<in> set acts \<longrightarrow> to \<in> set vs - {i})
     \<and> cluster_step fixed_members (set vs) cfg c (absorb c i n acts)
     \<and> steady pol T B vs cfg (absorb c i n acts))"

lemma servedI:
  assumes s: "steady pol T B vs cfg c" "i \<in> set vs" and st: "step ev (c_node c i) = (n, Inr acts)"
    and m: "mailed pol B' vs i (n, acts)"
    and ev: "fixed_members ev" "may_occur c i ev" "term_room ev (c_node c i)" "log_room ev (c_node c i)"
    and w: "plain_acts vs acts \<Longrightarrow> budgeted pol T' B' vs (absorb c i n acts)" and T': "T' < 2 ^ 64 - 1" "B' < 2 ^ 63 - 1"
  shows "served pol T' B' vs cfg c i ev"
proof -
  note D = steadyD[OF s(1)]
  have cs: "cluster_step fixed_members (set vs) cfg c (absorb c i n acts)"
    using cluster_step.handle[of i "set vs" fixed_members ev c n "Inr acts" cfg] s(2) ev st
    by (simp add: result_actions_def)
  have "plain_acts vs acts"
  proof -
    have inv: "ml_inv (n_log (c_node c i))" using D(6)[OF s(2)] by (simp add: mailed_def stored_def)
    have "plain_event vs ev"
      using ev(1,2) budgetedD(3)[OF D(3)] by (auto simp: plain_event_def fixed_members_def may_occur_def
          incoming_def split: event.split)
    from step_plain[OF D(7)[OF s(2)] inv this ev(4)] st show ?thesis by (simp add: plain_ctx_def)
  qed
  then have "steady pol T' B' vs cfg (absorb c i n acts)"
    using D(1,2) w T' reachable.next_step[OF _ cs] by (simp add: steady_def)
  moreover have "to \<in> set vs - {i}" if "Send to x \<in> set acts" for to x
    using that mailedD(3)[OF m] by (simp add: posted_def)
  ultimately show ?thesis using st cs unfolding served_def by blast
qed

lemma tick_served:
  assumes s: "steady pol T B vs cfg c" "i \<in> set vs" and T: "T + 1 < 2 ^ 64 - 1"
  shows "served pol (T + 1) B vs cfg c i Tick"
proof -
  note D = steadyD[OF s(1)]
  have m: "mailed pol B vs i (fst (tick (c_node c i)))" by (rule mailed_tick[OF D(6)[OF s(2)]])
  have "snd (tick (c_node c i)) = Inr ()"
    by (simp add: tick_def start_pre_vote_def Let_def)
  then obtain n acts where t: "tick (c_node c i) = ((n, acts), Inr ())" by (metis prod.collapse)
  have room: "log_room Tick (c_node c i)"
    using budgetedD(2)[OF D(3) s(2)] D(5) by (simp add: log_room_def stored_def)
  show ?thesis
  proof (rule servedI[OF s])
    show "step Tick (c_node c i) = (n, Inr acts)" using t by (simp add: step_def)
    show "mailed pol B vs i (n, acts)" using m t by simp
    show "budgeted pol (T + 1) B vs (absorb c i n acts)" if "plain_acts vs acts"
      using tick_term[of "c_node c i"] t m that
      by (intro budgeted_absorb(3)[OF D(3) order_refl s(2) _ _ D(4)]) auto
  qed (use room D(8)[OF s(2)] T D(5) in \<open>auto simp: fixed_members_def membership_event_def may_occur_def term_room_def\<close>)
qed

lemma message_served:
  assumes s: "steady pol T B vs cfg c" and net: "(i, m) \<in> c_net c"
  shows "served pol T B vs cfg c i (Message m)"
proof -
  note D = steadyD[OF s]
  have i: "i \<in> set vs" and inc: "incoming pol B vs i m" using budgetedD(3)[OF D(3) net] by simp_all
  have B: "B < 2 ^ 63" using D(5) by simp
  obtain n acts where h: "handle_message m (c_node c i) = ((n, acts), Inr ())" "mailed pol B vs i (n, acts)"
    using message_handled[OF D(6)[OF i] D(7)[OF i] inc D(9)[OF i net] B] by (metis prod.collapse)
  have nt: "\<not> is_timeout_now m" using inc by (simp add: incoming_def)
  have room: "log_room (Message m) (c_node c i)"
    using budgetedD(2)[OF D(3) i] inc D(5)
    by (auto simp: log_room_def stored_def incoming_def split: message.split if_splits)
  have K: "unat (if is_pre_vote m then 0 else message_term m) \<le> K" if "in_terms K vs c" for K
    using that net by (auto simp: in_terms_def)
  show ?thesis
  proof (rule servedI[OF s i])
    show "step (Message m) (c_node c i) = (n, Inr acts)" using h by (simp add: step_def)
    show "budgeted pol T B vs (absorb c i n acts)" if "plain_acts vs acts"
      using message_term_growth[OF nt, of "c_node c i"] h(1)
        budgeted_absorb(1)[OF D(3) order_refl i h(2) that D(4), of "if is_pre_vote m then 0 else message_term m"]
        budgeted_absorb(2)[OF D(3) order_refl i h(2) that D(4)] K by auto
  qed (use room D(4,5,8) i h net nt in \<open>auto simp: fixed_members_def membership_event_def may_occur_def
      term_room_def is_timeout_now_def split: message.split\<close>)
qed

lemma propose_keeps:
  "n_current_term (fst (propose n c)) = n_current_term n"
  "n_pre_voting (fst (propose n c)) \<Longrightarrow> n_pre_voting n"
  by (auto simp: propose_def Let_def append_one entry_new_def ml_sync_def case_prod_unfold frame_simps
      dest!: advance_pre_voting split: if_splits)

lemma propose_served:
  assumes s: "steady pol T B vs cfg c" "i \<in> set vs" and l: "is_leader (c_node c i)" and B: "B + 1 < 2 ^ 63 - 1"
    and x: "po_command pol x"
  shows "served pol T (B + 1) vs cfg c i (Propose x)"
proof -
  note D = steadyD[OF s(1)]
  have B': "B < 2 ^ 63" using B by simp
  obtain acts where p: "snd (propose (c_node c i) x) = Inr acts"
    "mailed pol (B + 1) vs i (fst (propose (c_node c i) x), acts)"
    using mailed_propose[OF D(6)[OF s(2)] B' x] l by (auto simp: is_leader_def)
  define n where "n = fst (propose (c_node c i) x)"
  note p = p[folded n_def]
  have room: "log_room (Propose x) (c_node c i)"
    using budgetedD(2)[OF D(3) s(2)] D(5) by (simp add: log_room_def stored_def)
  show ?thesis
  proof (rule servedI[OF s _ p(2)])
    show "step (Propose x) (c_node c i) = (n, Inr acts)" using p(1) n_def by (simp add: step_def prod_eq_iff)
    show "budgeted pol T (B + 1) vs (absorb c i n acts)" if "plain_acts vs acts"
      using propose_keeps[of "c_node c i" x] n_def
      by (intro budgeted_absorb(1)[OF D(3) _ s(2) p(2) that D(4), of 0]) (auto simp: adopts_def)
  qed (use room D(4,8) s(2) B in \<open>auto simp: fixed_members_def membership_event_def may_occur_def term_room_def\<close>)
qed

lemma snapshot_keeps:
  "n_current_term (fst (handle_snapshot_event x d n)) = n_current_term n
   \<and> n_pre_voting (fst (handle_snapshot_event x d n)) = n_pre_voting n"
proof (cases "ml_term_at (n_log n) x")
  case (Some t)
  obtain l where l: "ml_apply_snapshot (n_log n)
      (snapshot_with_config x t (config_at n x) d) = (l, Inr ())"
    by (metis ml_apply_snapshot_never_fails prod.collapse)
  with Some show ?thesis
    by (simp add: handle_snapshot_event_def Let_def case_prod_unfold ml_sync_def frame_simps)
qed (simp add: handle_snapshot_event_def)

lemma snapshot_served:
  assumes s: "steady pol T B vs cfg c" "i \<in> set vs" and d: "po_snapshot pol x d"
  shows "served pol T B vs cfg c i (SnapshotEvent x d)"
proof -
  note D = steadyD[OF s(1)]
  obtain acts where p: "snd (handle_snapshot_event x d (c_node c i)) = Inr acts"
    "mailed pol B vs i (fst (handle_snapshot_event x d (c_node c i)), acts)"
    using mailed_snapshot_event[OF D(6)[OF s(2)] D(7)[OF s(2)] d] by blast
  define n where "n = fst (handle_snapshot_event x d (c_node c i))"
  note p = p[folded n_def]
  have room: "log_room (SnapshotEvent x d) (c_node c i)"
    using budgetedD(2)[OF D(3) s(2)] D(5) by (simp add: log_room_def stored_def)
  show ?thesis
  proof (rule servedI[OF s _ p(2)])
    show "step (SnapshotEvent x d) (c_node c i) = (n, Inr acts)"
      using p(1) n_def by (simp add: step_def prod_eq_iff)
    show "budgeted pol T B vs (absorb c i n acts)" if "plain_acts vs acts"
      using snapshot_keeps[of x d "c_node c i"] n_def
      by (intro budgeted_absorb(1)[OF D(3) _ s(2) p(2) that D(4), of 0]) (auto simp: adopts_def)
  qed (use room D(4,5,8) s(2) in \<open>auto simp: fixed_members_def membership_event_def may_occur_def term_room_def\<close>)
qed

subsection \<open>The first state\<close>

lemma deployed_members:
  assumes "\<And>i. cfg_id (cfg i) = i" "\<And>i. cfg_peers (cfg i) = filter (\<lambda>p. p \<noteq> i) ids"
  shows "deployed (sorted_members ids) (set (sorted_members ids)) cfg"
proof -
  have "sorted_members (filter (\<lambda>p. p \<noteq> i) ids @ [i]) = sorted_members ids" if "i \<in> set ids" for i
    using that by (intro sorted_members_cong) auto
  with assms show ?thesis by (simp add: deployed_def)
qed

lemma steady_init:
  assumes "\<And>i. cfg_id (cfg i) = i" "\<And>i. cfg_peers (cfg i) = filter (\<lambda>p. p \<noteq> i) ids"
  shows "steady pol 0 0 (sorted_members ids) cfg (cluster_init cfg)"
proof -
  let ?vs = "sorted_members ids"
  have d: "deployed ?vs (set ?vs) cfg" by (rule deployed_members[OF assms])
  have v: "n_voters (node_new (cfg i)) = ?vs" if "i \<in> set ?vs" for i
    using plain_node_new[of "cfg i"] deployedD(2,3)[OF d that] by (simp add: plain_def)
  have "settling ?vs i (node_new (cfg i)) \<and> stored pol 0 (n_log (node_new (cfg i)))
    \<and> n_current_term (node_new (cfg i)) = 0 \<and> \<not> n_pre_voting (node_new (cfg i))" if "i \<in> set ?vs" for i
    using v[OF that] assms(1)[of i]
    by (simp add: settling_def stored_def node_new_def node_with_log_def Let_def case_prod_unfold
        ml_inv_new) (simp add: ml_new_def ml_last_index_def ml_hard_state_def hard_state_default_def keeps_def)
  then have "budgeted pol 0 0 ?vs (cluster_init cfg)"
    by (auto simp: budgeted_def in_bounds_def in_terms_def pre_voters_def cluster_init_def)
  with d reachable.init show ?thesis by (simp add: steady_def)
qed

end
