(* ===== verification/Applied_History.thy ===== *)
theory Applied_History
  imports Cluster_Budget
begin

text \<open>
  What the actions of a step make of an application that has applied every command up to an
  index: the commands it is told to apply are the ones that follow, each hint asks for the
  state it is in, and a snapshot it is told to restore is one the policy allows.
\<close>

fun tells :: "policy \<Rightarrow> cluster \<Rightarrow> nat \<Rightarrow> action list \<Rightarrow> nat \<Rightarrow> bool" where
  "tells pol c a [] b \<longleftrightarrow> a = b"
| "tells pol c a (Apply x t y # acts) b \<longleftrightarrow>
     x = word_of_nat (a + 1) \<and> (\<exists>j. (j, x, y) \<in> c_applied c) \<and> po_command pol y \<and> tells pol c (a + 1) acts b"
| "tells pol c a (SnapshotHint x t # acts) b \<longleftrightarrow> unat x = a \<and> tells pol c a acts b"
| "tells pol c a (RestoreSnapshot x t d # acts) b \<longleftrightarrow> po_snapshot pol x d \<and> tells pol c (unat x) acts b"
| "tells pol c a (_ # acts) b \<longleftrightarrow> tells pol c a acts b"

lemma tells_append: "tells pol c a (xs @ ys) b \<longleftrightarrow> (\<exists>m. tells pol c a xs m \<and> tells pol c m ys b)"
  by (induction pol c a xs b rule: tells.induct) auto

lemma tells_news: "tells pol c a (filter is_news acts) b \<longleftrightarrow> tells pol c a acts b"
  by (induction pol c a acts b rule: tells.induct) simp_all

lemma tells_mono:
  "tells pol c a acts b \<Longrightarrow> allows pol pol' \<Longrightarrow> c_applied c \<subseteq> c_applied c' \<Longrightarrow> tells pol' c' a acts b"
  by (induction pol c a acts b rule: tells.induct) (auto simp: allows_def)

text \<open>Commands of the log, in a row.\<close>

lemma tells_commands:
  assumes "a \<le> b"
    and "\<And>k. unat a < k \<Longrightarrow> k \<le> unat b \<Longrightarrow>
      \<exists>t y. apply_action l (word_of_nat k) = [Apply (word_of_nat k) t y] \<and> po_command pol y"
    and "\<And>x t y. Apply x t y \<in> set (commands_between l a b) \<Longrightarrow> \<exists>j. (j, x, y) \<in> c_applied c"
  shows "tells pol c (unat a) (commands_between l a b) (unat b)"
proof -
  have "tells pol c m (concat (map (\<lambda>k. apply_action l (word_of_nat k)) [m + 1..<k + 1])) k"
    if "unat a \<le> m" "m \<le> k" "k \<le> unat b"
      "\<And>x t y. Apply x t y \<in> set (concat (map (\<lambda>k. apply_action l (word_of_nat k)) [m + 1..<k + 1]))
        \<Longrightarrow> \<exists>j. (j, x, y) \<in> c_applied c" for m k
    using that(2-4)
  proof (induction k)
    note am = that(1)
    case (Suc k)
    show ?case
    proof (cases "m = Suc k")
      case False
      with Suc.prems have le: "m \<le> k" by simp
      have s: "[m + 1..<Suc k + 1] = [m + 1..<k + 1] @ [Suc k]" using le by simp
      obtain t y where y: "apply_action l (word_of_nat (Suc k)) = [Apply (word_of_nat (Suc k)) t y]" "po_command pol y"
        using assms(2)[of "Suc k"] am le Suc.prems(2) by auto
      have "tells pol c m (concat (map (\<lambda>k. apply_action l (word_of_nat k)) [m + 1..<k + 1])) k"
      proof (rule Suc.IH[OF le])
        show "k \<le> unat b" using Suc.prems(2) by simp
        show "\<exists>j. (j, x, z) \<in> c_applied c"
          if "Apply x u z \<in> set (concat (map (\<lambda>k. apply_action l (word_of_nat k)) [m + 1..<k + 1]))" for x u z
          by (rule Suc.prems(3)[of x u z], unfold s) (use that in \<open>simp del: upt_Suc of_nat_Suc\<close>)
      qed
      moreover have "\<exists>j. (j, word_of_nat (Suc k), y) \<in> c_applied c"
        using Suc.prems(3)[of "word_of_nat (Suc k)" t y] y(1) unfolding s by simp
      ultimately show ?thesis
        using y unfolding s by (auto simp: tells_append simp del: upt_Suc of_nat_Suc)
    qed (simp add: that)
  qed (simp add: that)
  from this[of "unat a" "unat b"] assms(1,3) show ?thesis
    by (simp add: commands_between_def word_le_nat_alt del: upt_Suc)
qed

text \<open>What a log tells, given that it has the commands.\<close>

lemma told_tells:
  assumes "told l a acts b" "unat b \<le> m"
    and "\<And>k. unat a < k \<Longrightarrow> k \<le> m \<Longrightarrow>
      \<exists>t y. apply_action l (word_of_nat k) = [Apply (word_of_nat k) t y] \<and> po_command pol y"
    and "\<And>x t y. Apply x t y \<in> set acts \<Longrightarrow> \<exists>j. (j, x, y) \<in> c_applied c"
  shows "tells pol c (unat a) acts (unat b)"
  using assms
proof (induction rule: told.induct)
  case (commands acts b e)
  have ab: "a \<le> b" using told_applies[OF commands.hyps(1)] by simp
  have le: "unat b \<le> unat e" "unat a \<le> unat b" using commands.hyps(2) ab by (simp_all add: word_le_nat_alt)
  have ap: "Apply x t y \<in> set acts \<Longrightarrow> \<exists>j. (j, x, y) \<in> c_applied c"
    "Apply x t y \<in> set (commands_between l b e) \<Longrightarrow> \<exists>j. (j, x, y) \<in> c_applied c" for x t y
    by (rule commands.prems(3)[of x t y], simp)+
  have "tells pol c (unat a) acts (unat b)"
    by (rule commands.IH[OF order_trans[OF le(1) commands.prems(1)] commands.prems(2) ap(1)])
  moreover have "tells pol c (unat b) (commands_between l b e) (unat e)"
    by (rule tells_commands[OF commands.hyps(2) commands.prems(2) ap(2)]) (use commands.prems(1) le in simp_all)
  ultimately show ?case by (auto simp: tells_append)
qed (auto simp: tells_append)

subsection \<open>The steps of a cluster\<close>

lemma reconcile_base: "ml_base_index (fst (reconcile_scan l es)) = ml_base_index l"
  by (induction l es rule: reconcile_scan.induct) (auto simp: ml_truncate_def and_then_def Let_def split: option.split if_splits)

lemma append_from_leader_base: "ml_base_index (fst (append_from_leader es l)) = ml_base_index l"
proof -
  have "ml_append l' xs = (l'', r) \<Longrightarrow> ml_base_index l'' = ml_base_index l'" for l' l'' xs r
    by (auto simp: ml_append_def Let_def split: list.splits if_splits)
  then show ?thesis using reconcile_base[of l es]
    by (auto simp: append_from_leader_def and_then_def ml_sync_def split: prod.split sum.split)
qed

lemma step_base:
  assumes "case ev of Tick \<Rightarrow> True | Message m \<Rightarrow> \<not> is_install m | Propose c \<Rightarrow> True | _ \<Rightarrow> False"
  shows "ml_base_index (n_log (fst (step ev n))) = ml_base_index (n_log n)"
proof (cases "same_log (n_log n) (n_log (fst (step ev n)))")
  case True
  from same_log_sel[OF this] show ?thesis by simp
next
  case False
  with step_log_effect[of ev n] assms show ?thesis
    by (auto simp: log_effect_def append_from_leader_base dest!: same_log_sel split: event.splits message.splits)
qed

text \<open>An \<open>InstallSnapshot\<close> is installed, or changes nothing the application sees.\<close>

lemma install_news:
  assumes "step (Message (InstallSnapshot rpc)) n = (n', Inr acts)"
  shows "n_last_applied n' = n_last_applied n \<and> ml_base_index (n_log n') = ml_base_index (n_log n)
      \<and> filter is_news acts = []
    \<or> n_last_applied n' = sn_index (ins_snapshot rpc) \<and> ml_base_index (n_log n') = sn_index (ins_snapshot rpc)
      \<and> filter is_news acts = [RestoreSnapshot (sn_index (ins_snapshot rpc)) (sn_term (ins_snapshot rpc))
          (sn_data (ins_snapshot rpc))]"
proof -
  let ?m = "InstallSnapshot rpc"
  obtain n1 where bf: "(if n_current_term n < message_term ?m then become_follower (message_term ?m) None n
      else (n, Inr ())) = (n1, Inr ())" "same_log (n_log n) (n_log n1)" "n_last_applied n1 = n_last_applied n"
    using become_follower_log_effect[of n "message_term ?m" None] drained_become_follower[of "message_term ?m" None n]
    by (cases "n_current_term n < message_term ?m") (metis prod.collapse, auto)
  have refresh: "filter is_news (snd (refresh_config x ys)) = filter is_news ys" for x ys
    by (simp add: refresh_config_def set_config_def Let_def split: option.split)
  obtain l where l: "ml_apply_snapshot (n_log n1) (ins_snapshot rpc) = (l, Inr ())"
    by (metis ml_apply_snapshot_never_fails prod.collapse)
  then have lb: "ml_base_index (n_log n1) < sn_index (ins_snapshot rpc) \<Longrightarrow> ml_base_index l = sn_index (ins_snapshot rpc)"
    using leD by (fastforce simp: ml_apply_snapshot_def Let_def split: if_splits)
  have "(n', acts) = fst (handle_install_snapshot rpc n1 [])"
    using assms bf(1)
    by (auto simp: step_def finish_def handle_message_def sticky_def dispatch_def with_acts_def
        split: prod.splits sum.splits)
  with bf(2,3) l lb same_log_sel[OF bf(2)] show ?thesis
    by (auto simp: handle_install_snapshot_def Let_def case_prod_unfold frame_simps ml_sync_def refresh
        ml_snapshot_index_def split: if_splits)
qed

text \<open>A step of a cluster tells the application what it has to do.\<close>

lemma served_tells:
  assumes s: "steady pol T B vs cfg c" "steady pol T' B' vs cfg (absorb c i n acts)" and i: "i \<in> set vs"
    and st: "step ev (c_node c i) = (n, Inr acts)" "may_occur c i ev"
    and ev: "case ev of Tick \<Rightarrow> True | Message m \<Rightarrow> True | Propose x \<Rightarrow> True | _ \<Rightarrow> False"
    and base: "ml_base_index (n_log (c_node c i)) \<le> n_last_applied (c_node c i)"
  shows "tells pol (absorb c i n acts) (unat (n_last_applied (c_node c i))) acts (unat (n_last_applied n))
    \<and> ml_base_index (n_log n) \<le> n_last_applied n"
proof (cases "\<exists>rpc. ev = Message (InstallSnapshot rpc)")
  case True
  then obtain rpc where rpc: "ev = Message (InstallSnapshot rpc)" by blast
  have "carries pol (InstallSnapshot rpc)"
    using budgetedD(3)[OF steadyD(3)[OF s(1)], of i "InstallSnapshot rpc"] st(2) rpc
    by (simp add: may_occur_def incoming_def)
  with install_news[of rpc "c_node c i" n acts] st(1) rpc base show ?thesis
    by (subst tells_news[symmetric]) auto
next
  case False
  with ev have ev': "case ev of Tick \<Rightarrow> True | Message m \<Rightarrow> \<not> is_install m | Propose x \<Rightarrow> True | _ \<Rightarrow> False"
    by (auto simp: is_install_def split: event.splits message.splits)
  note t = step_told[OF st(1) ev']
  have b: "ml_base_index (n_log n) = ml_base_index (n_log (c_node c i))"
    using step_base[OF ev', of "c_node c i"] st(1) by simp
  note D = steadyD[OF s(2)]
  obtain A where A: "models vs A (absorb c i n acts)" using cluster_modelled[OF D(1,2)] by blast
  note N = linkedD[OF modelsD(2)[OF A i], simplified]
  have last: "unat (n_last_applied n) \<le> length (s_log A i)" "indexed_from 0 (s_log A i)"
    using N(7) linked_indexed[OF modelsD(1)[OF A]] by (simp_all add: settled_def)
  have pl: "plain vs n" "keeps pol (n_log n)" using D(6,7)[OF i] by (simp_all add: mailed_def stored_def)
  have one: "\<exists>t y. apply_action (n_log n) (word_of_nat k) = [Apply (word_of_nat k) t y] \<and> po_command pol y"
    if k: "unat (n_last_applied (c_node c i)) < k" "k \<le> unat (n_last_applied n)" for k
  proof -
    have k': "0 < k" "k \<le> length (s_log A i)" "k < 2 ^ 64"
      using k last(1) unsigned_less[of "n_last_applied n", where ?'a = nat] by auto
    then have u: "unat (word_of_nat k :: u64) = k" by (simp add: of_nat_inverse)
    have "unat (ml_base_index (n_log n)) < k" using base b k(1) by (simp add: word_le_nat_alt)
    then have e: "ml_entry (n_log n) (word_of_nat k) = Some (s_log A i ! (k - 1))"
      using k' u by (simp add: compacts_entry[OF N(5)])
    moreover have "members (s_log A i ! (k - 1)) = None" using e pl(1) compactsD(1)[OF N(5)] by (auto simp: plain_def dest: plain_entry)
    moreover have "le_index (s_log A i ! (k - 1)) = word_of_nat k"
      using last(2) k' u by (auto simp: indexed_from_def word_unat_eq_iff)
    moreover have "s_log A i ! (k - 1) \<in> set (ml_entries (n_log n))"
    proof -
      obtain z where "ml_slot (n_log n) (word_of_nat k) = Some z" "ml_entries (n_log n) ! z = s_log A i ! (k - 1)"
        using e by (auto simp: ml_entry_def)
      with ml_slot_in_bounds[OF compactsD(1)[OF N(5)]] nth_mem show ?thesis by metis
    qed
    ultimately show ?thesis using pl(2) by (auto simp: apply_action_def keeps_def)
  qed
  have "tells pol (absorb c i n acts) (unat (n_last_applied (c_node c i))) (filter is_news acts) (unat (n_last_applied n))"
    using one by (intro told_tells[OF t order_refl]) (auto simp: absorb_def mem_applies)
  moreover have "n_last_applied (c_node c i) \<le> n_last_applied n" using told_applies[OF t] by simp
  ultimately show ?thesis using b base by (simp add: tells_news)
qed

subsection \<open>The order of the commands\<close>

text \<open>The indices of the commands among some actions, and the commands.\<close>

definition applied_indices :: "action list \<Rightarrow> nat list" where
  "applied_indices acts = concat (map (\<lambda>a. case a of Apply i t c \<Rightarrow> [unat i] | _ \<Rightarrow> []) acts)"

definition applied_commands :: "action list \<Rightarrow> byte list list" where
  "applied_commands acts = concat (map (\<lambda>a. case a of Apply i t c \<Rightarrow> [c] | _ \<Rightarrow> []) acts)"

lemma applied_simps [simp]:
  "applied_indices [] = []" "applied_commands [] = []" "applies [] = {}"
  "applied_indices (a # acts) = (case a of Apply i t c \<Rightarrow> [unat i] | _ \<Rightarrow> []) @ applied_indices acts"
  "applied_commands (a # acts) = (case a of Apply i t c \<Rightarrow> [c] | _ \<Rightarrow> []) @ applied_commands acts"
  "applies (a # acts) = (case a of Apply i t c \<Rightarrow> {(i, c)} | _ \<Rightarrow> {}) \<union> applies acts"
  by (simp_all add: applied_indices_def applied_commands_def applies_def split: action.split)

lemma applied_length: "length (applied_indices acts) = length (applied_commands acts)"
  by (induction acts) (simp_all split: action.split)

lemma applied_nth:
  "k < length (applied_commands acts) \<Longrightarrow>
   (word_of_nat (applied_indices acts ! k), applied_commands acts ! k) \<in> applies acts"
proof (induction acts arbitrary: k)
  case (Cons a acts)
  then show ?case by (cases a; cases k) simp_all
qed simp

lemma tells_indices:
  "tells no_snapshots c a acts b \<Longrightarrow> b < 2 ^ 64 \<Longrightarrow> a \<le> b \<and> applied_indices acts = [a + 1..<b + 1]"
proof (induction "no_snapshots" c a acts b rule: tells.induct)
  case (2 c a x t y acts b)
  then have IH: "a + 1 \<le> b" "applied_indices acts = [a + 1 + 1..<b + 1]" by simp_all
  then have "unat x = a + 1" using 2 by (simp add: of_nat_inverse del: of_nat_add of_nat_Suc)
  with IH show ?case by (simp add: upt_conv_Cons del: upt_Suc)
qed (auto simp: no_snapshots_def)

text \<open>Without snapshots, a step applies the commands that follow those applied before.\<close>

lemma served_in_order:
  assumes s: "steady no_snapshots T B vs cfg c" "steady no_snapshots T' B' vs cfg (absorb c i n acts)" and i: "i \<in> set vs"
    and st: "step ev (c_node c i) = (n, Inr acts)" "may_occur c i ev"
    and ev: "case ev of Tick \<Rightarrow> True | Message m \<Rightarrow> True | Propose x \<Rightarrow> True | _ \<Rightarrow> False"
  shows "applied_indices acts = [unat (n_last_applied (c_node c i)) + 1..<unat (n_last_applied n) + 1]"
    "n_last_applied (c_node c i) \<le> n_last_applied n"
proof -
  have "ml_base_index (n_log (c_node c i)) = 0"
    using budgetedD(2)[OF steadyD(3)[OF s(1)] i] keeps_none by (simp add: stored_def)
  then have "tells no_snapshots (absorb c i n acts) (unat (n_last_applied (c_node c i))) acts (unat (n_last_applied n))"
    using served_tells[OF s i st ev] by simp
  from tells_indices[OF this]
  show "applied_indices acts = [unat (n_last_applied (c_node c i)) + 1..<unat (n_last_applied n) + 1]"
    "n_last_applied (c_node c i) \<le> n_last_applied n"
    using unsigned_less[of "n_last_applied n", where ?'a = nat] by (simp_all add: word_le_nat_alt del: upt_Suc)
qed

end
