(* ===== verification/Loops.thy ===== *)
theory Loops
  imports Prelude
begin

text \<open>
  The loops of the example programs: \<open>for x in xs\<close>, \<open>while let Some(m) = pop()\<close> and
  \<open>while !done\<close>, over a state and a body that may panic. \<open>None\<close> stands for a panic, or for
  not returning. Each comes with the rule that says when it returns.
\<close>

fun for_each :: "('a \<Rightarrow> 's \<Rightarrow> 's option) \<Rightarrow> 'a list \<Rightarrow> 's \<Rightarrow> 's option" where
  "for_each f [] s = Some s"
| "for_each f (x # xs) s = Option.bind (f x s) (for_each f xs)"

partial_function (option) while_let ::
  "('s \<Rightarrow> ('m \<times> 's) option) \<Rightarrow> ('m \<Rightarrow> 's \<Rightarrow> 's option) \<Rightarrow> 's \<Rightarrow> 's option" where
  "while_let pop body s =
     (case pop s of
        None \<Rightarrow> Some s
      | Some (m, s') \<Rightarrow> Option.bind (body m s') (while_let pop body))"

partial_function (option) until :: "('s \<Rightarrow> bool) \<Rightarrow> ('s \<Rightarrow> 's option) \<Rightarrow> 's \<Rightarrow> 's option" where
  "until finished body s =
     (if finished s then Some s else Option.bind (body s) (until finished body))"

declare while_let.simps [code] until.simps [code]

text \<open>A \<open>for\<close> loop returns when each round does, under an invariant that may depend on how
  many rounds there were.\<close>

lemma for_each_returns:
  assumes "I 0 s"
    and "\<And>k s. k < length xs \<Longrightarrow> I k s \<Longrightarrow> \<exists>s'. f (xs ! k) s = Some s' \<and> I (Suc k) s'"
  shows "\<exists>s'. for_each f xs s = Some s' \<and> I (length xs) s'"
  using assms
proof (induction xs arbitrary: s I)
  case (Cons x xs)
  obtain s1 where s1: "f x s = Some s1" "I (Suc 0) s1" using Cons.prems(2)[of 0 s] Cons.prems(1) by auto
  have "\<exists>s'. f (xs ! k) s = Some s' \<and> I (Suc (Suc k)) s'" if "k < length xs" "I (Suc k) s" for k s
    using Cons.prems(2)[of "Suc k" s] that by simp
  with Cons.IH[of "\<lambda>k. I (Suc k)" s1] s1 show ?case by simp
qed simp

text \<open>Draining returns when the body makes what is left smaller.\<close>

lemma while_let_returns:
  assumes "I s"
    and "\<And>s m s'. I s \<Longrightarrow> pop s = Some (m, s') \<Longrightarrow>
           \<exists>s''. body m s' = Some s'' \<and> I s'' \<and> size_of s'' < (size_of s :: nat)"
  shows "\<exists>s'. while_let pop body s = Some s' \<and> I s' \<and> pop s' = None"
  using assms(1)
proof (induction "size_of s" arbitrary: s rule: less_induct)
  case less
  show ?case
  proof (cases "pop s")
    case None
    with less.prems show ?thesis by (subst while_let.simps) auto
  next
    case (Some ms)
    obtain m s' where ms: "ms = (m, s')" by fastforce
    with Some assms(2)[OF less.prems] obtain s'' where s'': "body m s' = Some s''" "I s''" "size_of s'' < size_of s"
      by blast
    with less.hyps[OF s''(3,2)] Some ms show ?thesis by (subst while_let.simps) simp
  qed
qed

text \<open>And a \<open>while\<close> loop returns after the number of rounds that finishes it.\<close>

lemma until_returns:
  assumes "I 0 s"
    and "\<And>k s. I k s \<Longrightarrow> \<not> finished s \<Longrightarrow> k < K \<and> (\<exists>s'. body s = Some s' \<and> I (Suc k) s')"
  shows "\<exists>k s'. k \<le> K \<and> until finished body s = Some s' \<and> finished s' \<and> I k s'"
proof -
  have "\<exists>k s'. k \<le> K \<and> until finished body s = Some s' \<and> finished s' \<and> I k s'" if "I j s" "j \<le> K" for j s
    using that
  proof (induction "K - j" arbitrary: j s rule: less_induct)
    case less
    show ?case
    proof (cases "finished s")
      case True
      with less.prems show ?thesis by (subst until.simps) auto
    next
      case False
      then obtain s' where s': "body s = Some s'" "I (Suc j) s'" "j < K" using assms(2)[OF less.prems(1)] by blast
      with less.hyps[of "Suc j" s'] False show ?thesis by (subst until.simps) auto
    qed
  qed
  with assms(1) show ?thesis by blast
qed

subsection \<open>Mailboxes\<close>

text \<open>A vector of queues: \<open>get_mut(i)\<close> and \<open>push_back\<close>, \<open>None\<close> out of range; \<open>pop_front\<close> at
  an index.\<close>

definition push_at :: "nat \<Rightarrow> 'm \<Rightarrow> 'm list list \<Rightarrow> 'm list list option" where
  "push_at i m qs = (if i < length qs then Some (qs[i := qs ! i @ [m]]) else None)"

definition pop_at :: "nat \<Rightarrow> 'm list list \<Rightarrow> ('m \<times> 'm list list) option" where
  "pop_at i qs = (case qs ! i of [] \<Rightarrow> None | m # ms \<Rightarrow> Some (m, qs[i := ms]))"

lemma pop_at_Some:
  assumes "pop_at i qs = Some (m, qs')" "i < length qs"
  shows "qs ! i = m # qs' ! i" "length qs' = length qs" "j \<noteq> i \<Longrightarrow> qs' ! j = qs ! j"
  using assms by (auto simp: pop_at_def split: list.splits)

lemma push_at_Some:
  "push_at i m qs = Some qs' \<longleftrightarrow> i < length qs \<and> qs' = qs[i := qs ! i @ [m]]"
  by (auto simp: push_at_def)

end
