(* ===== verification/Harness.thy ===== *)
theory Harness
  imports Applied_History Loops
begin

text \<open>
  The example programs drive a cluster in one process: a scheduler ticks every node and
  drains every mailbox in turn. The locale \<open>driver\<close> is what such a program's two loops rely
  on; it is interpreted for each program. \<open>backed\<close> ties a program's nodes and mailboxes to a
  reachable state of \<^verbatim>\<open>Cluster\<close>, so that the theorems on clusters are theorems on the programs.
\<close>

subsection \<open>A program's state and the cluster\<close>

definition backed :: "policy \<Rightarrow> nat \<Rightarrow> nat \<Rightarrow> node_id list \<Rightarrow> (node_id \<Rightarrow> raft_config) \<Rightarrow>
    (node_id \<Rightarrow> node) \<Rightarrow> (node_id \<Rightarrow> message list) \<Rightarrow> cluster \<Rightarrow> bool" where
  "backed pol T B vs cfg nodes boxes c \<longleftrightarrow> steady pol T B vs cfg c
     \<and> (\<forall>i \<in> set vs. c_node c i = nodes i \<and> (\<forall>m \<in> set (boxes i). (i, m) \<in> c_net c))"

lemma backedD:
  assumes "backed pol T B vs cfg nodes boxes c"
  shows "steady pol T B vs cfg c" "i \<in> set vs \<Longrightarrow> c_node c i = nodes i"
    "i \<in> set vs \<Longrightarrow> m \<in> set (boxes i) \<Longrightarrow> (i, m) \<in> c_net c"
  using assms by (auto simp: backed_def)

text \<open>The next state of a program that steps node \<open>i\<close> and hands over some of its messages.\<close>

definition follows :: "node_id list \<Rightarrow> node_id \<Rightarrow> node \<Rightarrow> action list \<Rightarrow> (node_id \<Rightarrow> node) \<Rightarrow>
    (node_id \<Rightarrow> message list) \<Rightarrow> (node_id \<Rightarrow> node) \<Rightarrow> (node_id \<Rightarrow> message list) \<Rightarrow> bool" where
  "follows vs i n acts nodes boxes nodes' boxes' \<longleftrightarrow>
     (\<forall>j \<in> set vs. nodes' j = (if j = i then n else nodes j)
        \<and> set (boxes' j) \<subseteq> set (boxes j) \<union> {m. Send j m \<in> set acts})"

lemma backed_serve:
  assumes b: "backed pol T B vs cfg nodes boxes c" and i: "i \<in> set vs" and s: "served pol T' B' vs cfg c i ev"
  obtains n acts where "step ev (nodes i) = (n, Inr acts)"
    "\<And>to m. Send to m \<in> set acts \<Longrightarrow> to \<in> set vs \<and> to \<noteq> i"
    "cluster_step fixed_members (set vs) cfg c (absorb c i n acts)"
    "\<And>nodes' boxes'. follows vs i n acts nodes boxes nodes' boxes' \<Longrightarrow>
       backed pol T' B' vs cfg nodes' boxes' (absorb c i n acts)"
proof -
  note D = backedD[OF b]
  obtain n acts where s: "step ev (c_node c i) = (n, Inr acts)"
    "\<forall>to m. Send to m \<in> set acts \<longrightarrow> to \<in> set vs - {i}"
    "cluster_step fixed_members (set vs) cfg c (absorb c i n acts)" "steady pol T' B' vs cfg (absorb c i n acts)"
    using s unfolding served_def by blast
  have "backed pol T' B' vs cfg nodes' boxes' (absorb c i n acts)"
    if "follows vs i n acts nodes boxes nodes' boxes'" for nodes' boxes'
    using that s(4) D(2,3) unfolding backed_def follows_def by (fastforce simp: mem_sends)
  with s D(2)[OF i] show ?thesis by (intro that[of n acts]) auto
qed

subsection \<open>Vectors of nodes and of mailboxes\<close>

text \<open>Most programs keep the node with id \<open>i\<close> at position \<open>i\<close> of a vector, and its mailbox
  at the same position of another.\<close>

definition vec_members :: "nat \<Rightarrow> node_id list" where
  "vec_members k = sorted_members (map word_of_nat [0..<k])"

definition vec_backed :: "policy \<Rightarrow> nat \<Rightarrow> nat \<Rightarrow> (node_id \<Rightarrow> raft_config) \<Rightarrow> node list \<Rightarrow> message list list
    \<Rightarrow> cluster \<Rightarrow> bool" where
  "vec_backed pol T B cfg nodes boxes c \<longleftrightarrow> length boxes = length nodes \<and> length nodes \<le> 2 ^ 64
     \<and> backed pol T B (vec_members (length nodes)) cfg (\<lambda>i. nodes ! unat i) (\<lambda>i. boxes ! unat i) c"

lemma unat_vec: "i < k \<Longrightarrow> k \<le> 2 ^ 64 \<Longrightarrow> unat (word_of_nat i :: u64) = i"
  by (simp add: of_nat_inverse)

lemma vec_member: "k \<le> 2 ^ 64 \<Longrightarrow> i \<in> set (vec_members k) \<longleftrightarrow> unat i < k"
proof -
  assume k: "k \<le> 2 ^ 64"
  have "i \<in> word_of_nat ` {0..<k}" if "unat i < k"
    using that by (intro image_eqI[of _ _ "unat i"]) simp_all
  with k show ?thesis by (auto simp: vec_members_def unat_vec)
qed

text \<open>What a program sees of a step that the cluster serves: no error, messages for other
  nodes of the vector, and whatever part of them it delivers it is backed again.\<close>

definition vec_served :: "policy \<Rightarrow> nat \<Rightarrow> nat \<Rightarrow> (node_id \<Rightarrow> raft_config) \<Rightarrow> node list \<Rightarrow> message list list
    \<Rightarrow> cluster \<Rightarrow> nat \<Rightarrow> event \<Rightarrow> node \<Rightarrow> action list \<Rightarrow> bool" where
  "vec_served pol T B cfg nodes boxes c i ev n acts \<longleftrightarrow> step ev (nodes ! i) = (n, Inr acts)
     \<and> c_node c (word_of_nat i) = nodes ! i
     \<and> (\<forall>to m. Send to m \<in> set acts \<longrightarrow> unat to < length nodes \<and> unat to \<noteq> i)
     \<and> cluster_step fixed_members (set (vec_members (length nodes))) cfg c (absorb c (word_of_nat i) n acts)
     \<and> (\<forall>boxes'. length boxes' = length boxes \<longrightarrow>
          (\<forall>j < length boxes. set (boxes' ! j) \<subseteq> set (boxes ! j) \<union> {m. Send (word_of_nat j) m \<in> set acts}) \<longrightarrow>
          vec_backed pol T B cfg (nodes[i := n]) boxes' (absorb c (word_of_nat i) n acts))"

lemma vec_serve:
  assumes b: "vec_backed pol T B cfg nodes boxes c" and i: "i < length nodes"
    and s: "served pol T' B' (vec_members (length nodes)) cfg c (word_of_nat i) ev"
  shows "\<exists>n acts. vec_served pol T' B' cfg nodes boxes c i ev n acts"
proof -
  let ?vs = "vec_members (length nodes)"
  have b': "backed pol T B ?vs cfg (\<lambda>i. nodes ! unat i) (\<lambda>i. boxes ! unat i) c"
    and len: "length boxes = length nodes" "length nodes \<le> 2 ^ 64"
    using b by (simp_all add: vec_backed_def)
  have u: "unat (word_of_nat i :: u64) = i" by (rule unat_vec[OF i len(2)])
  have iv: "word_of_nat i \<in> set ?vs" using i u vec_member[OF len(2)] by simp
  obtain n acts where s: "step ev (nodes ! i) = (n, Inr acts)"
    "\<And>to m. Send to m \<in> set acts \<Longrightarrow> to \<in> set ?vs \<and> to \<noteq> word_of_nat i"
    "cluster_step fixed_members (set ?vs) cfg c (absorb c (word_of_nat i) n acts)"
    "\<And>nodes' boxes'. follows ?vs (word_of_nat i) n acts (\<lambda>i. nodes ! unat i) (\<lambda>i. boxes ! unat i) nodes' boxes' \<Longrightarrow>
       backed pol T' B' ?vs cfg nodes' boxes' (absorb c (word_of_nat i) n acts)"
    using backed_serve[OF b' iv s] u by auto
  have "vec_backed pol T' B' cfg (nodes[i := n]) boxes' (absorb c (word_of_nat i) n acts)"
    if b: "length boxes' = length boxes"
      "\<forall>j < length boxes. set (boxes' ! j) \<subseteq> set (boxes ! j) \<union> {m. Send (word_of_nat j) m \<in> set acts}" for boxes'
  proof -
    have "follows ?vs (word_of_nat i) n acts (\<lambda>i. nodes ! unat i) (\<lambda>i. boxes ! unat i)
        (\<lambda>j. nodes[i := n] ! unat j) (\<lambda>j. boxes' ! unat j)"
      unfolding follows_def
    proof (intro ballI conjI)
      fix j assume j: "j \<in> set ?vs"
      then have uj: "unat j < length boxes" using vec_member[OF len(2)] len(1) by simp
      show "nodes[i := n] ! unat j = (if j = word_of_nat i then n else nodes ! unat j)"
        using uj len(1) i u by (cases "j = word_of_nat i") (auto simp: nth_list_update)
      show "set (boxes' ! unat j) \<subseteq> set (boxes ! unat j) \<union> {m. Send j m \<in> set acts}"
        using b(2)[rule_format, OF uj] by simp
    qed
    with s(4) b(1) len show ?thesis by (simp add: vec_backed_def)
  qed
  moreover have "unat to < length nodes \<and> unat to \<noteq> i" if "Send to m \<in> set acts" for to m
    using s(2)[OF that] vec_member[OF len(2)] u by (auto simp: word_unat_eq_iff)
  moreover have "c_node c (word_of_nat i) = nodes ! i" using backedD(2)[OF b' iv] u by simp
  ultimately show ?thesis using s(1,3) unfolding vec_served_def by blast
qed

lemma vec_steady:
  "vec_backed pol T B cfg nodes boxes c \<Longrightarrow> steady pol T B (vec_members (length nodes)) cfg c"
  by (simp add: vec_backed_def backed_def)

lemma vec_in:
  assumes "vec_backed pol T B cfg nodes boxes c" "i < length nodes"
  shows "word_of_nat i \<in> set (vec_members (length nodes))" "c_node c (word_of_nat i) = nodes ! i"
    "m \<in> set (boxes ! i) \<Longrightarrow> (word_of_nat i, m) \<in> c_net c"
proof -
  have len: "length nodes \<le> 2 ^ 64" using assms(1) by (simp add: vec_backed_def)
  note u = unat_vec[OF assms(2) len]
  show v: "word_of_nat i \<in> set (vec_members (length nodes))" using vec_member[OF len] u assms(2) by simp
  from assms(1) have b: "backed pol T B (vec_members (length nodes)) cfg (\<lambda>i. nodes ! unat i) (\<lambda>i. boxes ! unat i) c"
    by (simp add: vec_backed_def)
  show "c_node c (word_of_nat i) = nodes ! i" "m \<in> set (boxes ! i) \<Longrightarrow> (word_of_nat i, m) \<in> c_net c"
    using backedD(2,3)[OF b v] u by simp_all
qed

lemma vec_tick:
  assumes "vec_backed pol T B cfg nodes boxes c" "i < length nodes" "T + 1 < 2 ^ 64 - 1"
  shows "\<exists>n acts. vec_served pol (T + 1) B cfg nodes boxes c i Tick n acts"
  by (rule vec_serve[OF assms(1,2) tick_served[OF vec_steady[OF assms(1)] vec_in(1)[OF assms(1,2)] assms(3)]])

lemma vec_message:
  assumes "vec_backed pol T B cfg nodes boxes c" "i < length nodes" "(word_of_nat i, m) \<in> c_net c"
  shows "\<exists>n acts. vec_served pol T B cfg nodes boxes c i (Message m) n acts"
  by (rule vec_serve[OF assms(1,2) message_served[OF vec_steady[OF assms(1)] assms(3)]])

lemma vec_propose:
  assumes "vec_backed pol T B cfg nodes boxes c" "i < length nodes" "is_leader (nodes ! i)" "B + 1 < 2 ^ 63 - 1"
    "po_command pol x"
  shows "\<exists>n acts. vec_served pol T (B + 1) cfg nodes boxes c i (Propose x) n acts"
  using propose_served[OF vec_steady[OF assms(1)] vec_in(1)[OF assms(1,2)] _ assms(4,5)] vec_in(2)[OF assms(1,2)] assms(3)
  by (intro vec_serve[OF assms(1,2)]) simp

lemma vec_snapshot:
  assumes "vec_backed pol T B cfg nodes boxes c" "i < length nodes" "po_snapshot pol x d"
  shows "\<exists>n acts. vec_served pol T B cfg nodes boxes c i (SnapshotEvent x d) n acts"
  by (rule vec_serve[OF assms(1,2) snapshot_served[OF vec_steady[OF assms(1)] vec_in(1)[OF assms(1,2)] assms(3)]])

text \<open>A message taken from its mailbox stays in flight.\<close>

lemma vec_pop:
  assumes "vec_backed pol T B cfg nodes boxes c" "i < length nodes" "pop_at i boxes = Some (m, boxes')"
  shows "vec_backed pol T B cfg nodes boxes' c \<and> (word_of_nat i, m) \<in> c_net c"
proof -
  have i: "i < length boxes" and len: "length nodes \<le> 2 ^ 64" using assms by (simp_all add: vec_backed_def)
  note p = pop_at_Some[OF assms(3) i]
  have sub: "set (boxes' ! j) \<subseteq> set (boxes ! j)" for j
    using p(1) p(3)[of j] by (cases "j = i") auto
  have "backed pol T B (vec_members (length nodes)) cfg (\<lambda>i. nodes ! unat i) (\<lambda>i. boxes' ! unat i) c"
    using assms(1) sub by (fastforce simp: vec_backed_def backed_def)
  with assms(1) p(2) vec_in(3)[OF assms(1,2), of m] p(1) show ?thesis by (simp add: vec_backed_def)
qed

text \<open>The bound on the entries may be raised.\<close>

lemma vec_backed_mono:
  assumes "vec_backed pol T B cfg nodes boxes c" "B + 1 < 2 ^ 63 - 1"
  shows "vec_backed pol T (B + 1) cfg nodes boxes c"
  using assms budgeted_mono[of pol T B "vec_members (length nodes)" c T "B + 1"]
  by (auto simp: vec_backed_def backed_def steady_def)

lemma vec_backed_allows:
  "vec_backed p T B cfg nodes boxes c \<Longrightarrow> allows p q \<Longrightarrow> vec_backed q T B cfg nodes boxes c"
  by (auto simp: vec_backed_def backed_def intro: steady_allows)

text \<open>The events of a program without snapshots.\<close>

definition drives :: "event \<Rightarrow> bool" where
  "drives ev \<longleftrightarrow> (case ev of Tick \<Rightarrow> True | Message m \<Rightarrow> True | Propose x \<Rightarrow> True | _ \<Rightarrow> False)"

lemma vec_init:
  assumes "\<And>i. cfg_id (cfg i) = i" "\<And>i. cfg_peers (cfg i) = filter (\<lambda>p. p \<noteq> i) (map word_of_nat [0..<k])"
    and k: "k \<le> 2 ^ 64"
  shows "vec_backed pol 0 0 cfg (map (\<lambda>i. node_new (cfg i)) (map word_of_nat [0..<k])) (replicate k []) (cluster_init cfg)"
  using steady_init[OF assms(1,2), of pol] vec_member[OF k] k
  by (simp add: vec_backed_def backed_def vec_members_def[symmetric] cluster_init_def)

text \<open>The messages among some actions that are for one node.\<close>

definition mail_for :: "node_id \<Rightarrow> action list \<Rightarrow> message list" where
  "mail_for j acts = concat (map (\<lambda>a. case a of Send to m \<Rightarrow> if to = j then [m] else [] | _ \<Rightarrow> []) acts)"

lemma mail_for_simps [simp]:
  "mail_for j [] = []"
  "mail_for j (Send to m # acts) = (if to = j then m # mail_for j acts else mail_for j acts)"
  "mail_for j (Apply x t cmd # acts) = mail_for j acts"
  "mail_for j (SnapshotHint x t # acts) = mail_for j acts"
  "mail_for j (RestoreSnapshot x t d # acts) = mail_for j acts"
  "mail_for j (MembershipChanged ns # acts) = mail_for j acts"
  by (simp_all add: mail_for_def)

lemma set_mail_for: "set (mail_for j acts) = {m. Send j m \<in> set acts}"
  by (auto simp: mail_for_def split: action.splits if_splits)

lemma no_mail_for: "(\<And>m. Send j m \<notin> set acts) \<Longrightarrow> mail_for j acts = []"
  using set_mail_for[of j acts] by simp

lemma vec_servedD:
  assumes "vec_served pol T B cfg nodes boxes c i ev n acts"
  shows "step ev (nodes ! i) = (n, Inr acts)" "c_node c (word_of_nat i) = nodes ! i"
    "Send to m \<in> set acts \<Longrightarrow> unat to < length nodes \<and> unat to \<noteq> i"
    "cluster_step fixed_members (set (vec_members (length nodes))) cfg c (absorb c (word_of_nat i) n acts)"
    "length boxes' = length boxes \<Longrightarrow> (\<And>j. j < length boxes \<Longrightarrow>
       set (boxes' ! j) \<subseteq> set (boxes ! j) \<union> {m. Send (word_of_nat j) m \<in> set acts}) \<Longrightarrow>
     vec_backed pol T B cfg (nodes[i := n]) boxes' (absorb c (word_of_nat i) n acts)"
    "i < length nodes \<Longrightarrow> length nodes \<le> 2 ^ 64 \<Longrightarrow> mail_for (word_of_nat i) acts = []"
proof -
  show D: "step ev (nodes ! i) = (n, Inr acts)" "c_node c (word_of_nat i) = nodes ! i"
    "Send to m \<in> set acts \<Longrightarrow> unat to < length nodes \<and> unat to \<noteq> i"
    "cluster_step fixed_members (set (vec_members (length nodes))) cfg c (absorb c (word_of_nat i) n acts)"
    for to m using assms unfolding vec_served_def by blast+
  show "vec_backed pol T B cfg (nodes[i := n]) boxes' (absorb c (word_of_nat i) n acts)"
    if "length boxes' = length boxes" "\<And>j. j < length boxes \<Longrightarrow>
       set (boxes' ! j) \<subseteq> set (boxes ! j) \<union> {m. Send (word_of_nat j) m \<in> set acts}"
    using assms that unfolding vec_served_def by blast
  show "mail_for (word_of_nat i) acts = []" if "i < length nodes" "length nodes \<le> 2 ^ 64"
    using D(3)[of "word_of_nat i"] unat_vec[OF that] by (intro no_mail_for) auto
qed

subsection \<open>Answering snapshot hints\<close>

text \<open>The answer to a snapshot event: never an error with the in-memory log, and at most a
  membership change, so answering a hint raises no further hint.\<close>

definition is_notice :: "action \<Rightarrow> bool" where
  "is_notice a = (case a of MembershipChanged _ \<Rightarrow> True | _ \<Rightarrow> False)"

lemma refresh_config_notices: "list_all is_notice (snd (refresh_config n []))"
  by (auto simp: refresh_config_def set_config_def Let_def is_notice_def split: option.splits)

lemma snapshot_event_answer:
  "\<exists>n' acts. step (SnapshotEvent i d) n = (n', Inr acts) \<and> list_all is_notice acts"
proof -
  have ap: "and_then (log_op m (ml_apply_snapshot l pol)) f = f (m\<lparr>n_log := fst (ml_apply_snapshot l pol)\<rparr>) ()"
    for m l pol and f :: "node \<Rightarrow> unit \<Rightarrow> node \<times> (rerror + action list)"
    using ml_apply_snapshot_never_fails[of l pol] by (cases "ml_apply_snapshot l pol") simp
  have fin: "\<exists>n' acts. (case refresh_config m [] of (n3, acts3) \<Rightarrow> (n3, Inr acts3))
      = (n', Inr acts :: rerror + action list)
      \<and> list_all is_notice acts" for m
    using refresh_config_notices[of m] by (cases "refresh_config m []") auto
  show ?thesis
  proof (cases "n_commit_index n < i \<or> n_last_applied n < i \<or> i \<le> ml_snapshot_index (n_log n)
      \<or> ml_term_at (n_log n) i = None")
    case True
    then have "handle_snapshot_event i d n = (n, Inr [])"
      by (auto simp: handle_snapshot_event_def)
    then show ?thesis by (simp add: step_def)
  next
    case False
    then obtain t where t: "ml_term_at (n_log n) i = Some t" by auto
    define m where "m = n\<lparr>n_base_config := config_at n i,
      n_log := fst (ml_apply_snapshot (n_log n) (snapshot_with_config i t (config_at n i) d))\<rparr>"
    have "handle_snapshot_event i d n = (case refresh_config
        (if n_snapshot_hinted_at m < i then m\<lparr>n_snapshot_hinted_at := i\<rparr> else m) [] of
          (n3, acts3) \<Rightarrow> (n3, Inr acts3))"
      using False t
      by (simp add: handle_snapshot_event_def Let_def m_def ml_sync_def
          ap)
    with fin show ?thesis by (simp add: step_def)
  qed
qed

lemma notices_no_hint: "list_all is_notice acts \<Longrightarrow> filter is_hint acts = []"
  by (induction acts) (auto simp: is_notice_def split: action.splits)

lemma snapshot_reply_no_hint:
  "(n', Inr acts) = step (SnapshotEvent i d) n \<Longrightarrow> filter is_hint acts = []"
  using snapshot_event_answer[of i d n] by (auto intro: notices_no_hint)

text \<open>A snapshot event applies nothing, and compacts nothing that was not applied.\<close>

lemma notices_apply_nothing: "list_all is_notice acts \<Longrightarrow> applies acts = {}"
  by (induction acts) (auto simp: applies_def is_notice_def split: action.splits)

lemma snapshot_event_applied: "n_last_applied (fst (handle_snapshot_event x d n)) = n_last_applied n"
proof (cases "ml_term_at (n_log n) x")
  case (Some t)
  obtain l where l: "ml_apply_snapshot (n_log n) (snapshot_with_config x t (config_at n x) d) = (l, Inr ())"
    by (metis ml_apply_snapshot_never_fails prod.collapse)
  with Some show ?thesis
    by (simp add: handle_snapshot_event_def Let_def case_prod_unfold ml_sync_def frame_simps)
qed (simp add: handle_snapshot_event_def)

lemma snapshot_event_base:
  assumes "step (SnapshotEvent x d) n = (n', r)" "ml_base_index (n_log n) \<le> n_last_applied n"
  shows "n_last_applied n' = n_last_applied n \<and> ml_base_index (n_log n') \<le> n_last_applied n'"
proof -
  have last: "n_last_applied n' = n_last_applied n"
    using assms(1) snapshot_event_applied[of x d n] by (simp add: step_def)
  moreover have "ml_base_index (n_log n') \<le> n_last_applied n"
  proof (cases "same_log (n_log n) (n_log n')")
    case True
    from same_log_sel[OF this] assms(2) show ?thesis by simp
  next
    case False
    then obtain t where "x \<le> n_last_applied n" "n_log n' = fst (ml_apply_snapshot (n_log n)
        (snapshot_with_config x t (config_at n x) d))"
      using step_log_effect[of "SnapshotEvent x d" n] assms(1) by (auto simp: log_effect_def)
    with assms(2) show ?thesis by (auto simp: ml_apply_snapshot_def Let_def snapshot_with_config_def)
  qed
  ultimately show ?thesis by simp
qed

lemma notices_tell_nothing: "list_all is_notice acts \<Longrightarrow> tells pol c a acts a"
  by (induction acts) (auto simp: is_notice_def split: action.splits)

text \<open>A message in flight may be put into the mailbox of its addressee.\<close>

lemma vec_push:
  assumes "vec_backed pol T B cfg nodes boxes c" "(word_of_nat j, m) \<in> c_net c" "j < length nodes"
  shows "vec_backed pol T B cfg nodes (boxes[j := boxes ! j @ [m]]) c"
proof -
  have len: "length nodes \<le> 2 ^ 64" "length boxes = length nodes" using assms(1) by (simp_all add: vec_backed_def)
  have "(i, x) \<in> c_net c" if "i \<in> set (vec_members (length nodes))" "x \<in> set (boxes[j := boxes ! j @ [m]] ! unat i)" for i x
  proof (cases "unat i = j")
    case True
    then have "i = word_of_nat j" by (simp flip: True)
    with that True assms(1,2) len assms(3) show ?thesis
      by (auto simp: vec_backed_def backed_def)
  next
    case False
    with that assms(1) show ?thesis by (auto simp: vec_backed_def backed_def)
  qed
  with assms(1) show ?thesis by (auto simp: vec_backed_def backed_def)
qed

text \<open>Actions that are still to be carried out: their messages are in flight, to other nodes.\<close>

definition pending :: "nat \<Rightarrow> nat \<Rightarrow> cluster \<Rightarrow> action list \<Rightarrow> bool" where
  "pending k i c acts \<longleftrightarrow>
     (\<forall>to m. Send to m \<in> set acts \<longrightarrow> unat to < k \<and> unat to \<noteq> i \<and> (to, m) \<in> c_net c)"

lemma pending_simps [simp]:
  "pending k i c []" "pending k i c (Send to m # acts) \<longleftrightarrow>
     unat to < k \<and> unat to \<noteq> i \<and> (to, m) \<in> c_net c \<and> pending k i c acts"
  "pending k i c (Apply x t d # acts) = pending k i c acts"
  "pending k i c (SnapshotHint x t # acts) = pending k i c acts"
  "pending k i c (RestoreSnapshot x t d # acts) = pending k i c acts"
  "pending k i c (MembershipChanged ms # acts) = pending k i c acts"
  by (auto simp: pending_def)

lemma pending_mono: "pending k i c acts \<Longrightarrow> c_net c \<subseteq> c_net c' \<Longrightarrow> pending k i c' acts"
  by (auto simp: pending_def)

text \<open>A step that the cluster serves, before its actions are carried out.\<close>

lemma vec_served_pending:
  assumes b: "vec_backed pol T B cfg nodes boxes c" and i: "i < length nodes"
    and v: "vec_served pol T' B' cfg nodes boxes c i ev n acts"
  shows "vec_backed pol T' B' cfg (nodes[i := n]) boxes (absorb c (word_of_nat i) n acts)"
    "pending (length nodes) i (absorb c (word_of_nat i) n acts) acts"
    "c_net c \<subseteq> c_net (absorb c (word_of_nat i) n acts)"
  using vec_servedD(3,5)[OF v] by (auto simp: pending_def mem_sends)

subsection \<open>Mailboxes with ids\<close>

text \<open>Other programs find a mailbox by id: \<open>mailbox(id)\<close> is the first one with it, changed in
  place. A message for an id without a mailbox is dropped.\<close>

fun push_back :: "node_id \<Rightarrow> message \<Rightarrow> (node_id \<times> message list) list \<Rightarrow> (node_id \<times> message list) list" where
  "push_back to m [] = []"
| "push_back to m ((i, ms) # boxes) =
     (if i = to then (i, ms @ [m]) # boxes else (i, ms) # push_back to m boxes)"

fun pop_front ::
  "node_id \<Rightarrow> (node_id \<times> message list) list \<Rightarrow> (message \<times> (node_id \<times> message list) list) option" where
  "pop_front w [] = None"
| "pop_front w ((i, ms) # boxes) =
     (if i = w then (case ms of [] \<Rightarrow> None | m # ms' \<Rightarrow> Some (m, (i, ms') # boxes))
      else map_option (\<lambda>(m, boxes'). (m, (i, ms) # boxes')) (pop_front w boxes))"

lemma map_of_push_back:
  "map_of (push_back to m boxes) j
     = map_option (\<lambda>ms. if to = j then ms @ [m] else ms) (map_of boxes j)"
  by (induction to m boxes rule: push_back.induct) (auto simp: option.map_id0[unfolded id_def])

lemma push_back_fst: "map fst (push_back to m boxes) = map fst boxes"
  by (induction to m boxes rule: push_back.induct) auto

lemma push_back_snd:
  assumes "distinct (map fst boxes)" "j < length boxes" "fst (boxes ! j) = to"
  shows "map snd (push_back to m boxes) = (map snd boxes)[j := snd (boxes ! j) @ [m]]"
  using assms
proof (induction to m boxes arbitrary: j rule: push_back.induct)
  case (2 to m i ms boxes)
  show ?case
  proof (cases j)
    case 0
    with 2 show ?thesis by simp
  next
    case (Suc j')
    with 2 have "to \<in> set (map fst boxes)" by (auto intro!: imageI nth_mem)
    with 2 Suc show ?thesis by auto
  qed
qed simp

lemma pop_front_fst: "pop_front w boxes = Some (m, boxes') \<Longrightarrow> map fst boxes' = map fst boxes"
  by (induction w boxes arbitrary: boxes' rule: pop_front.induct) (auto split: if_splits list.splits)

lemma pop_front_snd:
  assumes "distinct (map fst boxes)" "j < length boxes" "fst (boxes ! j) = w" "pop_front w boxes = Some (m, boxes')"
  shows "pop_at j (map snd boxes) = Some (m, map snd boxes')"
  using assms
proof (induction w boxes arbitrary: j boxes' rule: pop_front.induct)
  case (2 w i ms boxes)
  show ?case
  proof (cases j)
    case 0
    with 2 show ?thesis by (auto simp: pop_at_def split: list.splits)
  next
    case (Suc j')
    with 2 have "w \<in> set (map fst boxes)" by (auto intro!: imageI nth_mem)
    with 2 Suc show ?thesis by (fastforce simp: pop_at_def split: list.splits if_splits)
  qed
qed simp

subsection \<open>The scheduler\<close>

text \<open>
  \<open>tick i\<close> ticks node \<open>i\<close> and carries out what it returns; \<open>drain i\<close> reads its \<open>key\<close> once,
  takes messages from its mailbox with \<open>pop\<close> until there are none, and has the node \<open>handle\<close> each.
  \<open>load i\<close> is how many are waiting. \<open>sound T\<close> is an invariant after \<open>T\<close> ticks, of which there is
  room for fewer than \<open>2 ^ 64 - 1\<close>.
\<close>

locale driver =
  fixes tick_at :: "nat \<Rightarrow> 's \<Rightarrow> 's option"
    and key :: "nat \<Rightarrow> 's \<Rightarrow> 'k"
    and pop :: "'k \<Rightarrow> nat \<Rightarrow> 's \<Rightarrow> (message \<times> 's) option"
    and handle :: "'k \<Rightarrow> nat \<Rightarrow> message \<Rightarrow> 's \<Rightarrow> 's option"
    and drain :: "nat \<Rightarrow> 's \<Rightarrow> 's option"
    and count :: "'s \<Rightarrow> nat" and load :: "nat \<Rightarrow> 's \<Rightarrow> nat" and sound :: "nat \<Rightarrow> 's \<Rightarrow> bool"
  assumes ticked: "sound T s \<Longrightarrow> i < count s \<Longrightarrow> T + 1 < 2 ^ 64 - 1 \<Longrightarrow>
      \<exists>s'. tick_at i s = Some s' \<and> sound (T + 1) s' \<and> count s' = count s"
    and delivered: "sound T s \<Longrightarrow> i < count s \<Longrightarrow> pop (key i s) i s = Some (m, s') \<Longrightarrow>
      \<exists>s''. handle (key i s) i m s' = Some s'' \<and> sound T s'' \<and> count s'' = count s
        \<and> key i s'' = key i s \<and> load i s'' < load i s"
    and drains: "sound T s \<Longrightarrow> i < count s \<Longrightarrow>
      drain i s = while_let (pop (key i s) i) (handle (key i s) i) s"
begin

lemma all_ticked:
  assumes "sound T s" "T + count s < 2 ^ 64 - 1"
  shows "\<exists>s'. for_each tick_at [0..<count s] s = Some s' \<and> sound (T + count s) s' \<and> count s' = count s"
proof -
  have "\<exists>s'. for_each tick_at [0..<count s] s = Some s'
      \<and> sound (T + length [0..<count s]) s' \<and> count s' = count s"
  proof (rule for_each_returns[where I = "\<lambda>k s'. sound (T + k) s' \<and> count s' = count s"])
    fix k s' assume k: "k < length [0..<count s]" and I: "sound (T + k) s' \<and> count s' = count s"
    then have "T + k + 1 < 2 ^ 64 - 1" using assms(2) by simp
    with ticked[of "T + k" s' k] k I
    show "\<exists>s''. tick_at ([0..<count s] ! k) s' = Some s'' \<and> sound (T + Suc k) s'' \<and> count s'' = count s"
      by simp
  qed (use assms(1) in simp)
  then show ?thesis by simp
qed

lemma one_drained:
  assumes "sound T s" "i < count s"
  shows "\<exists>s'. drain i s = Some s' \<and> sound T s' \<and> count s' = count s"
proof -
  let ?k = "key i s"
  have "\<exists>s'. while_let (pop ?k i) (handle ?k i) s = Some s'
      \<and> (sound T s' \<and> count s' = count s \<and> key i s' = ?k) \<and> pop ?k i s' = None"
  proof (rule while_let_returns[where size_of = "load i"])
    fix s1 m s' assume s1: "sound T s1 \<and> count s1 = count s \<and> key i s1 = ?k" and p: "pop ?k i s1 = Some (m, s')"
    with delivered[of T s1 i m s'] assms(2)
    show "\<exists>s''. handle ?k i m s' = Some s'' \<and> (sound T s'' \<and> count s'' = count s \<and> key i s'' = ?k) \<and> load i s'' < load i s1"
      by auto
  qed (use assms(1) in simp)
  then show ?thesis unfolding drains[OF assms] by blast
qed

lemma all_drained:
  assumes "sound T s"
  shows "\<exists>s'. for_each drain [0..<count s] s = Some s' \<and> sound T s' \<and> count s' = count s"
proof (rule for_each_returns[where I = "\<lambda>k s'. sound T s' \<and> count s' = count s"])
  fix k s' assume "k < length [0..<count s]" "sound T s' \<and> count s' = count s"
  with one_drained[of T s' k]
  show "\<exists>s''. drain ([0..<count s] ! k) s' = Some s'' \<and> sound T s'' \<and> count s'' = count s"
    by simp
qed (use assms in simp)

text \<open>A round of ticks and deliveries returns.\<close>

lemma round_returns:
  assumes "sound T s" "T + count s < 2 ^ 64 - 1"
  shows "\<exists>s'. Option.bind (for_each tick_at [0..<count s] s) (\<lambda>s'.
       for_each drain [0..<count s'] s') = Some s'
     \<and> sound (T + count s) s' \<and> count s' = count s"
proof -
  obtain s1 where "for_each tick_at [0..<count s] s = Some s1" "sound (T + count s) s1" "count s1 = count s"
    using all_ticked[OF assms] by blast
  with all_drained[of "T + count s" s1] show ?thesis by simp
qed

end

text \<open>
  A program's script is a list of calls: a call costs at most one tick of every node, and a call
  that \<open>proposes\<close> one entry. The interface says when one call returns, and the lemma when a
  script does. \<open>fits\<close> is what a call needs of the number of nodes.
\<close>

locale scripted =
  fixes perform :: "'c \<Rightarrow> 's \<Rightarrow> 's option" and proposes :: "'c \<Rightarrow> bool" and fits :: "nat \<Rightarrow> 'c \<Rightarrow> bool"
    and count :: "'s \<Rightarrow> nat" and sound :: "nat \<Rightarrow> nat \<Rightarrow> 's \<Rightarrow> bool"
  assumes performed: "sound B T s \<Longrightarrow> fits (count s) x \<Longrightarrow> T + count s < 2 ^ 64 - 1 \<Longrightarrow>
      B + (if proposes x then 1 else 0) < 2 ^ 63 - 1 \<Longrightarrow>
      \<exists>s' T'. perform x s = Some s' \<and> T' \<le> T + count s
        \<and> sound (B + (if proposes x then 1 else 0)) T' s' \<and> count s' = count s"
begin

lemma script_returns:
  assumes "sound B T s" "\<forall>x \<in> set xs. fits (count s) x" "T + count s * length xs < 2 ^ 64 - 1"
    "B + length (filter proposes xs) < 2 ^ 63 - 1"
  shows "\<exists>s' T'. for_each perform xs s = Some s' \<and> sound (B + length (filter proposes xs)) T' s'
    \<and> count s' = count s"
  using assms
proof (induction xs arbitrary: B T s)
  case (Cons x xs)
  have T: "T + count s < 2 ^ 64 - 1" "T + count s + count s * length xs < 2 ^ 64 - 1"
    using Cons.prems(3) by simp_all
  have B: "B + (if proposes x then 1 else 0) < 2 ^ 63 - 1" using Cons.prems(4) by auto
  obtain s1 T1 where s1: "perform x s = Some s1" "T1 \<le> T + count s"
    "sound (B + (if proposes x then 1 else 0)) T1 s1" "count s1 = count s"
    using performed[OF Cons.prems(1) _ T(1) B] Cons.prems(2) by auto
  have "T1 + count s1 * length xs < 2 ^ 64 - 1" using T(2) s1(2,4) by simp
  with Cons.IH[OF s1(3)] Cons.prems(2,4) s1(1,4) show ?case by (cases "proposes x") auto
qed auto

end

end
