(* ===== verification/In_Memory_Cluster.thy ===== *)
theory In_Memory_Cluster
  imports Harness
begin

text \<open>
  \<^verbatim>\<open>examples/in_memory_cluster.rs\<close>: three nodes elect a leader over in-memory mailboxes.
  \<open>None\<close> is a panic. A node's id is its position in the vector, and a message for an id
  beyond the vector is dropped.
\<close>

record im_cluster =
  im_nodes :: "node list"
  im_mailboxes :: "message list list"

definition im_new :: "nat \<Rightarrow> im_cluster" where
  "im_new n =
     (let ids = map word_of_nat [0..<n]
      in \<lparr>im_nodes = map (\<lambda>i. node_new (with_seed (0x2000 + i) (config_new i ids))) ids,
          im_mailboxes = replicate n []\<rparr>)"

fun im_route :: "action list \<Rightarrow> im_cluster \<Rightarrow> im_cluster" where
  "im_route [] c = c"
| "im_route (Send to m # acts) c =
     im_route acts (case push_at (unat to) m (im_mailboxes c) of
        Some boxes \<Rightarrow> c\<lparr>im_mailboxes := boxes\<rparr> | None \<Rightarrow> c)"
| "im_route (_ # acts) c = im_route acts c"

definition im_leader :: "im_cluster \<Rightarrow> node_id option" where
  "im_leader c = map_option get_id (find is_leader (im_nodes c))"

text \<open>The bodies of the two loops: step a node, \<open>expect\<close> it to succeed, route what it sends.\<close>

definition im_step :: "nat \<Rightarrow> event \<Rightarrow> im_cluster \<Rightarrow> im_cluster option" where
  "im_step i ev c =
     (if i < length (im_nodes c)
      then case step ev (im_nodes c ! i) of
             (n, Inl e) \<Rightarrow> None
           | (n, Inr acts) \<Rightarrow> Some (im_route acts (c\<lparr>im_nodes := (im_nodes c)[i := n]\<rparr>))
      else None)"

definition im_pop :: "nat \<Rightarrow> im_cluster \<Rightarrow> (message \<times> im_cluster) option" where
  "im_pop i c = map_option (\<lambda>(m, boxes). (m, c\<lparr>im_mailboxes := boxes\<rparr>)) (pop_at i (im_mailboxes c))"

definition im_drain :: "nat \<Rightarrow> im_cluster \<Rightarrow> im_cluster option" where
  "im_drain i c =
     (if i < length (im_mailboxes c) then while_let (im_pop i) (\<lambda>m. im_step i (Message m)) c else None)"

definition im_round :: "im_cluster \<Rightarrow> im_cluster option" where
  "im_round c =
     Option.bind (for_each (\<lambda>i. im_step i Tick) [0..<length (im_nodes c)] c) (\<lambda>c.
       for_each im_drain [0..<length (im_nodes c)] c)"

text \<open>The loop of \<open>main\<close> over the rounds: the leader, its term and the round of the election.\<close>

fun im_rounds :: "nat list \<Rightarrow> im_cluster \<Rightarrow> (node_id \<times> raft_term \<times> nat) option" where
  "im_rounds [] c = None"
| "im_rounds (round # rounds) c =
     Option.bind (im_round c) (\<lambda>c.
       case im_leader c of
         Some ld \<Rightarrow>
           (if unat ld < length (im_nodes c)
            then Some (ld, get_term (im_nodes c ! unat ld), round) else None)
       | None \<Rightarrow> im_rounds rounds c)"

definition im_main :: "(node_id \<times> raft_term \<times> nat) option" where
  "im_main = im_rounds [0..<100] (im_new 3)"

subsection \<open>Its rounds return\<close>

lemma im_route_sel:
  "im_nodes (im_route acts c) = im_nodes c"
  "length (im_mailboxes (im_route acts c)) = length (im_mailboxes c)"
  "length (im_mailboxes c) \<le> 2 ^ 64 \<Longrightarrow> j < length (im_mailboxes c) \<Longrightarrow>
     im_mailboxes (im_route acts c) ! j = im_mailboxes c ! j @ mail_for (word_of_nat j) acts"
proof (induction acts c rule: im_route.induct)
  case (2 to m acts c)
  {
    case 1
    from 2 show ?case by (auto simp: push_at_def split: option.split)
  next
    case 2
    from "2.IH" show ?case by (auto simp: push_at_def split: option.split)
  next
    case 3
    from "2.IH" 3 show ?case
      by (auto simp: push_at_def nth_list_update unat_vec split: option.split)
  }
qed simp_all

definition im_config :: "nat \<Rightarrow> node_id \<Rightarrow> raft_config" where
  "im_config k i = with_seed (0x2000 + i) (config_new i (map word_of_nat [0..<k]))"

definition im_sound :: "nat \<Rightarrow> im_cluster \<Rightarrow> bool" where
  "im_sound T s \<longleftrightarrow> (\<exists>c. vec_backed no_snapshots T 0 (im_config (length (im_nodes s))) (im_nodes s) (im_mailboxes s) c)"

text \<open>One step of a node, from the cluster's step.\<close>

lemma im_step_sound:
  assumes v: "vec_served no_snapshots T 0 (im_config (length (im_nodes s))) (im_nodes s) (im_mailboxes s) c i ev n acts"
    and i: "i < length (im_nodes s)" and len: "length (im_mailboxes s) = length (im_nodes s)" "length (im_nodes s) \<le> 2 ^ 64"
  shows "\<exists>s'. im_step i ev s = Some s' \<and> im_sound T s' \<and> length (im_nodes s') = length (im_nodes s)
    \<and> im_mailboxes s' ! i = im_mailboxes s ! i"
proof -
  let ?s = "im_route acts (s\<lparr>im_nodes := (im_nodes s)[i := n]\<rparr>)"
  note D = vec_servedD[OF v]
  have st: "im_step i ev s = Some ?s" using D(1) i by (simp add: im_step_def)
  have "vec_backed no_snapshots T 0 (im_config (length (im_nodes s))) ((im_nodes s)[i := n]) (im_mailboxes ?s)
      (absorb c (word_of_nat i) n acts)"
    using len by (intro D(5)) (simp_all add: im_route_sel set_mail_for)
  then have "im_sound T ?s" by (auto simp: im_sound_def im_route_sel)
  moreover have "im_mailboxes ?s ! i = im_mailboxes s ! i"
    using i len D(6) by (simp add: im_route_sel)
  ultimately show ?thesis using st by (simp add: im_route_sel)
qed

lemma im_soundD:
  assumes "im_sound T s"
  obtains c where "vec_backed no_snapshots T 0 (im_config (length (im_nodes s))) (im_nodes s) (im_mailboxes s) c"
    "length (im_mailboxes s) = length (im_nodes s)" "length (im_nodes s) \<le> 2 ^ 64"
  using assms by (auto simp: im_sound_def vec_backed_def)

interpretation im: driver "\<lambda>i. im_step i Tick" "\<lambda>_ _. ()" "\<lambda>_. im_pop" "\<lambda>_ i m. im_step i (Message m)" im_drain
  "\<lambda>s. length (im_nodes s)"
  "\<lambda>i s. length (im_mailboxes s ! i)" im_sound
proof (unfold_locales, goal_cases)
  case (1 T s i)
  from im_soundD[OF 1(1)] obtain c where
    c: "vec_backed no_snapshots T 0 (im_config (length (im_nodes s))) (im_nodes s) (im_mailboxes s) c"
    and len: "length (im_mailboxes s) = length (im_nodes s)" "length (im_nodes s) \<le> 2 ^ 64" .
  obtain n acts where
    "vec_served no_snapshots (T + 1) 0 (im_config (length (im_nodes s))) (im_nodes s) (im_mailboxes s) c i Tick n acts"
    using vec_tick[OF c 1(2,3)] by blast
  from im_step_sound[OF this 1(2) len] show ?case by blast
next
  case (2 T s i m s')
  from im_soundD[OF 2(1)] obtain c where
    c: "vec_backed no_snapshots T 0 (im_config (length (im_nodes s))) (im_nodes s) (im_mailboxes s) c"
    and len: "length (im_mailboxes s) = length (im_nodes s)" "length (im_nodes s) \<le> 2 ^ 64" .
  obtain boxes where p: "pop_at i (im_mailboxes s) = Some (m, boxes)" "s' = s\<lparr>im_mailboxes := boxes\<rparr>"
    using 2(3) by (auto simp: im_pop_def)
  have i: "i < length (im_mailboxes s)" using 2(2) len(1) by simp
  note v = vec_pop[OF c 2(2) p(1)]
  obtain n acts where
    "vec_served no_snapshots T 0 (im_config (length (im_nodes s))) (im_nodes s) boxes c i (Message m) n acts"
    using vec_message[OF conjunct1[OF v] 2(2) conjunct2[OF v]] by blast
  then have "\<exists>s''. im_step i (Message m) s' = Some s'' \<and> im_sound T s''
      \<and> length (im_nodes s'') = length (im_nodes s') \<and> im_mailboxes s'' ! i = im_mailboxes s' ! i"
    using 2(2) len pop_at_Some(2)[OF p(1) i] by (intro im_step_sound) (simp_all add: p(2))
  then show ?case using p(2) pop_at_Some(1)[OF p(1) i] by auto
next
  case (3 T s i)
  from im_soundD[OF 3(1)] have "length (im_mailboxes s) = length (im_nodes s)" .
  with 3(2) show ?case by (simp add: im_drain_def)
qed

lemma im_round_returns:
  "im_sound T s \<Longrightarrow> T + length (im_nodes s) < 2 ^ 64 - 1 \<Longrightarrow>
   \<exists>s'. im_round s = Some s' \<and> im_sound (T + length (im_nodes s)) s' \<and> length (im_nodes s') = length (im_nodes s)"
  unfolding im_round_def by (rule im.round_returns)

lemma im_new_sound: "k \<le> 2 ^ 64 \<Longrightarrow> im_sound 0 (im_new k) \<and> length (im_nodes (im_new k)) = k"
proof -
  assume k: "k \<le> 2 ^ 64"
  have "vec_backed no_snapshots 0 0 (im_config k) (map (\<lambda>i. node_new (im_config k i)) (map word_of_nat [0..<k]))
      (replicate k []) (cluster_init (im_config k))"
    by (rule vec_init[OF _ _ k]) (simp_all add: im_config_def with_seed_def config_new_def)
  then show ?thesis by (auto simp: im_sound_def im_new_def Let_def im_config_def)
qed

text \<open>The program's output: node 2 leads term 1 after eleven rounds.\<close>

lemma im_main_elects: "im_main = Some (2, 1, 10)"
  by code_simp

end
