(* ===== verification/Kv_Text.thy ===== *)
theory Kv_Text
  imports Prelude
begin

text \<open>
  The text functions of the standard library that \<^verbatim>\<open>examples/kv_store.rs\<close> uses, on the UTF-8
  bytes of a string: \<open>String::from_utf8_lossy\<close>, \<open>str::split_once\<close>, \<open>str::splitn\<close> and
  \<open>str::lines\<close>. A \<open>String\<close> is the list of its bytes. The separators are ASCII, and an
  ASCII byte never occurs inside a longer UTF-8 sequence, so splitting the bytes is splitting
  the text.
\<close>

type_synonym str = "byte list"

definition ascii :: "string \<Rightarrow> str" where
  "ascii s = map of_char s"

definition tab :: byte where "tab = 9"
definition newline :: byte where "newline = 10"
definition carriage_return :: byte where "carriage_return = 13"

subsection \<open>UTF-8\<close>

text \<open>Continuation bytes, and the second bytes that the longer sequences admit (no overlong
  forms, no surrogates, nothing above U+10FFFF).\<close>

definition within :: "byte \<Rightarrow> byte \<Rightarrow> byte \<Rightarrow> bool" where
  "within lo hi b \<longleftrightarrow> lo \<le> b \<and> b \<le> hi"

definition is_cont :: "byte \<Rightarrow> bool" where
  "is_cont b = within 0x80 0xBF b"

definition second_of_three :: "byte \<Rightarrow> byte \<Rightarrow> bool" where
  "second_of_three a b =
     (if a = 0xE0 then within 0xA0 0xBF b else if a = 0xED then within 0x80 0x9F b
      else is_cont b)"

definition second_of_four :: "byte \<Rightarrow> byte \<Rightarrow> bool" where
  "second_of_four a b =
     (if a = 0xF0 then within 0x90 0xBF b else if a = 0xF4 then within 0x80 0x8F b
      else is_cont b)"

text \<open>\<open>accepted tests bs\<close>: how many of the bytes pass their tests, up to the first that fails.
  \<open>chunk\<close> reads one sequence off a non-empty input: whether it is a character, and how
  many bytes it takes; a broken sequence takes the bytes read before the break.\<close>

fun accepted :: "(byte \<Rightarrow> bool) list \<Rightarrow> byte list \<Rightarrow> nat" where
  "accepted (p # ps) (b # bs) = (if p b then Suc (accepted ps bs) else 0)"
| "accepted _ _ = 0"

definition tail_tests :: "byte \<Rightarrow> (byte \<Rightarrow> bool) list option" where
  "tail_tests b =
     (if b < 0x80 then Some []
      else if within 0xC2 0xDF b then Some [is_cont]
      else if within 0xE0 0xEF b then Some [second_of_three b, is_cont]
      else if within 0xF0 0xF4 b then Some [second_of_four b, is_cont, is_cont]
      else None)"

definition chunk :: "byte \<Rightarrow> byte list \<Rightarrow> bool \<times> nat" where
  "chunk b bs =
     (case tail_tests b of
        None \<Rightarrow> (False, 0)
      | Some ps \<Rightarrow> let k = accepted ps bs in (k = length ps, k))"

text \<open>U+FFFD, the replacement of a broken sequence.\<close>

definition replacement :: str where
  "replacement = [0xEF, 0xBF, 0xBD]"

function from_utf8_lossy :: "byte list \<Rightarrow> str" where
  "from_utf8_lossy [] = []"
| "from_utf8_lossy (b # bs) =
     (case chunk b bs of
        (ok, k) \<Rightarrow> (if ok then b # take k bs else replacement) @ from_utf8_lossy (drop k bs))"
  by pat_completeness auto
termination by (relation "measure length") auto

text \<open>What the type \<open>String\<close> guarantees: every sequence is a character.\<close>

function is_utf8 :: "byte list \<Rightarrow> bool" where
  "is_utf8 [] = True"
| "is_utf8 (b # bs) = (case chunk b bs of (ok, k) \<Rightarrow> ok \<and> is_utf8 (drop k bs))"
  by pat_completeness auto
termination by (relation "measure length") auto

declare from_utf8_lossy.simps(2) [simp del] is_utf8.simps(2) [simp del]

lemma accepted_le: "accepted ps bs \<le> length bs"
  by (induction ps bs rule: accepted.induct) auto

lemma accepted_append:
  "accepted ps bs = length ps \<Longrightarrow> accepted ps (bs @ cs) = length ps"
  by (induction ps bs rule: accepted.induct) (auto split: if_splits)

lemma chunk_append: "chunk b bs = (True, k) \<Longrightarrow> chunk b (bs @ cs) = (True, k)"
  by (auto simp: chunk_def Let_def accepted_append split: option.splits)

lemma chunk_le: "chunk b bs = (ok, k) \<Longrightarrow> k \<le> length bs"
  using accepted_le by (auto simp: chunk_def Let_def split: option.splits)

lemma lossy_utf8: "is_utf8 bs \<Longrightarrow> from_utf8_lossy bs = bs"
proof (induction bs rule: is_utf8.induct)
  case (2 b bs)
  obtain ok k where c: "chunk b bs = (ok, k)" by fastforce
  with 2 show ?case by (simp add: is_utf8.simps(2) from_utf8_lossy.simps(2))
qed simp

lemma is_utf8_append: "is_utf8 bs \<Longrightarrow> is_utf8 cs \<Longrightarrow> is_utf8 (bs @ cs)"
proof (induction bs rule: is_utf8.induct)
  case (2 b bs)
  obtain ok k where c: "chunk b bs = (ok, k)" by fastforce
  with 2 have "ok" "is_utf8 (drop k bs @ cs)" by (simp_all add: is_utf8.simps(2))
  with c chunk_append[of b bs k cs] chunk_le[OF c] show ?case by (simp add: is_utf8.simps(2))
qed simp

lemma is_utf8_ascii: "(\<forall>b \<in> set bs. b < 0x80) \<Longrightarrow> is_utf8 bs"
  by (induction bs) (simp_all add: is_utf8.simps(2) chunk_def tail_tests_def Let_def)

text \<open>The result of a lossy conversion is a valid string.\<close>

lemma chunk_self:
  assumes "chunk b bs = (True, k)"
  shows "chunk b (take k bs) = (True, k)"
proof -
  have "accepted ps bs = length ps \<Longrightarrow> accepted ps (take (length ps) bs) = length ps" for ps
    by (induction ps bs rule: accepted.induct) (auto split: if_splits)
  with assms show ?thesis by (auto simp: chunk_def Let_def split: option.splits)
qed

lemma is_utf8_lossy: "is_utf8 (from_utf8_lossy bs)"
proof (induction bs rule: from_utf8_lossy.induct)
  case (2 b bs)
  obtain ok k where c: "chunk b bs = (ok, k)" by fastforce
  have r: "is_utf8 replacement" by code_simp
  have "is_utf8 (b # take k bs)" if "ok"
    using chunk_self[of b bs k] c that by (simp add: is_utf8.simps(2))
  with r c 2 show ?case by (simp add: from_utf8_lossy.simps(2) is_utf8_append)
qed simp

subsection \<open>Splitting\<close>

fun split_once :: "byte \<Rightarrow> str \<Rightarrow> (str \<times> str) option" where
  "split_once c [] = None"
| "split_once c (b # bs) =
     (if b = c then Some ([], bs) else map_option (\<lambda>(l, r). (b # l, r)) (split_once c bs))"

fun splitn :: "nat \<Rightarrow> byte \<Rightarrow> str \<Rightarrow> str list" where
  "splitn 0 c s = []"
| "splitn (Suc 0) c s = [s]"
| "splitn (Suc (Suc n)) c s =
     (case split_once c s of None \<Rightarrow> [s] | Some (l, r) \<Rightarrow> l # splitn (Suc n) c r)"

text \<open>A line ends at a line feed, and a carriage return just before it is dropped; what
  follows the last line feed is a line unless it is empty.\<close>

definition strip_cr :: "str \<Rightarrow> str" where
  "strip_cr s = (if s \<noteq> [] \<and> last s = carriage_return then butlast s else s)"

lemma split_once_shorter: "split_once c s = Some (l, r) \<Longrightarrow> length r < length s"
  by (induction s arbitrary: l r) (auto split: if_splits)

function lines :: "str \<Rightarrow> str list" where
  "lines s =
     (case split_once newline s of
        Some (l, r) \<Rightarrow> strip_cr l # lines r
      | None \<Rightarrow> if s = [] then [] else [s])"
  by pat_completeness auto
termination by (relation "measure length") (auto dest: split_once_shorter)

declare lines.simps [simp del]

lemma split_once_append: "c \<notin> set l \<Longrightarrow> split_once c (l @ c # r) = Some (l, r)"
  by (induction l) auto

lemma split_once_None: "split_once c s = None \<longleftrightarrow> c \<notin> set s"
  by (induction s) auto

lemma lines_Nil [simp]: "lines [] = []"
  by (simp add: lines.simps)

lemma lines_append: "newline \<notin> set l \<Longrightarrow> lines (l @ newline # r) = strip_cr l # lines r"
  by (subst lines.simps) (simp add: split_once_append)

end
