(* ===== verification/Replicated_Log.thy ===== *)
theory Replicated_Log
  imports Harness Kv_Text "HOL-Library.Sublist"
begin

text \<open>
  \<^verbatim>\<open>examples/replicated_log.rs\<close>: the cluster of \<^verbatim>\<open>In_Memory_Cluster\<close> with a record of what each
  node applies, commands proposed to its leader, and at the end the check that all nodes have
  applied the same commands. \<open>None\<close> is a panic, or not returning.
\<close>

record rl_cluster =
  rl_nodes :: "node list"
  rl_mailboxes :: "message list list"
  rl_applied :: "str list list"

definition rl_new :: "nat \<Rightarrow> rl_cluster" where
  "rl_new n =
     (let ids = map word_of_nat [0..<n]
      in \<lparr>rl_nodes = map (\<lambda>i. node_new (with_seed (0x3000 + i) (config_new i ids))) ids,
          rl_mailboxes = replicate n [], rl_applied = replicate n []\<rparr>)"

fun rl_absorb :: "nat \<Rightarrow> action list \<Rightarrow> rl_cluster \<Rightarrow> rl_cluster option" where
  "rl_absorb i [] c = Some c"
| "rl_absorb i (Send to m # acts) c =
     rl_absorb i acts (case push_at (unat to) m (rl_mailboxes c) of
        Some boxes \<Rightarrow> c\<lparr>rl_mailboxes := boxes\<rparr> | None \<Rightarrow> c)"
| "rl_absorb i (Apply index t command # acts) c =
     (if i < length (rl_applied c)
      then rl_absorb i acts (c\<lparr>rl_applied :=
             (rl_applied c)[i := rl_applied c ! i @ [from_utf8_lossy command]]\<rparr>)
      else None)"
| "rl_absorb i (_ # acts) c = rl_absorb i acts c"

definition rl_step :: "nat \<Rightarrow> event \<Rightarrow> rl_cluster \<Rightarrow> rl_cluster option" where
  "rl_step i ev c =
     (if i < length (rl_nodes c)
      then case step ev (rl_nodes c ! i) of
             (n, Inl e) \<Rightarrow> None
           | (n, Inr acts) \<Rightarrow> rl_absorb i acts (c\<lparr>rl_nodes := (rl_nodes c)[i := n]\<rparr>)
      else None)"

definition rl_pop :: "nat \<Rightarrow> rl_cluster \<Rightarrow> (message \<times> rl_cluster) option" where
  "rl_pop i c = map_option (\<lambda>(m, boxes). (m, c\<lparr>rl_mailboxes := boxes\<rparr>)) (pop_at i (rl_mailboxes c))"

definition rl_drain :: "nat \<Rightarrow> rl_cluster \<Rightarrow> rl_cluster option" where
  "rl_drain i c =
     (if i < length (rl_mailboxes c) then while_let (rl_pop i) (\<lambda>m. rl_step i (Message m)) c else None)"

definition rl_step_round :: "rl_cluster \<Rightarrow> rl_cluster option" where
  "rl_step_round c =
     Option.bind (for_each (\<lambda>i. rl_step i Tick) [0..<length (rl_nodes c)] c) (\<lambda>c.
       for_each rl_drain [0..<length (rl_nodes c)] c)"

definition rl_leader :: "rl_cluster \<Rightarrow> nat option" where
  "rl_leader c = position is_leader (rl_nodes c)"

definition rl_propose :: "str \<Rightarrow> rl_cluster \<Rightarrow> rl_cluster option" where
  "rl_propose command c =
     (case rl_leader c of Some i \<Rightarrow> rl_step i (Propose command) c | None \<Rightarrow> Some c)"

definition rl_rounds :: "nat \<Rightarrow> rl_cluster \<Rightarrow> rl_cluster option" where
  "rl_rounds k c = for_each (\<lambda>_. rl_step_round) [0..<k] c"

definition rl_commands :: "str list" where
  "rl_commands = map ascii [''set a=1'', ''set b=2'', ''del a'', ''set c=3'', ''incr b'']"

text \<open>\<open>main\<close>: what every node has applied, if the assertion holds that it is the same.\<close>

definition rl_main :: "str list list option" where
  "rl_main =
     Option.bind (until (\<lambda>c. rl_leader c \<noteq> None) rl_step_round (rl_new 3)) (\<lambda>c.
     Option.bind (for_each (\<lambda>command c. Option.bind (rl_propose command c) (rl_rounds 6)) rl_commands c) (\<lambda>c.
     Option.bind (rl_rounds 12 c) (\<lambda>c.
       if rl_applied c \<noteq> [] \<and> list_all (\<lambda>log. log = rl_applied c ! 0) (rl_applied c)
       then Some (rl_applied c) else None)))"

subsection \<open>Carrying out actions\<close>

lemma rl_absorb_sel:
  assumes "i < length (rl_applied c)"
  shows "\<exists>c'. rl_absorb i acts c = Some c' \<and> rl_nodes c' = rl_nodes c
    \<and> length (rl_mailboxes c') = length (rl_mailboxes c)
    \<and> rl_applied c' = (rl_applied c)[i := rl_applied c ! i @ map from_utf8_lossy (applied_commands acts)]
    \<and> (length (rl_mailboxes c) \<le> 2 ^ 64 \<longrightarrow> (\<forall>j < length (rl_mailboxes c).
         rl_mailboxes c' ! j = rl_mailboxes c ! j @ mail_for (word_of_nat j) acts))"
  using assms
proof (induction acts arbitrary: c)
  case (Cons a acts)
  show ?case
  proof (cases a)
    case (Send to m)
    define c1 where "c1 = (case push_at (unat to) m (rl_mailboxes c) of
        Some boxes \<Rightarrow> c\<lparr>rl_mailboxes := boxes\<rparr> | None \<Rightarrow> c)"
    have c1: "rl_nodes c1 = rl_nodes c" "length (rl_mailboxes c1) = length (rl_mailboxes c)" "rl_applied c1 = rl_applied c"
      by (auto simp: c1_def push_at_def)
    have box: "rl_mailboxes c1 ! j = rl_mailboxes c ! j @ (if to = word_of_nat j then [m] else [])"
      if "length (rl_mailboxes c) \<le> 2 ^ 64" "j < length (rl_mailboxes c)" for j
      using that by (auto simp: c1_def push_at_def nth_list_update unat_vec)
    obtain c' where c': "rl_absorb i acts c1 = Some c'" "rl_nodes c' = rl_nodes c1"
      "length (rl_mailboxes c') = length (rl_mailboxes c1)"
      "rl_applied c' = (rl_applied c1)[i := rl_applied c1 ! i @ map from_utf8_lossy (applied_commands acts)]"
      "length (rl_mailboxes c1) \<le> 2 ^ 64 \<longrightarrow> (\<forall>j < length (rl_mailboxes c1).
         rl_mailboxes c' ! j = rl_mailboxes c1 ! j @ mail_for (word_of_nat j) acts)"
      using Cons.IH[of c1] Cons.prems c1(3) by auto
    moreover have "rl_absorb i (a # acts) c = rl_absorb i acts c1" by (simp add: Send c1_def)
    ultimately show ?thesis using c1 box by (intro exI[of _ c']) (simp add: Send)
  next
    case (Apply index t command)
    with Cons.IH[of "c\<lparr>rl_applied := (rl_applied c)[i := rl_applied c ! i @ [from_utf8_lossy command]]\<rparr>"] Cons.prems
    show ?thesis by auto
  qed (use Cons in auto)
qed simp

subsection \<open>The program's runs are runs of the cluster\<close>

definition rl_config :: "nat \<Rightarrow> node_id \<Rightarrow> raft_config" where
  "rl_config k i = with_seed (0x3000 + i) (config_new i (map word_of_nat [0..<k]))"

text \<open>What a node has recorded are the commands the cluster's history has it apply at the
  indices from 1.\<close>

definition recorded :: "cluster \<Rightarrow> node_id \<Rightarrow> str list \<Rightarrow> bool" where
  "recorded c i log \<longleftrightarrow> length log = unat (n_last_applied (c_node c i))
     \<and> (\<forall>k < length log. \<exists>x. (i, word_of_nat (k + 1), x) \<in> c_applied c \<and> log ! k = from_utf8_lossy x)"

definition rl_backed :: "nat \<Rightarrow> nat \<Rightarrow> rl_cluster \<Rightarrow> cluster \<Rightarrow> bool" where
  "rl_backed T B s c \<longleftrightarrow>
     vec_backed no_snapshots T B (rl_config (length (rl_nodes s))) (rl_nodes s) (rl_mailboxes s) c
   \<and> length (rl_applied s) = length (rl_nodes s)
   \<and> (\<forall>i < length (rl_nodes s). recorded c (word_of_nat i) (rl_applied s ! i))"

definition rl_sound :: "nat \<Rightarrow> nat \<Rightarrow> rl_cluster \<Rightarrow> bool" where
  "rl_sound B T s \<longleftrightarrow> (\<exists>c. rl_backed T B s c)"

lemma rl_backedD:
  assumes "rl_backed T B s c"
  shows "vec_backed no_snapshots T B (rl_config (length (rl_nodes s))) (rl_nodes s) (rl_mailboxes s) c"
    "length (rl_applied s) = length (rl_nodes s)" "length (rl_mailboxes s) = length (rl_nodes s)"
    "length (rl_nodes s) \<le> 2 ^ 64"
    "i < length (rl_nodes s) \<Longrightarrow> recorded c (word_of_nat i) (rl_applied s ! i)"
  using assms by (simp_all add: rl_backed_def vec_backed_def)

lemma recorded_absorb:
  assumes r: "recorded c i log"
    and ix: "applied_indices acts = [unat (n_last_applied (c_node c i)) + 1..<unat (n_last_applied n) + 1]"
      "n_last_applied (c_node c i) \<le> n_last_applied n"
  shows "recorded (absorb c i n acts) i (log @ map from_utf8_lossy (applied_commands acts))"
proof -
  let ?cs = "applied_commands acts"
  have len: "length ?cs = unat (n_last_applied n) - length log" "length log \<le> unat (n_last_applied n)"
    using r ix applied_length[of acts] by (simp_all add: recorded_def word_le_nat_alt del: upt_Suc)
  have "\<exists>x. (i, word_of_nat (k + 1), x) \<in> c_applied (absorb c i n acts)
      \<and> (log @ map from_utf8_lossy ?cs) ! k = from_utf8_lossy x" if k: "k < unat (n_last_applied n)" for k
  proof (cases "k < length log")
    case True
    with r show ?thesis by (auto simp: recorded_def nth_append)
  next
    case False
    define j where "j = k - length log"
    have j: "j < length ?cs" using False k len by (simp add: j_def)
    have "applied_indices acts ! j = k + 1"
      using False j k r ix len by (simp add: recorded_def j_def del: upt_Suc)
    with applied_nth[OF j] have "(word_of_nat (k + 1), ?cs ! j) \<in> applies acts" by simp
    moreover have "(log @ map from_utf8_lossy ?cs) ! k = from_utf8_lossy (?cs ! j)"
      using False j by (simp add: nth_append j_def)
    ultimately show ?thesis by auto
  qed
  with len show ?thesis by (simp add: recorded_def)
qed

lemma recorded_other:
  "recorded c j log \<Longrightarrow> j \<noteq> i \<Longrightarrow> recorded (absorb c i n acts) j log"
  by (auto simp: recorded_def)

lemma rl_step_sound:
  assumes b: "rl_backed T B s c" and i: "i < length (rl_nodes s)"
    and v: "vec_served no_snapshots T' B' (rl_config (length (rl_nodes s))) (rl_nodes s) (rl_mailboxes s) c i ev n acts"
    and ev: "may_occur c (word_of_nat i) ev" "drives ev"
  shows "\<exists>s'. rl_step i ev s = Some s' \<and> rl_sound B' T' s' \<and> length (rl_nodes s') = length (rl_nodes s)
    \<and> rl_mailboxes s' ! i = rl_mailboxes s ! i"
proof -
  note D = vec_servedD[OF v] and R = rl_backedD[OF b]
  have "i < length (rl_applied (s\<lparr>rl_nodes := (rl_nodes s)[i := n]\<rparr>))" using R(2) i by simp
  from rl_absorb_sel[OF this, of acts] obtain s' where s': "rl_absorb i acts (s\<lparr>rl_nodes := (rl_nodes s)[i := n]\<rparr>) = Some s'"
    "rl_nodes s' = (rl_nodes s)[i := n]" "length (rl_mailboxes s') = length (rl_mailboxes s)"
    "rl_applied s' = (rl_applied s)[i := rl_applied s ! i @ map from_utf8_lossy (applied_commands acts)]"
    "\<And>j. j < length (rl_mailboxes s) \<Longrightarrow> rl_mailboxes s' ! j = rl_mailboxes s ! j @ mail_for (word_of_nat j) acts"
    using R(3,4) by auto
  let ?c = "absorb c (word_of_nat i) n acts"
  have vb: "vec_backed no_snapshots T' B' (rl_config (length (rl_nodes s))) ((rl_nodes s)[i := n]) (rl_mailboxes s') ?c"
    by (rule D(5)) (use s'(3,5) in \<open>simp_all add: set_mail_for\<close>)
  have iv: "word_of_nat i \<in> set (vec_members (length (rl_nodes s)))" by (rule vec_in(1)[OF R(1) i])
  have "step ev (c_node c (word_of_nat i)) = (n, Inr acts)" using D(1,2) by simp
  note ord = served_in_order[OF vec_steady[OF R(1)] vec_steady[OF vb, simplified] iv this ev(1) ev(2)[unfolded drives_def]]
  have rec: "recorded ?c (word_of_nat j) (rl_applied s' ! j)" if j: "j < length (rl_nodes s)" for j
  proof (cases "j = i")
    case True
    with recorded_absorb[OF R(5)[OF i] ord] s'(4) R(2) i show ?thesis by simp
  next
    case False
    then have "(word_of_nat j :: u64) \<noteq> word_of_nat i"
      using unat_vec[OF j R(4)] unat_vec[OF i R(4)] by metis
    with recorded_other[OF R(5)[OF j]] s'(4) False show ?thesis by simp
  qed
  have "rl_backed T' B' s' ?c" using vb s'(2,4) R(2) rec by (simp add: rl_backed_def)
  moreover have "rl_mailboxes s' ! i = rl_mailboxes s ! i" using s'(5)[of i] D(6)[OF i R(4)] i R(3) by simp
  ultimately show ?thesis using D(1) i s'(1,2) by (auto simp: rl_step_def rl_sound_def)
qed

interpretation rl: driver "\<lambda>i. rl_step i Tick" "\<lambda>_ _. ()" "\<lambda>_. rl_pop" "\<lambda>_ i m. rl_step i (Message m)" rl_drain
  "\<lambda>s. length (rl_nodes s)"
  "\<lambda>i s. length (rl_mailboxes s ! i)" "rl_sound B" for B
proof (unfold_locales, goal_cases)
  case (1 T s i)
  then obtain c where c: "rl_backed T B s c" by (auto simp: rl_sound_def)
  obtain n acts where
    "vec_served no_snapshots (T + 1) B (rl_config (length (rl_nodes s))) (rl_nodes s) (rl_mailboxes s) c i Tick n acts"
    using vec_tick[OF rl_backedD(1)[OF c] 1(2,3)] by blast
  from rl_step_sound[OF c 1(2) this] show ?case by (auto simp: may_occur_def drives_def)
next
  case (2 T s i m s')
  then obtain c where c: "rl_backed T B s c" by (auto simp: rl_sound_def)
  note R = rl_backedD[OF c]
  obtain boxes where p: "pop_at i (rl_mailboxes s) = Some (m, boxes)" "s' = s\<lparr>rl_mailboxes := boxes\<rparr>"
    using 2(3) by (auto simp: rl_pop_def)
  have i: "i < length (rl_mailboxes s)" using 2(2) R(3) by simp
  note v = vec_pop[OF R(1) 2(2) p(1)]
  have c': "rl_backed T B s' c" using v R(2,5) by (simp add: rl_backed_def p(2))
  obtain n acts where
    "vec_served no_snapshots T B (rl_config (length (rl_nodes s))) (rl_nodes s) boxes c i (Message m) n acts"
    using vec_message[OF conjunct1[OF v] 2(2) conjunct2[OF v]] by blast
  then have "\<exists>s''. rl_step i (Message m) s' = Some s'' \<and> rl_sound B T s''
      \<and> length (rl_nodes s'') = length (rl_nodes s') \<and> rl_mailboxes s'' ! i = rl_mailboxes s' ! i"
    using 2(2) v by (intro rl_step_sound[OF c']) (simp_all add: p(2) may_occur_def drives_def)
  then show ?case using p(2) pop_at_Some(1)[OF p(1) i] by auto
next
  case (3 T s i)
  then have "length (rl_mailboxes s) = length (rl_nodes s)" by (auto simp: rl_sound_def dest: rl_backedD(3))
  with 3(2) show ?case by (simp add: rl_drain_def)
qed

subsection \<open>Scripts\<close>

text \<open>What \<open>main\<close> does with the cluster, in any order: rounds and proposals.\<close>

datatype rl_call = Round | Command str

fun rl_perform :: "rl_call \<Rightarrow> rl_cluster \<Rightarrow> rl_cluster option" where
  "rl_perform Round c = rl_step_round c"
| "rl_perform (Command x) c = rl_propose x c"

definition rl_run :: "rl_call list \<Rightarrow> rl_cluster \<Rightarrow> rl_cluster option" where
  "rl_run calls c = for_each rl_perform calls c"

definition is_command :: "rl_call \<Rightarrow> bool" where
  "is_command x \<longleftrightarrow> (case x of Round \<Rightarrow> False | Command _ \<Rightarrow> True)"

lemma rl_propose_returns:
  assumes "rl_sound B T s" "B + 1 < 2 ^ 63 - 1"
  shows "\<exists>s'. rl_propose x s = Some s' \<and> rl_sound (B + 1) T s' \<and> length (rl_nodes s') = length (rl_nodes s)"
proof -
  obtain c where c: "rl_backed T B s c" using assms(1) by (auto simp: rl_sound_def)
  show ?thesis
  proof (cases "rl_leader s")
    case None
    with c vec_backed_mono[OF rl_backedD(1)[OF c] assms(2)] show ?thesis
      by (auto simp: rl_propose_def rl_sound_def rl_backed_def)
  next
    case (Some i)
    then have i: "i < length (rl_nodes s)" "is_leader (rl_nodes s ! i)"
      using position_Some[of is_leader "rl_nodes s" i] by (simp_all add: rl_leader_def)
    obtain n acts where "vec_served no_snapshots T (B + 1) (rl_config (length (rl_nodes s))) (rl_nodes s) (rl_mailboxes s)
        c i (Propose x) n acts"
      using vec_propose[OF rl_backedD(1)[OF c] i assms(2)] any_policy by blast
    from rl_step_sound[OF c i(1) this] Some show ?thesis by (auto simp: rl_propose_def may_occur_def drives_def)
  qed
qed

lemma rl_new_sound:
  assumes k: "k \<le> 2 ^ 64"
  shows "rl_sound 0 0 (rl_new k)"
proof -
  have v: "vec_backed no_snapshots 0 0 (rl_config k) (map (\<lambda>i. node_new (rl_config k i)) (map word_of_nat [0..<k]))
      (replicate k []) (cluster_init (rl_config k))"
    by (rule vec_init[OF _ _ k]) (simp_all add: rl_config_def with_seed_def config_new_def)
  have "n_last_applied (node_new (rl_config k i)) = 0" for i
    by (simp add: node_new_def ml_new_def)
  with v have "rl_backed 0 0 (rl_new k) (cluster_init (rl_config k))"
    by (simp add: rl_backed_def rl_new_def Let_def recorded_def cluster_init_def rl_config_def comp_def)
  then show ?thesis by (auto simp: rl_sound_def)
qed

interpretation rls: scripted rl_perform is_command "\<lambda>_ _. True" "\<lambda>s. length (rl_nodes s)" rl_sound
proof (unfold_locales, goal_cases)
  case (1 B T s x)
  show ?case
  proof (cases x)
    case Round
    with rl.round_returns[OF 1(1,3)] show ?thesis
      by (auto simp: is_command_def rl_step_round_def intro!: exI[of _ "T + length (rl_nodes s)"])
  next
    case (Command y)
    with 1(4) rl_propose_returns[OF 1(1), of y] show ?thesis
      by (auto simp: is_command_def intro!: exI[of _ T])
  qed
qed

lemma rl_run_backed:
  assumes "k \<le> 2 ^ 64" "k * length calls < 2 ^ 64 - 1" "length (filter is_command calls) < 2 ^ 63 - 1"
  obtains s T c where "rl_run calls (rl_new k) = Some s" "length (rl_nodes s) = k"
    "rl_backed T (length (filter is_command calls)) s c"
proof -
  have "length (rl_nodes (rl_new k)) = k" by (simp add: rl_new_def Let_def)
  with rls.script_returns[OF rl_new_sound[OF assms(1)], of calls] assms(2,3) that show thesis
    by (auto simp: rl_run_def rl_sound_def)
qed

lemma logs_agree:
  assumes b: "rl_backed T B s c" and ij: "i < length (rl_nodes s)" "j < length (rl_nodes s)"
    and le: "length (rl_applied s ! i) \<le> length (rl_applied s ! j)"
  shows "prefix (rl_applied s ! i) (rl_applied s ! j)"
proof -
  note R = rl_backedD[OF b]
  note D = steadyD[OF vec_steady[OF R(1)]]
  have "rl_applied s ! i ! k = rl_applied s ! j ! k" if k: "k < length (rl_applied s ! i)" for k
  proof -
    obtain x where x: "(word_of_nat i, word_of_nat (k + 1), x) \<in> c_applied c" "rl_applied s ! i ! k = from_utf8_lossy x"
      using R(5)[OF ij(1)] k unfolding recorded_def by blast
    obtain y where y: "(word_of_nat j, word_of_nat (k + 1), y) \<in> c_applied c" "rl_applied s ! j ! k = from_utf8_lossy y"
      using R(5)[OF ij(2)] k le unfolding recorded_def by (meson less_le_trans)
    obtain A where "models (vec_members (length (rl_nodes s))) A c" using cluster_modelled[OF D(1,2)] by blast
    note M = modelsD[OF this]
    from apply_unique[OF M(1) M(3)[OF x(1)] M(3)[OF y(1)]] x(2) y(2) show ?thesis by simp
  qed
  then have "rl_applied s ! i = take (length (rl_applied s ! i)) (rl_applied s ! j)"
    using le by (intro nth_equalityI) simp_all
  then show ?thesis by (metis take_is_prefix)
qed

text \<open>
  C8: The replicated log program returns from every script of rounds and proposals: no step of
  a node fails, no index is out of range, and every mailbox drains, for any number of nodes, as
  long as fewer than \<open>2 ^ 64 - 1\<close> ticks and \<open>2 ^ 63 - 1\<close> proposals are made.
\<close>

theorem replicated_log_returns:
  assumes "k \<le> 2 ^ 64" "k * length calls < 2 ^ 64 - 1" "length (filter is_command calls) < 2 ^ 63 - 1"
  shows "\<exists>s. rl_run calls (rl_new k) = Some s \<and> length (rl_nodes s) = k"
  using rl_run_backed[OF assms] by metis

theorem replicated_log_returns_witness:
  "\<exists>s. rl_run [Round, Command [120], Round] (rl_new 3) = Some s \<and> length (rl_nodes s) = 3"
  by (rule replicated_log_returns) (simp_all add: is_command_def)

text \<open>
  C9: State machine safety for the replicated log program: after any script, of the commands
  two nodes have applied, the shorter list is a prefix of the longer one. So when all have
  applied equally many, as the final assertion wants, they have applied the same.
\<close>

theorem replicas_agree:
  assumes "k \<le> 2 ^ 64" "k * length calls < 2 ^ 64 - 1" "length (filter is_command calls) < 2 ^ 63 - 1"
    and "rl_run calls (rl_new k) = Some s" "i < k" "j < k"
  shows "prefix (rl_applied s ! i) (rl_applied s ! j) \<or> prefix (rl_applied s ! j) (rl_applied s ! i)"
proof -
  obtain T c where "rl_backed T (length (filter is_command calls)) s c" "length (rl_nodes s) = k"
    using rl_run_backed[OF assms(1-3)] assms(4) by (metis option.inject)
  with logs_agree[of T "length (filter is_command calls)" s c] assms(5,6) show ?thesis by (metis nle_le)
qed

definition short_script :: "rl_call list" where
  "short_script = replicate 11 Round @ [Command [120], Round, Round, Command [121]]"

lemma short_script_run:
  "map_option rl_applied (rl_run short_script (rl_new 3)) = Some [[], [[120]], []]"
  by code_simp

theorem replicas_agree_witness:
  "\<exists>s. rl_run short_script (rl_new 3) = Some s \<and> rl_applied s = [[], [[120]], []]
     \<and> (prefix (rl_applied s ! 0) (rl_applied s ! 1) \<or> prefix (rl_applied s ! 1) (rl_applied s ! 0))"
proof -
  obtain s where s: "rl_run short_script (rl_new 3) = Some s" "rl_applied s = [[], [[120]], []]"
    using short_script_run by (auto simp: map_option_eq_Some)
  have "length short_script = 15" "length (filter is_command short_script) = 2" by code_simp+
  with replicas_agree[OF _ _ _ s(1), of 0 1] s show ?thesis by simp
qed

text \<open>The program itself: five commands, in order, at every node.\<close>

lemma rl_main_returns: "rl_main = Some [rl_commands, rl_commands, rl_commands]"
  by code_simp

end
