(* ===== verification/Single_Node.thy ===== *)
theory Single_Node
  imports Election_Liveness Loops Kv_Text
begin

text \<open>
  \<^verbatim>\<open>examples/single_node.rs\<close>: a cluster of one. The node is ticked until it leads, and
  commits each proposal at once. \<open>None\<close> is a panic, or not returning. The program's result
  is what it prints.
\<close>

record sole_report =
  sr_id :: node_id
  sr_term :: raft_term
  sr_ticks :: u32
  sr_applied :: "(raft_index \<times> str) list"
  sr_commit :: raft_index

text \<open>The loop that ticks, with the count of its rounds.\<close>

definition sole_tick :: "node \<times> u32 \<Rightarrow> (node \<times> u32) option" where
  "sole_tick s =
     (case s of (n, ticks) \<Rightarrow>
        (case step Tick n of (n, Inr acts) \<Rightarrow> Some (n, ticks + 1) | (n, Inl e) \<Rightarrow> None))"

definition sole_elect :: "node \<Rightarrow> (node \<times> u32) option" where
  "sole_elect n = until (\<lambda>(n, ticks). is_leader n) sole_tick (n, 0)"

text \<open>The loop that proposes, with what it prints of the actions.\<close>

definition printed :: "action list \<Rightarrow> (raft_index \<times> str) list" where
  "printed acts =
     concat (map (\<lambda>a. case a of Apply i t command \<Rightarrow> [(i, from_utf8_lossy command)] | _ \<Rightarrow> []) acts)"

definition sole_propose ::
  "byte list \<Rightarrow> node \<times> (raft_index \<times> str) list \<Rightarrow> (node \<times> (raft_index \<times> str) list) option" where
  "sole_propose command s =
     (case s of (n, applied) \<Rightarrow>
        (case step (Propose command) n of
           (n, Inr acts) \<Rightarrow> Some (n, applied @ printed acts) | (n, Inl e) \<Rightarrow> None))"

definition sole_run :: "raft_config \<Rightarrow> byte list list \<Rightarrow> sole_report option" where
  "sole_run c commands =
     Option.bind (sole_elect (node_new c)) (\<lambda>(n, ticks).
     Option.bind (for_each sole_propose commands (n, [])) (\<lambda>(n', applied).
       Some \<lparr>sr_id = get_id n, sr_term = get_term n, sr_ticks = ticks, sr_applied = applied,
             sr_commit = get_commit_index n'\<rparr>))"

definition sole_main :: "sole_report option" where
  "sole_main =
     Option.bind (sole_run (config_single 1) (map ascii [''set x = 1'', ''set y = 2'', ''delete x'']))
       (\<lambda>r. if sr_commit r = 3 then Some r else None)"

subsection \<open>The only voter\<close>

definition sole_voter :: "node \<Rightarrow> bool" where
  "sole_voter n \<longleftrightarrow> n_voters n = [n_id n]"

lemma sole_voter_votes: "sole_voter n \<Longrightarrow> is_voter n" "sole_voter n \<Longrightarrow> quorum n = 1"
  by (simp_all add: sole_voter_def is_voter_def quorum_def)

text \<open>What winning leaves: a leader without peers in the next term, and its log.\<close>

definition elected :: "node \<Rightarrow> node \<Rightarrow> bool" where
  "elected n n' \<longleftrightarrow> n_role n' = Leader \<and> n_current_term n' = n_current_term n + 1 \<and> n_id n' = n_id n
     \<and> n_voters n' = n_voters n \<and> n_progress n' = [] \<and> n_transfer_target n' = None
     \<and> ml_entries (n_log n') = ml_entries (n_log n) \<and> ml_base_index (n_log n') = ml_base_index (n_log n)"

lemma advance_commit_leader:
  assumes "sole_voter n"
  shows "n_role (fst (advance_commit n acts)) = n_role n" "n_transfer_target (fst (advance_commit n acts)) = n_transfer_target n"
    "n_progress (fst (advance_commit n acts)) = n_progress n"
  using sole_voter_votes(1)[OF assms]
  by (simp_all add: advance_commit_def Let_def case_prod_unfold frame_simps is_voter_def)

lemma become_leader_alone:
  assumes "sole_voter n" "n_progress n = []"
  shows "n_role (fst (become_leader n acts)) = Leader" "n_progress (fst (become_leader n acts)) = []"
    "n_transfer_target (fst (become_leader n acts)) = None"
  using assms
  by (simp_all add: become_leader_def Let_def case_prod_unfold rebuild_progress_def sole_voter_def
      replicate_to_all_def advance_commit_leader)

lemma become_leader_settled:
  assumes "sole_voter n" "n_progress n = []" "n_commit_index n = ml_last_index (n_log n)"
  shows "n_commit_index (fst (become_leader n acts)) = n_commit_index n"
    "n_last_applied (fst (become_leader n acts)) = n_last_applied n"
  using assms
  by (simp_all add: become_leader_def Let_def rebuild_progress_def sole_voter_def
      replicate_to_all_def advance_commit_def commit_scan.simps)

lemma start_election_alone:
  fixes n :: node
  assumes "sole_voter n"
  shows "\<exists>n' acts'. start_election b n acts = ((n', acts'), Inr ()) \<and> elected n n'
    \<and> (n_commit_index n = ml_last_index (n_log n) \<longrightarrow>
        n_commit_index n' = n_commit_index n \<and> n_last_applied n' = n_last_applied n)"
proof -
  define m where "m = fst (persist_hard_state (reset_election_timer (n\<lparr>n_role := Candidate,
      n_current_term := n_current_term n + 1, n_voted_for := Some (n_id n), n_leader_id := None,
      n_transfer_target := None, n_pre_voting := False, n_pre_votes := [], n_progress := [],
      n_votes := [n_id n]\<rparr>)))"
  have m: "sole_voter m" "n_progress m = []" "n_current_term m = n_current_term n + 1" "n_id m = n_id n"
    "n_voters m = n_voters n" "ml_entries (n_log m) = ml_entries (n_log n)"
    "ml_base_index (n_log m) = ml_base_index (n_log n)" "n_commit_index m = n_commit_index n"
    "n_last_applied m = n_last_applied n" "n_votes m = [n_id n]"
    using assms
    by (simp_all add: m_def sole_voter_def persist_hard_state_def reset_election_timer_def
        case_prod_unfold ml_set_hard_state_def ml_sync_def Let_def)
  have e: "start_election b n acts = (become_leader m acts, Inr ())"
    using sole_voter_votes(2)[OF m(1)] m(10)
    by (simp add: start_election_def Let_def m_def persist_hard_state_def ml_set_hard_state_def ml_sync_def)
  have "elected n (fst (become_leader m acts))"
    using m become_leader_alone[OF m(1,2)] by (simp add: elected_def frame_simps)
  moreover have "n_commit_index m = ml_last_index (n_log m) \<longleftrightarrow> n_commit_index n = ml_last_index (n_log n)"
    using m by (simp add: ml_last_index_def ml_len_def)
  ultimately show ?thesis
    using e become_leader_settled[OF m(1,2), of acts] m(8,9) by (cases "become_leader m acts") auto
qed

lemma tick_elects:
  assumes "n_role n \<noteq> Leader" "sole_voter n" "n_election_timeout n \<le> n_election_elapsed n + 1"
  shows "\<exists>n' acts. step Tick n = (n', Inr acts) \<and> elected n n'
    \<and> (n_commit_index n = ml_last_index (n_log n) \<longrightarrow>
        n_commit_index n' = n_commit_index n \<and> n_last_applied n' = n_last_applied n)"
proof -
  define m where "m = reset_election_timer (n\<lparr>n_election_elapsed := n_election_elapsed n + 1,
      n_role := Follower, n_leader_id := None, n_pre_voting := True, n_pre_votes := [n_id n]\<rparr>)"
  have m: "n_voters m = n_voters n" "n_id m = n_id n" "n_current_term m = n_current_term n" "n_log m = n_log n"
    "n_commit_index m = n_commit_index n" "n_last_applied m = n_last_applied n" "n_pre_votes m = [n_id n]"
    by (simp_all add: m_def reset_election_timer_def case_prod_unfold Let_def)
  have s: "sole_voter m" using assms(2) m by (simp add: sole_voter_def)
  have "tick n = start_election False m []"
    using assms(1,3) sole_voter_votes(1)[OF assms(2)] sole_voter_votes(2)[OF s] m(7)
    by (simp add: tick_def start_pre_vote_def Let_def m_def is_voter_def)
  with start_election_alone[OF s, of False "[]"] m show ?thesis
    by (auto simp: step_def finish_def elected_def)
qed

text \<open>The only voter leads, in the next term, after exactly the ticks its election timer has left.\<close>

lemma sole_voter_elected:
  assumes n: "n_role n \<noteq> Leader" "sole_voter n" "n_election_elapsed n < n_election_timeout n"
  shows "\<exists>n'. sole_elect n = Some (n', n_election_timeout n - n_election_elapsed n) \<and> elected n n'
    \<and> (n_commit_index n = ml_last_index (n_log n) \<longrightarrow>
        n_commit_index n' = n_commit_index n \<and> n_last_applied n' = n_last_applied n)"
proof -
  let ?K = "unat (n_election_timeout n - n_election_elapsed n)"
  let ?won = "\<lambda>n'. elected n n' \<and> (n_commit_index n = ml_last_index (n_log n) \<longrightarrow>
        n_commit_index n' = n_commit_index n \<and> n_last_applied n' = n_last_applied n)"
  define I where "I = (\<lambda>k s. snd s = (word_of_nat k :: u32) \<and>
      (if k < ?K then fst s = n\<lparr>n_election_elapsed := n_election_elapsed n + word_of_nat k\<rparr>
       else k = ?K \<and> ?won (fst s)))"
  note K = timer_left(1,2)[OF n(3)] and el = timer_left(3)[OF n(3)]
  have "\<exists>k s'. k \<le> ?K \<and> until (\<lambda>(n, ticks). is_leader n) sole_tick (n, 0) = Some s'
      \<and> (\<lambda>(n, ticks). is_leader n) s' \<and> I k s'"
  proof (rule until_returns)
    show "I 0 (n, 0)" using K by (simp add: I_def)
  next
    fix k and s :: "node \<times> u32"
    assume I: "I k s" and nl: "\<not> (\<lambda>(n, ticks). is_leader n) s"
    have k: "k < ?K" using I nl by (auto simp: I_def elected_def is_leader_def split: if_splits prod.splits)
    define m where "m = n\<lparr>n_election_elapsed := n_election_elapsed n + word_of_nat k\<rparr>"
    have s: "s = (m, word_of_nat k)" using I k by (simp add: I_def m_def prod_eq_iff)
    have ek: "n_election_elapsed m + 1 = n_election_elapsed n + word_of_nat (Suc k)" by (simp add: m_def add.assoc add.commute)
    note u = el[of "Suc k", folded ek]
    have "\<exists>s'. sole_tick s = Some s' \<and> I (Suc k) s'"
    proof (cases "Suc k < ?K")
      case True
      then have "n_election_elapsed m + 1 < n_election_timeout m"
        using u K by (simp add: word_less_nat_alt m_def)
      with n(1) have "step Tick m = (n\<lparr>n_election_elapsed := n_election_elapsed n + word_of_nat (Suc k)\<rparr>, Inr [])"
        by (subst tick_waits) (simp_all add: m_def add.assoc add.commute)
      with True show ?thesis by (simp add: s sole_tick_def I_def add.commute)
    next
      case False
      then have "n_election_timeout m \<le> n_election_elapsed m + 1"
        using u K k by (simp add: word_le_nat_alt m_def)
      with n(1,2) obtain n' acts where t: "step Tick m = (n', Inr acts)" "elected m n'"
        "n_commit_index m = ml_last_index (n_log m) \<longrightarrow>
          n_commit_index n' = n_commit_index m \<and> n_last_applied n' = n_last_applied m"
        using tick_elects[of m] by (auto simp: m_def sole_voter_def)
      then have "?won n'" by (simp add: m_def elected_def)
      with t(1) False k show ?thesis by (auto simp: s sole_tick_def I_def add.commute)
    qed
    with k show "k < ?K \<and> (\<exists>s'. sole_tick s = Some s' \<and> I (Suc k) s')" by simp
  qed
  then obtain k s' where s': "sole_elect n = Some s'" "(\<lambda>(n, ticks). is_leader n) s'" "I k s'"
    unfolding sole_elect_def by blast
  have "\<not> k < ?K"
    using s'(2,3) n(1) by (auto simp: I_def is_leader_def split: prod.splits)
  with s'(3) have "snd s' = n_election_timeout n - n_election_elapsed n" "?won (fst s')"
    by (auto simp: I_def)
  with s'(1) show ?thesis by (metis prod.collapse)
qed

subsection \<open>Serving\<close>

definition serving :: "nat \<Rightarrow> node \<Rightarrow> bool" where
  "serving k n \<longleftrightarrow> n_role n = Leader \<and> sole_voter n \<and> n_progress n = [] \<and> n_transfer_target n = None
     \<and> ml_base_index (n_log n) = 0 \<and> length (ml_entries (n_log n)) = k
     \<and> n_commit_index n = word_of_nat k \<and> n_last_applied n = word_of_nat k"

lemma ml_last_zero: "ml_base_index l = 0 \<Longrightarrow> ml_last_index l = word_of_nat (length (ml_entries l))"
  by (simp add: ml_last_index_def ml_len_def)

lemma printed_maybe_hint: "printed (snd (maybe_hint_snapshot n acts)) = printed acts"
  by (auto simp: maybe_hint_snapshot_def Let_def printed_def split: option.split)

text \<open>The leader without peers commits a proposal at once, and applies it.\<close>

lemma propose_alone:
  assumes n: "serving k n" and k: "k + 1 < 2 ^ 64"
  shows "\<exists>n' acts. step (Propose x) n = (n', Inr acts) \<and> serving (k + 1) n'
    \<and> printed acts = [(word_of_nat (k + 1), from_utf8_lossy x)]"
proof -
  let ?e = "entry_new (n_current_term n) (word_of_nat (k + 1)) x"
  let ?l = "(n_log n)\<lparr>ml_entries := ml_entries (n_log n) @ [?e]\<rparr>"
  note N = n[unfolded serving_def]
  have last: "ml_last_index (n_log n) + 1 = word_of_nat (k + 1)" "ml_last_index ?l = word_of_nat (k + 1)"
    using N by (simp_all add: ml_last_zero add.commute)
  have u: "unat (word_of_nat (k + 1) :: u64) = k + 1" "unat (word_of_nat k :: u64) = k"
    using k by (simp_all only: unat_of_nat) (simp_all add: take_bit_nat_eq_self)
  have lt: "word_of_nat k < (word_of_nat (k + 1) :: u64)" "(0 :: u64) < word_of_nat (k + 1)"
    using u by (simp_all add: word_less_nat_alt del: of_nat_add of_nat_Suc)
  have slot: "ml_slot ?l (word_of_nat (k + 1)) = Some k"
    using N last(2) lt u by (simp add: ml_slot_def not_le unat_minus_one_pos del: of_nat_add of_nat_Suc)
  have e: "ml_entry ?l (word_of_nat (k + 1)) = Some ?e" "ml_term_at ?l (word_of_nat (k + 1)) = Some (n_current_term n)"
    using N slot lt by (auto simp: ml_entry_def ml_term_at_def entry_new_def nth_append)
  define m where "m = n\<lparr>n_log := ?l\<rparr>"
  define c where "c = drain_applies (m\<lparr>n_commit_index := word_of_nat (k + 1)\<rparr>) []"
  have m: "sole_voter m" using N by (simp add: sole_voter_def m_def)
  have scan: "commit_scan m (ml_last_index (n_log m)) = word_of_nat (k + 1)"
    using N lt e(2) last(2) sole_voter_votes[OF m]
    by (subst commit_scan.simps) (simp add: m_def replicas_def del: of_nat_add of_nat_Suc)
  have id: "is_voter (fst c)" using sole_voter_votes(1)[OF m] by (simp add: c_def is_voter_def frame_simps)
  have "advance_commit m [] = c"
    using N lt(1) scan id by (simp add: advance_commit_def Let_def case_prod_unfold c_def m_def del: of_nat_add of_nat_Suc)
  then have st: "step (Propose x) n = (fst c, Inr (snd c))"
    using N last(1) by (simp add: step_def propose_def Let_def append_one ml_sync_def entry_new_def
        replicate_to_streaming_def m_def case_prod_unfold del: of_nat_add of_nat_Suc)
  have one: "[unat (word_of_nat k :: u64) + 1..<unat (word_of_nat (k + 1) :: u64) + 1] = [k + 1]"
    by (simp only: u) (simp add: upt_rec)
  have d: "drain_loop (m\<lparr>n_commit_index := word_of_nat (k + 1)\<rparr>) [] = (m\<lparr>n_commit_index := word_of_nat (k + 1),
      n_last_applied := word_of_nat (k + 1)\<rparr>, [Apply (word_of_nat (k + 1)) (n_current_term n) x])"
    using N lt(1) e(1) one
    by (subst drain_loop_applies) (simp_all add: m_def commands_between_def apply_action_def entry_new_def
        members_def del: of_nat_add of_nat_Suc upt_Suc)
  have "printed (snd c) = [(word_of_nat (k + 1), from_utf8_lossy x)]"
    using d by (simp add: c_def drain_applies_def printed_maybe_hint del: of_nat_add of_nat_Suc) (simp add: printed_def)
  moreover have "serving (k + 1) (fst c)"
    using N d by (simp add: c_def drain_applies_def serving_def m_def sole_voter_def frame_simps del: of_nat_add of_nat_Suc)
  ultimately show ?thesis using st by blast
qed

lemma proposals_served:
  assumes "serving k n" "k + length cs < 2 ^ 64"
  shows "\<exists>n'. for_each sole_propose cs (n, applied) = Some (n', applied
      @ zip (map word_of_nat [k + 1..<k + length cs + 1]) (map from_utf8_lossy cs)) \<and> serving (k + length cs) n'"
  using assms
proof (induction cs arbitrary: k n applied)
  case (Cons x cs)
  have k: "k + 1 < 2 ^ 64" using Cons.prems(2) by simp
  obtain n1 acts where n1: "step (Propose x) n = (n1, Inr acts)" "serving (k + 1) n1"
    "printed acts = [(word_of_nat (k + 1), from_utf8_lossy x)]"
    using propose_alone[OF Cons.prems(1) k] by blast
  have "[k + 1..<k + length (x # cs) + 1] = (k + 1) # [k + 1 + 1..<k + 1 + length cs + 1]"
    by (simp add: upt_rec)
  with Cons.IH[OF n1(2), of "applied @ printed acts"] Cons.prems(2) n1 show ?case
    by (simp add: sole_propose_def del: of_nat_add of_nat_Suc upt_Suc)
qed simp

text \<open>
  C12: A single-node cluster makes progress: whatever its configuration, if it has no peers the node
  leads in term 1 after a number of ticks within its election timeout, and then commits and
  applies every command at once, at the indices from 1, in the order in which they are proposed.
\<close>

theorem single_node_serves:
  assumes c: "config_wf c" "cfg_peers c = []" and len: "length commands < 2 ^ 64"
  shows "\<exists>ticks. sole_run c commands = Some
      \<lparr>sr_id = cfg_id c, sr_term = 1, sr_ticks = ticks,
       sr_applied = zip (map word_of_nat [1..<length commands + 1]) (map from_utf8_lossy commands),
       sr_commit = word_of_nat (length commands)\<rparr>
    \<and> cfg_election_timeout_min c \<le> ticks \<and> ticks \<le> cfg_election_timeout_max c"
proof -
  let ?n = "node_new c"
  have n: "n_role ?n \<noteq> Leader" "sole_voter ?n" "n_election_elapsed ?n = 0" "n_current_term ?n = 0"
    "n_id ?n = cfg_id c" "n_commit_index ?n = 0" "n_last_applied ?n = 0" "ml_entries (n_log ?n) = []"
    "ml_base_index (n_log ?n) = 0"
    using c(2)
    by (simp_all add: node_new_def node_with_log_def Let_def case_prod_unfold sole_voter_def sorted_members_def
        ml_new_def ml_last_index_def ml_hard_state_def hard_state_default_def ml_get_snapshot_def
        ml_snapshot_index_def latest_config.simps)
  have t: "cfg_election_timeout_min c \<le> n_election_timeout ?n" "n_election_timeout ?n \<le> cfg_election_timeout_max c"
    "0 < n_election_timeout ?n"
  proof -
    have le: "1 \<le> cfg_election_timeout_min c" "cfg_election_timeout_min c \<le> cfg_election_timeout_max c"
      using c(1) by (simp_all add: config_wf_def)
    have e: "n_election_timeout ?n = fst (gen_range (rng_new (cfg_seed c)) (cfg_election_timeout_min c) (cfg_election_timeout_max c))"
      by (simp add: node_new_def node_with_log_def Let_def case_prod_unfold)
    show "cfg_election_timeout_min c \<le> n_election_timeout ?n" "n_election_timeout ?n \<le> cfg_election_timeout_max c"
      using gen_range_bounds[OF le(2)] by (simp_all add: e)
    then show "0 < n_election_timeout ?n" using le(1) by (simp add: word_le_nat_alt word_less_nat_alt)
  qed
  obtain n1 where n1: "sole_elect ?n = Some (n1, n_election_timeout ?n)" "elected ?n n1"
    "n_commit_index n1 = 0" "n_last_applied n1 = 0"
    using sole_voter_elected[OF n(1,2)] n t(3) by (auto simp: ml_last_zero)
  then have "serving 0 n1" using n by (simp add: serving_def elected_def sole_voter_def)
  from proposals_served[OF this, of commands "[]"] len obtain n2 where n2:
    "for_each sole_propose commands (n1, []) = Some (n2,
       zip (map word_of_nat [1..<length commands + 1]) (map from_utf8_lossy commands))"
    "serving (length commands) n2" by auto
  show ?thesis
    using n1 n2 n t by (intro exI[of _ "n_election_timeout ?n"])
      (simp add: sole_run_def elected_def serving_def get_id_def get_term_def get_commit_index_def)
qed

theorem single_node_serves_witness:
  "\<exists>ticks. sole_run (config_single 1) [[120], [121]] = Some
      \<lparr>sr_id = 1, sr_term = 1, sr_ticks = ticks,
       sr_applied = [(1, [120]), (2, [121])], sr_commit = 2\<rparr>"
proof -
  have c: "config_wf (config_single 1)" "cfg_peers (config_single 1) = []" "cfg_id (config_single 1) = 1"
    by (simp_all add: config_single_def config_wf_new) (simp_all add: config_new_def)
  have t: "map from_utf8_lossy [[120], [121]] = [[120], [121]]" by code_simp
  show ?thesis using single_node_serves[OF c(1,2), of "[[120], [121]]"] c(3) unfolding t by (auto simp: upt_rec)
qed

lemma sole_main_returns:
  "map_option sr_applied sole_main =
     Some [(1, ascii ''set x = 1''), (2, ascii ''set y = 2''), (3, ascii ''delete x'')]"
  by code_simp

end
