(* ===== verification/Partition_Recovery.thy ===== *)
theory Partition_Recovery
  imports Harness Kv_Text
begin

text \<open>
  \<^verbatim>\<open>examples/partition_recovery.rs\<close>: the cluster of \<^verbatim>\<open>Replicated_Log\<close> with a switch that cuts
  it in two, and a count of what each node applies. Here a message for an id beyond the vector
  is a panic. \<open>None\<close> is a panic, or not returning.
\<close>

record pt_cluster =
  pt_nodes :: "node list"
  pt_mailboxes :: "message list list"
  pt_applied :: "u64 list"
  pt_side :: "bool list option"

definition pt_new :: "nat \<Rightarrow> pt_cluster" where
  "pt_new n =
     (let ids = map word_of_nat [0..<n]
      in \<lparr>pt_nodes = map (\<lambda>i. node_new (with_seed (0x4000 + i) (config_new i ids))) ids,
          pt_mailboxes = replicate n [], pt_applied = replicate n 0, pt_side = None\<rparr>)"

definition pt_connected :: "node_id \<Rightarrow> node_id \<Rightarrow> pt_cluster \<Rightarrow> bool option" where
  "pt_connected a b c =
     (case pt_side c of
        None \<Rightarrow> Some True
      | Some side \<Rightarrow>
          (if unat a < length side \<and> unat b < length side
           then Some (side ! unat a = side ! unat b) else None))"

fun pt_absorb :: "node_id \<Rightarrow> nat \<Rightarrow> action list \<Rightarrow> pt_cluster \<Rightarrow> pt_cluster option" where
  "pt_absorb origin i [] c = Some c"
| "pt_absorb origin i (Send to m # acts) c =
     Option.bind (pt_connected origin to c) (\<lambda>linked.
       if linked
       then Option.bind (push_at (unat to) m (pt_mailboxes c)) (\<lambda>boxes.
              pt_absorb origin i acts (c\<lparr>pt_mailboxes := boxes\<rparr>))
       else pt_absorb origin i acts c)"
| "pt_absorb origin i (Apply index t command # acts) c =
     (if i < length (pt_applied c)
      then pt_absorb origin i acts (c\<lparr>pt_applied := (pt_applied c)[i := pt_applied c ! i + 1]\<rparr>)
      else None)"
| "pt_absorb origin i (_ # acts) c = pt_absorb origin i acts c"

text \<open>The bodies of the loops: node \<open>i\<close> handles an event, and its actions are carried out for
  the origin whose id was read before.\<close>

definition pt_step :: "node_id \<Rightarrow> nat \<Rightarrow> event \<Rightarrow> pt_cluster \<Rightarrow> pt_cluster option" where
  "pt_step origin i ev c =
     (if i < length (pt_nodes c)
      then case step ev (pt_nodes c ! i) of
             (n, Inl e) \<Rightarrow> None
           | (n, Inr acts) \<Rightarrow> pt_absorb origin i acts (c\<lparr>pt_nodes := (pt_nodes c)[i := n]\<rparr>)
      else None)"

definition pt_id :: "nat \<Rightarrow> pt_cluster \<Rightarrow> node_id" where
  "pt_id i c = get_id (pt_nodes c ! i)"

definition pt_tick :: "nat \<Rightarrow> pt_cluster \<Rightarrow> pt_cluster option" where
  "pt_tick i c = (if i < length (pt_nodes c) then pt_step (pt_id i c) i Tick c else None)"

definition pt_pop :: "nat \<Rightarrow> pt_cluster \<Rightarrow> (message \<times> pt_cluster) option" where
  "pt_pop i c = map_option (\<lambda>(m, boxes). (m, c\<lparr>pt_mailboxes := boxes\<rparr>)) (pop_at i (pt_mailboxes c))"

definition pt_drain :: "nat \<Rightarrow> pt_cluster \<Rightarrow> pt_cluster option" where
  "pt_drain i c =
     (if i < length (pt_nodes c) \<and> i < length (pt_mailboxes c)
      then while_let (pt_pop i) (\<lambda>m. pt_step (pt_id i c) i (Message m)) c else None)"

definition pt_step_round :: "pt_cluster \<Rightarrow> pt_cluster option" where
  "pt_step_round c =
     Option.bind (for_each pt_tick [0..<length (pt_nodes c)] c) (\<lambda>c.
       for_each pt_drain [0..<length (pt_nodes c)] c)"

definition pt_leader :: "pt_cluster \<Rightarrow> nat option" where
  "pt_leader c = position is_leader (pt_nodes c)"

definition pt_propose :: "str \<Rightarrow> pt_cluster \<Rightarrow> pt_cluster option" where
  "pt_propose command c =
     (case pt_leader c of Some i \<Rightarrow> pt_step (pt_id i c) i (Propose command) c | None \<Rightarrow> Some c)"

text \<open>\<open>main\<close>: the counts during the partition and after it, if the assertion holds that all
  nodes converge.\<close>

definition pt_main :: "(u64 list \<times> u64 list) option" where
  "pt_main =
     Option.bind (until (\<lambda>c. pt_leader c \<noteq> None) pt_step_round (pt_new 5)) (\<lambda>c.
     Option.bind (for_each (\<lambda>_ c. Option.bind (pt_propose (ascii ''during-partition'') c) pt_step_round)
         [0..<40] (c\<lparr>pt_side := Some [False, False, False, True, True]\<rparr>)) (\<lambda>cut.
     Option.bind (for_each (\<lambda>_. pt_step_round) [0..<120] (cut\<lparr>pt_side := None\<rparr>)) (\<lambda>c.
       if pt_applied c \<noteq> []
          \<and> length (filter (\<lambda>a. a = Max (set (pt_applied c))) (pt_applied c)) = 5
       then Some (pt_applied cut, pt_applied c) else None)))"

subsection \<open>Carrying out actions\<close>

text \<open>What the switch lets through, as long as it has a side for every node.\<close>

definition pt_wf :: "pt_cluster \<Rightarrow> bool" where
  "pt_wf c \<longleftrightarrow> (case pt_side c of None \<Rightarrow> True | Some side \<Rightarrow> length side = length (pt_nodes c))"

lemma pt_wf_update [simp]:
  "pt_wf (c\<lparr>pt_mailboxes := boxes\<rparr>) = pt_wf c" "pt_wf (c\<lparr>pt_applied := xs\<rparr>) = pt_wf c"
  "pt_wf (c\<lparr>pt_nodes := (pt_nodes c)[i := n]\<rparr>) = pt_wf c"
  by (simp_all add: pt_wf_def split: option.split)

lemma pt_connected_total:
  assumes "pt_wf c" "unat a < length (pt_nodes c)" "unat b < length (pt_nodes c)"
  shows "\<exists>l. pt_connected a b c = Some l"
  using assms by (auto simp: pt_connected_def pt_wf_def split: option.splits)

lemma pt_absorb_sel:
  assumes "i < length (pt_applied c)" "pt_wf c" "unat origin < length (pt_nodes c)"
    "length (pt_mailboxes c) = length (pt_nodes c)"
    "\<forall>to m. Send to m \<in> set acts \<longrightarrow> unat to < length (pt_nodes c)"
  shows "\<exists>c'. pt_absorb origin i acts c = Some c' \<and> pt_nodes c' = pt_nodes c \<and> pt_side c' = pt_side c
    \<and> length (pt_mailboxes c') = length (pt_mailboxes c)
    \<and> pt_applied c' = (pt_applied c)[i := pt_applied c ! i + word_of_nat (length (applied_commands acts))]
    \<and> (length (pt_mailboxes c) \<le> 2 ^ 64 \<longrightarrow> (\<forall>j < length (pt_mailboxes c). \<exists>ms.
         pt_mailboxes c' ! j = pt_mailboxes c ! j @ ms \<and> set ms \<subseteq> set (mail_for (word_of_nat j) acts)))"
  using assms
proof (induction acts arbitrary: c)
  case (Cons a acts)
  show ?case
  proof (cases a)
    case (Send to m)
    obtain l where l: "pt_connected origin to c = Some l"
      using pt_connected_total[OF Cons.prems(2,3), of to] Cons.prems(5) Send by auto
    define c1 where "c1 = (if l then c\<lparr>pt_mailboxes :=
        (pt_mailboxes c)[unat to := pt_mailboxes c ! unat to @ [m]]\<rparr> else c)"
    have to: "unat to < length (pt_mailboxes c)" using Cons.prems(4,5) Send by auto
    have c1: "pt_nodes c1 = pt_nodes c" "length (pt_mailboxes c1) = length (pt_mailboxes c)"
      "pt_applied c1 = pt_applied c" "pt_side c1 = pt_side c" "pt_wf c1"
      using Cons.prems(2) by (auto simp: c1_def)
    have box: "\<exists>ms. pt_mailboxes c1 ! j = pt_mailboxes c ! j @ ms \<and> set ms \<subseteq> (if to = word_of_nat j then {m} else {})"
      if "length (pt_mailboxes c) \<le> 2 ^ 64" "j < length (pt_mailboxes c)" for j
      using that to by (auto simp: c1_def nth_list_update unat_vec)
    have rest: "\<forall>to m. Send to m \<in> set acts \<longrightarrow> unat to < length (pt_nodes c)"
      using Cons.prems(5) by simp
    obtain c' where c': "pt_absorb origin i acts c1 = Some c'" "pt_nodes c' = pt_nodes c1" "pt_side c' = pt_side c1"
      "length (pt_mailboxes c') = length (pt_mailboxes c1)"
      "pt_applied c' = (pt_applied c1)[i := pt_applied c1 ! i + word_of_nat (length (applied_commands acts))]"
      "length (pt_mailboxes c1) \<le> 2 ^ 64 \<Longrightarrow> j < length (pt_mailboxes c1) \<Longrightarrow> \<exists>ms.
         pt_mailboxes c' ! j = pt_mailboxes c1 ! j @ ms \<and> set ms \<subseteq> set (mail_for (word_of_nat j) acts)" for j
      using Cons.IH[of c1] Cons.prems(1-4) rest c1 by auto
    have "\<exists>ms. pt_mailboxes c' ! j = pt_mailboxes c ! j @ ms \<and> set ms \<subseteq> set (mail_for (word_of_nat j) (a # acts))"
      if j: "length (pt_mailboxes c) \<le> 2 ^ 64" "j < length (pt_mailboxes c)" for j
    proof -
      obtain m1 where m1: "pt_mailboxes c1 ! j = pt_mailboxes c ! j @ m1" "set m1 \<subseteq> (if to = word_of_nat j then {m} else {})"
        using box[OF j] by blast
      obtain m2 where m2: "pt_mailboxes c' ! j = pt_mailboxes c1 ! j @ m2" "set m2 \<subseteq> set (mail_for (word_of_nat j) acts)"
        using c'(6)[of j] j c1(2) by auto
      have "set (m1 @ m2) \<subseteq> set (mail_for (word_of_nat j) (a # acts))"
        using m1(2) m2(2) Send by (auto split: if_splits)
      with m1(1) m2(1) show ?thesis by (intro exI[of _ "m1 @ m2"]) simp
    qed
    moreover have "pt_absorb origin i (a # acts) c = pt_absorb origin i acts c1"
      using l to by (simp add: Send c1_def push_at_def)
    ultimately show ?thesis using c' c1 by (intro exI[of _ c']) (simp add: Send)
  next
    case (Apply index t command)
    with Cons.IH[of "c\<lparr>pt_applied := (pt_applied c)[i := pt_applied c ! i + 1]\<rparr>"] Cons.prems
    show ?thesis by (auto simp: add.assoc)
  qed (use Cons in auto)
qed auto

subsection \<open>The program's runs are runs of the cluster\<close>

text \<open>A node's count is the index of what it has applied last: a dropped message is a lost one,
  and what is left of the program is the cluster.\<close>

definition pt_config :: "nat \<Rightarrow> node_id \<Rightarrow> raft_config" where
  "pt_config k i = with_seed (0x4000 + i) (config_new i (map word_of_nat [0..<k]))"

definition pt_backed :: "nat \<Rightarrow> nat \<Rightarrow> pt_cluster \<Rightarrow> cluster \<Rightarrow> bool" where
  "pt_backed B T s c \<longleftrightarrow>
     vec_backed no_snapshots T B (pt_config (length (pt_nodes s))) (pt_nodes s) (pt_mailboxes s) c
   \<and> length (pt_applied s) = length (pt_nodes s) \<and> pt_wf s
   \<and> (\<forall>i < length (pt_nodes s). pt_applied s ! i = n_last_applied (pt_nodes s ! i))"

definition pt_sound :: "nat \<Rightarrow> nat \<Rightarrow> pt_cluster \<Rightarrow> bool" where
  "pt_sound B T s \<longleftrightarrow> (\<exists>c. pt_backed B T s c)"

lemma pt_backedD:
  assumes "pt_backed B T s c"
  shows "vec_backed no_snapshots T B (pt_config (length (pt_nodes s))) (pt_nodes s) (pt_mailboxes s) c"
    "length (pt_applied s) = length (pt_nodes s)" "length (pt_mailboxes s) = length (pt_nodes s)"
    "length (pt_nodes s) \<le> 2 ^ 64" "pt_wf s"
    "i < length (pt_nodes s) \<Longrightarrow> pt_applied s ! i = n_last_applied (pt_nodes s ! i)"
    "i < length (pt_nodes s) \<Longrightarrow> pt_id i s = word_of_nat i"
proof -
  show v: "vec_backed no_snapshots T B (pt_config (length (pt_nodes s))) (pt_nodes s) (pt_mailboxes s) c"
    and "length (pt_applied s) = length (pt_nodes s)" "length (pt_mailboxes s) = length (pt_nodes s)"
    "length (pt_nodes s) \<le> 2 ^ 64" "pt_wf s"
    "i < length (pt_nodes s) \<Longrightarrow> pt_applied s ! i = n_last_applied (pt_nodes s ! i)"
    using assms by (simp_all add: pt_backed_def vec_backed_def)
  show "pt_id i s = word_of_nat i" if "i < length (pt_nodes s)"
    using steadyD(6)[OF vec_steady[OF v] vec_in(1)[OF v that]] vec_in(2)[OF v that]
    by (simp add: mailed_def settling_def pt_id_def get_id_def)
qed

lemma pt_step_sound:
  assumes b: "pt_backed B T s c" and i: "i < length (pt_nodes s)"
    and v: "vec_served no_snapshots T' B' (pt_config (length (pt_nodes s))) (pt_nodes s) (pt_mailboxes s) c i ev n acts"
    and ev: "may_occur c (word_of_nat i) ev" "drives ev"
  shows "\<exists>s'. pt_step (word_of_nat i) i ev s = Some s' \<and> pt_sound B' T' s' \<and> length (pt_nodes s') = length (pt_nodes s)
    \<and> pt_mailboxes s' ! i = pt_mailboxes s ! i"
proof -
  note D = vec_servedD[OF v] and R = pt_backedD[OF b]
  let ?s = "s\<lparr>pt_nodes := (pt_nodes s)[i := n]\<rparr>" and ?c = "absorb c (word_of_nat i) n acts"
  have u: "unat (word_of_nat i :: u64) = i" by (rule unat_vec[OF i R(4)])
  have pre: "i < length (pt_applied ?s)" "pt_wf ?s" "unat (word_of_nat i :: u64) < length (pt_nodes ?s)"
    "length (pt_mailboxes ?s) = length (pt_nodes ?s)" "\<forall>to m. Send to m \<in> set acts \<longrightarrow> unat to < length (pt_nodes ?s)"
    using R(2,3,5) i D(3) u by auto
  from pt_absorb_sel[where acts = acts, OF pre] obtain s' where s': "pt_absorb (word_of_nat i) i acts ?s = Some s'"
    "pt_nodes s' = (pt_nodes s)[i := n]" "pt_side s' = pt_side s" "length (pt_mailboxes s') = length (pt_mailboxes s)"
    "pt_applied s' = (pt_applied s)[i := pt_applied s ! i + word_of_nat (length (applied_commands acts))]"
    "\<And>j. j < length (pt_mailboxes s) \<Longrightarrow> \<exists>ms.
       pt_mailboxes s' ! j = pt_mailboxes s ! j @ ms \<and> set ms \<subseteq> set (mail_for (word_of_nat j) acts)"
    using R(3,4) by auto
  have vb: "vec_backed no_snapshots T' B' (pt_config (length (pt_nodes s))) ((pt_nodes s)[i := n]) (pt_mailboxes s') ?c"
    by (rule D(5)) (use s'(4,6) in \<open>fastforce simp: set_mail_for\<close>)+
  have iv: "word_of_nat i \<in> set (vec_members (length (pt_nodes s)))" by (rule vec_in(1)[OF R(1) i])
  have "step ev (c_node c (word_of_nat i)) = (n, Inr acts)" using D(1,2) by simp
  note ord = served_in_order[OF vec_steady[OF R(1)] vec_steady[OF vb, simplified] iv this ev(1) ev(2)[unfolded drives_def]]
  have "pt_applied s ! i + word_of_nat (length (applied_commands acts)) = n_last_applied n"
  proof -
    have "length (applied_commands acts) = unat (n_last_applied n) - unat (n_last_applied (pt_nodes s ! i))"
      using ord(1) D(2) applied_length[of acts] by (simp del: upt_Suc)
    also have "\<dots> = unat (n_last_applied n - n_last_applied (pt_nodes s ! i))"
      using ord(2) D(2) by (simp add: unat_minus_le)
    finally have "word_of_nat (length (applied_commands acts)) = n_last_applied n - n_last_applied (pt_nodes s ! i)"
      by simp
    then show ?thesis using R(6)[OF i] by simp
  qed
  with vb i s'(2,3,5) R(2,5,6) have "pt_backed B' T' s' ?c"
    by (auto simp: pt_backed_def pt_wf_def nth_list_update split: option.splits)
  moreover have "pt_mailboxes s' ! i = pt_mailboxes s ! i" using s'(6)[of i] D(6)[OF i R(4)] i R(3) by auto
  ultimately show ?thesis using D(1) i s'(1,2) by (auto simp: pt_step_def pt_sound_def)
qed

interpretation pt: driver pt_tick pt_id "\<lambda>_. pt_pop" "\<lambda>origin i m. pt_step origin i (Message m)" pt_drain
  "\<lambda>s. length (pt_nodes s)" "\<lambda>i s. length (pt_mailboxes s ! i)" "pt_sound B" for B
proof (unfold_locales, goal_cases)
  case (1 T s i)
  then obtain c where c: "pt_backed B T s c" by (auto simp: pt_sound_def)
  obtain n acts where
    "vec_served no_snapshots (T + 1) B (pt_config (length (pt_nodes s))) (pt_nodes s) (pt_mailboxes s) c i Tick n acts"
    using vec_tick[OF pt_backedD(1)[OF c] 1(2,3)] by blast
  from pt_step_sound[OF c 1(2) this] 1(2) pt_backedD(7)[OF c 1(2)] show ?case
    by (auto simp: may_occur_def drives_def pt_tick_def)
next
  case (2 T s i m s')
  then obtain c where c: "pt_backed B T s c" by (auto simp: pt_sound_def)
  note R = pt_backedD[OF c]
  obtain boxes where p: "pop_at i (pt_mailboxes s) = Some (m, boxes)" "s' = s\<lparr>pt_mailboxes := boxes\<rparr>"
    using 2(3) by (auto simp: pt_pop_def)
  have i: "i < length (pt_mailboxes s)" using 2(2) R(3) by simp
  note v = vec_pop[OF R(1) 2(2) p(1)]
  have c': "pt_backed B T s' c" using v R(2,5,6) by (simp add: pt_backed_def p(2))
  obtain n acts where
    "vec_served no_snapshots T B (pt_config (length (pt_nodes s))) (pt_nodes s) boxes c i (Message m) n acts"
    using vec_message[OF conjunct1[OF v] 2(2) conjunct2[OF v]] by blast
  then have "\<exists>s''. pt_step (word_of_nat i) i (Message m) s' = Some s'' \<and> pt_sound B T s''
      \<and> length (pt_nodes s'') = length (pt_nodes s') \<and> pt_mailboxes s'' ! i = pt_mailboxes s' ! i"
    using 2(2) v by (intro pt_step_sound[OF c']) (simp_all add: p(2) may_occur_def drives_def)
  then obtain s'' where s'': "pt_step (word_of_nat i) i (Message m) s' = Some s''" "pt_sound B T s''"
    "length (pt_nodes s'') = length (pt_nodes s)" "pt_mailboxes s'' ! i = boxes ! i"
    using p(2) by auto
  moreover have "pt_id i s'' = word_of_nat i" using s''(2,3) 2(2) by (auto simp: pt_sound_def dest: pt_backedD(7))
  ultimately show ?case using pop_at_Some(1)[OF p(1) i] R(7)[OF 2(2)] by simp
next
  case (3 T s i)
  then have "length (pt_mailboxes s) = length (pt_nodes s)" by (auto simp: pt_sound_def dest: pt_backedD(3))
  with 3(2) show ?case by (simp add: pt_drain_def)
qed

lemma pt_propose_returns:
  assumes "pt_sound B T s" "B + 1 < 2 ^ 63 - 1"
  shows "\<exists>s'. pt_propose x s = Some s' \<and> pt_sound (B + 1) T s' \<and> length (pt_nodes s') = length (pt_nodes s)"
proof -
  obtain c where c: "pt_backed B T s c" using assms(1) by (auto simp: pt_sound_def)
  show ?thesis
  proof (cases "pt_leader s")
    case None
    with c vec_backed_mono[OF pt_backedD(1)[OF c] assms(2)] show ?thesis
      by (auto simp: pt_propose_def pt_sound_def pt_backed_def)
  next
    case (Some i)
    then have i: "i < length (pt_nodes s)" "is_leader (pt_nodes s ! i)"
      using position_Some[of is_leader "pt_nodes s" i] by (simp_all add: pt_leader_def)
    obtain n acts where "vec_served no_snapshots T (B + 1) (pt_config (length (pt_nodes s))) (pt_nodes s) (pt_mailboxes s)
        c i (Propose x) n acts"
      using vec_propose[OF pt_backedD(1)[OF c] i assms(2)] any_policy by blast
    from pt_step_sound[OF c i(1) this] Some pt_backedD(7)[OF c i(1)] show ?thesis
      by (auto simp: pt_propose_def may_occur_def drives_def)
  qed
qed

lemma pt_new_sound:
  assumes k: "k \<le> 2 ^ 64"
  shows "pt_sound 0 0 (pt_new k)"
proof -
  have v: "vec_backed no_snapshots 0 0 (pt_config k) (map (\<lambda>i. node_new (pt_config k i)) (map word_of_nat [0..<k]))
      (replicate k []) (cluster_init (pt_config k))"
    by (rule vec_init[OF _ _ k]) (simp_all add: pt_config_def with_seed_def config_new_def)
  have "n_last_applied (node_new (pt_config k i)) = 0" for i
    by (simp add: node_new_def ml_new_def)
  with v have "pt_backed 0 0 (pt_new k) (cluster_init (pt_config k))"
    by (simp add: pt_backed_def pt_new_def Let_def pt_wf_def pt_config_def comp_def)
  then show ?thesis by (auto simp: pt_sound_def)
qed

subsection \<open>Scripts\<close>

text \<open>What \<open>main\<close> does, in any order: rounds, proposals, and setting the switch.\<close>

datatype pt_call = Turn | Submit str | Switch "bool list option"

fun pt_perform :: "pt_call \<Rightarrow> pt_cluster \<Rightarrow> pt_cluster option" where
  "pt_perform Turn c = pt_step_round c"
| "pt_perform (Submit x) c = pt_propose x c"
| "pt_perform (Switch side) c = Some (c\<lparr>pt_side := side\<rparr>)"

definition pt_run :: "pt_call list \<Rightarrow> pt_cluster \<Rightarrow> pt_cluster option" where
  "pt_run calls c = for_each pt_perform calls c"

definition submits :: "pt_call \<Rightarrow> bool" where
  "submits x \<longleftrightarrow> (case x of Submit _ \<Rightarrow> True | _ \<Rightarrow> False)"

text \<open>A switch needs a side for every node.\<close>

definition sides_for :: "nat \<Rightarrow> pt_call \<Rightarrow> bool" where
  "sides_for k x \<longleftrightarrow> (case x of Switch (Some side) \<Rightarrow> length side = k | _ \<Rightarrow> True)"

interpretation pts: scripted pt_perform submits sides_for "\<lambda>s. length (pt_nodes s)" pt_sound
proof (unfold_locales, goal_cases)
  case (1 B T s x)
  show ?case
  proof (cases x)
    case Turn
    with pt.round_returns[OF 1(1,3)] show ?thesis
      by (auto simp: submits_def pt_step_round_def intro!: exI[of _ "T + length (pt_nodes s)"])
  next
    case (Submit y)
    with 1(4) pt_propose_returns[OF 1(1), of y] show ?thesis
      by (auto simp: submits_def intro!: exI[of _ T])
  next
    case (Switch side)
    with 1(1,2) show ?thesis
      by (auto simp: submits_def sides_for_def pt_sound_def pt_backed_def pt_wf_def intro!: exI[of _ T] split: option.splits)
  qed
qed

text \<open>
  C10: The partition program returns from every script of rounds, proposals, cuts and repairs:
  no step of a node fails, no index is out of range and every mailbox drains; and every node's
  count is the index it has applied last, so the counts the final assertion compares tell how
  far along the one agreed log each node is.
\<close>

theorem partition_returns:
  assumes "k \<le> 2 ^ 64" "k * length calls < 2 ^ 64 - 1" "length (filter submits calls) < 2 ^ 63 - 1"
    and "\<forall>x \<in> set calls. sides_for k x"
  shows "\<exists>s. pt_run calls (pt_new k) = Some s \<and> length (pt_nodes s) = k
    \<and> pt_applied s = map get_last_applied (pt_nodes s)"
proof -
  have "length (pt_nodes (pt_new k)) = k" by (simp add: pt_new_def Let_def)
  with pts.script_returns[OF pt_new_sound[OF assms(1)], of calls] assms(2-4) obtain s T where s:
    "pt_run calls (pt_new k) = Some s" "pt_sound (length (filter submits calls)) T s" "length (pt_nodes s) = k"
    by (auto simp: pt_run_def)
  then obtain c where "pt_backed (length (filter submits calls)) T s c" by (auto simp: pt_sound_def)
  then have "pt_applied s = map get_last_applied (pt_nodes s)"
    by (intro nth_equalityI) (simp_all add: pt_backed_def get_last_applied_def)
  with s show ?thesis by blast
qed

theorem partition_returns_witness:
  "\<exists>s. pt_run [Turn, Switch (Some [False, True, True]), Submit [120], Turn, Switch None, Turn] (pt_new 3) = Some s
     \<and> length (pt_nodes s) = 3 \<and> pt_applied s = map get_last_applied (pt_nodes s)"
  by (rule partition_returns) (simp_all add: submits_def sides_for_def)

end
