(* ===== verification/Snapshot_Catchup.thy ===== *)
theory Snapshot_Catchup
  imports Harness Kv_Text
begin

text \<open>
  \<^verbatim>\<open>examples/snapshot_catchup.rs\<close>: a cluster whose nodes compact their logs, with the switch of
  \<^verbatim>\<open>Partition_Recovery\<close>. The program answers a snapshot hint with a snapshot at once, while it
  carries out the actions. \<open>None\<close> is a panic, or not returning.
\<close>

record sc_cluster =
  sc_nodes :: "node list"
  sc_mailboxes :: "message list list"
  sc_applied :: "u64 list"
  sc_restored :: "bool list"
  sc_side :: "bool list option"

definition sc_config :: "u64 \<Rightarrow> nat \<Rightarrow> node_id \<Rightarrow> raft_config" where
  "sc_config snapshot_threshold n i =
     with_seed (0xA000 + i) (with_snapshot_threshold snapshot_threshold (with_max_batch 4
       (config_new i (map word_of_nat [0..<n]))))"

definition sc_new :: "nat \<Rightarrow> u64 \<Rightarrow> sc_cluster" where
  "sc_new n snapshot_threshold =
     \<lparr>sc_nodes = map (\<lambda>i. node_new (sc_config snapshot_threshold n i)) (map word_of_nat [0..<n]),
      sc_mailboxes = replicate n [], sc_applied = replicate n 0, sc_restored = replicate n False,
      sc_side = None\<rparr>"

definition sc_connected :: "node_id \<Rightarrow> node_id \<Rightarrow> sc_cluster \<Rightarrow> bool option" where
  "sc_connected a b c =
     (case sc_side c of
        None \<Rightarrow> Some True
      | Some side \<Rightarrow>
          (if unat a < length side \<and> unat b < length side
           then Some (side ! unat a = side ! unat b) else None))"

text \<open>\<open>absorb\<close> reads the node's id and then carries out the actions; \<open>index.to_be_bytes()\<close> is the
  little-endian form reversed.\<close>

function sc_carry :: "node_id \<Rightarrow> nat \<Rightarrow> action list \<Rightarrow> sc_cluster \<Rightarrow> sc_cluster option" where
  "sc_carry origin i [] c = Some c"
| "sc_carry origin i (Send to m # acts) c =
     Option.bind (sc_connected origin to c) (\<lambda>linked.
       if linked
       then Option.bind (push_at (unat to) m (sc_mailboxes c)) (\<lambda>boxes.
              sc_carry origin i acts (c\<lparr>sc_mailboxes := boxes\<rparr>))
       else sc_carry origin i acts c)"
| "sc_carry origin i (Apply index t command # acts) c =
     (if i < length (sc_applied c)
      then sc_carry origin i acts (c\<lparr>sc_applied := (sc_applied c)[i := index]\<rparr>) else None)"
| "sc_carry origin i (SnapshotHint index t # acts) c =
     (if i < length (sc_nodes c)
      then case step (SnapshotEvent index (rev (to_le_bytes index))) (sc_nodes c ! i) of
             (n, Inl e) \<Rightarrow> None
           | (n, Inr reply) \<Rightarrow>
               Option.bind (sc_carry (get_id n) i reply (c\<lparr>sc_nodes := (sc_nodes c)[i := n]\<rparr>))
                 (sc_carry origin i acts)
      else None)"
| "sc_carry origin i (RestoreSnapshot index t data # acts) c =
     (if i < length (sc_applied c) \<and> i < length (sc_restored c)
      then sc_carry origin i acts (c\<lparr>sc_applied := (sc_applied c)[i := index],
             sc_restored := (sc_restored c)[i := True]\<rparr>)
      else None)"
| "sc_carry origin i (MembershipChanged ms # acts) c = sc_carry origin i acts c"
  by pat_completeness auto
termination
  by (relation "measures [\<lambda>(origin, i, acts, c). length (filter is_hint acts),
      \<lambda>(origin, i, acts, c). length acts]") (auto simp: snapshot_reply_no_hint)

definition sc_absorb :: "nat \<Rightarrow> action list \<Rightarrow> sc_cluster \<Rightarrow> sc_cluster option" where
  "sc_absorb i acts c =
     (if i < length (sc_nodes c) then sc_carry (get_id (sc_nodes c ! i)) i acts c else None)"

definition sc_step :: "nat \<Rightarrow> event \<Rightarrow> sc_cluster \<Rightarrow> sc_cluster option" where
  "sc_step i ev c =
     (if i < length (sc_nodes c)
      then case step ev (sc_nodes c ! i) of
             (n, Inl e) \<Rightarrow> None
           | (n, Inr acts) \<Rightarrow> sc_absorb i acts (c\<lparr>sc_nodes := (sc_nodes c)[i := n]\<rparr>)
      else None)"

definition sc_pop :: "nat \<Rightarrow> sc_cluster \<Rightarrow> (message \<times> sc_cluster) option" where
  "sc_pop i c = map_option (\<lambda>(m, boxes). (m, c\<lparr>sc_mailboxes := boxes\<rparr>)) (pop_at i (sc_mailboxes c))"

definition sc_drain :: "nat \<Rightarrow> sc_cluster \<Rightarrow> sc_cluster option" where
  "sc_drain i c =
     (if i < length (sc_mailboxes c) then while_let (sc_pop i) (\<lambda>m. sc_step i (Message m)) c else None)"

definition sc_step_round :: "sc_cluster \<Rightarrow> sc_cluster option" where
  "sc_step_round c =
     Option.bind (for_each (\<lambda>i. sc_step i Tick) [0..<length (sc_nodes c)] c) (\<lambda>c.
       for_each sc_drain [0..<length (sc_nodes c)] c)"

definition sc_leader :: "sc_cluster \<Rightarrow> nat option" where
  "sc_leader c = position is_leader (sc_nodes c)"

definition sc_propose :: "str \<Rightarrow> sc_cluster \<Rightarrow> sc_cluster option" where
  "sc_propose command c =
     (case sc_leader c of Some i \<Rightarrow> sc_step i (Propose command) c | None \<Rightarrow> Some c)"

text \<open>\<open>main\<close>: the boundary of the compacted logs during the partition, and what all have applied in
  the end, if the two assertions hold.\<close>

definition sc_main :: "(raft_index \<times> u64 list) option" where
  "sc_main =
     Option.bind (until (\<lambda>c. sc_leader c \<noteq> None) sc_step_round (sc_new 3 8)) (\<lambda>c.
     Option.bind (sc_leader c) (\<lambda>ld.
     Option.bind (for_each (\<lambda>k c. Option.bind
           (sc_propose (ascii (''entry-'' @ decimal (word_of_nat k))) c) sc_step_round)
         [0..<60] (c\<lparr>sc_side := Some [False, False, True]\<rparr>)) (\<lambda>cut.
     Option.bind (for_each (\<lambda>_. sc_step_round) [0..<120] (cut\<lparr>sc_side := None\<rparr>)) (\<lambda>c.
       if sc_restored c ! 2 \<and> sc_applied c ! 2 = get_commit_index (sc_nodes c ! ld)
       then Some (Max (set (map (\<lambda>i. ml_snapshot_index (get_log (sc_nodes cut ! i))) [0..<3])), sc_applied c)
       else None))))"

subsection \<open>The program's runs are runs of the cluster\<close>

definition sc_wf :: "sc_cluster \<Rightarrow> bool" where
  "sc_wf s \<longleftrightarrow> length (sc_applied s) = length (sc_nodes s) \<and> length (sc_restored s) = length (sc_nodes s)
     \<and> (case sc_side s of None \<Rightarrow> True | Some side \<Rightarrow> length side = length (sc_nodes s))"

lemma sc_wf_update [simp]:
  "sc_wf (s\<lparr>sc_mailboxes := boxes\<rparr>) = sc_wf s" "sc_wf (s\<lparr>sc_nodes := (sc_nodes s)[i := n]\<rparr>) = sc_wf s"
  "sc_wf (s\<lparr>sc_applied := (sc_applied s)[i := x]\<rparr>) = sc_wf s"
  "sc_wf (s\<lparr>sc_applied := (sc_applied s)[i := x], sc_restored := (sc_restored s)[i := b]\<rparr>) = sc_wf s"
  by (simp_all add: sc_wf_def split: option.split)

text \<open>\<open>thr\<close> is the snapshot threshold all nodes are configured with. No node has compacted what
  it has not applied.\<close>

definition sc_compact :: "sc_cluster \<Rightarrow> bool" where
  "sc_compact s \<longleftrightarrow> (\<forall>n \<in> set (sc_nodes s). ml_base_index (n_log n) \<le> n_last_applied n)"

definition sc_backed :: "u64 \<Rightarrow> nat \<Rightarrow> nat \<Rightarrow> sc_cluster \<Rightarrow> cluster \<Rightarrow> bool" where
  "sc_backed thr B T s c \<longleftrightarrow> sc_wf s \<and> sc_compact s
     \<and> vec_backed any_snapshots T B (sc_config thr (length (sc_nodes s))) (sc_nodes s) (sc_mailboxes s) c"

text \<open>What the program records as applied is what each node has applied, except for node \<open>i\<close>
  while its actions are carried out.\<close>

definition sc_level :: "nat \<Rightarrow> u64 \<Rightarrow> sc_cluster \<Rightarrow> bool" where
  "sc_level i a s \<longleftrightarrow> sc_applied s = (map n_last_applied (sc_nodes s))[i := a]"

definition sc_sound :: "u64 \<Rightarrow> nat \<Rightarrow> nat \<Rightarrow> sc_cluster \<Rightarrow> bool" where
  "sc_sound thr B T s \<longleftrightarrow> (\<exists>c. sc_backed thr B T s c) \<and> sc_applied s = map n_last_applied (sc_nodes s)"

lemma sc_compact_update [simp]:
  "sc_compact (s\<lparr>sc_mailboxes := boxes\<rparr>) = sc_compact s" "sc_compact (s\<lparr>sc_applied := xs\<rparr>) = sc_compact s"
  "sc_compact (s\<lparr>sc_applied := xs, sc_restored := bs\<rparr>) = sc_compact s" "sc_compact (s\<lparr>sc_side := side\<rparr>) = sc_compact s"
  by (simp_all add: sc_compact_def)

lemma sc_compact_node:
  "sc_compact s \<Longrightarrow> ml_base_index (n_log n) \<le> n_last_applied n \<Longrightarrow> sc_compact (s\<lparr>sc_nodes := (sc_nodes s)[i := n]\<rparr>)"
  by (auto simp: sc_compact_def dest: set_update_subset_insert[THEN subsetD])

lemma sc_compactD: "sc_compact s \<Longrightarrow> i < length (sc_nodes s) \<Longrightarrow>
    ml_base_index (n_log (sc_nodes s ! i)) \<le> n_last_applied (sc_nodes s ! i)"
  by (simp add: sc_compact_def)

lemma sc_level_update [simp]:
  "sc_level i a (s\<lparr>sc_mailboxes := boxes\<rparr>) = sc_level i a s"
  "sc_level i a s \<Longrightarrow> sc_level i x (s\<lparr>sc_applied := (sc_applied s)[i := x]\<rparr>)"
  "sc_level i a s \<Longrightarrow> sc_level i x (s\<lparr>sc_applied := (sc_applied s)[i := x], sc_restored := bs\<rparr>)"
  "sc_level i a s \<Longrightarrow> sc_level i a (s\<lparr>sc_nodes := (sc_nodes s)[i := n]\<rparr>)"
  by (simp_all add: sc_level_def map_update)

lemma sc_backedD:
  assumes "sc_backed thr B T s c"
  shows "vec_backed any_snapshots T B (sc_config thr (length (sc_nodes s))) (sc_nodes s) (sc_mailboxes s) c" "sc_wf s"
    "length (sc_mailboxes s) = length (sc_nodes s)" "length (sc_applied s) = length (sc_nodes s)"
    "length (sc_restored s) = length (sc_nodes s)" "length (sc_nodes s) \<le> 2 ^ 64"
    "i < length (sc_nodes s) \<Longrightarrow> get_id (sc_nodes s ! i) = word_of_nat i" "sc_compact s"
proof -
  show v: "vec_backed any_snapshots T B (sc_config thr (length (sc_nodes s))) (sc_nodes s) (sc_mailboxes s) c" "sc_wf s"
    "length (sc_mailboxes s) = length (sc_nodes s)" "length (sc_applied s) = length (sc_nodes s)"
    "length (sc_restored s) = length (sc_nodes s)" "length (sc_nodes s) \<le> 2 ^ 64" "sc_compact s"
    using assms by (simp_all add: sc_backed_def vec_backed_def sc_wf_def)
  show "get_id (sc_nodes s ! i) = word_of_nat i" if "i < length (sc_nodes s)"
    using steadyD(6)[OF vec_steady[OF v(1)] vec_in(1)[OF v(1) that]] vec_in(2)[OF v(1) that]
    by (simp add: mailed_def settling_def get_id_def)
qed

text \<open>Carrying out actions takes what is recorded from \<open>a\<close> to \<open>b\<close>.\<close>

definition sc_carried :: "u64 \<Rightarrow> nat \<Rightarrow> nat \<Rightarrow> nat \<Rightarrow> nat \<Rightarrow> sc_cluster \<Rightarrow> cluster \<Rightarrow> sc_cluster \<Rightarrow> cluster \<Rightarrow> bool" where
  "sc_carried thr B T i b s c s' c' \<longleftrightarrow> sc_backed thr B T s' c' \<and> sc_level i (word_of_nat b) s'
     \<and> c_net c \<subseteq> c_net c' \<and> c_applied c \<subseteq> c_applied c'
     \<and> map n_last_applied (sc_nodes s') = map n_last_applied (sc_nodes s) \<and> sc_mailboxes s' ! i = sc_mailboxes s ! i"

lemma sc_carried_length: "sc_carried thr B T i b s c s' c' \<Longrightarrow> length (sc_nodes s') = length (sc_nodes s)"
  unfolding sc_carried_def by (metis length_map)

lemma sc_carry_sound:
  assumes "sc_backed thr B T s c" "pending (length (sc_nodes s)) i c acts" "i < length (sc_nodes s)"
    "unat origin < length (sc_nodes s)" "sc_level i (word_of_nat a) s" "tells any_snapshots c a acts b"
  shows "\<exists>s' c'. sc_carry origin i acts s = Some s' \<and> sc_carried thr B T i b s c s' c'"
  using assms
proof (induction origin i acts s arbitrary: c a b rule: sc_carry.induct)
  case (1 origin i s)
  then show ?case by (auto simp: sc_carried_def)
next
  case (2 origin i to m acts s)
  note R = sc_backedD[OF "2.prems"(1)]
  have "\<exists>l. sc_connected origin to s = Some l"
    using "2.prems"(2,4) R(2) by (auto simp: sc_connected_def sc_wf_def split: option.splits)
  then obtain l where l: "sc_connected origin to s = Some l" ..
  show ?case
  proof (cases l)
    case True
    let ?boxes = "(sc_mailboxes s)[unat to := sc_mailboxes s ! unat to @ [m]]"
    have p: "push_at (unat to) m (sc_mailboxes s) = Some ?boxes"
      using "2.prems"(2) R(3) by (simp add: push_at_def)
    have "sc_backed thr B T (s\<lparr>sc_mailboxes := ?boxes\<rparr>) c"
      using R(1,2,8) "2.prems"(2) vec_push[OF R(1), of "unat to" m] by (simp add: sc_backed_def)
    with "2.IH"(1)[OF l True p, of c a b] "2.prems" l True p show ?thesis by (auto simp: sc_carried_def)
  next
    case False
    with "2.IH"(2)[OF l False, of c a b] "2.prems" l show ?thesis by auto
  qed
next
  case (3 origin i index t command acts s)
  note R = sc_backedD[OF "3.prems"(1)]
  have i: "i < length (sc_applied s)" using "3.prems"(3) R(4) by simp
  have "sc_backed thr B T (s\<lparr>sc_applied := (sc_applied s)[i := index]\<rparr>) c"
    using R(1,2,8) by (simp add: sc_backed_def)
  with "3.IH"[OF i, of c "a + 1" b] "3.prems" i show ?case by (auto simp: sc_carried_def)
next
  case (4 origin i index t acts s)
  note R = sc_backedD[OF "4.prems"(1)]
  let ?x = "rev (to_le_bytes index)"
  obtain n reply where v: "vec_served any_snapshots T B (sc_config thr (length (sc_nodes s))) (sc_nodes s) (sc_mailboxes s)
      c i (SnapshotEvent index ?x) n reply"
    using vec_snapshot[OF R(1) "4.prems"(3)] any_policy by blast
  note P = vec_served_pending[OF R(1) "4.prems"(3) v]
  let ?s = "s\<lparr>sc_nodes := (sc_nodes s)[i := n]\<rparr>" and ?c = "absorb c (word_of_nat i) n reply"
  have st: "step (SnapshotEvent index ?x) (sc_nodes s ! i) = (n, Inr reply)" by (rule vec_servedD(1)[OF v])
  note base = snapshot_event_base[OF st sc_compactD[OF R(8) "4.prems"(3)]]
  have b: "sc_backed thr B T ?s ?c" using P(1) R(2) sc_compact_node[OF R(8) conjunct2[OF base]] by (simp add: sc_backed_def)
  have "list_all is_notice reply" using st snapshot_event_answer[of index ?x "sc_nodes s ! i"] by auto
  then have quiet: "tells any_snapshots ?c a reply a" by (rule notices_tell_nothing)
  have "unat (get_id n) < length (sc_nodes ?s)"
    using sc_backedD(7)[OF b, of i] "4.prems"(3) R(6) unat_vec[OF "4.prems"(3) R(6)] by simp
  with "4.IH"(1)[OF "4.prems"(3) st[symmetric] refl b _ _ _ _ quiet] P(2) "4.prems"(3,5) obtain s1 c1 where s1:
    "sc_carry (get_id n) i reply ?s = Some s1" "sc_carried thr B T i a ?s ?c s1 c1" by auto
  note C = s1(2)[unfolded sc_carried_def] and len = sc_carried_length[OF s1(2)]
  have sub: "c_net c \<subseteq> c_net c1" "c_applied c \<subseteq> c_applied c1" using C P(3) by auto
  have "pending (length (sc_nodes s1)) i c1 acts" "tells any_snapshots c1 a acts b"
    using "4.prems"(2,6) len sub pending_mono[of "length (sc_nodes s)" i c acts c1]
      tells_mono[of any_snapshots c a acts b any_snapshots c1] by (simp_all add: allows_def)
  with "4.IH"(2)[OF "4.prems"(3) st[symmetric] refl s1(1), of c1 a b] C len "4.prems"(3,4) obtain s2 c2 where
    s2: "sc_carry origin i acts s1 = Some s2" "sc_carried thr B T i b s1 c1 s2 c2" by auto
  have "map n_last_applied (sc_nodes ?s) = map n_last_applied (sc_nodes s)"
    using base "4.prems"(3) by (simp add: map_update list_update_same_conv)
  with s2(2) C sub have "sc_carried thr B T i b s c s2 c2" by (auto simp: sc_carried_def)
  with "4.prems"(3) st s1(1) s2(1) show ?case by auto
next
  case (5 origin i index t data acts s)
  note R = sc_backedD[OF "5.prems"(1)]
  have i: "i < length (sc_applied s) \<and> i < length (sc_restored s)" using "5.prems"(3) R(4,5) by simp
  have "sc_backed thr B T (s\<lparr>sc_applied := (sc_applied s)[i := index], sc_restored := (sc_restored s)[i := True]\<rparr>) c"
    using R(1,2,8) by (simp add: sc_backed_def)
  with "5.IH"[OF i, of c "unat index" b] "5.prems" i show ?case by (auto simp: sc_carried_def)
qed auto

lemma sc_step_sound:
  assumes b: "sc_backed thr B T s c" "sc_applied s = map n_last_applied (sc_nodes s)" and i: "i < length (sc_nodes s)"
    and v: "vec_served any_snapshots T' B' (sc_config thr (length (sc_nodes s))) (sc_nodes s) (sc_mailboxes s) c i ev n acts"
    and ev: "may_occur c (word_of_nat i) ev" "drives ev"
  shows "\<exists>s'. sc_step i ev s = Some s' \<and> sc_sound thr B' T' s' \<and> length (sc_nodes s') = length (sc_nodes s)
    \<and> sc_mailboxes s' ! i = sc_mailboxes s ! i"
proof -
  note R = sc_backedD[OF b(1)] and P = vec_served_pending[OF sc_backedD(1)[OF b(1)] i v] and D = vec_servedD[OF v]
  let ?s = "s\<lparr>sc_nodes := (sc_nodes s)[i := n]\<rparr>" and ?c = "absorb c (word_of_nat i) n acts"
  have st: "step ev (c_node c (word_of_nat i)) = (n, Inr acts)" using D(1,2) by simp
  have t: "tells any_snapshots ?c (unat (n_last_applied (sc_nodes s ! i))) acts (unat (n_last_applied n))
      \<and> ml_base_index (n_log n) \<le> n_last_applied n"
    using served_tells[OF vec_steady[OF R(1)] vec_steady[OF P(1), simplified] vec_in(1)[OF R(1) i] st ev(1)
      ev(2)[unfolded drives_def]] sc_compactD[OF R(8) i] D(2) by simp
  have b': "sc_backed thr B' T' ?s ?c" using P(1) R(2) sc_compact_node[OF R(8) conjunct2[OF t]] by (simp add: sc_backed_def)
  have lv: "sc_level i (word_of_nat (unat (n_last_applied (sc_nodes s ! i)))) ?s"
    using b(2) i list_update_id[of "map n_last_applied (sc_nodes s)" i] by (simp add: sc_level_def map_update)
  have "unat (get_id n) < length (sc_nodes ?s)"
    using sc_backedD(7)[OF b', of i] i R(6) unat_vec[OF i R(6)] by simp
  with sc_carry_sound[OF b' _ _ _ lv conjunct1[OF t], of "get_id n"] P(2) i obtain s' c' where
    s': "sc_carry (get_id n) i acts ?s = Some s'" "sc_carried thr B' T' i (unat (n_last_applied n)) ?s ?c s' c'" by auto
  have "sc_applied s' = map n_last_applied (sc_nodes s')"
    using s'(2) i by (simp add: sc_carried_def sc_level_def map_update)
  with i D(1) s' sc_carried_length[OF s'(2)] show ?thesis
    by (auto simp: sc_step_def sc_absorb_def sc_sound_def sc_carried_def)
qed

interpretation sc: driver "\<lambda>i. sc_step i Tick" "\<lambda>_ _. ()" "\<lambda>_. sc_pop" "\<lambda>_ i m. sc_step i (Message m)" sc_drain
  "\<lambda>s. length (sc_nodes s)" "\<lambda>i s. length (sc_mailboxes s ! i)" "sc_sound thr B" for thr B
proof (unfold_locales, goal_cases)
  case (1 T s i)
  then obtain c where c: "sc_backed thr B T s c" and ap: "sc_applied s = map n_last_applied (sc_nodes s)"
    by (auto simp: sc_sound_def)
  obtain n acts where
    "vec_served any_snapshots (T + 1) B (sc_config thr (length (sc_nodes s))) (sc_nodes s) (sc_mailboxes s) c i Tick n acts"
    using vec_tick[OF sc_backedD(1)[OF c] 1(2,3)] by blast
  from sc_step_sound[OF c ap 1(2) this] show ?case by (auto simp: may_occur_def drives_def)
next
  case (2 T s i m s')
  then obtain c where c: "sc_backed thr B T s c" and ap: "sc_applied s = map n_last_applied (sc_nodes s)"
    by (auto simp: sc_sound_def)
  note R = sc_backedD[OF c]
  obtain boxes where p: "pop_at i (sc_mailboxes s) = Some (m, boxes)" "s' = s\<lparr>sc_mailboxes := boxes\<rparr>"
    using 2(3) by (auto simp: sc_pop_def)
  have i: "i < length (sc_mailboxes s)" using 2(2) R(3) by simp
  note v = vec_pop[OF R(1) 2(2) p(1)]
  have c': "sc_backed thr B T s' c" using v R(2,8) by (simp add: sc_backed_def p(2))
  have ap': "sc_applied s' = map n_last_applied (sc_nodes s')" using ap by (simp add: p(2))
  obtain n acts where
    "vec_served any_snapshots T B (sc_config thr (length (sc_nodes s))) (sc_nodes s) boxes c i (Message m) n acts"
    using vec_message[OF conjunct1[OF v] 2(2) conjunct2[OF v]] by blast
  then have "\<exists>s''. sc_step i (Message m) s' = Some s'' \<and> sc_sound thr B T s''
      \<and> length (sc_nodes s'') = length (sc_nodes s') \<and> sc_mailboxes s'' ! i = sc_mailboxes s' ! i"
    using 2(2) v by (intro sc_step_sound[OF c' ap']) (simp_all add: p(2) may_occur_def drives_def)
  then show ?case using p(2) pop_at_Some(1)[OF p(1) i] by auto
next
  case (3 T s i)
  then have "length (sc_mailboxes s) = length (sc_nodes s)" by (auto simp: sc_sound_def dest: sc_backedD(3))
  with 3(2) show ?case by (simp add: sc_drain_def)
qed

lemma sc_propose_returns:
  assumes "sc_sound thr B T s" "B + 1 < 2 ^ 63 - 1"
  shows "\<exists>s'. sc_propose x s = Some s' \<and> sc_sound thr (B + 1) T s' \<and> length (sc_nodes s') = length (sc_nodes s)"
proof -
  obtain c where c: "sc_backed thr B T s c" and ap: "sc_applied s = map n_last_applied (sc_nodes s)"
    using assms(1) by (auto simp: sc_sound_def)
  show ?thesis
  proof (cases "sc_leader s")
    case None
    with c ap vec_backed_mono[OF sc_backedD(1)[OF c] assms(2)] show ?thesis
      by (auto simp: sc_propose_def sc_sound_def sc_backed_def)
  next
    case (Some i)
    then have i: "i < length (sc_nodes s)" "is_leader (sc_nodes s ! i)"
      using position_Some[of is_leader "sc_nodes s" i] by (simp_all add: sc_leader_def)
    obtain n acts where "vec_served any_snapshots T (B + 1) (sc_config thr (length (sc_nodes s))) (sc_nodes s) (sc_mailboxes s)
        c i (Propose x) n acts"
      using vec_propose[OF sc_backedD(1)[OF c] i assms(2)] any_policy by blast
    from sc_step_sound[OF c ap i(1) this] Some show ?thesis by (auto simp: sc_propose_def may_occur_def drives_def)
  qed
qed

lemma sc_new_sound:
  assumes k: "k \<le> 2 ^ 64"
  shows "sc_sound thr 0 0 (sc_new k thr)"
proof -
  have "vec_backed any_snapshots 0 0 (sc_config thr k) (map (\<lambda>i. node_new (sc_config thr k i)) (map word_of_nat [0..<k]))
      (replicate k []) (cluster_init (sc_config thr k))"
    by (rule vec_init[OF _ _ k])
      (simp_all add: sc_config_def with_seed_def with_snapshot_threshold_def with_max_batch_def config_new_def)
  moreover have "n_last_applied (node_new cfg) = 0 \<and> ml_base_index (n_log (node_new cfg)) = 0" for cfg
    by (simp add: node_new_def node_with_log_def Let_def case_prod_unfold ml_new_def ml_hard_state_def ml_snapshot_index_def)
  ultimately have "sc_backed thr 0 0 (sc_new k thr) (cluster_init (sc_config thr k))
      \<and> sc_applied (sc_new k thr) = map n_last_applied (sc_nodes (sc_new k thr))"
    by (auto simp: sc_backed_def sc_new_def sc_wf_def sc_compact_def comp_def map_replicate_const)
  then show ?thesis by (auto simp: sc_sound_def)
qed

subsection \<open>Scripts\<close>

datatype sc_call = Go | Offer str | Cut "bool list option"

fun sc_perform :: "sc_call \<Rightarrow> sc_cluster \<Rightarrow> sc_cluster option" where
  "sc_perform Go c = sc_step_round c"
| "sc_perform (Offer x) c = sc_propose x c"
| "sc_perform (Cut side) c = Some (c\<lparr>sc_side := side\<rparr>)"

definition sc_run :: "sc_call list \<Rightarrow> sc_cluster \<Rightarrow> sc_cluster option" where
  "sc_run calls c = for_each sc_perform calls c"

definition offers :: "sc_call \<Rightarrow> bool" where
  "offers x \<longleftrightarrow> (case x of Offer _ \<Rightarrow> True | _ \<Rightarrow> False)"

definition cuts_for :: "nat \<Rightarrow> sc_call \<Rightarrow> bool" where
  "cuts_for k x \<longleftrightarrow> (case x of Cut (Some side) \<Rightarrow> length side = k | _ \<Rightarrow> True)"

interpretation scs: scripted sc_perform offers cuts_for "\<lambda>s. length (sc_nodes s)" "sc_sound thr" for thr
proof (unfold_locales, goal_cases)
  case (1 B T s x)
  show ?case
  proof (cases x)
    case Go
    with sc.round_returns[OF 1(1,3)] show ?thesis
      by (auto simp: offers_def sc_step_round_def intro!: exI[of _ "T + length (sc_nodes s)"])
  next
    case (Offer y)
    with 1(4) sc_propose_returns[OF 1(1), of y] show ?thesis
      by (auto simp: offers_def intro!: exI[of _ T])
  next
    case (Cut side)
    with 1(1,2) show ?thesis
      by (auto simp: offers_def cuts_for_def sc_sound_def sc_backed_def sc_wf_def intro!: exI[of _ T] split: option.splits)
  qed
qed

text \<open>
  C11: The snapshot program returns from every script of rounds, proposals, cuts and repairs, with
  any snapshot threshold: no step of a node fails, snapshot hints are answered without an error
  and without end, no index is out of range, and every mailbox drains. What it records as applied
  is what each node has applied, whether command by command or by a snapshot, as its last
  assertion wants to know.
\<close>

theorem snapshot_catchup_returns:
  assumes "k \<le> 2 ^ 64" "k * length calls < 2 ^ 64 - 1" "length (filter offers calls) < 2 ^ 63 - 1"
    and "\<forall>x \<in> set calls. cuts_for k x"
  shows "\<exists>s. sc_run calls (sc_new k thr) = Some s \<and> length (sc_nodes s) = k
    \<and> sc_applied s = map get_last_applied (sc_nodes s)"
proof -
  have "length (sc_nodes (sc_new k thr)) = k" by (simp add: sc_new_def)
  with scs.script_returns[OF sc_new_sound[OF assms(1)], of calls thr] assms(2-4) show ?thesis
    by (auto simp: sc_run_def sc_sound_def get_last_applied_def)
qed

theorem snapshot_catchup_returns_witness:
  "\<exists>s. sc_run [Go, Cut (Some [False, True, True]), Offer [120], Go, Cut None, Go] (sc_new 3 1) = Some s
     \<and> length (sc_nodes s) = 3 \<and> sc_applied s = map get_last_applied (sc_nodes s)"
  by (rule snapshot_catchup_returns) (simp_all add: offers_def cuts_for_def)

end
