(* ===== verification/Membership_Change.thy ===== *)
theory Membership_Change
  imports Harness
begin

text \<open>
  \<^verbatim>\<open>examples/membership.rs\<close>: a cluster whose nodes and mailboxes are found by id, so that it can
  grow and shrink while it runs. \<open>None\<close> is a panic, or not returning.
\<close>

record mb_cluster =
  mb_nodes :: "(node_id \<times> node) list"
  mb_mailboxes :: "(node_id \<times> message list) list"

definition mb_new :: "node_id list \<Rightarrow> mb_cluster" where
  "mb_new ids =
     \<lparr>mb_nodes = map (\<lambda>i. (i, node_new (with_seed (0xC000 + i) (config_new i ids)))) ids,
      mb_mailboxes = map (\<lambda>i. (i, [])) ids\<rparr>"

fun mb_absorb :: "action list \<Rightarrow> mb_cluster \<Rightarrow> mb_cluster" where
  "mb_absorb [] c = c"
| "mb_absorb (Send to m # acts) c =
     mb_absorb acts (c\<lparr>mb_mailboxes := push_back to m (mb_mailboxes c)\<rparr>)"
| "mb_absorb (_ # acts) c = mb_absorb acts c"

definition mb_set :: "nat \<Rightarrow> node \<Rightarrow> mb_cluster \<Rightarrow> mb_cluster" where
  "mb_set i n c = c\<lparr>mb_nodes := (mb_nodes c)[i := (fst (mb_nodes c ! i), n)]\<rparr>"

definition mb_step :: "event \<Rightarrow> nat \<Rightarrow> mb_cluster \<Rightarrow> mb_cluster option" where
  "mb_step ev i c =
     (if i < length (mb_nodes c)
      then case step ev (snd (mb_nodes c ! i)) of
             (n, Inl e) \<Rightarrow> None
           | (n, Inr acts) \<Rightarrow> Some (mb_absorb acts (mb_set i n c))
      else None)"

definition mb_pop :: "node_id \<Rightarrow> mb_cluster \<Rightarrow> (message \<times> mb_cluster) option" where
  "mb_pop w c =
     map_option (\<lambda>(m, boxes). (m, c\<lparr>mb_mailboxes := boxes\<rparr>)) (pop_front w (mb_mailboxes c))"

definition mb_drain :: "nat \<Rightarrow> mb_cluster \<Rightarrow> mb_cluster option" where
  "mb_drain i c =
     (if i < length (mb_nodes c)
      then while_let (mb_pop (fst (mb_nodes c ! i))) (\<lambda>m. mb_step (Message m) i) c else None)"

definition mb_step_round :: "mb_cluster \<Rightarrow> mb_cluster option" where
  "mb_step_round c =
     Option.bind (for_each (mb_step Tick) [0..<length (mb_nodes c)] c) (\<lambda>c.
       for_each mb_drain [0..<length (mb_nodes c)] c)"

definition mb_settle :: "nat \<Rightarrow> mb_cluster \<Rightarrow> mb_cluster option" where
  "mb_settle rounds c = for_each (\<lambda>_. mb_step_round) [0..<rounds] c"

definition mb_leader :: "mb_cluster \<Rightarrow> node_id option" where
  "mb_leader c = map_option fst (find (\<lambda>(i, n). is_leader n) (mb_nodes c))"

text \<open>A request to the leader; one that fails leaves no messages behind.\<close>

definition mb_leader_step :: "event \<Rightarrow> mb_cluster \<Rightarrow> mb_cluster" where
  "mb_leader_step ev c =
     (case position (\<lambda>(i, n). is_leader n) (mb_nodes c) of
        None \<Rightarrow> c
      | Some i \<Rightarrow>
          (case step ev (snd (mb_nodes c ! i)) of
             (n, Inr acts) \<Rightarrow> mb_absorb acts (mb_set i n c)
           | (n, Inl e) \<Rightarrow> mb_set i n c))"

definition mb_members :: "mb_cluster \<Rightarrow> node_id list" where
  "mb_members c =
     (case Option.bind (mb_leader c) (\<lambda>l. find (\<lambda>(i, n). i = l) (mb_nodes c)) of
        None \<Rightarrow> [] | Some (i, n) \<Rightarrow> get_members n)"

definition mb_join :: "node_id \<Rightarrow> node \<Rightarrow> mb_cluster \<Rightarrow> mb_cluster" where
  "mb_join i n c = c\<lparr>mb_nodes := mb_nodes c @ [(i, n)], mb_mailboxes := mb_mailboxes c @ [(i, [])]\<rparr>"

record mb_report =
  mr_first :: "node_id list"
  mr_added :: "node_id list"
  mr_victim :: node_id
  mr_removed :: "node_id list"
  mr_target :: node_id

definition mb_main :: "mb_report option" where
  "mb_main =
     Option.bind (until (\<lambda>c. mb_leader c \<noteq> None) mb_step_round (mb_new [0, 1, 2])) (\<lambda>c0.
     Option.bind (mb_settle 80 (mb_leader_step (AddServer 3)
         (mb_join 3 (node_new (with_seed 0xC003 (with_election_timeout 60 80 (config_new 3 [0, 1, 2, 3])))) c0))) (\<lambda>c1.
     Option.bind (mb_leader c1) (\<lambda>l1.
     Option.bind (find (\<lambda>v. v \<noteq> l1) [0, 1, 2]) (\<lambda>victim.
     Option.bind (mb_settle 80 (mb_leader_step (RemoveServer victim) c1)) (\<lambda>c2.
     Option.bind (mb_leader c2) (\<lambda>l2.
     Option.bind (find (\<lambda>t. t \<noteq> l2) (mb_members c2)) (\<lambda>target.
     Option.bind (mb_settle 40 (mb_leader_step (TransferLeadership target) c2)) (\<lambda>c3.
       if mb_leader c3 = Some target
       then Some \<lparr>mr_first = mb_members c0, mr_added = mb_members c1, mr_victim = victim,
              mr_removed = mb_members c2, mr_target = target\<rparr>
       else None))))))))"

text \<open>The same on a small cluster: one node is joined by a second, hands over to it and is removed.\<close>

definition mb_sample :: "(node_id list \<times> node_id option \<times> node_id list) option" where
  "mb_sample =
     Option.bind (mb_settle 20 (mb_new [1])) (\<lambda>c.
     Option.bind (mb_settle 6 (mb_leader_step (AddServer 2)
         (mb_join 2 (node_new (with_election_timeout 60 80 (config_new 2 [1, 2]))) c))) (\<lambda>c1.
     Option.bind (mb_settle 2 (mb_leader_step (TransferLeadership 2) c1)) (\<lambda>c2.
     Option.bind (mb_settle 2 (mb_leader_step (RemoveServer 1) c2)) (\<lambda>c3.
       Some (mb_members c1, mb_leader c2, mb_members c3)))))"

lemma mb_sample_run: "mb_sample = Some ([1, 2], Some 2, [2])"
  by code_simp

end
