(* ===== verification/Kv_Store.thy ===== *)
theory Kv_Store
  imports Kv_Text "HOL-Library.RBT" "HOL-Library.List_Lexorder"
begin

text \<open>
  The state machine of \<^verbatim>\<open>examples/kv_store.rs\<close>: \<open>KvStore\<close> with its commands and its snapshot
  format. A \<open>BTreeMap<String, String>\<close> is a search tree over the bytes of the keys in
  lexicographic order, which is the order of \<open>String\<close>.
\<close>

record kv_store =
  kv_map :: "(str, str) rbt"

definition kv_default :: kv_store where
  "kv_default = \<lparr>kv_map = RBT.empty\<rparr>"

definition kv_apply :: "byte list \<Rightarrow> kv_store \<Rightarrow> kv_store" where
  "kv_apply command st =
     (case splitn 3 tab (from_utf8_lossy command) of
        [] \<Rightarrow> st
      | verb # parts \<Rightarrow>
          if verb = ascii ''PUT'' then
            (case parts of
               k # v # _ \<Rightarrow> st\<lparr>kv_map := RBT.insert k v (kv_map st)\<rparr>
             | _ \<Rightarrow> st)
          else if verb = ascii ''DEL'' then
            (case parts of
               k # _ \<Rightarrow> st\<lparr>kv_map := RBT.delete k (kv_map st)\<rparr>
             | _ \<Rightarrow> st)
          else st)"

definition kv_get :: "str \<Rightarrow> kv_store \<Rightarrow> str option" where
  "kv_get key st = RBT.lookup (kv_map st) key"

definition kv_line :: "str \<times> str \<Rightarrow> str" where
  "kv_line kv = (case kv of (k, v) \<Rightarrow> k @ tab # v @ [newline])"

definition kv_snapshot :: "kv_store \<Rightarrow> byte list" where
  "kv_snapshot st = concat (map kv_line (RBT.entries (kv_map st)))"

definition kv_restore_line :: "str \<Rightarrow> (str, str) rbt \<Rightarrow> (str, str) rbt" where
  "kv_restore_line line t =
     (case split_once tab line of Some (k, v) \<Rightarrow> RBT.insert k v t | None \<Rightarrow> t)"

definition kv_restore :: "byte list \<Rightarrow> kv_store \<Rightarrow> kv_store" where
  "kv_restore data st = st\<lparr>kv_map := fold kv_restore_line (lines (from_utf8_lossy data)) RBT.empty\<rparr>"

definition put :: "str \<Rightarrow> str \<Rightarrow> byte list" where
  "put key value = ascii ''PUT'' @ tab # key @ tab # value"

definition del :: "str \<Rightarrow> byte list" where
  "del key = ascii ''DEL'' @ tab # key"

subsection \<open>Commands\<close>

text \<open>What a client can store and read back: keys without a tab. What also survives a
  snapshot: no line feed in key or value, and no carriage return at the end of the value.\<close>

definition key_ok :: "str \<Rightarrow> bool" where
  "key_ok k \<longleftrightarrow> is_utf8 k \<and> tab \<notin> set k"

definition line_ok :: "str \<Rightarrow> str \<Rightarrow> bool" where
  "line_ok k v \<longleftrightarrow> key_ok k \<and> is_utf8 v \<and> newline \<notin> set k \<and> newline \<notin> set v
     \<and> (v \<noteq> [] \<longrightarrow> last v \<noteq> carriage_return)"

definition store_ok :: "kv_store \<Rightarrow> bool" where
  "store_ok st \<longleftrightarrow> list_all (\<lambda>(k, v). line_ok k v) (RBT.entries (kv_map st))"

lemma utf8_verb: "is_utf8 (ascii ''PUT'')" "is_utf8 (ascii ''DEL'')" "is_utf8 [tab]" "is_utf8 [newline]"
  by code_simp+

lemma is_utf8_tab: "is_utf8 s \<Longrightarrow> is_utf8 (tab # s)" "is_utf8 [] \<Longrightarrow> is_utf8 [newline]"
  using is_utf8_append[of "[tab]" s] utf8_verb by simp_all

lemma no_tab_verb: "tab \<notin> set (ascii ''PUT'')" "tab \<notin> set (ascii ''DEL'')"
    "ascii ''DEL'' \<noteq> ascii ''PUT''"
  by code_simp+

lemma kv_apply_put:
  assumes "key_ok k" "is_utf8 v"
  shows "kv_apply (put k v) st = st\<lparr>kv_map := RBT.insert k v (kv_map st)\<rparr>"
proof -
  have "is_utf8 (put k v)"
    using assms by (simp add: put_def is_utf8_append is_utf8_tab utf8_verb key_ok_def)
  then have "from_utf8_lossy (put k v) = ascii ''PUT'' @ tab # k @ tab # v"
    by (simp add: lossy_utf8 put_def)
  then have "splitn 3 tab (from_utf8_lossy (put k v)) = [ascii ''PUT'', k, v]"
    using assms no_tab_verb by (simp add: numeral_3_eq_3 split_once_append key_ok_def)
  then show ?thesis by (simp add: kv_apply_def)
qed

lemma kv_apply_del:
  assumes "key_ok k"
  shows "kv_apply (del k) st = st\<lparr>kv_map := RBT.delete k (kv_map st)\<rparr>"
proof -
  have "is_utf8 (del k)"
    using assms by (simp add: del_def is_utf8_append is_utf8_tab utf8_verb key_ok_def)
  then have "from_utf8_lossy (del k) = ascii ''DEL'' @ tab # k" by (simp add: lossy_utf8 del_def)
  moreover have "split_once tab k = None" using assms by (simp add: split_once_None key_ok_def)
  ultimately have "splitn 3 tab (from_utf8_lossy (del k)) = [ascii ''DEL'', k]"
    using no_tab_verb by (simp add: numeral_3_eq_3 split_once_append)
  then show ?thesis using no_tab_verb by (simp add: kv_apply_def)
qed

lemmas kv_commands = kv_apply_put kv_apply_del

text \<open>A client's command, and what it means on the map of keys to values.\<close>

datatype command = Put str str | Del str

fun encode_command :: "command \<Rightarrow> byte list" where
  "encode_command (Put k v) = put k v"
| "encode_command (Del k) = del k"

fun command_ok :: "command \<Rightarrow> bool" where
  "command_ok (Put k v) = line_ok k v"
| "command_ok (Del k) = key_ok k"

fun command_effect :: "command \<Rightarrow> (str \<Rightarrow> str option) \<Rightarrow> str \<Rightarrow> str option" where
  "command_effect (Put k v) m = m(k \<mapsto> v)"
| "command_effect (Del k) m = m(k := None)"

definition kv_run :: "command list \<Rightarrow> kv_store \<Rightarrow> kv_store" where
  "kv_run cs st = fold kv_apply (map encode_command cs) st"

lemma kv_apply_effect:
  "command_ok c \<Longrightarrow>
   RBT.lookup (kv_map (kv_apply (encode_command c) st)) = command_effect c (RBT.lookup (kv_map st))"
  by (cases c) (auto simp: kv_commands line_ok_def restrict_map_def fun_eq_iff)

lemma kv_run_effect:
  "list_all command_ok cs \<Longrightarrow>
   RBT.lookup (kv_map (kv_run cs st)) = fold command_effect cs (RBT.lookup (kv_map st))"
  by (induction cs arbitrary: st) (simp_all add: kv_run_def kv_apply_effect)

lemma store_ok_lookup:
  "store_ok st \<longleftrightarrow> (\<forall>k v. RBT.lookup (kv_map st) k = Some v \<longrightarrow> line_ok k v)"
  by (auto simp: store_ok_def list_all_iff RBT.lookup_in_tree[symmetric])

lemma kv_run_ok: "list_all command_ok cs \<Longrightarrow> store_ok st \<Longrightarrow> store_ok (kv_run cs st)"
proof (induction cs arbitrary: st)
  case (Cons c cs)
  have "store_ok (kv_apply (encode_command c) st)"
    using Cons.prems by (cases c)
      (auto simp: store_ok_lookup kv_apply_effect[of c, simplified] kv_commands line_ok_def
        restrict_map_def split: if_splits)
  with Cons show ?case by (simp add: kv_run_def)
qed (simp add: kv_run_def)

subsection \<open>Snapshots\<close>

lemma kv_line_lines:
  "line_ok k v \<Longrightarrow> lines (kv_line (k, v) @ rest) = (k @ tab # v) # lines rest"
proof -
  assume ok: "line_ok k v"
  have nl: "newline \<notin> set (k @ tab # v)"
    using ok by (auto simp: line_ok_def tab_def newline_def)
  have "kv_line (k, v) @ rest = (k @ tab # v) @ newline # rest" by (simp add: kv_line_def)
  then have "lines (kv_line (k, v) @ rest) = strip_cr (k @ tab # v) # lines rest"
    using lines_append[OF nl] by simp
  moreover have "strip_cr (k @ tab # v) = k @ tab # v"
    using ok by (cases "v = []") (auto simp: strip_cr_def line_ok_def tab_def carriage_return_def)
  ultimately show ?thesis by simp
qed

lemma lines_snapshot:
  "list_all (\<lambda>(k, v). line_ok k v) kvs \<Longrightarrow>
   lines (concat (map kv_line kvs)) = map (\<lambda>(k, v). k @ tab # v) kvs"
  by (induction kvs) (auto simp: kv_line_lines)

lemma is_utf8_snapshot:
  "list_all (\<lambda>(k, v). line_ok k v) kvs \<Longrightarrow> is_utf8 (concat (map kv_line kvs))"
  by (induction kvs) (auto simp: kv_line_def line_ok_def key_ok_def
      intro!: is_utf8_append is_utf8_tab(1) utf8_verb)

lemma restore_lines:
  "list_all (\<lambda>(k, v). line_ok k v) kvs \<Longrightarrow>
   RBT.lookup (fold kv_restore_line (map (\<lambda>(k, v). k @ tab # v) kvs) t)
     = fold (\<lambda>(k, v) m. m(k \<mapsto> v)) kvs (RBT.lookup t)"
  by (induction kvs arbitrary: t)
     (auto simp: kv_restore_line_def split_once_append line_ok_def key_ok_def)

lemma fold_updates_distinct:
  "distinct (map fst kvs) \<Longrightarrow> fold (\<lambda>(k, v) m. m(k \<mapsto> v)) kvs m = m ++ map_of kvs"
proof (induction kvs arbitrary: m)
  case (Cons kv kvs)
  then have "map_of kvs (fst kv) = None" by (auto simp: map_of_eq_None_iff)
  with Cons show ?case
    by (cases kv) (auto simp: map_add_def fun_eq_iff split: option.splits)
qed simp

lemma restore_snapshot:
  assumes "store_ok st"
  shows "RBT.lookup (kv_map (kv_restore (kv_snapshot st) st0)) = RBT.lookup (kv_map st)"
proof -
  let ?kvs = "RBT.entries (kv_map st)"
  have ok: "list_all (\<lambda>(k, v). line_ok k v) ?kvs" using assms by (simp add: store_ok_def)
  have "from_utf8_lossy (kv_snapshot st) = concat (map kv_line ?kvs)"
    using is_utf8_snapshot[OF ok] by (simp add: kv_snapshot_def lossy_utf8)
  then have "RBT.lookup (kv_map (kv_restore (kv_snapshot st) st0))
      = fold (\<lambda>(k, v) m. m(k \<mapsto> v)) ?kvs Map.empty"
    by (simp add: kv_restore_def lines_snapshot[OF ok] restore_lines[OF ok])
  also have "\<dots> = map_of ?kvs" by (simp add: fold_updates_distinct RBT.distinct_entries)
  also have "\<dots> = RBT.lookup (kv_map st)" by (simp add: RBT.map_of_entries)
  finally show ?thesis .
qed

text \<open>A replica that catches up from a snapshot ends in the same state as one that applied
  every command. If every put and delete of a history uses keys and values that fit the
  formats (valid strings, no tab in a key, no line feed, no carriage return at the end of a
  value), then after restoring the snapshot of the first part and applying the rest, every key
  reads as it does where the whole history was applied, and as the history means it to: the
  last put of the key, or nothing after a delete.\<close>
theorem catch_up_from_snapshot:
  assumes "list_all command_ok (before @ after)"
  shows "kv_get k (kv_run after (kv_restore (kv_snapshot (kv_run before kv_default)) st0))
           = kv_get k (kv_run (before @ after) kv_default)
       \<and> kv_get k (kv_run (before @ after) kv_default)
           = fold command_effect (before @ after) Map.empty k"
proof
  have ok: "list_all command_ok before" "list_all command_ok after" using assms by simp_all
  have "store_ok kv_default" by (simp add: store_ok_lookup kv_default_def)
  with ok(1) have "store_ok (kv_run before kv_default)" by (rule kv_run_ok)
  from restore_snapshot[OF this, of st0] ok show
    "kv_get k (kv_run after (kv_restore (kv_snapshot (kv_run before kv_default)) st0))
       = kv_get k (kv_run (before @ after) kv_default)"
    by (simp add: kv_get_def kv_run_effect del: fold_append) (simp add: kv_run_effect)
  show "kv_get k (kv_run (before @ after) kv_default)
       = fold command_effect (before @ after) Map.empty k"
    using kv_run_effect[OF assms, of kv_default] by (simp add: kv_get_def kv_default_def)
qed

theorem catch_up_from_snapshot_witness:
  "kv_get (ascii ''beta'')
     (kv_run [Put (ascii ''beta'') (ascii ''20''), Del (ascii ''alpha'')]
       (kv_restore (kv_snapshot (kv_run [Put (ascii ''alpha'') (ascii ''1''), Put (ascii ''beta'') (ascii ''2'')]
          kv_default)) kv_default))
     = fold command_effect ([Put (ascii ''alpha'') (ascii ''1''), Put (ascii ''beta'') (ascii ''2'')]
         @ [Put (ascii ''beta'') (ascii ''20''), Del (ascii ''alpha'')]) Map.empty (ascii ''beta'')"
proof -
  have "list_all command_ok ([Put (ascii ''alpha'') (ascii ''1''), Put (ascii ''beta'') (ascii ''2'')]
         @ [Put (ascii ''beta'') (ascii ''20''), Del (ascii ''alpha'')])"
    by code_simp
  from catch_up_from_snapshot[OF this] show ?thesis by metis
qed

text \<open>A value with a line feed does not survive a snapshot: the rest of it is lost, and a
  tab in it makes a key that was never put.\<close>

lemma snapshot_loses_lines:
  "kv_get [97] (kv_restore (kv_snapshot (kv_run [Put [97] [49, 10, 98, 9, 50]] kv_default)) kv_default)
     = Some [49]"
  "kv_get [98] (kv_restore (kv_snapshot (kv_run [Put [97] [49, 10, 98, 9, 50]] kv_default)) kv_default)
     = Some [50]"
  "kv_get [97] (kv_run [Put [97] [49, 10, 98, 9, 50]] kv_default) = Some [49, 10, 98, 9, 50]"
  by code_simp+

end
