(* ===== verification/Kv_Cluster.thy ===== *)
theory Kv_Cluster
  imports Kv_Store Harness
begin

text \<open>
  The cluster harness of \<^verbatim>\<open>examples/kv_store.rs\<close>: nodes paired with their stores, one mailbox
  per node, and the loop that carries out a node's actions. \<open>None\<close> stands for a panic (an
  index out of range, \<open>expect\<close> on an error) or, for the loop that drains a mailbox, for not
  returning.
\<close>

record kv_node =
  kn_id :: node_id
  kn_raft :: node
  kn_store :: kv_store

record kv_cluster =
  kc_nodes :: "kv_node list"
  kc_mailboxes :: "(node_id \<times> message list) list"

definition kc_new :: "node_id list \<Rightarrow> u64 \<Rightarrow> kv_cluster" where
  "kc_new ids snapshot_threshold =
     \<lparr>kc_nodes = map (\<lambda>i. \<lparr>kn_id = i,
         kn_raft = node_new (with_seed (0xE000 + i)
           (with_snapshot_threshold snapshot_threshold (config_new i ids))),
         kn_store = kv_default\<rparr>) ids,
      kc_mailboxes = map (\<lambda>i. (i, [])) ids\<rparr>"

subsection \<open>Carrying out actions\<close>

definition set_raft :: "nat \<Rightarrow> node \<Rightarrow> kv_cluster \<Rightarrow> kv_cluster" where
  "set_raft i n c = c\<lparr>kc_nodes := (kc_nodes c)[i := (kc_nodes c ! i)\<lparr>kn_raft := n\<rparr>]\<rparr>"

definition on_store :: "nat \<Rightarrow> (kv_store \<Rightarrow> kv_store) \<Rightarrow> kv_cluster \<Rightarrow> kv_cluster" where
  "on_store i f c =
     c\<lparr>kc_nodes := (kc_nodes c)[i := (kc_nodes c ! i)\<lparr>kn_store := f (kn_store (kc_nodes c ! i))\<rparr>]\<rparr>"

function kc_absorb :: "nat \<Rightarrow> action list \<Rightarrow> kv_cluster \<Rightarrow> kv_cluster option" where
  "kc_absorb i [] c = Some c"
| "kc_absorb i (Send to m # acts) c =
     kc_absorb i acts (c\<lparr>kc_mailboxes := push_back to m (kc_mailboxes c)\<rparr>)"
| "kc_absorb i (Apply index t command # acts) c =
     (if i < length (kc_nodes c) then kc_absorb i acts (on_store i (kv_apply command) c) else None)"
| "kc_absorb i (SnapshotHint index t # acts) c =
     (if i < length (kc_nodes c)
      then let data = kv_snapshot (kn_store (kc_nodes c ! i))
           in case step (SnapshotEvent index data) (kn_raft (kc_nodes c ! i)) of
                (n, Inl e) \<Rightarrow> None
              | (n, Inr reply) \<Rightarrow>
                  Option.bind (kc_absorb i reply (set_raft i n c)) (kc_absorb i acts)
      else None)"
| "kc_absorb i (RestoreSnapshot index t data # acts) c =
     (if i < length (kc_nodes c) then kc_absorb i acts (on_store i (kv_restore data) c) else None)"
| "kc_absorb i (MembershipChanged ms # acts) c = kc_absorb i acts c"
  by pat_completeness auto
termination
proof (relation "measures [\<lambda>(i, acts, c). length (filter is_hint acts), \<lambda>(i, acts, c). length acts]",
    goal_cases)
  case 4
  then show ?case by (auto simp: snapshot_reply_no_hint)
qed auto

subsection \<open>Rounds\<close>

definition kc_step :: "event \<Rightarrow> nat \<Rightarrow> kv_cluster \<Rightarrow> kv_cluster option" where
  "kc_step ev i c =
     (if i < length (kc_nodes c)
      then case step ev (kn_raft (kc_nodes c ! i)) of
             (n, Inl e) \<Rightarrow> None
           | (n, Inr acts) \<Rightarrow> kc_absorb i acts (set_raft i n c)
      else None)"

definition kc_pop :: "node_id \<Rightarrow> kv_cluster \<Rightarrow> (message \<times> kv_cluster) option" where
  "kc_pop w c =
     map_option (\<lambda>(m, boxes). (m, c\<lparr>kc_mailboxes := boxes\<rparr>)) (pop_front w (kc_mailboxes c))"

definition kc_drain :: "nat \<Rightarrow> kv_cluster \<Rightarrow> kv_cluster option" where
  "kc_drain i c =
     (if i < length (kc_nodes c)
      then while_let (kc_pop (kn_id (kc_nodes c ! i))) (\<lambda>m. kc_step (Message m) i) c else None)"

definition kc_step_round :: "kv_cluster \<Rightarrow> kv_cluster option" where
  "kc_step_round c =
     Option.bind (for_each (kc_step Tick) [0..<length (kc_nodes c)] c) (\<lambda>c.
       for_each kc_drain [0..<length (kc_nodes c)] c)"

definition kc_settle :: "nat \<Rightarrow> kv_cluster \<Rightarrow> kv_cluster option" where
  "kc_settle rounds c = for_each (\<lambda>_. kc_step_round) [0..<rounds] c"

definition kc_leader :: "kv_cluster \<Rightarrow> nat option" where
  "kc_leader c = position (\<lambda>n. is_leader (kn_raft n)) (kc_nodes c)"

definition kc_write :: "byte list \<Rightarrow> kv_cluster \<Rightarrow> kv_cluster option" where
  "kc_write command c =
     (case kc_leader c of
        None \<Rightarrow> Some c
      | Some i \<Rightarrow>
          (case step (Propose command) (kn_raft (kc_nodes c ! i)) of
             (n, Inr acts) \<Rightarrow> kc_absorb i acts (set_raft i n c)
           | (n, Inl e) \<Rightarrow> Some (set_raft i n c)))"

subsection \<open>The program\<close>

text \<open>\<open>main\<close>: what each node reads after the first writes, and how many keys the added node and
  the leader hold in the end, if the final assertion holds.\<close>

definition kc_reads :: "kv_cluster \<Rightarrow> (node_id \<times> str option \<times> str option) list" where
  "kc_reads c =
     map (\<lambda>n. (kn_id n, kv_get (ascii ''beta'') (kn_store n), kv_get (ascii ''gamma'') (kn_store n))) (kc_nodes c)"

definition kc_write_all :: "nat \<Rightarrow> (str \<times> str) list \<Rightarrow> kv_cluster \<Rightarrow> kv_cluster option" where
  "kc_write_all rounds kvs c =
     for_each (\<lambda>(k, v) c. Option.bind (kc_write (put k v) c) (kc_settle rounds)) kvs c"

definition kc_add :: "kv_cluster \<Rightarrow> kv_cluster option" where
  "kc_add c =
     (let fresh_node = \<lparr>kn_id = 3, kn_raft = node_new (with_seed 0xE003 (with_election_timeout 60 80
            (config_new 3 [0, 1, 2, 3]))), kn_store = kv_default\<rparr>;
          c = c\<lparr>kc_nodes := kc_nodes c @ [fresh_node], kc_mailboxes := kc_mailboxes c @ [(3, [])]\<rparr>
      in case kc_leader c of None \<Rightarrow> Some c | Some i \<Rightarrow> kc_step (AddServer 3) i c)"

definition kc_converged :: "kv_cluster \<Rightarrow> (nat \<times> nat) option" where
  "kc_converged c =
     Option.bind (kc_leader c) (\<lambda>i.
     Option.bind (find (\<lambda>n. kn_id n = 3) (kc_nodes c)) (\<lambda>n.
       let want = RBT.entries (kv_map (kn_store (kc_nodes c ! i)));
           got = RBT.entries (kv_map (kn_store n))
       in if got = want then Some (length got, length want) else None))"

definition kc_main :: "((node_id \<times> str option \<times> str option) list \<times> nat \<times> nat) option" where
  "kc_main =
     Option.bind (until (\<lambda>c. kc_leader c \<noteq> None) kc_step_round (kc_new [0, 1, 2] 8)) (\<lambda>c.
     Option.bind (kc_write_all 4 [(ascii ''alpha'', ascii ''1''), (ascii ''beta'', ascii ''2''),
         (ascii ''gamma'', ascii ''3''), (ascii ''beta'', ascii ''20'')] c) (\<lambda>c.
     Option.bind (Option.bind (kc_write (del (ascii ''gamma'')) c) (kc_settle 8)) (\<lambda>c1.
     Option.bind (kc_write_all 2 (map (\<lambda>i. (ascii (CHR ''k'' # decimal (word_of_nat i)),
         ascii (CHR ''v'' # decimal (word_of_nat i)))) [0..<20]) c1) (\<lambda>c.
     Option.bind (Option.bind (kc_settle 10 c) kc_add) (\<lambda>c.
     Option.bind (Option.bind (kc_settle 120 c) kc_converged) (\<lambda>sizes.
       Some (kc_reads c1, sizes)))))))"

subsection \<open>What carrying out actions does\<close>

definition store_effect :: "action \<Rightarrow> kv_store \<Rightarrow> kv_store" where
  "store_effect a =
     (case a of Apply _ _ command \<Rightarrow> kv_apply command | RestoreSnapshot _ _ data \<Rightarrow> kv_restore data
      | _ \<Rightarrow> id)"

definition carried_out :: "nat \<Rightarrow> action list \<Rightarrow> kv_cluster \<Rightarrow> kv_cluster \<Rightarrow> bool" where
  "carried_out i acts c c' \<longleftrightarrow>
     length (kc_nodes c') = length (kc_nodes c)
   \<and> (\<forall>j. j \<noteq> i \<longrightarrow> kc_nodes c' ! j = kc_nodes c ! j)
   \<and> kn_id (kc_nodes c' ! i) = kn_id (kc_nodes c ! i)
   \<and> kn_store (kc_nodes c' ! i) = fold store_effect acts (kn_store (kc_nodes c ! i))
   \<and> (\<forall>j. map_of (kc_mailboxes c') j
          = map_option (\<lambda>ms. ms @ mail_for j acts) (map_of (kc_mailboxes c) j))"

lemma set_raft_sel [simp]:
  "length (kc_nodes (set_raft i n c)) = length (kc_nodes c)"
  "kc_mailboxes (set_raft i n c) = kc_mailboxes c"
  "j \<noteq> i \<Longrightarrow> kc_nodes (set_raft i n c) ! j = kc_nodes c ! j"
  "i < length (kc_nodes c) \<Longrightarrow> kc_nodes (set_raft i n c) ! i = (kc_nodes c ! i)\<lparr>kn_raft := n\<rparr>"
  by (simp_all add: set_raft_def)

lemma on_store_sel [simp]:
  "length (kc_nodes (on_store i f c)) = length (kc_nodes c)"
  "kc_mailboxes (on_store i f c) = kc_mailboxes c"
  "j \<noteq> i \<Longrightarrow> kc_nodes (on_store i f c) ! j = kc_nodes c ! j"
  "i < length (kc_nodes c) \<Longrightarrow>
     kc_nodes (on_store i f c) ! i = (kc_nodes c ! i)\<lparr>kn_store := f (kn_store (kc_nodes c ! i))\<rparr>"
  by (simp_all add: on_store_def)

lemma absorb_notices: "list_all is_notice acts \<Longrightarrow> kc_absorb i acts c = Some c"
  by (induction acts) (auto simp: is_notice_def split: action.splits)

lemma absorb_carried_out:
  "i < length (kc_nodes c) \<Longrightarrow> \<exists>c'. kc_absorb i acts c = Some c' \<and> carried_out i acts c c'"
proof (induction acts arbitrary: c)
  case Nil
  then show ?case by (simp add: carried_out_def option.map_id0[unfolded id_def])
next
  case (Cons a acts)
  show ?case
  proof (cases a)
    case (Send to m)
    with Cons.IH[of "c\<lparr>kc_mailboxes := push_back to m (kc_mailboxes c)\<rparr>"] Cons.prems show ?thesis
      by (auto simp: carried_out_def store_effect_def map_of_push_back option.map_comp comp_def
          intro!: option.map_cong)
  next
    case (Apply index t cmd)
    with Cons.IH[of "on_store i (kv_apply cmd) c"] Cons.prems show ?thesis
      by (auto simp: carried_out_def store_effect_def)
  next
    case (SnapshotHint index t)
    obtain n reply where r: "step (SnapshotEvent index (kv_snapshot (kn_store (kc_nodes c ! i))))
        (kn_raft (kc_nodes c ! i)) = (n, Inr reply)" "list_all is_notice reply"
      using snapshot_event_answer by blast
    with SnapshotHint Cons.IH[of "set_raft i n c"] Cons.prems show ?thesis
      by (auto simp: carried_out_def store_effect_def absorb_notices)
  next
    case (RestoreSnapshot index t d)
    with Cons.IH[of "on_store i (kv_restore d) c"] Cons.prems show ?thesis
      by (auto simp: carried_out_def store_effect_def)
  next
    case (MembershipChanged ms)
    with Cons show ?thesis by (auto simp: carried_out_def store_effect_def)
  qed
qed

text \<open>The driver loop \<open>absorb\<close> never panics for a node of the cluster, and carries out
  every action exactly once and in order: each message is appended to the mailbox of its
  addressee (and dropped if it has none), the node's store goes through the applied commands
  and restored snapshots in the order they were returned, and the other nodes are left alone.
  A snapshot hint is answered by a snapshot event, which changes none of this.\<close>
theorem absorb_carries_out_actions:
  assumes "i < length (kc_nodes c)"
  shows "\<exists>c'. kc_absorb i acts c = Some c'
     \<and> length (kc_nodes c') = length (kc_nodes c)
     \<and> (\<forall>j. j \<noteq> i \<longrightarrow> kc_nodes c' ! j = kc_nodes c ! j)
     \<and> kn_store (kc_nodes c' ! i) = fold store_effect acts (kn_store (kc_nodes c ! i))
     \<and> (\<forall>j. map_of (kc_mailboxes c') j
            = map_option (\<lambda>ms. ms @ mail_for j acts) (map_of (kc_mailboxes c) j))"
  using absorb_carried_out[OF assms, of acts] unfolding carried_out_def by blast

theorem absorb_carries_out_actions_witness:
  "\<exists>c'. kc_absorb 0 [Apply 1 1 (put [97] [49]), Send 2 (TimeoutNow \<lparr>tn_term = 1, tn_leader = 1\<rparr>)]
           (kc_new [1, 2] 8) = Some c'
      \<and> kv_get [97] (kn_store (kc_nodes c' ! 0)) = Some [49]
      \<and> map_of (kc_mailboxes c') 2 = Some [TimeoutNow \<lparr>tn_term = 1, tn_leader = 1\<rparr>]"
proof -
  have i: "0 < length (kc_nodes (kc_new [1, 2] 8))" by (simp add: kc_new_def)
  have s: "kn_store (kc_nodes (kc_new [1, 2] 8) ! 0) = kv_default"
    and b: "map_of (kc_mailboxes (kc_new [1, 2] 8)) 2 = Some []" by (simp_all add: kc_new_def)
  have g: "kv_get [97] (kv_apply (put [97] [49]) kv_default) = Some [49]" by code_simp
  show ?thesis
    using absorb_carries_out_actions[OF i, of "[Apply 1 1 (put [97] [49]),
        Send 2 (TimeoutNow \<lparr>tn_term = 1, tn_leader = 1\<rparr>)]"]
    by (auto simp: s b g store_effect_def)
qed

text \<open>A cluster of one node elects itself, accepts a write and applies it.\<close>

definition single_node_run :: "str option" where
  "single_node_run =
     (case Option.bind (kc_settle 20 (kc_new [1] 0)) (kc_write (put [97] [49])) of
        Some c \<Rightarrow> kv_get [97] (kn_store (kc_nodes c ! 0))
      | None \<Rightarrow> None)"

lemma single_node_write: "single_node_run = Some [49]"
  by code_simp

end
