(* ===== verification/Kv_Agreement.thy ===== *)
theory Kv_Agreement
  imports Kv_Cluster
begin

text \<open>
  The cluster of \<^verbatim>\<open>Kv_Cluster\<close> is a replicated state machine: it never panics, and at every
  moment each store reads as the map that a prefix of one common list of the written commands
  makes, whether the node applied the commands itself or was restored from a snapshot. Two
  facts are threaded through the runs: \<open>holds\<close>, that a map is what the commands applied so far
  make of the empty one up to an index, and the policy that every snapshot in the cluster, in
  a log or in flight, holds at its index.
\<close>

definition holds :: "command set \<Rightarrow> cluster \<Rightarrow> nat \<Rightarrow> (str \<Rightarrow> str option) \<Rightarrow> bool" where
  "holds W c k m \<longleftrightarrow> (\<exists>cs. length cs = k \<and> set cs \<subseteq> W
     \<and> (\<forall>x < k. \<exists>j. (j, word_of_nat (x + 1), encode_command (cs ! x)) \<in> c_applied c)
     \<and> m = fold command_effect cs Map.empty)"

definition reading :: "kv_store \<Rightarrow> str \<Rightarrow> str option" where
  "reading st = RBT.lookup (kv_map st)"

definition kv_policy :: "command set \<Rightarrow> cluster \<Rightarrow> policy" where
  "kv_policy W c = \<lparr>po_snapshot = \<lambda>x d. holds W c (unat x) (reading (kv_restore d kv_default)),
     po_command = \<lambda>x. x \<in> encode_command ` W\<rparr>"

lemma holds_mono: "holds W c k m \<Longrightarrow> c_applied c \<subseteq> c_applied c' \<Longrightarrow> holds W c' k m"
  unfolding holds_def by blast

lemma kv_policy_allows: "c_applied c \<subseteq> c_applied c' \<Longrightarrow> allows (kv_policy W c) (kv_policy W c')"
  by (auto simp: allows_def kv_policy_def intro: holds_mono)

lemma reading_restore: "reading (kv_restore d st) = reading (kv_restore d kv_default)"
  by (simp add: reading_def kv_restore_def)

lemma holds_empty: "holds W c 0 (reading kv_default)"
  by (simp add: holds_def reading_def kv_default_def)

text \<open>One more command.\<close>

lemma holds_apply:
  assumes h: "holds W c a (reading st)" and ok: "\<forall>w \<in> W. command_ok w"
    and y: "y \<in> encode_command ` W" "(j, word_of_nat (a + 1), y) \<in> c_applied c"
  shows "holds W c (a + 1) (reading (kv_apply y st))"
proof -
  obtain cs where cs: "length cs = a" "set cs \<subseteq> W"
    "\<forall>x < a. \<exists>j. (j, word_of_nat (x + 1), encode_command (cs ! x)) \<in> c_applied c"
    "reading st = fold command_effect cs Map.empty"
    using h unfolding holds_def by blast
  obtain w where w: "w \<in> W" "y = encode_command w" using y(1) by blast
  have "reading (kv_apply y st) = fold command_effect (cs @ [w]) Map.empty"
    using kv_apply_effect[of w st] w ok cs(4) by (simp add: reading_def)
  moreover have "\<exists>j. (j, word_of_nat (x + 1), encode_command ((cs @ [w]) ! x)) \<in> c_applied c" if "x < a + 1" for x
    using cs(1,3) w(2) y(2) that by (cases "x = a") (auto simp: nth_append)
  ultimately show ?thesis using cs(1,2) w(1) unfolding holds_def by (intro exI[of _ "cs @ [w]"]) auto
qed

text \<open>A snapshot of a store holds what the store does.\<close>

lemma holds_store_ok:
  assumes "holds W c a (reading st)" "\<forall>w \<in> W. command_ok w"
  shows "store_ok st"
proof -
  obtain cs where cs: "set cs \<subseteq> W" "reading st = fold command_effect cs Map.empty"
    using assms(1) unfolding holds_def by blast
  have ok: "list_all command_ok cs" using cs(1) assms(2) by (auto simp: list_all_iff)
  have "store_ok kv_default" by (simp add: store_ok_lookup kv_default_def)
  from kv_run_ok[OF ok this] kv_run_effect[OF ok, of kv_default] cs(2) show ?thesis
    by (simp add: store_ok_lookup reading_def kv_default_def)
qed

lemma holds_snapshot:
  assumes "holds W c a (reading st)" "\<forall>w \<in> W. command_ok w"
  shows "holds W c a (reading (kv_restore (kv_snapshot st) st'))"
  using assms(1) restore_snapshot[OF holds_store_ok[OF assms], of st'] by (simp add: reading_def)

subsection \<open>Nodes and mailboxes by position\<close>

definition kc_config :: "u64 \<Rightarrow> nat \<Rightarrow> node_id \<Rightarrow> raft_config" where
  "kc_config thr k i = with_seed (0xE000 + i) (with_snapshot_threshold thr (config_new i (map word_of_nat [0..<k])))"

definition rafts :: "kv_cluster \<Rightarrow> node list" where
  "rafts s = map kn_raft (kc_nodes s)"

definition boxes_of :: "kv_cluster \<Rightarrow> message list list" where
  "boxes_of s = map snd (kc_mailboxes s)"

text \<open>The node with id \<open>i\<close> and its mailbox are at position \<open>i\<close>.\<close>

definition in_place :: "kv_cluster \<Rightarrow> bool" where
  "in_place s \<longleftrightarrow> map kn_id (kc_nodes s) = map word_of_nat [0..<length (kc_nodes s)]
     \<and> map fst (kc_mailboxes s) = map word_of_nat [0..<length (kc_nodes s)]"

lemma map_update_same: "f x = f (xs ! i) \<Longrightarrow> map f (xs[i := x]) = map f xs"
  by (cases "i < length xs") (simp_all add: map_update list_update_same_conv list_update_beyond)

lemma length_rafts [simp]: "length (rafts s) = length (kc_nodes s)"
  by (simp add: rafts_def)

lemma nth_rafts: "i < length (kc_nodes s) \<Longrightarrow> rafts s ! i = kn_raft (kc_nodes s ! i)"
  by (simp add: rafts_def)

lemma rafts_sel [simp]:
  "rafts (on_store i f s) = rafts s" "rafts (s\<lparr>kc_mailboxes := b\<rparr>) = rafts s"
  "boxes_of (on_store i f s) = boxes_of s" "boxes_of (set_raft i n s) = boxes_of s"
  by (simp_all add: rafts_def boxes_of_def on_store_def set_raft_def map_update_same)

lemma rafts_set [simp]: "rafts (set_raft i n s) = (rafts s)[i := n]"
  by (simp add: rafts_def set_raft_def map_update)

lemma in_place_sel [simp]:
  "in_place (on_store i f s) = in_place s" "in_place (set_raft i n s) = in_place s"
  by (simp_all add: in_place_def on_store_def set_raft_def map_update_same)

lemma in_placeD:
  assumes "in_place s" "length (kc_nodes s) \<le> 2 ^ 64"
  shows "length (kc_mailboxes s) = length (kc_nodes s)" "distinct (map fst (kc_mailboxes s))"
    "i < length (kc_nodes s) \<Longrightarrow> kn_id (kc_nodes s ! i) = word_of_nat i"
    "i < length (kc_nodes s) \<Longrightarrow> fst (kc_mailboxes s ! i) = word_of_nat i"
proof -
  show l: "length (kc_mailboxes s) = length (kc_nodes s)"
    using assms(1) unfolding in_place_def by (metis length_map length_upt minus_nat.diff_0)
  have "inj_on (word_of_nat :: nat \<Rightarrow> u64) (set [0..<length (kc_nodes s)])"
    using assms(2) by (intro inj_onI) (metis atLeast_upt lessThan_iff unat_vec)
  then show "distinct (map fst (kc_mailboxes s))" using assms(1) by (simp add: in_place_def distinct_map)
  show "kn_id (kc_nodes s ! i) = word_of_nat i" "fst (kc_mailboxes s ! i) = word_of_nat i" if "i < length (kc_nodes s)"
    using assms(1) that l unfolding in_place_def
    by (metis add_0 diff_zero length_map length_upt nth_map nth_upt)+
qed

subsection \<open>The program's runs\<close>

text \<open>\<open>kc_at a i\<close> is the state while node \<open>i\<close>'s actions are carried out: its store is at index
  \<open>a\<close>, all others are where their nodes are.\<close>

definition stores_at :: "command set \<Rightarrow> cluster \<Rightarrow> (nat \<Rightarrow> nat) \<Rightarrow> kv_cluster \<Rightarrow> bool" where
  "stores_at W c at s \<longleftrightarrow> (\<forall>i < length (kc_nodes s). holds W c (at i) (reading (kn_store (kc_nodes s ! i))))"

definition applied_at :: "kv_cluster \<Rightarrow> nat \<Rightarrow> nat" where
  "applied_at s i = unat (n_last_applied (rafts s ! i))"

definition compacted :: "kv_cluster \<Rightarrow> bool" where
  "compacted s \<longleftrightarrow> (\<forall>i < length (kc_nodes s). ml_base_index (n_log (rafts s ! i)) \<le> n_last_applied (rafts s ! i))"

definition kc_backed :: "command set \<Rightarrow> u64 \<Rightarrow> nat \<Rightarrow> nat \<Rightarrow> kv_cluster \<Rightarrow> cluster \<Rightarrow> bool" where
  "kc_backed W thr B T s c \<longleftrightarrow> in_place s \<and> compacted s
     \<and> vec_backed (kv_policy W c) T B (kc_config thr (length (kc_nodes s))) (rafts s) (boxes_of s) c"

definition kc_sound :: "command set \<Rightarrow> u64 \<Rightarrow> nat \<Rightarrow> nat \<Rightarrow> kv_cluster \<Rightarrow> bool" where
  "kc_sound W thr B T s \<longleftrightarrow> (\<exists>c. kc_backed W thr B T s c \<and> stores_at W c (applied_at s) s)"

lemma kc_backedD:
  assumes "kc_backed W thr B T s c"
  shows "in_place s" "compacted s" "length (kc_nodes s) \<le> 2 ^ 64" "length (boxes_of s) = length (kc_nodes s)"
    "vec_backed (kv_policy W c) T B (kc_config thr (length (kc_nodes s))) (rafts s) (boxes_of s) c"
  using assms by (simp_all add: kc_backed_def vec_backed_def)

lemma stores_at_mono: "stores_at W c at s \<Longrightarrow> c_applied c \<subseteq> c_applied c' \<Longrightarrow> stores_at W c' at s"
  by (auto simp: stores_at_def intro: holds_mono)

lemma compactedI:
  assumes "compacted s" "i < length (kc_nodes s)" "ml_base_index (n_log n) \<le> n_last_applied n"
  shows "compacted (set_raft i n s)"
  using assms by (auto simp: compacted_def nth_list_update)

lemma applied_at_set:
  "i < length (kc_nodes s) \<Longrightarrow> applied_at (set_raft i n s) = (applied_at s)(i := unat (n_last_applied n))"
  by (auto simp: applied_at_def nth_list_update fun_eq_iff)

lemma applied_at_sel [simp]:
  "applied_at (on_store i f s) = applied_at s" "applied_at (s\<lparr>kc_mailboxes := b\<rparr>) = applied_at s"
  "compacted (on_store i f s) = compacted s" "compacted (s\<lparr>kc_mailboxes := b\<rparr>) = compacted s"
  by (simp_all add: applied_at_def compacted_def fun_eq_iff)

lemma stores_at_sel [simp]:
  "stores_at W c at (s\<lparr>kc_mailboxes := b\<rparr>) = stores_at W c at s"
  "stores_at W c at (set_raft i n s) = stores_at W c at s"
proof -
  have "kn_store (kc_nodes (set_raft i n s) ! j) = kn_store (kc_nodes s ! j)" if "j < length (kc_nodes s)" for j
    using that by (cases "j = i") simp_all
  then show "stores_at W c at (set_raft i n s) = stores_at W c at s" by (auto simp: stores_at_def)
qed (simp add: stores_at_def)

lemma stores_at_store:
  assumes "stores_at W c at s" "i < length (kc_nodes s)" "holds W c b (reading (f (kn_store (kc_nodes s ! i))))"
  shows "stores_at W c (at(i := b)) (on_store i f s)"
  using assms by (auto simp: stores_at_def)

text \<open>Carrying out the actions of node \<open>i\<close> takes its store from \<open>a\<close> to \<open>b\<close>.\<close>

lemma absorb_sound:
  assumes "kc_backed W thr B T s c" "stores_at W c (at(i := a)) s" "pending (length (kc_nodes s)) i c acts"
    "tells (kv_policy W c) c a acts b" "i < length (kc_nodes s)" "\<forall>w \<in> W. command_ok w"
  shows "\<exists>s' c'. kc_absorb i acts s = Some s' \<and> kc_backed W thr B T s' c' \<and> stores_at W c' (at(i := b)) s'
    \<and> length (kc_nodes s') = length (kc_nodes s) \<and> boxes_of s' ! i = boxes_of s ! i \<and> applied_at s' = applied_at s"
  using assms
proof (induction acts arbitrary: s c a)
  case Nil
  then show ?case by auto
next
  case (Cons x acts)
  note K = kc_backedD[OF Cons.prems(1)] and i = Cons.prems(5)
  note P = in_placeD[OF K(1,3)]
  have cont: ?case
    if "kc_absorb i (x # acts) s = kc_absorb i acts s1" "kc_backed W thr B T s1 c1" "stores_at W c1 (at(i := a1)) s1"
      "pending (length (kc_nodes s)) i c1 acts" "tells (kv_policy W c1) c1 a1 acts b"
      "length (kc_nodes s1) = length (kc_nodes s)" "boxes_of s1 ! i = boxes_of s ! i" "applied_at s1 = applied_at s"
    for s1 c1 a1
    using Cons.IH[OF that(2,3) _ that(5)] that i Cons.prems(6) by auto
  have h: "holds W c a (reading (kn_store (kc_nodes s ! i)))"
    using Cons.prems(2) i by (auto simp: stores_at_def dest: spec[of _ i])
  show ?case
  proof (cases x)
    case (Send to m)
    let ?s = "s\<lparr>kc_mailboxes := push_back to m (kc_mailboxes s)\<rparr>"
    have to: "unat to < length (kc_nodes s)" "unat to \<noteq> i" "(to, m) \<in> c_net c" "pending (length (kc_nodes s)) i c acts"
      using Cons.prems(3) Send by simp_all
    have b: "boxes_of ?s = (boxes_of s)[unat to := boxes_of s ! unat to @ [m]]"
      using push_back_snd[OF P(2), of "unat to" to m] P(1) P(4)[OF to(1)] to(1) by (simp add: boxes_of_def)
    have "kc_backed W thr B T ?s c"
      using K vec_push[OF K(5), of "unat to" m] to b by (simp add: kc_backed_def in_place_def push_back_fst)
    moreover have "stores_at W c (at(i := a)) ?s" using Cons.prems(2) by (simp only: stores_at_sel)
    ultimately show ?thesis using Send Cons.prems(4) to b by (intro cont[of ?s c a]) simp_all
  next
    case (Apply index t y)
    let ?s = "on_store i (kv_apply y) s"
    note y = Cons.prems(4)[unfolded Apply tells.simps]
    obtain j where j: "(j, word_of_nat (a + 1), y) \<in> c_applied c" using y by metis
    have "y \<in> encode_command ` W" using y by (simp add: kv_policy_def)
    note ap = holds_apply[OF h Cons.prems(6) this j]
    from stores_at_store[where f = "kv_apply y", OF Cons.prems(2) i ap] have "stores_at W c (at(i := a + 1)) ?s" by (simp only: fun_upd_upd)
    moreover have "kc_backed W thr B T ?s c" using K by (simp add: kc_backed_def)
    ultimately show ?thesis using Apply Cons.prems(3) y i by (intro cont[of ?s c "a + 1"]) simp_all
  next
    case (SnapshotHint index t)
    let ?d = "kv_snapshot (kn_store (kc_nodes s ! i))"
    have ix: "unat index = a" "tells (kv_policy W c) c a acts b" using Cons.prems(4) SnapshotHint by simp_all
    have ps: "po_snapshot (kv_policy W c) index ?d"
      using holds_snapshot[OF h Cons.prems(6)] ix(1) by (simp add: kv_policy_def)
    obtain n reply where v: "vec_served (kv_policy W c) T B (kc_config thr (length (kc_nodes s))) (rafts s)
        (boxes_of s) c i (SnapshotEvent index ?d) n reply"
      using vec_snapshot[OF K(5) _ ps, of i] i by auto
    let ?s = "set_raft i n s" and ?c = "absorb c (word_of_nat i) n reply"
    have i': "i < length (rafts s)" using i by simp
    note Q = vec_served_pending[OF K(5) i' v]
    have st: "step (SnapshotEvent index ?d) (kn_raft (kc_nodes s ! i)) = (n, Inr reply)"
      using vec_servedD(1)[OF v] i by (simp add: nth_rafts)
    then have quiet: "list_all is_notice reply"
      using snapshot_event_answer[of index ?d "kn_raft (kc_nodes s ! i)"] by auto
    then have same: "c_applied ?c = c_applied c" by (simp add: notices_apply_nothing)
    then have pol: "kv_policy W ?c = kv_policy W c" by (simp add: kv_policy_def holds_def)
    have base: "n_last_applied n = n_last_applied (rafts s ! i)" "ml_base_index (n_log n) \<le> n_last_applied n"
      using snapshot_event_base[OF st] K(2) i unfolding compacted_def by (metis nth_rafts)+
    have "kc_backed W thr B T ?s ?c"
      using Q(1) K compactedI[OF K(2) i base(2)] pol by (simp add: kc_backed_def)
    moreover have "applied_at ?s = applied_at s"
      using base(1) applied_at_set[OF i, of n] by (simp add: applied_at_def fun_eq_iff)
    moreover have "stores_at W ?c (at(i := a)) ?s"
      unfolding stores_at_sel by (rule stores_at_mono[OF Cons.prems(2)]) (simp add: same)
    moreover have "tells (kv_policy W ?c) ?c a acts b"
      using tells_mono[OF ix(2), of "kv_policy W ?c" ?c] same pol by (simp add: allows_def)
    moreover have "pending (length (kc_nodes s)) i ?c acts"
      using Cons.prems(3) SnapshotHint Q(3) by (auto intro: pending_mono)
    moreover have "kc_absorb i (x # acts) s = kc_absorb i acts ?s"
      using SnapshotHint i st absorb_notices[OF quiet] by simp
    ultimately show ?thesis by (intro cont[of ?s ?c a]) simp_all
  next
    case (RestoreSnapshot index t d)
    let ?s = "on_store i (kv_restore d) s"
    have d: "holds W c (unat index) (reading (kv_restore d (kn_store (kc_nodes s ! i))))"
      "tells (kv_policy W c) c (unat index) acts b"
      using Cons.prems(4) reading_restore[of d "kn_store (kc_nodes s ! i)"]
      unfolding RestoreSnapshot tells.simps by (simp_all add: kv_policy_def)
    from stores_at_store[where f = "kv_restore d", OF Cons.prems(2) i d(1)] have "stores_at W c (at(i := unat index)) ?s" by (simp only: fun_upd_upd)
    moreover have "kc_backed W thr B T ?s c" using K by (simp add: kc_backed_def)
    ultimately show ?thesis using RestoreSnapshot Cons.prems(3) d(2) i by (intro cont[of ?s c "unat index"]) simp_all
  next
    case (MembershipChanged ms)
    then show ?thesis
      by (intro cont[OF _ Cons.prems(1,2)]) (use Cons.prems(3,4) MembershipChanged in simp_all)
  qed
qed


text \<open>A step of a node, with its actions carried out.\<close>

lemma kc_step_sound:
  assumes b: "kc_backed W thr B T s c" "stores_at W c (applied_at s) s" and i: "i < length (kc_nodes s)"
    and ok: "\<forall>w \<in> W. command_ok w"
    and v: "vec_served (kv_policy W c) T' B' (kc_config thr (length (kc_nodes s))) (rafts s) (boxes_of s) c i ev n acts"
    and ev: "may_occur c (word_of_nat i) ev" "drives ev"
  shows "\<exists>s'. kc_step ev i s = Some s' \<and> kc_sound W thr B' T' s' \<and> length (kc_nodes s') = length (kc_nodes s)
    \<and> boxes_of s' ! i = boxes_of s ! i"
proof -
  note K = kc_backedD[OF b(1)]
  have i': "i < length (rafts s)" using i by simp
  note D = vec_servedD[OF v] and Q = vec_served_pending[OF K(5) i' v]
  let ?s = "set_raft i n s" and ?c = "absorb c (word_of_nat i) n acts"
  have sub: "c_applied c \<subseteq> c_applied ?c" by auto
  note al = kv_policy_allows[OF sub, of W]
  have at: "n_last_applied (rafts s ! i) = n_last_applied (c_node c (word_of_nat i))" using D(2) by simp
  have base: "ml_base_index (n_log (c_node c (word_of_nat i))) \<le> n_last_applied (c_node c (word_of_nat i))"
    using K(2) i D(2) by (simp add: compacted_def)
  have st: "step ev (c_node c (word_of_nat i)) = (n, Inr acts)" using D(1,2) by simp
  have t: "tells (kv_policy W c) ?c (applied_at s i) acts (unat (n_last_applied n))
      \<and> ml_base_index (n_log n) \<le> n_last_applied n"
    using served_tells[OF vec_steady[OF K(5), simplified] vec_steady[OF Q(1), simplified] _ st ev(1) ev(2)[unfolded drives_def] base]
      vec_in(1)[OF K(5) i'] at by (simp add: applied_at_def)
  have "kc_backed W thr B' T' ?s ?c"
    using K(1) compactedI[OF K(2) i] t vec_backed_allows[OF Q(1) al] by (simp add: kc_backed_def)
  moreover have "stores_at W ?c ((applied_at s)(i := applied_at s i)) ?s"
    using stores_at_mono[OF b(2) sub] by simp
  moreover have "tells (kv_policy W ?c) ?c (applied_at s i) acts (unat (n_last_applied n))"
    using tells_mono[OF conjunct1[OF t] al] by blast
  moreover have "pending (length (kc_nodes ?s)) i ?c acts" using Q(2) by simp
  ultimately obtain s' c' where "kc_absorb i acts ?s = Some s'" "kc_backed W thr B' T' s' c'"
    "stores_at W c' ((applied_at s)(i := unat (n_last_applied n))) s'" "length (kc_nodes s') = length (kc_nodes ?s)"
    "boxes_of s' ! i = boxes_of ?s ! i" "applied_at s' = applied_at ?s"
    using absorb_sound[of W thr B' T' ?s ?c "applied_at s" i "applied_at s i" acts] i ok by (metis set_raft_sel(1))
  moreover have "kc_step ev i s = kc_absorb i acts ?s" using D(1) i by (simp add: kc_step_def nth_rafts)
  ultimately show ?thesis using applied_at_set[OF i, of n] by (auto simp: kc_sound_def)
qed

lemma kc_pop_sound:
  assumes "kc_backed W thr B T s c" "stores_at W c (applied_at s) s" "i < length (kc_nodes s)"
    "kc_pop (kn_id (kc_nodes s ! i)) s = Some (m, s')"
  shows "kc_backed W thr B T s' c \<and> stores_at W c (applied_at s') s' \<and> kc_nodes s' = kc_nodes s
    \<and> (word_of_nat i, m) \<in> c_net c \<and> boxes_of s ! i = m # boxes_of s' ! i"
proof -
  note K = kc_backedD[OF assms(1)]
  note P = in_placeD[OF K(1,3)]
  obtain boxes where p: "pop_front (word_of_nat i) (kc_mailboxes s) = Some (m, boxes)" "s' = s\<lparr>kc_mailboxes := boxes\<rparr>"
    using assms(4) P(3)[OF assms(3)] by (auto simp: kc_pop_def)
  have i: "i < length (kc_mailboxes s)" "i < length (rafts s)" "i < length (boxes_of s)" using assms(3) P(1) K(4) by simp_all
  have pop: "pop_at i (boxes_of s) = Some (m, boxes_of s')"
    using pop_front_snd[OF P(2) i(1) P(4)[OF assms(3)] p(1)] p(2) by (simp add: boxes_of_def)
  have "in_place s'" using K(1) pop_front_fst[OF p(1)] p(2) by (simp add: in_place_def)
  with vec_pop[OF K(5) i(2) pop] pop_at_Some(1)[OF pop i(3)] K(2) assms(2) p(2) show ?thesis
    by (simp add: kc_backed_def)
qed

text \<open>A cluster whose written commands are \<open>command_ok\<close>; with others there is nothing to say.\<close>

definition kc_fine :: "command set \<Rightarrow> u64 \<Rightarrow> nat \<Rightarrow> nat \<Rightarrow> kv_cluster \<Rightarrow> bool" where
  "kc_fine W thr B T s \<longleftrightarrow> (\<forall>w \<in> W. command_ok w) \<and> kc_sound W thr B T s"

lemma kc_fineE:
  assumes "kc_fine W thr B T s"
  obtains c where "\<forall>w \<in> W. command_ok w" "kc_backed W thr B T s c" "stores_at W c (applied_at s) s"
  using assms by (auto simp: kc_fine_def kc_sound_def)

interpretation kc: driver "kc_step Tick" "\<lambda>i s. kn_id (kc_nodes s ! i)" "\<lambda>w _. kc_pop w"
  "\<lambda>_ i m. kc_step (Message m) i" kc_drain "\<lambda>s. length (kc_nodes s)" "\<lambda>i s. length (boxes_of s ! i)"
  "kc_fine W thr B" for W thr B
proof (unfold_locales, goal_cases)
  case (1 T s i)
  then obtain c where c: "\<forall>w \<in> W. command_ok w" "kc_backed W thr B T s c" "stores_at W c (applied_at s) s"
    by (elim kc_fineE)
  obtain n acts where "vec_served (kv_policy W c) (T + 1) B (kc_config thr (length (kc_nodes s))) (rafts s) (boxes_of s)
      c i Tick n acts"
    using vec_tick[OF kc_backedD(5)[OF c(2)], of i] 1(2,3) by auto
  from kc_step_sound[OF c(2,3) 1(2) c(1) this] c(1) show ?case by (auto simp: may_occur_def drives_def kc_fine_def)
next
  case (2 T s i m s')
  then obtain c where c: "\<forall>w \<in> W. command_ok w" "kc_backed W thr B T s c" "stores_at W c (applied_at s) s"
    by (elim kc_fineE)
  note p = kc_pop_sound[OF c(2,3) 2(2,3)]
  have i: "i < length (kc_nodes s')" using p 2(2) by simp
  note b = conjunct1[OF p] conjunct1[OF conjunct2[OF p]]
  obtain n acts where "vec_served (kv_policy W c) T B (kc_config thr (length (kc_nodes s'))) (rafts s') (boxes_of s')
      c i (Message m) n acts"
    using vec_message[OF kc_backedD(5)[OF b(1)], of i m] p i by auto
  from kc_step_sound[OF b i c(1) this] p obtain s'' where s'': "kc_step (Message m) i s' = Some s''"
    "kc_sound W thr B T s''" "length (kc_nodes s'') = length (kc_nodes s)" "boxes_of s'' ! i = boxes_of s' ! i"
    by (auto simp: may_occur_def drives_def)
  moreover have "kn_id (kc_nodes s'' ! i) = word_of_nat i"
  proof -
    obtain c where "kc_backed W thr B T s'' c" using s''(2) by (auto simp: kc_sound_def)
    from in_placeD(3)[OF kc_backedD(1,3)[OF this]] show ?thesis using s''(3) 2(2) by simp
  qed
  moreover have "kn_id (kc_nodes s ! i) = word_of_nat i"
    using in_placeD(3)[OF kc_backedD(1,3)[OF c(2)] 2(2)] .
  ultimately show ?case using c(1) p by (simp add: kc_fine_def)
qed (simp add: kc_drain_def)

lemma kc_write_returns:
  assumes "kc_fine W thr B T s" "B + 1 < 2 ^ 63 - 1" "w \<in> W"
  shows "\<exists>s'. kc_write (encode_command w) s = Some s' \<and> kc_fine W thr (B + 1) T s'
    \<and> length (kc_nodes s') = length (kc_nodes s)"
proof -
  obtain c where c: "\<forall>w \<in> W. command_ok w" "kc_backed W thr B T s c" "stores_at W c (applied_at s) s"
    using assms(1) by (elim kc_fineE)
  note K = kc_backedD[OF c(2)]
  show ?thesis
  proof (cases "kc_leader s")
    case None
    with c vec_backed_mono[OF K(5) assms(2)] K(1,2) show ?thesis
      by (auto simp: kc_write_def kc_fine_def kc_sound_def kc_backed_def)
  next
    case (Some i)
    then have i: "i < length (kc_nodes s)" "is_leader (kn_raft (kc_nodes s ! i))"
      using position_Some[of "\<lambda>n. is_leader (kn_raft n)" "kc_nodes s" i] by (simp_all add: kc_leader_def)
    have w: "po_command (kv_policy W c) (encode_command w)" using assms(3) by (simp add: kv_policy_def)
    obtain n acts where v: "vec_served (kv_policy W c) T (B + 1) (kc_config thr (length (kc_nodes s))) (rafts s) (boxes_of s)
        c i (Propose (encode_command w)) n acts"
      using vec_propose[OF K(5) _ _ assms(2) w, of i] i by (auto simp: nth_rafts)
    have "kc_write (encode_command w) s = kc_step (Propose (encode_command w)) i s"
      using vec_servedD(1)[OF v] Some i(1) by (simp add: kc_write_def kc_step_def nth_rafts)
    with kc_step_sound[OF c(2,3) i(1) c(1) v] c(1) show ?thesis by (auto simp: may_occur_def drives_def kc_fine_def)
  qed
qed

lemma kc_new_fine:
  assumes k: "k \<le> 2 ^ 64" and ok: "\<forall>w \<in> W. command_ok w"
  shows "kc_fine W thr 0 0 (kc_new (map word_of_nat [0..<k]) thr)"
proof -
  let ?s = "kc_new (map word_of_nat [0..<k]) thr" and ?c = "cluster_init (kc_config thr k)"
  have v: "vec_backed (kv_policy W ?c) 0 0 (kc_config thr k) (map (\<lambda>i. node_new (kc_config thr k i)) (map word_of_nat [0..<k]))
      (replicate k []) ?c"
    by (rule vec_init[OF _ _ k]) (simp_all add: kc_config_def with_seed_def with_snapshot_threshold_def config_new_def)
  have len: "length (kc_nodes ?s) = k" by (simp add: kc_new_def)
  have r: "rafts ?s = map (\<lambda>i. node_new (kc_config thr k i)) (map word_of_nat [0..<k])"
    by (simp add: rafts_def kc_new_def kc_config_def comp_def)
  have bx: "boxes_of ?s = replicate k []"
    by (simp add: boxes_of_def kc_new_def comp_def map_replicate_const)
  have n: "n_last_applied (node_new cfg) = 0 \<and> ml_base_index (n_log (node_new cfg)) = 0" for cfg
    by (simp add: node_new_def node_with_log_def Let_def case_prod_unfold ml_new_def ml_hard_state_def ml_snapshot_index_def)
  have "in_place ?s" by (simp add: in_place_def kc_new_def comp_def)
  moreover have "compacted ?s" using n len by (simp add: compacted_def r)
  moreover have "kn_store (kc_nodes ?s ! i) = kv_default \<and> applied_at ?s i = 0" if "i < k" for i
    using that n by (simp add: applied_at_def r) (simp add: kc_new_def)
  ultimately have "kc_backed W thr 0 0 ?s ?c \<and> stores_at W ?c (applied_at ?s) ?s"
    using v r bx len holds_empty by (simp add: kc_backed_def stores_at_def)
  with ok show ?thesis by (auto simp: kc_fine_def kc_sound_def)
qed

subsection \<open>Scripts\<close>

text \<open>What \<open>main\<close> does before it adds a node, in any order: rounds and writes.\<close>

datatype kv_call = Advance | Write command

fun kv_perform :: "kv_call \<Rightarrow> kv_cluster \<Rightarrow> kv_cluster option" where
  "kv_perform Advance s = kc_step_round s"
| "kv_perform (Write w) s = kc_write (encode_command w) s"

definition kv_script :: "kv_call list \<Rightarrow> kv_cluster \<Rightarrow> kv_cluster option" where
  "kv_script calls s = for_each kv_perform calls s"

definition writes :: "kv_call \<Rightarrow> bool" where
  "writes x \<longleftrightarrow> (case x of Advance \<Rightarrow> False | Write _ \<Rightarrow> True)"

definition written :: "kv_call list \<Rightarrow> command set" where
  "written calls = {w. Write w \<in> set calls}"

interpretation kvs: scripted kv_perform writes "\<lambda>_ x. case x of Advance \<Rightarrow> True | Write w \<Rightarrow> w \<in> W"
  "\<lambda>s. length (kc_nodes s)" "kc_fine W thr" for W thr
proof (unfold_locales, goal_cases)
  case (1 B T s x)
  show ?case
  proof (cases x)
    case Advance
    with kc.round_returns[OF 1(1,3)] show ?thesis
      by (auto simp: writes_def kc_step_round_def intro!: exI[of _ "T + length (kc_nodes s)"])
  next
    case (Write w)
    with 1(2,4) kc_write_returns[OF 1(1), of w] show ?thesis
      by (auto simp: writes_def intro!: exI[of _ T])
  qed
qed

lemma kv_script_fine:
  assumes "k \<le> 2 ^ 64" "k * length calls < 2 ^ 64 - 1" "length (filter writes calls) < 2 ^ 63 - 1"
    "\<forall>w \<in> written calls. command_ok w"
  obtains s B T where "kv_script calls (kc_new (map word_of_nat [0..<k]) thr) = Some s" "length (kc_nodes s) = k"
    "kc_fine (written calls) thr B T s"
proof -
  have "length (kc_nodes (kc_new (map word_of_nat [0..<k]) thr)) = k" by (simp add: kc_new_def)
  with kvs.script_returns[OF kc_new_fine[OF assms(1,4)], of calls thr] assms(2,3) that show thesis
    by (force simp: kv_script_def written_def split: kv_call.split)
qed

text \<open>The commands behind a node's store.\<close>

definition behind :: "command set \<Rightarrow> cluster \<Rightarrow> kv_node \<Rightarrow> command list \<Rightarrow> bool" where
  "behind W c n cs \<longleftrightarrow> length cs = unat (get_last_applied (kn_raft n)) \<and> set cs \<subseteq> W
     \<and> (\<forall>x < length cs. \<exists>j. (j, word_of_nat (x + 1), encode_command (cs ! x)) \<in> c_applied c)
     \<and> (\<lambda>key. kv_get key (kn_store n)) = fold command_effect cs Map.empty"

lemma stores_behind:
  assumes "stores_at W c (applied_at s) s" "n \<in> set (kc_nodes s)"
  shows "\<exists>cs. behind W c n cs"
proof -
  obtain i where i: "i < length (kc_nodes s)" "n = kc_nodes s ! i" using assms(2) by (auto simp: in_set_conv_nth)
  then have "holds W c (unat (get_last_applied (kn_raft n))) (reading (kn_store n))"
    using assms(1) by (simp add: stores_at_def applied_at_def nth_rafts get_last_applied_def)
  moreover have "(\<lambda>key. kv_get key (kn_store n)) = reading (kn_store n)"
    by (simp add: fun_eq_iff kv_get_def reading_def)
  ultimately show ?thesis unfolding holds_def behind_def by metis
qed

lemma applied_unique:
  assumes "steady pol T B vs cfg c" "(i, x, a) \<in> c_applied c" "(j, x, b) \<in> c_applied c"
  shows "a = b"
proof -
  note D = steadyD[OF assms(1)]
  obtain A where "models vs A c" using cluster_modelled[OF D(1,2)] by blast
  note M = modelsD[OF this]
  from apply_unique[OF M(1) M(3)[OF assms(2)] M(3)[OF assms(3)]] show ?thesis .
qed

text \<open>The same commands are behind two stores, as far as both have come.\<close>

lemma same_commands:
  assumes s: "steady pol T B vs cfg c"
    and cs: "\<forall>x < length cs. \<exists>j. (j, word_of_nat (x + 1), encode_command (cs ! x)) \<in> c_applied c"
    and ds: "\<forall>x < length ds. \<exists>j. (j, word_of_nat (x + 1), encode_command (ds ! x)) \<in> c_applied c"
    and le: "length cs \<le> length ds"
  shows "map encode_command cs = map encode_command (take (length cs) ds)"
proof (rule nth_equalityI)
  fix x assume "x < length (map encode_command cs)"
  then have x: "x < length cs" "x < length ds" using le by simp_all
  obtain i j where ij: "(i, word_of_nat (x + 1), encode_command (cs ! x)) \<in> c_applied c"
    "(j, word_of_nat (x + 1), encode_command (ds ! x)) \<in> c_applied c"
    using cs ds x by blast
  from applied_unique[OF s this] x show "map encode_command cs ! x = map encode_command (take (length cs) ds) ! x" by simp
qed (use le in simp)

lemma command_effect_encoded:
  assumes "list_all command_ok cs" "list_all command_ok ds" "map encode_command cs = map encode_command ds"
  shows "fold command_effect cs Map.empty = fold command_effect ds Map.empty"
proof -
  have "kv_run cs kv_default = kv_run ds kv_default" using assms(3) by (simp add: kv_run_def)
  with kv_run_effect[OF assms(1), of kv_default] kv_run_effect[OF assms(2), of kv_default] show ?thesis
    by (simp add: kv_default_def)
qed

text \<open>
  C8: The key-value cluster is a replicated state machine, for commands its text formats can
  carry. After any script of rounds and writes, below the bounds on ticks and proposals, whose
  written commands are all \<open>command_ok\<close> (UTF-8, no tab in a key, no line feed in a written
  key or value, no value that ends in a carriage return; see \<open>snapshot_loses_lines\<close>), with snapshots taken at any threshold,
  there is one list of written commands such that each node's store reads as the map that its
  first commands make, as many as the node's \<open>last_applied\<close> says, even if the node skipped some of
  them and restored a snapshot. The run returns: no step fails, and every mailbox drains.
\<close>

theorem kv_replicas_agree:
  assumes "k \<le> 2 ^ 64" "k * length calls < 2 ^ 64 - 1" "length (filter writes calls) < 2 ^ 63 - 1"
    "\<forall>w \<in> written calls. command_ok w"
  shows "\<exists>s log. kv_script calls (kc_new (map word_of_nat [0..<k]) thr) = Some s \<and> length (kc_nodes s) = k
    \<and> set log \<subseteq> written calls
    \<and> (\<forall>n \<in> set (kc_nodes s). unat (get_last_applied (kn_raft n)) \<le> length log
        \<and> (\<lambda>key. kv_get key (kn_store n))
            = fold command_effect (take (unat (get_last_applied (kn_raft n))) log) Map.empty)"
proof -
  obtain s B T where s: "kv_script calls (kc_new (map word_of_nat [0..<k]) thr) = Some s" "length (kc_nodes s) = k"
    "kc_fine (written calls) thr B T s"
    using kv_script_fine[OF assms] by metis
  obtain c where c: "kc_backed (written calls) thr B T s c" "stores_at (written calls) c (applied_at s) s"
    using s(3) by (elim kc_fineE)
  let ?W = "written calls" and ?at = "\<lambda>n. unat (get_last_applied (kn_raft n))"
  have "\<exists>cs. behind ?W c n cs" if n: "n \<in> set (kc_nodes s)" for n
    using stores_behind[OF c(2) n] .
  then obtain f where f: "\<And>n. n \<in> set (kc_nodes s) \<Longrightarrow> behind ?W c n (f n)" by metis
  show ?thesis
  proof (cases "kc_nodes s = []")
    case True
    with s show ?thesis by (intro exI[of _ s] exI[of _ "[]"]) simp
  next
    case False
    have "Max (?at ` set (kc_nodes s)) \<in> ?at ` set (kc_nodes s)" using False by (intro Max_in) simp_all
    then obtain m where m: "m \<in> set (kc_nodes s)" "Max (?at ` set (kc_nodes s)) = ?at m" by blast
    have top: "?at n \<le> ?at m" if "n \<in> set (kc_nodes s)" for n
      using that m(2) Max_ge[of "?at ` set (kc_nodes s)" "?at n"] by simp
    have "?at n \<le> length (f m) \<and> (\<lambda>key. kv_get key (kn_store n)) = fold command_effect (take (?at n) (f m)) Map.empty"
      if n: "n \<in> set (kc_nodes s)" for n
    proof -
      note fn = f[OF n, unfolded behind_def] and fm = f[OF m(1), unfolded behind_def]
      have le: "length (f n) \<le> length (f m)" using fn fm top[OF n] by simp
      have "map encode_command (f n) = map encode_command (take (length (f n)) (f m))"
        using same_commands[OF vec_steady[OF kc_backedD(5)[OF c(1)]] _ _ le] fn fm by blast
      moreover have "list_all command_ok (f n)" "list_all command_ok (take (length (f n)) (f m))"
        using fn fm assms(4) by (auto simp: list_all_iff dest: in_set_takeD)
      ultimately have "fold command_effect (f n) Map.empty = fold command_effect (take (length (f n)) (f m)) Map.empty"
        using command_effect_encoded by blast
      with fn le show ?thesis by simp
    qed
    with s(1,2) f[OF m(1)] show ?thesis by (intro exI[of _ s] exI[of _ "f m"]) (simp add: behind_def)
  qed
qed

text \<open>Enough rounds to elect a leader, and a snapshot after each command.\<close>

definition kv_sample :: "kv_call list" where
  "kv_sample = replicate 14 Advance @ [Write (Put [97] [49]), Advance, Advance, Write (Del [97]), Advance, Advance]"

lemma kv_sample_run:
  "map_option (\<lambda>s. map (\<lambda>n. (get_last_applied (kn_raft n), kv_get [97] (kn_store n))) (kc_nodes s))
     (kv_script kv_sample (kc_new (map word_of_nat [0..<3]) 1)) = Some [(1, Some [49]), (2, None), (1, Some [49])]"
  by code_simp

theorem kv_replicas_agree_witness:
  "\<exists>s log. kv_script kv_sample (kc_new (map word_of_nat [0..<3]) 1) = Some s
     \<and> map (\<lambda>n. (get_last_applied (kn_raft n), kv_get [97] (kn_store n))) (kc_nodes s)
         = [(1, Some [49]), (2, None), (1, Some [49])]
     \<and> set log \<subseteq> {Put [97] [49], Del [97]}
     \<and> (\<forall>n \<in> set (kc_nodes s). unat (get_last_applied (kn_raft n)) \<le> length log
         \<and> (\<lambda>key. kv_get key (kn_store n))
             = fold command_effect (take (unat (get_last_applied (kn_raft n))) log) Map.empty)"
proof -
  have w: "written kv_sample = {Put [97] [49], Del [97]}" by (auto simp: written_def kv_sample_def)
  have c: "length kv_sample = 20" "length (filter writes kv_sample) = 2" by code_simp+
  have ok: "\<forall>w \<in> written kv_sample. command_ok w" unfolding w by code_simp
  let ?run = "kv_script kv_sample (kc_new (map word_of_nat [0..<3]) 1)"
  obtain s log where s: "?run = Some s" and log: "set log \<subseteq> {Put [97] [49], Del [97]}"
    "\<forall>n \<in> set (kc_nodes s). unat (get_last_applied (kn_raft n)) \<le> length log
         \<and> (\<lambda>key. kv_get key (kn_store n))
             = fold command_effect (take (unat (get_last_applied (kn_raft n))) log) Map.empty"
    using kv_replicas_agree[of 3 kv_sample 1, OF _ _ _ ok] c unfolding w by auto
  have m: "map (\<lambda>n. (get_last_applied (kn_raft n), kv_get [97] (kn_store n))) (kc_nodes s)
      = [(1, Some [49]), (2, None), (1, Some [49])]"
    using kv_sample_run s by simp
  show ?thesis by (intro exI[of _ s] exI[of _ log] conjI s m log)
qed

end
