(* ===== verification/Generic_Node.thy ===== *)
theory Generic_Node
  imports Node_Step
begin

text \<open>
  \<open>RaftNode<L>\<close> of \<^verbatim>\<open>src/node.rs\<close> over any log: the same methods as in \<^verbatim>\<open>Node_State\<close>,
  \<^verbatim>\<open>Node_Replication\<close> and \<^verbatim>\<open>Node_Step\<close>, which are those of the default \<open>L = MemoryLog\<close>, with the
  methods of the trait \<open>RaftLog\<close> (\<^verbatim>\<open>src/log.rs\<close>) as a parameter, the record \<open>log_ops\<close>. Its writes
  may fail, and a failed write leaves the node as far as the method had got. The methods that touch
  no log are those of \<^verbatim>\<open>Node_State\<close>. Definitions only.
\<close>

record 'l log_ops =
  lo_last_index :: "'l \<Rightarrow> raft_index"
  lo_last_term :: "'l \<Rightarrow> raft_term"
  lo_term_at :: "'l \<Rightarrow> raft_index \<Rightarrow> raft_term option"
  lo_entry :: "'l \<Rightarrow> raft_index \<Rightarrow> log_entry option"
  lo_entries :: "'l \<Rightarrow> raft_index \<Rightarrow> raft_index \<Rightarrow> log_entry list"
  lo_append :: "'l \<Rightarrow> log_entry list \<Rightarrow> 'l \<times> (rerror + unit)"
  lo_truncate :: "'l \<Rightarrow> raft_index \<Rightarrow> 'l \<times> (rerror + unit)"
  lo_hard_state :: "'l \<Rightarrow> hard_state"
  lo_set_hard_state :: "'l \<Rightarrow> hard_state \<Rightarrow> 'l \<times> (rerror + unit)"
  lo_sync :: "'l \<Rightarrow> 'l \<times> (rerror + unit)"
  lo_snapshot_index :: "'l \<Rightarrow> raft_index"
  lo_snapshot :: "'l \<Rightarrow> snapshot option"
  lo_apply_snapshot :: "'l \<Rightarrow> snapshot \<Rightarrow> 'l \<times> (rerror + unit)"

subsection \<open>Construction and configuration\<close>

function latest_config_on ::
  "'l log_ops \<Rightarrow> 'l \<Rightarrow> raft_index \<Rightarrow> raft_index \<Rightarrow> (node_id list \<times> raft_index) option" where
  "latest_config_on L l base i =
     (if base < i
      then (case Option.bind (lo_entry L l i) members of
              Some ms \<Rightarrow> Some (ms, i)
            | None \<Rightarrow> latest_config_on L l base (i - 1))
      else None)"
  by pat_completeness auto
termination
  by (relation "measure (\<lambda>(L, l, base, i). unat i)") (auto simp: unat_minus_one_less)

declare latest_config_on.simps [simp del]

definition node_with_log_on :: "'l log_ops \<Rightarrow> raft_config \<Rightarrow> 'l \<Rightarrow> 'l raft_node" where
  "node_with_log_on L c l =
     (let hard = lo_hard_state L l;
          base = lo_snapshot_index L l;
          bootstrap = sorted_members (cfg_peers c @ [cfg_id c]);
          base_config = (case lo_snapshot L l of
              Some s \<Rightarrow> if sn_config s \<noteq> [] then sn_config s else bootstrap
            | None \<Rightarrow> bootstrap);
          (voters, config_index) = (case latest_config_on L l base (lo_last_index L l) of
              Some (ms, i) \<Rightarrow> (ms, i)
            | None \<Rightarrow> (base_config, 0));
          (timeout, r) = gen_range (rng_new (cfg_seed c))
                           (cfg_election_timeout_min c) (cfg_election_timeout_max c)
      in \<lparr>n_id = cfg_id c, n_voters = voters, n_base_config = base_config,
          n_config_index = config_index,
          n_election_timeout_min = cfg_election_timeout_min c,
          n_election_timeout_max = cfg_election_timeout_max c,
          n_heartbeat_interval = cfg_heartbeat_interval c,
          n_max_batch = cfg_max_batch c,
          n_snapshot_threshold = cfg_snapshot_threshold c,
          n_log = l, n_role = Follower,
          n_current_term = hs_term hard, n_voted_for = hs_voted_for hard,
          n_leader_id = None, n_commit_index = base, n_last_applied = base,
          n_election_elapsed = 0, n_heartbeat_elapsed = 0, n_election_timeout = timeout,
          n_votes = [], n_pre_voting = False, n_pre_votes = [], n_progress = [],
          n_snapshot_hinted_at = base, n_transfer_target = None, n_rng = r\<rparr>)"

definition rebuild_progress_on :: "'l log_ops \<Rightarrow> 'l raft_node \<Rightarrow> 'l raft_node" where
  "rebuild_progress_on L n =
     (let next = lo_last_index L (n_log n) + 1;
          old = n_progress n
      in n\<lparr>n_progress :=
           map (\<lambda>i. case find (\<lambda>p. pr_id p = i) old of
                      Some p \<Rightarrow> p
                    | None \<Rightarrow> \<lparr>pr_id = i, pr_next_index = next, pr_match_index = 0,
                                pr_state = Probe\<rparr>)
               (filter (\<lambda>i. i \<noteq> n_id n) (n_voters n))\<rparr>)"

definition set_config_on :: "'l log_ops \<Rightarrow> 'l raft_node \<Rightarrow> node_id list \<Rightarrow> raft_index \<Rightarrow> action list \<Rightarrow> 'l ctx_of" where
  "set_config_on L n voters config_index acts =
     (let changed = (voters \<noteq> n_voters n);
          n1 = n\<lparr>n_voters := voters, n_config_index := config_index\<rparr>;
          n2 = (if n_role n1 = Leader then rebuild_progress_on L n1 else n1)
      in (n2, if changed then acts @ [MembershipChanged (n_voters n2)] else acts))"

definition refresh_config_on :: "'l log_ops \<Rightarrow> 'l raft_node \<Rightarrow> action list \<Rightarrow> 'l ctx_of" where
  "refresh_config_on L n acts =
     (case latest_config_on L (n_log n) (lo_snapshot_index L (n_log n)) (lo_last_index L (n_log n)) of
        Some (voters, config_index) \<Rightarrow> set_config_on L n voters config_index acts
      | None \<Rightarrow> set_config_on L n (n_base_config n) 0 acts)"

definition config_at_on :: "'l log_ops \<Rightarrow> 'l raft_node \<Rightarrow> raft_index \<Rightarrow> node_id list" where
  "config_at_on L n i =
     (case latest_config_on L (n_log n) (lo_snapshot_index L (n_log n))
             (min i (lo_last_index L (n_log n))) of
        Some (ms, _) \<Rightarrow> ms
      | None \<Rightarrow> n_base_config n)"

subsection \<open>Hard state\<close>

definition persist_hard_state_on :: "'l log_ops \<Rightarrow> 'l raft_node \<Rightarrow> 'l raft_node \<times> (rerror + unit)" where
  "persist_hard_state_on L n =
     and_then (log_op n (lo_set_hard_state L (n_log n)
                 \<lparr>hs_term = n_current_term n, hs_voted_for = n_voted_for n\<rparr>))
       (\<lambda>n _. log_op n (lo_sync L (n_log n)))"

subsection \<open>Applying and committing\<close>

definition maybe_hint_snapshot_on :: "'l log_ops \<Rightarrow> 'l raft_node \<Rightarrow> action list \<Rightarrow> 'l ctx_of" where
  "maybe_hint_snapshot_on L n acts =
     (if n_snapshot_threshold n = 0 then (n, acts)
      else let base = lo_snapshot_index L (n_log n);
               grown = (if n_last_applied n < base then 0 else n_last_applied n - base)
           in if n_snapshot_threshold n \<le> grown
                 \<and> n_snapshot_hinted_at n < n_last_applied n
              then (case lo_term_at L (n_log n) (n_last_applied n) of
                      Some t \<Rightarrow> (n\<lparr>n_snapshot_hinted_at := n_last_applied n\<rparr>,
                                 acts @ [SnapshotHint (n_last_applied n) t])
                    | None \<Rightarrow> (n, acts))
              else (n, acts))"

definition apply_action_on :: "'l log_ops \<Rightarrow> 'l \<Rightarrow> raft_index \<Rightarrow> action list" where
  "apply_action_on L l i =
     (case lo_entry L l i of
        Some e \<Rightarrow> (if members e = None then [Apply (le_index e) (le_term e) (le_command e)] else [])
      | None \<Rightarrow> [])"

function drain_loop_on :: "'l log_ops \<Rightarrow> 'l raft_node \<Rightarrow> action list \<Rightarrow> 'l ctx_of" where
  "drain_loop_on L n acts =
     (if n_last_applied n < n_commit_index n
      then let n1 = n\<lparr>n_last_applied := n_last_applied n + 1\<rparr>
           in drain_loop_on L n1 (acts @ apply_action_on L (n_log n1) (n_last_applied n1))
      else (n, acts))"
  by pat_completeness auto
termination
proof (relation "measure (\<lambda>(L, n, acts). unat (n_commit_index n) - unat (n_last_applied n))",
    goal_cases)
  case (2 L n acts x)
  then have lt: "unat (n_last_applied n) < unat (n_commit_index n)"
    by (simp add: word_less_nat_alt)
  then have "unat (n_last_applied n + 1) = unat (n_last_applied n) + 1"
    using unsigned_less[of "n_commit_index n", where ?'a = nat]
    by (intro unat_plus_one) simp
  with lt 2 show ?case by simp
qed simp

declare drain_loop_on.simps [simp del]

definition drain_applies_on :: "'l log_ops \<Rightarrow> 'l raft_node \<Rightarrow> action list \<Rightarrow> 'l ctx_of" where
  "drain_applies_on L n acts = (let (n1, acts1) = drain_loop_on L n acts in maybe_hint_snapshot_on L n1 acts1)"

function commit_scan_on :: "'l log_ops \<Rightarrow> 'l raft_node \<Rightarrow> raft_index \<Rightarrow> raft_index" where
  "commit_scan_on L n i =
     (if n_commit_index n < i
      then (case lo_term_at L (n_log n) i of
              Some t \<Rightarrow>
                if t = n_current_term n
                then if quorum n \<le> replicas n i then i else commit_scan_on L n (i - 1)
                else if t < n_current_term n then n_commit_index n
                else commit_scan_on L n (i - 1)
            | None \<Rightarrow> commit_scan_on L n (i - 1))
      else n_commit_index n)"
  by pat_completeness auto
termination
  by (relation "measure (\<lambda>(L, n, i). unat i)") (auto simp: unat_minus_one_less)

declare commit_scan_on.simps [simp del]

definition advance_commit_on :: "'l log_ops \<Rightarrow> 'l raft_node \<Rightarrow> action list \<Rightarrow> 'l ctx_of" where
  "advance_commit_on L n acts =
     (let new_commit = commit_scan_on L n (lo_last_index L (n_log n))
      in if n_commit_index n < new_commit
         then let (n1, acts1) = drain_applies_on L (n\<lparr>n_commit_index := new_commit\<rparr>) acts
              in if n_role n1 = Leader \<and> \<not> is_voter n1 \<and> n_config_index n1 \<noteq> 0
                    \<and> n_config_index n1 \<le> n_commit_index n1
                 then (step_down_to_follower n1, acts1)
                 else (n1, acts1)
         else (n, acts))"

subsection \<open>Sending\<close>

definition send_snapshot_on :: "'l log_ops \<Rightarrow> nat \<Rightarrow> 'l raft_node \<Rightarrow> action list \<Rightarrow> 'l ctx_of" where
  "send_snapshot_on L i n acts =
     (case lo_snapshot L (n_log n) of
        Some s \<Rightarrow>
          let n1 = upd_progress i (\<lambda>p. p\<lparr>pr_state := Probe\<rparr>) n
          in (n1, acts @ [Send (pr_id (n_progress n1 ! i))
                (InstallSnapshot \<lparr>ins_term = n_current_term n1, ins_leader = n_id n1,
                                  ins_snapshot = s\<rparr>)])
      | None \<Rightarrow> (n, acts))"

definition send_append_on :: "'l log_ops \<Rightarrow> nat \<Rightarrow> 'l raft_node \<Rightarrow> action list \<Rightarrow> 'l ctx_of" where
  "send_append_on L i n acts =
     (let next = pr_next_index (n_progress n ! i)
      in if next \<le> lo_snapshot_index L (n_log n) then send_snapshot_on L i n acts
         else let peer = pr_id (n_progress n ! i);
                  state = pr_state (n_progress n ! i);
                  prev_log_index = next - 1;
                  prev_log_term = (case lo_term_at L (n_log n) prev_log_index of
                                     Some t \<Rightarrow> t | None \<Rightarrow> 0);
                  last_i = lo_last_index L (n_log n);
                  entries = (if next \<le> last_i
                             then lo_entries L (n_log n) next
                                    (min last_i (next + n_max_batch n - 1))
                             else []);
                  count = (of_nat (length entries) :: u64);
                  acts1 = acts @ [Send peer (AppendEntries
                     \<lparr>ae_term = n_current_term n, ae_leader = n_id n,
                      ae_prev_log_index = prev_log_index, ae_prev_log_term = prev_log_term,
                      ae_entries = entries, ae_leader_commit = n_commit_index n\<rparr>)]
              in if 0 < count \<and> state = Replicate
                 then (upd_progress i (\<lambda>p. p\<lparr>pr_next_index := next + count\<rparr>) n, acts1)
                 else (n, acts1))"

definition replicate_to_all_on :: "'l log_ops \<Rightarrow> 'l raft_node \<Rightarrow> action list \<Rightarrow> 'l ctx_of" where
  "replicate_to_all_on L n acts =
     fold (\<lambda>i (n, acts). send_append_on L i n acts) [0..<length (n_progress n)] (n, acts)"

definition replicate_to_streaming_on :: "'l log_ops \<Rightarrow> 'l raft_node \<Rightarrow> action list \<Rightarrow> 'l ctx_of" where
  "replicate_to_streaming_on L n acts =
     fold (\<lambda>i (n, acts). if pr_state (n_progress n ! i) = Replicate
                         then send_append_on L i n acts else (n, acts))
       [0..<length (n_progress n)] (n, acts)"

subsection \<open>Requests\<close>

definition propose_on :: "'l log_ops \<Rightarrow> 'l raft_node \<Rightarrow> byte list \<Rightarrow> 'l raft_node \<times> (rerror + action list)" where
  "propose_on L n command =
     (if n_role n \<noteq> Leader \<or> n_transfer_target n \<noteq> None
      then (n, Inl (NotLeader (n_leader_id n)))
      else let index = lo_last_index L (n_log n) + 1;
               entry = entry_new (n_current_term n) index command
           in and_then (log_op n (lo_append L (n_log n) [entry])) (\<lambda>n _.
              and_then (log_op n (lo_sync L (n_log n))) (\<lambda>n _.
                let (n1, acts1) = replicate_to_streaming_on L n [];
                    (n2, acts2) = advance_commit_on L n1 acts1
                in (n2, Inr acts2))))"

definition maybe_send_timeout_now_on :: "'l log_ops \<Rightarrow> node_id \<Rightarrow> 'l raft_node \<Rightarrow> action list \<Rightarrow> 'l ctx_of" where
  "maybe_send_timeout_now_on L target n acts =
     (if n_transfer_target n \<noteq> Some target then (n, acts)
      else let caught_up = (case progress_index n target of
                 Some i \<Rightarrow> lo_last_index L (n_log n) \<le> pr_match_index (n_progress n ! i)
               | None \<Rightarrow> False)
           in if caught_up
              then (n\<lparr>n_transfer_target := None\<rparr>,
                    acts @ [Send target (TimeoutNow
                              \<lparr>tn_term = n_current_term n, tn_leader = n_id n\<rparr>)])
              else (n, acts))"

definition transfer_leadership_on :: "'l log_ops \<Rightarrow> 'l raft_node \<Rightarrow> node_id \<Rightarrow> 'l raft_node \<times> (rerror + action list)" where
  "transfer_leadership_on L n target =
     (if n_role n \<noteq> Leader \<or> target = n_id n \<or> target \<notin> set (n_voters n) then (n, Inr [])
      else let n1 = n\<lparr>n_transfer_target := Some target\<rparr>;
               (n2, acts2) = maybe_send_timeout_now_on L target n1 [];
               (n3, acts3) = (if n_transfer_target n2 \<noteq> None
                              then (case progress_index n2 target of
                                      Some i \<Rightarrow> send_append_on L i n2 acts2
                                    | None \<Rightarrow> (n2, acts2))
                              else (n2, acts2))
           in (n3, Inr acts3))"

definition change_membership_on ::
  "'l log_ops \<Rightarrow> 'l raft_node \<Rightarrow> node_id option \<Rightarrow> node_id option \<Rightarrow> 'l raft_node \<times> (rerror + action list)" where
  "change_membership_on L n add remove =
     (if n_role n \<noteq> Leader \<or> n_transfer_target n \<noteq> None
      then (n, Inl (NotLeader (n_leader_id n)))
      else if n_commit_index n < n_config_index n then (n, Inl ConfigInProgress)
      else let ms0 = n_voters n;
               ms1 = (case add of Some i \<Rightarrow> if i \<in> set ms0 then ms0 else ms0 @ [i] | None \<Rightarrow> ms0);
               ms2 = (case remove of Some i \<Rightarrow> filter (\<lambda>m. m \<noteq> i) ms1 | None \<Rightarrow> ms1);
               ms = sorted_members ms2
           in if ms = n_voters n then (n, Inr [])
              else let index = lo_last_index L (n_log n) + 1;
                       entry = entry_config (n_current_term n) index ms
                   in and_then (log_op n (lo_append L (n_log n) [entry])) (\<lambda>n _.
                      and_then (log_op n (lo_sync L (n_log n))) (\<lambda>n _.
                        let (n1, acts1) = set_config_on L n ms index [];
                            (n2, acts2) = replicate_to_all_on L n1 acts1;
                            (n3, acts3) = advance_commit_on L n2 acts2
                        in (n3, Inr acts3))))"

subsection \<open>Conflict hints\<close>

function first_index_of_term_on :: "'l log_ops \<Rightarrow> 'l \<Rightarrow> raft_term \<Rightarrow> raft_index \<Rightarrow> raft_index" where
  "first_index_of_term_on L l t i =
     (if 1 < i \<and> lo_term_at L l (i - 1) = Some t then first_index_of_term_on L l t (i - 1) else i)"
  by pat_completeness auto
termination
  by (relation "measure (\<lambda>(L, l, t, i). unat i)") (auto simp: unat_minus_one_less)

declare first_index_of_term_on.simps [simp del]

function last_index_of_term_from_on ::
  "'l log_ops \<Rightarrow> 'l \<Rightarrow> raft_term \<Rightarrow> raft_index \<Rightarrow> raft_index option" where
  "last_index_of_term_from_on L l t i =
     (if 1 \<le> i
      then (case lo_term_at L l i of
              Some t' \<Rightarrow> if t' = t then Some i
                         else if t' < t then None
                         else last_index_of_term_from_on L l t (i - 1)
            | None \<Rightarrow> last_index_of_term_from_on L l t (i - 1))
      else None)"
  by pat_completeness auto
termination
proof (relation "measure (\<lambda>(L, l, t, i). unat i)", goal_cases)
  case (2 L l t i)
  then have "0 < i" by (metis word_gt_0 word_le_0_iff zero_neq_one)
  then show ?case by (simp add: unat_minus_one_less)
next
  case (3 L l t i)
  then have "0 < i" by (metis word_gt_0 word_le_0_iff zero_neq_one)
  then show ?case by (simp add: unat_minus_one_less)
qed simp

declare last_index_of_term_from_on.simps [simp del]

definition last_index_of_term_on :: "'l log_ops \<Rightarrow> 'l \<Rightarrow> raft_term \<Rightarrow> raft_index option" where
  "last_index_of_term_on L l t = last_index_of_term_from_on L l t (lo_last_index L l)"

definition rejected_next_on ::
  "'l log_ops \<Rightarrow> 'l raft_node \<Rightarrow> raft_index \<Rightarrow> raft_index \<Rightarrow> raft_index \<Rightarrow> raft_term \<Rightarrow> raft_index" where
  "rejected_next_on L n current_next match_index conflict_index conflict_term =
     (let (lower, ceil) = rejected_range current_next match_index;
          target = max conflict_index 1;
          target' = (if 0 < conflict_term
                     then (case last_index_of_term_on L (n_log n) conflict_term of
                             Some last_i \<Rightarrow> last_i + 1 | None \<Rightarrow> target)
                     else target)
      in clamp target' lower ceil)"

subsection \<open>Replies\<close>

definition handle_append_reply_on :: "'l log_ops \<Rightarrow> append_entries_reply \<Rightarrow> 'l raft_node \<Rightarrow> action list \<Rightarrow> 'l ctx_of" where
  "handle_append_reply_on L reply n acts =
     (if n_role n \<noteq> Leader \<or> aer_term reply \<noteq> n_current_term n then (n, acts)
      else case progress_index n (aer_from reply) of
        None \<Rightarrow> (n, acts)
      | Some i \<Rightarrow>
          if aer_success reply
          then let n1 = (if pr_match_index (n_progress n ! i) < aer_match_index reply
                         then upd_progress i (\<lambda>p. p\<lparr>pr_match_index := aer_match_index reply\<rparr>) n
                         else n);
                   want_next = pr_match_index (n_progress n1 ! i) + 1;
                   n2 = (if pr_next_index (n_progress n1 ! i) < want_next
                         then upd_progress i (\<lambda>p. p\<lparr>pr_next_index := want_next\<rparr>) n1 else n1);
                   n3 = upd_progress i (\<lambda>p. p\<lparr>pr_state := Replicate\<rparr>) n2;
                   (n4, acts4) = advance_commit_on L n3 acts;
                   (n5, acts5) = maybe_send_timeout_now_on L (aer_from reply) n4 acts4
               in if n_role n5 = Leader
                     \<and> pr_next_index (n_progress n5 ! i) \<le> lo_last_index L (n_log n5)
                  then send_append_on L i n5 acts5 else (n5, acts5)
          else let next = pr_next_index (n_progress n ! i);
                   matched = pr_match_index (n_progress n ! i);
                   n1 = upd_progress i (\<lambda>p. p\<lparr>pr_next_index :=
                          rejected_next_on L n next matched (aer_conflict_index reply)
                            (aer_conflict_term reply)\<rparr>) n;
                   n2 = upd_progress i (\<lambda>p. p\<lparr>pr_state := Probe\<rparr>) n1
               in send_append_on L i n2 acts)"

definition handle_install_snapshot_reply_on ::
  "'l log_ops \<Rightarrow> install_snapshot_reply \<Rightarrow> 'l raft_node \<Rightarrow> action list \<Rightarrow> 'l ctx_of" where
  "handle_install_snapshot_reply_on L reply n acts =
     (if n_role n \<noteq> Leader \<or> insr_term reply \<noteq> n_current_term n then (n, acts)
      else case progress_index n (insr_from reply) of
        None \<Rightarrow> (n, acts)
      | Some i \<Rightarrow>
          let n1 = (if pr_match_index (n_progress n ! i) < insr_last_index reply
                    then upd_progress i (\<lambda>p. p\<lparr>pr_match_index := insr_last_index reply\<rparr>) n
                    else n);
              n2 = upd_progress i (\<lambda>p. p\<lparr>pr_next_index := pr_match_index p + 1\<rparr>) n1;
              n3 = upd_progress i (\<lambda>p. p\<lparr>pr_state := Replicate\<rparr>) n2;
              (n4, acts4) = advance_commit_on L n3 acts;
              (n5, acts5) = maybe_send_timeout_now_on L (insr_from reply) n4 acts4
          in if n_role n5 = Leader
                \<and> pr_next_index (n_progress n5 ! i) \<le> lo_last_index L (n_log n5)
             then send_append_on L i n5 acts5 else (n5, acts5))"

subsection \<open>Elections\<close>

definition become_leader_on :: "'l log_ops \<Rightarrow> 'l raft_node \<Rightarrow> action list \<Rightarrow> 'l ctx_of" where
  "become_leader_on L n acts =
     (let n1 = n\<lparr>n_role := Leader, n_leader_id := Some (n_id n), n_heartbeat_elapsed := 0,
                 n_transfer_target := None, n_pre_voting := False, n_pre_votes := []\<rparr>;
          n2 = rebuild_progress_on L n1;
          (n3, acts3) = replicate_to_all_on L n2 acts
      in advance_commit_on L n3 acts3)"

definition start_election_on :: "'l log_ops \<Rightarrow> bool \<Rightarrow> 'l raft_node \<Rightarrow> action list \<Rightarrow> ('l, unit) fallible_of" where
  "start_election_on L force n acts =
     (let n1 = n\<lparr>n_role := Candidate, n_current_term := n_current_term n + 1,
                 n_voted_for := Some (n_id n), n_leader_id := None,
                 n_transfer_target := None, n_pre_voting := False, n_pre_votes := [],
                 n_progress := [], n_votes := [n_id n]\<rparr>;
          n2 = reset_election_timer n1
      in and_then (with_acts acts (persist_hard_state_on L n2)) (\<lambda>(n, acts) _.
           if quorum n \<le> length (n_votes n)
           then (become_leader_on L n acts, Inr ())
           else ((n, acts @ map (\<lambda>peer. Send peer (RequestVote
                    \<lparr>rv_term = n_current_term n, rv_candidate = n_id n,
                     rv_last_log_index = lo_last_index L (n_log n),
                     rv_last_log_term = lo_last_term L (n_log n), rv_force = force\<rparr>))
                   (filter (\<lambda>peer. peer \<noteq> n_id n) (n_voters n))), Inr ())))"

definition start_pre_vote_on :: "'l log_ops \<Rightarrow> 'l raft_node \<Rightarrow> action list \<Rightarrow> ('l, unit) fallible_of" where
  "start_pre_vote_on L n acts =
     (let n1 = n\<lparr>n_role := Follower, n_leader_id := None, n_pre_voting := True,
                 n_pre_votes := [n_id n]\<rparr>;
          n2 = reset_election_timer n1
      in if quorum n2 \<le> length (n_pre_votes n2) then start_election_on L False n2 acts
         else ((n2, acts @ map (\<lambda>peer. Send peer (PreVote
                  \<lparr>pv_term = n_current_term n2 + 1, pv_candidate = n_id n2,
                   pv_last_log_index = lo_last_index L (n_log n2),
                   pv_last_log_term = lo_last_term L (n_log n2)\<rparr>))
                 (filter (\<lambda>peer. peer \<noteq> n_id n2) (n_voters n2))), Inr ()))"

definition tick_on :: "'l log_ops \<Rightarrow> 'l raft_node \<Rightarrow> ('l, unit) fallible_of" where
  "tick_on L n =
     (if n_role n = Leader
      then let n1 = n\<lparr>n_heartbeat_elapsed := n_heartbeat_elapsed n + 1\<rparr>
           in if n_heartbeat_interval n1 \<le> n_heartbeat_elapsed n1
              then (replicate_to_all_on L (n1\<lparr>n_heartbeat_elapsed := 0\<rparr>) [], Inr ())
              else ((n1, []), Inr ())
      else let n1 = n\<lparr>n_election_elapsed := n_election_elapsed n + 1\<rparr>
           in if n_election_timeout n1 \<le> n_election_elapsed n1 \<and> is_voter n1
              then start_pre_vote_on L n1 []
              else ((n1, []), Inr ()))"

definition become_follower_on :: "'l log_ops \<Rightarrow> raft_term \<Rightarrow> node_id option \<Rightarrow> 'l raft_node \<Rightarrow> 'l raft_node \<times> (rerror + unit)" where
  "become_follower_on L t leader n =
     (let hard_state_changed = n_current_term n < t;
          n1 = n\<lparr>n_role := Follower\<rparr>;
          n2 = (if n_current_term n1 < t
                then n1\<lparr>n_current_term := t, n_voted_for := None\<rparr> else n1);
          n3 = n2\<lparr>n_leader_id := leader, n_transfer_target := None, n_pre_voting := False,
                  n_pre_votes := [], n_votes := [], n_progress := []\<rparr>
      in if hard_state_changed then persist_hard_state_on L n3 else (n3, Inr ()))"

definition candidate_log_up_to_date_on :: "'l log_ops \<Rightarrow> 'l raft_node \<Rightarrow> raft_term \<Rightarrow> raft_index \<Rightarrow> bool" where
  "candidate_log_up_to_date_on L n cand_last_term cand_last_index =
     (let my_term = lo_last_term L (n_log n); my_index = lo_last_index L (n_log n)
      in my_term < cand_last_term
         \<or> (cand_last_term = my_term \<and> my_index \<le> cand_last_index))"

definition handle_request_vote_on :: "'l log_ops \<Rightarrow> request_vote \<Rightarrow> 'l raft_node \<Rightarrow> action list \<Rightarrow> ('l, unit) fallible_of" where
  "handle_request_vote_on L rv n acts =
     (let reply = (\<lambda>n granted. Send (rv_candidate rv) (RequestVoteReply
              \<lparr>rvr_term = n_current_term n, rvr_vote_granted = granted, rvr_from = n_id n\<rparr>))
      in if n_current_term n \<le> rv_term rv
            \<and> (case n_voted_for n of None \<Rightarrow> True | Some c \<Rightarrow> c = rv_candidate rv)
            \<and> candidate_log_up_to_date_on L n (rv_last_log_term rv) (rv_last_log_index rv)
         then let n1 = n\<lparr>n_voted_for := Some (rv_candidate rv)\<rparr>
              in and_then (with_acts acts (persist_hard_state_on L n1)) (\<lambda>(n, acts) _.
                   let n2 = reset_election_timer n
                   in ((n2, acts @ [reply n2 True]), Inr ()))
         else ((n, acts @ [reply n False]), Inr ()))"

definition handle_vote_reply_on :: "'l log_ops \<Rightarrow> request_vote_reply \<Rightarrow> 'l raft_node \<Rightarrow> action list \<Rightarrow> 'l ctx_of" where
  "handle_vote_reply_on L reply n acts =
     (if n_role n \<noteq> Candidate \<or> rvr_term reply \<noteq> n_current_term n then (n, acts)
      else if rvr_vote_granted reply \<and> rvr_from reply \<notin> set (n_votes n)
      then let n1 = n\<lparr>n_votes := n_votes n @ [rvr_from reply]\<rparr>
           in if quorum n1 \<le> length (n_votes n1) then become_leader_on L n1 acts else (n1, acts)
      else (n, acts))"

definition handle_pre_vote_on :: "'l log_ops \<Rightarrow> pre_vote \<Rightarrow> 'l raft_node \<Rightarrow> action list \<Rightarrow> 'l ctx_of" where
  "handle_pre_vote_on L pv n acts =
     (let granted = (n_current_term n \<le> pv_term pv \<and> \<not> have_active_leader n
            \<and> candidate_log_up_to_date_on L n (pv_last_log_term pv) (pv_last_log_index pv))
      in (n, acts @ [Send (pv_candidate pv) (PreVoteReply
            \<lparr>pvr_term = n_current_term n, pvr_vote_granted = granted, pvr_from = n_id n\<rparr>)]))"

definition handle_pre_vote_reply_on :: "'l log_ops \<Rightarrow> pre_vote_reply \<Rightarrow> 'l raft_node \<Rightarrow> action list \<Rightarrow> ('l, unit) fallible_of" where
  "handle_pre_vote_reply_on L reply n acts =
     (if \<not> n_pre_voting n then ((n, acts), Inr ())
      else if n_current_term n < pvr_term reply
      then with_acts acts (become_follower_on L (pvr_term reply) None
                             (n\<lparr>n_pre_voting := False, n_pre_votes := []\<rparr>))
      else if pvr_vote_granted reply \<and> pvr_from reply \<notin> set (n_pre_votes n)
      then let n1 = n\<lparr>n_pre_votes := n_pre_votes n @ [pvr_from reply]\<rparr>
           in if quorum n1 \<le> length (n_pre_votes n1)
              then start_election_on L False n1 acts else ((n1, acts), Inr ())
      else ((n, acts), Inr ()))"

definition handle_timeout_now_on :: "'l log_ops \<Rightarrow> timeout_now \<Rightarrow> 'l raft_node \<Rightarrow> action list \<Rightarrow> ('l, unit) fallible_of" where
  "handle_timeout_now_on L rpc n acts =
     (if tn_term rpc < n_current_term n \<or> \<not> is_voter n then ((n, acts), Inr ())
      else start_election_on L True n acts)"

subsection \<open>AppendEntries on the follower\<close>

fun reconcile_scan_on ::
  "'l log_ops \<Rightarrow> 'l \<Rightarrow> log_entry list \<Rightarrow> 'l \<times> (rerror + log_entry list \<times> bool)" where
  "reconcile_scan_on L l [] = (l, Inr ([], False))"
| "reconcile_scan_on L l (e # es) =
     (case lo_term_at L l (le_index e) of
        Some t \<Rightarrow>
          if t = le_term e then reconcile_scan_on L l es
          else and_then (lo_truncate L l (le_index e)) (\<lambda>l _. (l, Inr (e # es, True)))
      | None \<Rightarrow> (l, Inr (e # es, False)))"

definition append_from_leader_on ::
  "'l log_ops \<Rightarrow> log_entry list \<Rightarrow> 'l \<Rightarrow> 'l \<times> (rerror + raft_index \<times> bool)" where
  "append_from_leader_on L es l =
     and_then (reconcile_scan_on L l es) (\<lambda>l (rest, truncated).
       if rest \<noteq> []
       then and_then (lo_append L l rest) (\<lambda>l _.
            and_then (lo_sync L l) (\<lambda>l _. (l, Inr (le_index (last es), truncated))))
       else (l, Inr (le_index (last es), truncated)))"

definition handle_append_entries_on :: "'l log_ops \<Rightarrow> append_entries \<Rightarrow> 'l raft_node \<Rightarrow> action list \<Rightarrow> ('l, unit) fallible_of" where
  "handle_append_entries_on L ae n acts =
     (if ae_term ae < n_current_term n
      then ((n, acts @ [ae_reply n ae False 0 0 0]), Inr ())
      else
        let n1 = reset_election_timer
                   (n\<lparr>n_role := Follower, n_leader_id := Some (ae_leader ae),
                      n_pre_voting := False\<rparr>);
            base = lo_snapshot_index L (n_log n1)
        in if ae_prev_log_index ae < base
           then let (n2, acts2) =
                      (if n_commit_index n1 < ae_leader_commit ae
                       then drain_applies_on L
                              (n1\<lparr>n_commit_index := min (ae_leader_commit ae) base\<rparr>) acts
                       else (n1, acts))
                in ((n2, acts2 @ [ae_reply n2 ae True base 0 0]), Inr ())
           else if lo_term_at L (n_log n1) (ae_prev_log_index ae) \<noteq> Some (ae_prev_log_term ae)
           then let last_i = lo_last_index L (n_log n1)
                in if last_i < ae_prev_log_index ae
                   then ((n1, acts @ [ae_reply n1 ae False 0 (last_i + 1) 0]), Inr ())
                   else let conflict_term =
                              (case lo_term_at L (n_log n1) (ae_prev_log_index ae) of
                                 Some t \<Rightarrow> t | None \<Rightarrow> 0)
                        in ((n1, acts @ [ae_reply n1 ae False 0
                               (first_index_of_term_on L (n_log n1) conflict_term
                                  (ae_prev_log_index ae)) conflict_term]), Inr ())
           else and_then
                  (with_acts acts
                     (if ae_entries ae = [] then (n1, Inr (ae_prev_log_index ae, False))
                      else log_op n1 (append_from_leader_on L (ae_entries ae) (n_log n1))))
                  (\<lambda>(n, acts) (match_index, truncated).
                     let (n2, acts2) =
                           (if truncated \<or> list_ex (\<lambda>e. members e \<noteq> None) (ae_entries ae)
                            then refresh_config_on L n acts else (n, acts));
                         (n3, acts3) =
                           (if n_commit_index n2 < ae_leader_commit ae
                            then drain_applies_on L
                                   (n2\<lparr>n_commit_index := min (ae_leader_commit ae) match_index\<rparr>)
                                   acts2
                            else (n2, acts2))
                     in ((n3, acts3 @ [ae_reply n3 ae True match_index 0 0]), Inr ())))"

subsection \<open>Snapshots\<close>

definition handle_snapshot_event_on ::
  "'l log_ops \<Rightarrow> raft_index \<Rightarrow> byte list \<Rightarrow> 'l raft_node \<Rightarrow> 'l raft_node \<times> (rerror + action list)" where
  "handle_snapshot_event_on L index data n =
     (if n_commit_index n < index \<or> n_last_applied n < index
         \<or> index \<le> lo_snapshot_index L (n_log n)
      then (n, Inr [])
      else case lo_term_at L (n_log n) index of
        None \<Rightarrow> (n, Inr [])
      | Some t \<Rightarrow>
          let config = config_at_on L n index;
              n1 = n\<lparr>n_base_config := config\<rparr>
          in and_then (log_op n1 (lo_apply_snapshot L (n_log n1)
                         (snapshot_with_config index t config data))) (\<lambda>n _.
             and_then (log_op n (lo_sync L (n_log n))) (\<lambda>n _.
               let n2 = (if n_snapshot_hinted_at n < index
                         then n\<lparr>n_snapshot_hinted_at := index\<rparr> else n);
                   (n3, acts3) = refresh_config_on L n2 []
               in (n3, Inr acts3))))"

definition handle_install_snapshot_on :: "'l log_ops \<Rightarrow> install_snapshot \<Rightarrow> 'l raft_node \<Rightarrow> action list \<Rightarrow> ('l, unit) fallible_of" where
  "handle_install_snapshot_on L rpc n acts =
     (let reply = (\<lambda>n last_index. Send (ins_leader rpc) (InstallSnapshotReply
              \<lparr>insr_term = n_current_term n, insr_from = n_id n, insr_last_index = last_index\<rparr>))
      in if ins_term rpc < n_current_term n
         then ((n, acts @ [reply n 0]), Inr ())
         else
           let n1 = reset_election_timer
                      (n\<lparr>n_role := Follower, n_leader_id := Some (ins_leader rpc),
                         n_pre_voting := False\<rparr>);
               snap = ins_snapshot rpc;
               snap_index = sn_index snap
           in and_then
                (if lo_snapshot_index L (n_log n1) < snap_index \<and> n_commit_index n1 < snap_index
                 then let n2 = (if sn_config snap \<noteq> []
                                then n1\<lparr>n_base_config := sn_config snap\<rparr> else n1)
                      in and_then (with_acts acts (log_op n2 (lo_apply_snapshot L (n_log n2) snap)))
                           (\<lambda>(n, acts) _.
                         and_then (with_acts acts (log_op n (lo_sync L (n_log n)))) (\<lambda>(n, acts) _.
                           let n3 = n\<lparr>n_commit_index := snap_index, n_last_applied := snap_index\<rparr>;
                               n4 = (if n_snapshot_hinted_at n3 < snap_index
                                     then n3\<lparr>n_snapshot_hinted_at := snap_index\<rparr> else n3);
                               (n5, acts5) = refresh_config_on L n4 acts
                           in ((n5, acts5 @ [RestoreSnapshot snap_index (sn_term snap)
                                               (sn_data snap)]), Inr ())))
                 else ((n1, acts), Inr ()))
                (\<lambda>(n, acts) _.
                   let last_index = max (lo_snapshot_index L (n_log n))
                                        (min snap_index (n_commit_index n))
                   in ((n, acts @ [reply n last_index]), Inr ())))"

subsection \<open>Dispatch\<close>

definition dispatch_on :: "'l log_ops \<Rightarrow> message \<Rightarrow> 'l raft_node \<Rightarrow> action list \<Rightarrow> ('l, unit) fallible_of" where
  "dispatch_on L m n acts =
     (case m of
        RequestVote rv \<Rightarrow> handle_request_vote_on L rv n acts
      | RequestVoteReply r \<Rightarrow> (handle_vote_reply_on L r n acts, Inr ())
      | AppendEntries ae \<Rightarrow> handle_append_entries_on L ae n acts
      | AppendEntriesReply r \<Rightarrow> (handle_append_reply_on L r n acts, Inr ())
      | InstallSnapshot rpc \<Rightarrow> handle_install_snapshot_on L rpc n acts
      | InstallSnapshotReply r \<Rightarrow> (handle_install_snapshot_reply_on L r n acts, Inr ())
      | TimeoutNow rpc \<Rightarrow> handle_timeout_now_on L rpc n acts
      | PreVote _ \<Rightarrow> ((n, acts), Inr ())
      | PreVoteReply _ \<Rightarrow> ((n, acts), Inr ()))"

definition handle_message_on :: "'l log_ops \<Rightarrow> message \<Rightarrow> 'l raft_node \<Rightarrow> ('l, unit) fallible_of" where
  "handle_message_on L m n =
     (if sticky m n then ((n, []), Inr ())
      else case m of
        PreVote pv \<Rightarrow> (handle_pre_vote_on L pv n [], Inr ())
      | PreVoteReply r \<Rightarrow> handle_pre_vote_reply_on L r n []
      | _ \<Rightarrow>
          and_then (with_acts [] (if n_current_term n < message_term m
                                  then become_follower_on L (message_term m) None n
                                  else (n, Inr ())))
            (\<lambda>(n, acts) _. dispatch_on L m n acts))"

definition step_on :: "'l log_ops \<Rightarrow> event \<Rightarrow> 'l raft_node \<Rightarrow> 'l raft_node \<times> (rerror + action list)" where
  "step_on L ev n =
     (case ev of
        Tick \<Rightarrow> finish (tick_on L n)
      | Message m \<Rightarrow> finish (handle_message_on L m n)
      | Propose c \<Rightarrow> propose_on L n c
      | SnapshotEvent i d \<Rightarrow> handle_snapshot_event_on L i d n
      | AddServer i \<Rightarrow> change_membership_on L n (Some i) None
      | RemoveServer i \<Rightarrow> change_membership_on L n None (Some i)
      | TransferLeadership t \<Rightarrow> transfer_leadership_on L n t)"

end
