(* ===== verification/Node_Over_Log.thy ===== *)
theory Node_Over_Log
  imports Generic_Node Wal_Recovery
begin

text \<open>
  What a node does over a log that behaves like a \<open>MemoryLog\<close> as long as its writes succeed: the
  same (\<^verbatim>\<open>src/node.rs\<close>, \<^verbatim>\<open>src/log.rs\<close>, \<^verbatim>\<open>src/wal_log.rs\<close>). The locale \<open>log_backing\<close> is the contract;
  \<open>MemoryLog\<close> itself and \<open>WalLog\<close> interpret it.
\<close>

subsection \<open>The same node over another log\<close>

definition retype :: "('a \<Rightarrow> 'b) \<Rightarrow> 'a raft_node \<Rightarrow> 'b raft_node" where
  "retype h n = \<lparr>
    n_id = n_id n, n_voters = n_voters n, n_base_config = n_base_config n, 
    n_config_index = n_config_index n, n_election_timeout_min = n_election_timeout_min n, 
    n_election_timeout_max = n_election_timeout_max n, 
    n_heartbeat_interval = n_heartbeat_interval n, n_max_batch = n_max_batch n, 
    n_snapshot_threshold = n_snapshot_threshold n, n_log = h (n_log n), n_role = n_role n, 
    n_current_term = n_current_term n, n_voted_for = n_voted_for n, n_leader_id = n_leader_id n, 
    n_commit_index = n_commit_index n, n_last_applied = n_last_applied n, 
    n_election_elapsed = n_election_elapsed n, n_heartbeat_elapsed = n_heartbeat_elapsed n, 
    n_election_timeout = n_election_timeout n, n_votes = n_votes n, 
    n_pre_voting = n_pre_voting n, n_pre_votes = n_pre_votes n, n_progress = n_progress n, 
    n_snapshot_hinted_at = n_snapshot_hinted_at n, n_transfer_target = n_transfer_target n, 
    n_rng = n_rng n\<rparr>"

lemma retype_sel [simp]:
  "n_log (retype h n) = h (n_log n)"
  "n_id (retype h n) = n_id n"
  "n_voters (retype h n) = n_voters n"
  "n_base_config (retype h n) = n_base_config n"
  "n_config_index (retype h n) = n_config_index n"
  "n_election_timeout_min (retype h n) = n_election_timeout_min n"
  "n_election_timeout_max (retype h n) = n_election_timeout_max n"
  "n_heartbeat_interval (retype h n) = n_heartbeat_interval n"
  "n_max_batch (retype h n) = n_max_batch n"
  "n_snapshot_threshold (retype h n) = n_snapshot_threshold n"
  "n_role (retype h n) = n_role n"
  "n_current_term (retype h n) = n_current_term n"
  "n_voted_for (retype h n) = n_voted_for n"
  "n_leader_id (retype h n) = n_leader_id n"
  "n_commit_index (retype h n) = n_commit_index n"
  "n_last_applied (retype h n) = n_last_applied n"
  "n_election_elapsed (retype h n) = n_election_elapsed n"
  "n_heartbeat_elapsed (retype h n) = n_heartbeat_elapsed n"
  "n_election_timeout (retype h n) = n_election_timeout n"
  "n_votes (retype h n) = n_votes n"
  "n_pre_voting (retype h n) = n_pre_voting n"
  "n_pre_votes (retype h n) = n_pre_votes n"
  "n_progress (retype h n) = n_progress n"
  "n_snapshot_hinted_at (retype h n) = n_snapshot_hinted_at n"
  "n_transfer_target (retype h n) = n_transfer_target n"
  "n_rng (retype h n) = n_rng n"
  by (simp_all add: retype_def)

text \<open>Updates are made before the log is exchanged.\<close>

lemma retype_upd [simp]:
  "retype h n\<lparr>n_id := x0\<rparr> = retype h (n\<lparr>n_id := x0\<rparr>)"
  "retype h n\<lparr>n_voters := x1\<rparr> = retype h (n\<lparr>n_voters := x1\<rparr>)"
  "retype h n\<lparr>n_base_config := x2\<rparr> = retype h (n\<lparr>n_base_config := x2\<rparr>)"
  "retype h n\<lparr>n_config_index := x3\<rparr> = retype h (n\<lparr>n_config_index := x3\<rparr>)"
  "retype h n\<lparr>n_election_timeout_min := x4\<rparr> = retype h (n\<lparr>n_election_timeout_min := x4\<rparr>)"
  "retype h n\<lparr>n_election_timeout_max := x5\<rparr> = retype h (n\<lparr>n_election_timeout_max := x5\<rparr>)"
  "retype h n\<lparr>n_heartbeat_interval := x6\<rparr> = retype h (n\<lparr>n_heartbeat_interval := x6\<rparr>)"
  "retype h n\<lparr>n_max_batch := x7\<rparr> = retype h (n\<lparr>n_max_batch := x7\<rparr>)"
  "retype h n\<lparr>n_snapshot_threshold := x8\<rparr> = retype h (n\<lparr>n_snapshot_threshold := x8\<rparr>)"
  "retype h n\<lparr>n_role := x9\<rparr> = retype h (n\<lparr>n_role := x9\<rparr>)"
  "retype h n\<lparr>n_current_term := x10\<rparr> = retype h (n\<lparr>n_current_term := x10\<rparr>)"
  "retype h n\<lparr>n_voted_for := x11\<rparr> = retype h (n\<lparr>n_voted_for := x11\<rparr>)"
  "retype h n\<lparr>n_leader_id := x12\<rparr> = retype h (n\<lparr>n_leader_id := x12\<rparr>)"
  "retype h n\<lparr>n_commit_index := x13\<rparr> = retype h (n\<lparr>n_commit_index := x13\<rparr>)"
  "retype h n\<lparr>n_last_applied := x14\<rparr> = retype h (n\<lparr>n_last_applied := x14\<rparr>)"
  "retype h n\<lparr>n_election_elapsed := x15\<rparr> = retype h (n\<lparr>n_election_elapsed := x15\<rparr>)"
  "retype h n\<lparr>n_heartbeat_elapsed := x16\<rparr> = retype h (n\<lparr>n_heartbeat_elapsed := x16\<rparr>)"
  "retype h n\<lparr>n_election_timeout := x17\<rparr> = retype h (n\<lparr>n_election_timeout := x17\<rparr>)"
  "retype h n\<lparr>n_votes := x18\<rparr> = retype h (n\<lparr>n_votes := x18\<rparr>)"
  "retype h n\<lparr>n_pre_voting := x19\<rparr> = retype h (n\<lparr>n_pre_voting := x19\<rparr>)"
  "retype h n\<lparr>n_pre_votes := x20\<rparr> = retype h (n\<lparr>n_pre_votes := x20\<rparr>)"
  "retype h n\<lparr>n_progress := x21\<rparr> = retype h (n\<lparr>n_progress := x21\<rparr>)"
  "retype h n\<lparr>n_snapshot_hinted_at := x22\<rparr> = retype h (n\<lparr>n_snapshot_hinted_at := x22\<rparr>)"
  "retype h n\<lparr>n_transfer_target := x23\<rparr> = retype h (n\<lparr>n_transfer_target := x23\<rparr>)"
  "retype h n\<lparr>n_rng := x24\<rparr> = retype h (n\<lparr>n_rng := x24\<rparr>)"
  by (simp_all add: retype_def)

lemma retype_log: "retype h (n\<lparr>n_log := l\<rparr>) = (retype h n)\<lparr>n_log := h l\<rparr>"
  by (simp add: retype_def)

lemma retype_same [simp]: "retype (\<lambda>l. l) n = n"
  by (simp add: retype_def)

lemma retype_methods [simp]:
  "is_leader (retype h n) = is_leader n" "quorum (retype h n) = quorum n" "is_voter (retype h n) = is_voter n"
  "get_id (retype h n) = get_id n" "get_term (retype h n) = get_term n" "get_commit_index (retype h n) = get_commit_index n"
  "progress_index (retype h n) i = progress_index n i" "replicas (retype h n) k = replicas n k"
  "have_active_leader (retype h n) = have_active_leader n" "sticky m (retype h n) = sticky m n"
  "ae_reply (retype h n) ae s mi ci ct = ae_reply n ae s mi ci ct"
  "reset_election_timer (retype h n) = retype h (reset_election_timer n)"
  "step_down_to_follower (retype h n) = retype h (step_down_to_follower n)"
  "upd_progress x f (retype h n) = retype h (upd_progress x f n)"
  by (simp_all add: is_leader_def quorum_def is_voter_def get_id_def get_term_def get_commit_index_def progress_index_def
      replicas_def have_active_leader_def sticky_def ae_reply_def reset_election_timer_def step_down_to_follower_def
      upd_progress_def Let_def case_prod_unfold)

definition recast :: "('a \<Rightarrow> 'b) \<Rightarrow> 'a ctx_of \<Rightarrow> 'b ctx_of" where
  "recast h m = (retype h (fst m), snd m)"

lemma recast_simps [simp]:
  "recast h (n, acts) = (retype h n, acts)" "fst (recast h m) = retype h (fst m)" "snd (recast h m) = snd m"
  "(retype h (fst m), snd m) = recast h m"
  by (simp_all add: recast_def)

lemma recast_fold:
  assumes "\<And>i s. f i (recast h s) = recast h (g i s)"
  shows "fold f is (recast h s) = recast h (fold g is s)"
  by (induction "is" arbitrary: s) (simp_all add: assms)

subsection \<open>Writes that may fail\<close>

text \<open>A call that breaks off with a storage failure, or behaves as the other does.\<close>

definition follows_unless :: "(rerror \<Rightarrow> bool) \<Rightarrow> ('s \<Rightarrow> 't) \<Rightarrow> 's \<times> (rerror + 'a) \<Rightarrow> 't \<times> (rerror + 'a) \<Rightarrow> bool" where
  "follows_unless b h m m' \<longleftrightarrow> (\<exists>e. snd m = Inl e \<and> b e) \<or> m' = (h (fst m), snd m)"

lemma follows_same [simp, intro]: "follows_unless b h (s, r) (h s, r)"
  by (simp add: follows_unless_def)

lemma follows_recast [simp, intro]: "follows_unless b (recast h) ((n, acts), r) ((retype h n, acts), r)"
  by (simp add: follows_unless_def)

lemma follows_recast_fst [simp, intro]:
  "follows_unless b (recast h) (m, r) (recast h m, r)" "follows_unless b (recast h) (m, r) ((retype h (fst m), snd m), r)"
  by (simp_all add: follows_unless_def)

lemma follows_then:
  assumes "follows_unless b h m m'" "\<And>s a. m = (s, Inr a) \<Longrightarrow> follows_unless b h (f s a) (g (h s) a)"
  shows "follows_unless b h (and_then m f) (and_then m' g)"
proof -
  obtain s r where m: "m = (s, r)" by fastforce
  with assms show ?thesis by (cases r) (auto simp: follows_unless_def)
qed

lemma follows_log_op: "follows_unless b h m m' \<Longrightarrow> follows_unless b (retype h) (log_op n m) (log_op (retype h n) m')"
  by (cases m) (auto simp: follows_unless_def retype_log)

lemma follows_with_acts: "follows_unless b (retype h) m m' \<Longrightarrow> follows_unless b (recast h) (with_acts acts m) (with_acts acts m')"
  by (cases m) (auto simp: follows_unless_def)

lemma follows_finish: "follows_unless b (recast h) m m' \<Longrightarrow> follows_unless b (retype h) (finish m) (finish m')"
  by (cases m) (auto simp: follows_unless_def finish_def split: sum.split)

subsection \<open>The contract\<close>

locale log_backing =
  fixes L :: "'l log_ops" and idx :: "'l \<Rightarrow> memory_log" and broken :: "rerror \<Rightarrow> bool"
  assumes last_index: "lo_last_index L l = ml_last_index (idx l)"
    and last_term: "lo_last_term L l = ml_last_term (idx l)"
    and term_at: "lo_term_at L l i = ml_term_at (idx l) i"
    and entry: "lo_entry L l i = ml_entry (idx l) i"
    and entries: "lo_entries L l i j = ml_entries_range (idx l) i j"
    and hard_state: "lo_hard_state L l = ml_hard_state (idx l)"
    and snapshot_index: "lo_snapshot_index L l = ml_snapshot_index (idx l)"
    and snapshot: "lo_snapshot L l = ml_get_snapshot (idx l)"
    and append: "follows_unless broken idx (lo_append L l es) (ml_append (idx l) es)"
    and truncate: "follows_unless broken idx (lo_truncate L l i) (ml_truncate (idx l) i)"
    and set_hard_state: "follows_unless broken idx (lo_set_hard_state L l h) (ml_set_hard_state (idx l) h)"
    and sync: "follows_unless broken idx (lo_sync L l) (ml_sync (idx l))"
    and apply_snapshot: "follows_unless broken idx (lo_apply_snapshot L l s) (ml_apply_snapshot (idx l) s)"
begin

lemmas reads = last_index last_term term_at entry entries hard_state snapshot_index snapshot

text \<open>The methods that only read the log.\<close>

lemma latest_config: "latest_config_on L l b i = latest_config (idx l) b i"
proof (induction "idx l" b i rule: latest_config.induct)
  case (1 b i)
  then show ?case
    by (subst latest_config_on.simps, subst latest_config.simps) (auto simp: reads split: option.split)
qed

lemma node_with_log: "node_with_log c (idx l) = retype idx (node_with_log_on L c l)"
  by (simp add: node_with_log_def node_with_log_on_def latest_config reads Let_def case_prod_unfold retype_def
      split: option.split)

lemma config:
  "rebuild_progress (retype idx n) = retype idx (rebuild_progress_on L n)"
  "set_config (retype idx n) vs ci acts = recast idx (set_config_on L n vs ci acts)"
  "refresh_config (retype idx n) acts = recast idx (refresh_config_on L n acts)"
  "config_at (retype idx n) k = config_at_on L n k"
proof -
  show rp: "rebuild_progress (retype idx n) = retype idx (rebuild_progress_on L n)" for n
    by (simp add: rebuild_progress_def rebuild_progress_on_def Let_def reads)
  show sc: "set_config (retype idx n) vs ci acts = recast idx (set_config_on L n vs ci acts)" for vs ci
    by (simp add: set_config_def set_config_on_def Let_def rp)
  show "refresh_config (retype idx n) acts = recast idx (refresh_config_on L n acts)"
    "config_at (retype idx n) k = config_at_on L n k"
    by (simp_all add: refresh_config_def refresh_config_on_def config_at_def config_at_on_def latest_config reads sc
        split: option.split)
qed

lemma maybe_hint_snapshot: "maybe_hint_snapshot (retype idx n) acts = recast idx (maybe_hint_snapshot_on L n acts)"
  by (simp add: maybe_hint_snapshot_def maybe_hint_snapshot_on_def Let_def reads split: option.split)

lemma apply_action: "apply_action (idx l) i = apply_action_on L l i"
  by (simp add: apply_action_def apply_action_on_def reads)

lemma drain_loop: "drain_loop (retype idx n) acts = recast idx (drain_loop_on L n acts)"
proof (induction L'\<equiv>L n acts rule: drain_loop_on.induct)
  case (1 n acts)
  show ?case
  proof (cases "n_last_applied n < n_commit_index n")
    case True
    with 1 show ?thesis
      by (subst drain_loop_on.simps, subst drain_loop.simps) (simp add: Let_def apply_action)
  next
    case False
    then show ?thesis by (subst drain_loop_on.simps, subst drain_loop.simps) simp
  qed
qed

lemma commit_scan: "commit_scan (retype idx n) i = commit_scan_on L n i"
proof (induction "retype idx n" i rule: commit_scan.induct)
  case (1 i)
  then show ?case
    by (subst commit_scan_on.simps, subst commit_scan.simps) (auto simp: reads split: option.split)
qed

lemma drain_applies: "drain_applies (retype idx n) acts = recast idx (drain_applies_on L n acts)"
  by (simp add: drain_applies_def drain_applies_on_def Let_def case_prod_unfold drain_loop maybe_hint_snapshot)

lemma advance_commit: "advance_commit (retype idx n) acts = recast idx (advance_commit_on L n acts)"
  by (simp add: advance_commit_def advance_commit_on_def Let_def case_prod_unfold reads commit_scan drain_applies)

lemma send_append: "send_append i (retype idx n) acts = recast idx (send_append_on L i n acts)"
  by (simp add: send_append_def send_append_on_def send_snapshot_def send_snapshot_on_def Let_def reads split: option.split)

lemma replicate_to:
  "replicate_to_all (retype idx n) acts = recast idx (replicate_to_all_on L n acts)"
  "replicate_to_streaming (retype idx n) acts = recast idx (replicate_to_streaming_on L n acts)"
  unfolding replicate_to_all_def replicate_to_all_on_def replicate_to_streaming_def replicate_to_streaming_on_def
  by (subst recast_simps(1)[symmetric], subst recast_fold; simp add: case_prod_unfold send_append)+

lemma maybe_send_timeout_now:
  "maybe_send_timeout_now t (retype idx n) acts = recast idx (maybe_send_timeout_now_on L t n acts)"
  by (simp add: maybe_send_timeout_now_def maybe_send_timeout_now_on_def Let_def reads split: option.split)

lemma first_index_of_term: "first_index_of_term (idx l) t i = first_index_of_term_on L l t i"
proof (induction "idx l" t i rule: first_index_of_term.induct)
  case (1 t i)
  then show ?case
    by (subst first_index_of_term_on.simps, subst first_index_of_term.simps) (simp add: reads)
qed

lemma last_index_of_term_from: "last_index_of_term_from (idx l) t i = last_index_of_term_from_on L l t i"
proof (induction "idx l" t i rule: last_index_of_term_from.induct)
  case (1 t i)
  then show ?case
    by (subst last_index_of_term_from_on.simps, subst last_index_of_term_from.simps) (auto simp: reads split: option.split)
qed

lemma rejected_next: "rejected_next (retype idx n) nx mt ci ct = rejected_next_on L n nx mt ci ct"
  by (simp add: rejected_next_def rejected_next_on_def last_index_of_term_def last_index_of_term_on_def
      last_index_of_term_from reads Let_def split: option.split)

lemma reply_tail:
  "(let (n4, acts4) = advance_commit (retype idx n) acts;
        (n5, acts5) = maybe_send_timeout_now t n4 acts4
    in if n_role n5 = Leader \<and> pr_next_index (n_progress n5 ! i) \<le> ml_last_index (n_log n5)
       then send_append i n5 acts5 else (n5, acts5))
   = recast idx (let (n4, acts4) = advance_commit_on L n acts;
        (n5, acts5) = maybe_send_timeout_now_on L t n4 acts4
    in if n_role n5 = Leader \<and> pr_next_index (n_progress n5 ! i) \<le> lo_last_index L (n_log n5)
       then send_append_on L i n5 acts5 else (n5, acts5))"
  by (simp add: Let_def case_prod_unfold reads advance_commit maybe_send_timeout_now send_append)

lemma replies:
  "handle_append_reply r (retype idx n) acts = recast idx (handle_append_reply_on L r n acts)"
  "handle_install_snapshot_reply r' (retype idx n) acts = recast idx (handle_install_snapshot_reply_on L r' n acts)"
  by (simp_all add: handle_append_reply_def handle_append_reply_on_def handle_install_snapshot_reply_def
      handle_install_snapshot_reply_on_def Let_def reply_tail[unfolded Let_def] send_append rejected_next
      split: option.split)

lemma become_leader: "become_leader (retype idx n) acts = recast idx (become_leader_on L n acts)"
  by (simp add: become_leader_def become_leader_on_def Let_def case_prod_unfold config replicate_to advance_commit)

lemma handle_vote_reply: "handle_vote_reply r (retype idx n) acts = recast idx (handle_vote_reply_on L r n acts)"
  by (simp add: handle_vote_reply_def handle_vote_reply_on_def Let_def become_leader)

lemma candidate_log_up_to_date: "candidate_log_up_to_date (retype idx n) t i = candidate_log_up_to_date_on L n t i"
  by (simp add: candidate_log_up_to_date_def candidate_log_up_to_date_on_def reads)

lemma handle_pre_vote: "handle_pre_vote pv (retype idx n) acts = recast idx (handle_pre_vote_on L pv n acts)"
  by (simp add: handle_pre_vote_def handle_pre_vote_on_def Let_def candidate_log_up_to_date)

text \<open>The methods that write it.\<close>

lemma persist_hard_state:
  "follows_unless broken (retype idx) (persist_hard_state_on L n) (persist_hard_state (retype idx n))"
  unfolding persist_hard_state_def persist_hard_state_on_def
  by (rule follows_then) (simp_all add: follows_log_op set_hard_state sync)

lemma start_election:
  "follows_unless broken (recast idx) (start_election_on L f n acts) (start_election f (retype idx n) acts)"
  unfolding start_election_def start_election_on_def Let_def
  by (rule follows_then)
    (auto simp: follows_with_acts persist_hard_state become_leader reads split: prod.split)

lemma start_pre_vote:
  "follows_unless broken (recast idx) (start_pre_vote_on L n acts) (start_pre_vote (retype idx n) acts)"
  by (simp add: start_pre_vote_def start_pre_vote_on_def Let_def start_election reads)

lemma tick: "follows_unless broken (recast idx) (tick_on L n) (tick (retype idx n))"
  by (simp add: tick_def tick_on_def Let_def start_pre_vote replicate_to)

lemma become_follower:
  "follows_unless broken (retype idx) (become_follower_on L t l n) (become_follower t l (retype idx n))"
  by (simp add: become_follower_def become_follower_on_def Let_def persist_hard_state)

lemma handle_request_vote:
  "follows_unless broken (recast idx) (handle_request_vote_on L rv n acts) (handle_request_vote rv (retype idx n) acts)"
  unfolding handle_request_vote_def handle_request_vote_on_def Let_def
  by (auto simp: candidate_log_up_to_date follows_with_acts persist_hard_state split: prod.split option.splits
      intro!: follows_then)

lemma handle_pre_vote_reply:
  "follows_unless broken (recast idx) (handle_pre_vote_reply_on L r n acts) (handle_pre_vote_reply r (retype idx n) acts)"
  by (simp add: handle_pre_vote_reply_def handle_pre_vote_reply_on_def Let_def start_election follows_with_acts
      become_follower)

lemma handle_timeout_now:
  "follows_unless broken (recast idx) (handle_timeout_now_on L rpc n acts) (handle_timeout_now rpc (retype idx n) acts)"
  by (simp add: handle_timeout_now_def handle_timeout_now_on_def start_election)

lemma reconcile_scan: "follows_unless broken idx (reconcile_scan_on L l es) (reconcile_scan (idx l) es)"
proof (induction es arbitrary: l)
  case (Cons e es)
  then show ?case by (auto simp: reads truncate split: option.split intro!: follows_then)
qed simp

lemma append_from_leader: "follows_unless broken idx (append_from_leader_on L es l) (append_from_leader es (idx l))"
  unfolding append_from_leader_def append_from_leader_on_def
  by (rule follows_then[OF reconcile_scan]) (auto simp: append sync split: prod.split intro!: follows_then)

lemma handle_append_entries:
  "follows_unless broken (recast idx) (handle_append_entries_on L ae n acts) (handle_append_entries ae (retype idx n) acts)"
proof -
  have branch: "follows_unless broken (retype idx)
      (if es = [] then (n, Inr (p, False)) else log_op n (append_from_leader_on L es (n_log n)))
      (if es = [] then (retype idx n, Inr (p, False)) else log_op (retype idx n) (append_from_leader es (idx (n_log n))))"
    for es p n by (simp add: follows_log_op append_from_leader)
  show ?thesis
    unfolding handle_append_entries_def handle_append_entries_on_def Let_def
    by (auto simp: reads drain_applies config first_index_of_term follows_with_acts branch case_prod_unfold
        intro!: follows_then follows_with_acts follows_log_op append_from_leader split: option.split)
qed

lemma handle_snapshot_event:
  "follows_unless broken (retype idx) (handle_snapshot_event_on L i d n) (handle_snapshot_event i d (retype idx n))"
  unfolding handle_snapshot_event_def handle_snapshot_event_on_def Let_def
  by (auto simp: reads config follows_log_op apply_snapshot sync case_prod_unfold intro!: follows_then split: option.split)

lemma handle_install_snapshot:
  "follows_unless broken (recast idx) (handle_install_snapshot_on L rpc n acts) (handle_install_snapshot rpc (retype idx n) acts)"
  unfolding handle_install_snapshot_def handle_install_snapshot_on_def Let_def
  by (auto simp: reads config follows_with_acts follows_log_op apply_snapshot sync case_prod_unfold
      intro!: follows_then)

lemma dispatch: "follows_unless broken (recast idx) (dispatch_on L m n acts) (dispatch m (retype idx n) acts)"
  by (auto simp: dispatch_def dispatch_on_def handle_request_vote handle_vote_reply handle_append_entries replies
      handle_install_snapshot handle_timeout_now split: message.split)

lemma handle_message: "follows_unless broken (recast idx) (handle_message_on L m n) (handle_message m (retype idx n))"
  unfolding handle_message_def handle_message_on_def
  by (auto simp: handle_pre_vote handle_pre_vote_reply dispatch follows_with_acts become_follower case_prod_unfold
      intro!: follows_then split: message.split)

lemma propose: "follows_unless broken (retype idx) (propose_on L n c) (propose (retype idx n) c)"
  unfolding propose_def propose_on_def Let_def
  by (auto simp: reads follows_log_op append sync replicate_to advance_commit case_prod_unfold intro!: follows_then)

lemma change_membership:
  "follows_unless broken (retype idx) (change_membership_on L n a r) (change_membership (retype idx n) a r)"
  unfolding change_membership_def change_membership_on_def Let_def retype_sel
  by (auto simp: reads follows_log_op append sync config replicate_to advance_commit case_prod_unfold
      intro!: follows_then)

lemma transfer_leadership:
  "transfer_leadership (retype idx n) t = (case transfer_leadership_on L n t of (n', r) \<Rightarrow> (retype idx n', r))"
  by (simp add: transfer_leadership_def transfer_leadership_on_def Let_def case_prod_unfold maybe_send_timeout_now
      send_append split: option.split)

lemma step: "follows_unless broken (retype idx) (step_on L ev n) (step ev (retype idx n))"
  by (auto simp: step_def step_on_def follows_finish tick handle_message propose handle_snapshot_event change_membership
      transfer_leadership case_prod_unfold follows_unless_def[of _ _ "transfer_leadership_on L n _"] split: event.split)

end

subsection \<open>The two logs of the crate\<close>

definition memory_ops :: "memory_log log_ops" where
  "memory_ops = \<lparr>
     lo_last_index = ml_last_index, lo_last_term = ml_last_term, lo_term_at = ml_term_at,
     lo_entry = ml_entry, lo_entries = ml_entries_range, lo_append = ml_append,
     lo_truncate = ml_truncate, lo_hard_state = ml_hard_state,
     lo_set_hard_state = ml_set_hard_state, lo_sync = ml_sync,
     lo_snapshot_index = ml_snapshot_index, lo_snapshot = ml_get_snapshot,
     lo_apply_snapshot = ml_apply_snapshot\<rparr>"

definition wal_log_ops :: "'w wal_ops \<Rightarrow> 'w wal_log log_ops" where
  "wal_log_ops W = \<lparr>
     lo_last_index = wl_last_index, lo_last_term = wl_last_term, lo_term_at = wl_term_at,
     lo_entry = wl_entry, lo_entries = wl_entries_range, lo_append = wl_append W,
     lo_truncate = wl_truncate W, lo_hard_state = wl_hard_state,
     lo_set_hard_state = wl_set_hard_state W, lo_sync = wl_sync W,
     lo_snapshot_index = wl_snapshot_index, lo_snapshot = wl_get_snapshot,
     lo_apply_snapshot = wl_apply_snapshot W\<rparr>"

fun is_storage :: "rerror \<Rightarrow> bool" where
  "is_storage (Storage c m) \<longleftrightarrow> True"
| "is_storage _ \<longleftrightarrow> False"

interpretation in_memory: log_backing memory_ops "\<lambda>l. l" "\<lambda>_. False"
  by unfold_locales (simp_all add: memory_ops_def follows_unless_def)

text \<open>A call of a \<open>WalLog\<close>: the same call on the index, then writes that only fail with a storage
  error and leave the index alone.\<close>

lemma follows_extra:
  fixes m' :: "'t \<times> (rerror + unit)"
  assumes "follows_unless b h m m'" "\<And>s a. follows_unless b h (f s a) (h s, Inr ())"
  shows "follows_unless b h (and_then m f) m'"
proof -
  obtain s r where m: "m = (s, r)" by fastforce
  with assms show ?thesis by (cases r) (auto simp: follows_unless_def)
qed

lemma wl_on_index: "follows_unless is_storage wl_index (on_index l f) (f (wl_index l))"
  by (auto simp: on_index_def follows_unless_def split: prod.split)

lemma wl_written:
  assumes "\<And>s a. wl_index s = i \<Longrightarrow> follows_unless is_storage wl_index (g s a) (i, Inr ())" "wl_index l = i"
  shows "follows_unless is_storage wl_index (and_then (wl_write W l c d) g) (i, Inr ())"
  using assms by (auto simp: wl_write_def follows_unless_def split: prod.split sum.split)

lemma wl_entries_follow:
  "wl_index l = i \<Longrightarrow> follows_unless is_storage wl_index (wl_write_entries W l es) (i, Inr ())"
  by (induction es arbitrary: l) (fastforce simp: follows_unless_def, auto intro!: wl_written)

lemma wl_follows:
  "follows_unless is_storage wl_index (wl_append W l es) (ml_append (wl_index l) es)"
  "follows_unless is_storage wl_index (wl_truncate W l i) (ml_truncate (wl_index l) i)"
  "follows_unless is_storage wl_index (wl_set_hard_state W l h) (ml_set_hard_state (wl_index l) h)"
  "follows_unless is_storage wl_index (wl_sync W l) (ml_sync (wl_index l))"
  "follows_unless is_storage wl_index (wl_apply_snapshot W l s) (ml_apply_snapshot (wl_index l) s)"
proof -
  show "follows_unless is_storage wl_index (wl_append W l es) (ml_append (wl_index l) es)"
    unfolding wl_append_def by (intro follows_extra wl_on_index wl_entries_follow refl)
  show "follows_unless is_storage wl_index (wl_truncate W l i) (ml_truncate (wl_index l) i)"
    unfolding wl_truncate_def by (intro follows_extra wl_on_index wl_written refl) (auto simp: follows_unless_def)
  show "follows_unless is_storage wl_index (wl_set_hard_state W l h) (ml_set_hard_state (wl_index l) h)"
    unfolding wl_set_hard_state_def by (intro follows_extra wl_on_index wl_written refl) (auto simp: follows_unless_def)
  show "follows_unless is_storage wl_index (wl_sync W l) (ml_sync (wl_index l))"
    by (auto simp: wl_sync_def ml_sync_def follows_unless_def split: prod.split sum.split)
  show "follows_unless is_storage wl_index (wl_apply_snapshot W l s) (ml_apply_snapshot (wl_index l) s)"
  proof (cases "sn_index s \<le> ml_snapshot_index (wl_index l)")
    case True
    then show ?thesis by (simp add: wl_apply_snapshot_def ml_apply_stale ml_snapshot_index_def)
  next
    case False
    then show ?thesis
      unfolding wl_apply_snapshot_def if_not_P[OF False]
      by (intro follows_extra wl_on_index wl_written refl) (auto simp: follows_unless_def)
  qed
qed

interpretation on_disk: log_backing "wal_log_ops W" wl_index is_storage for W :: "'w wal_ops"
  by unfold_locales (simp_all add: wal_log_ops_def wl_read_defs wl_follows)

subsection \<open>Properties\<close>

text \<open>
  The node over the default log is the node of \<open>Node_Step\<close>: construction and every step of
  \<open>RaftNode<L>\<close>, taken with \<open>MemoryLog\<close> for the trait \<open>RaftLog\<close>, give the same node, the same
  actions and the same error.
\<close>

theorem memory_node_is_node:
  "node_with_log_on memory_ops c l = node_with_log c l \<and> step_on memory_ops ev n = step ev n"
  using in_memory.node_with_log[of c l] in_memory.step[of ev n] by (simp_all add: follows_unless_def)

text \<open>
  A durable node is the in-memory node plus storage failures: a step of a node over a
  \<open>WalLog\<close> either reports a storage error, or leaves the node, the actions and the result that the
  step of the node over the in-memory index has.
\<close>

theorem wal_node_refines:
  "node_with_log c (wl_index l) = retype wl_index (node_with_log_on (wal_log_ops W) c l)
   \<and> (case step_on (wal_log_ops W) ev n of (n', r) \<Rightarrow>
        (case r of Inl e \<Rightarrow> is_storage e | Inr _ \<Rightarrow> False)
        \<or> step ev (retype wl_index n) = (retype wl_index n', r))"
  using on_disk.node_with_log[of c l W] on_disk.step[of W ev n]
  by (auto simp: follows_unless_def split: prod.split)

end
