(* ===== verification/Node_Durability.thy ===== *)
theory Node_Durability
  imports Node_Over_Log Ballot_Properties
begin

text \<open>
  A node over a \<open>WalLog\<close> can be rebuilt from its write-ahead log after every step that reports no
  storage failure (\<^verbatim>\<open>src/node.rs\<close>, \<^verbatim>\<open>src/wal_log.rs\<close>). The locale \<open>log_keeping\<close> shows that a step keeps
  whatever the log's own operations keep; \<open>WalLog\<close>, whose records stay in step with its index,
  interprets it.
\<close>

subsection \<open>Calls that keep a property\<close>

definition intact :: "(rerror \<Rightarrow> bool) \<Rightarrow> ('s \<Rightarrow> bool) \<Rightarrow> 's \<times> (rerror + 'a) \<Rightarrow> bool" where
  "intact b P m \<longleftrightarrow> (\<exists>e. snd m = Inl e \<and> b e) \<or> P (fst m)"

lemma intact_same [intro]: "P s \<Longrightarrow> intact b P (s, r)"
  by (simp add: intact_def)

lemma intact_Inr [simp]: "intact b P (s, Inr a) \<longleftrightarrow> P s"
  by (simp add: intact_def)

lemma intact_state: "P (fst m) \<Longrightarrow> intact b P m"
  by (simp add: intact_def)

lemma intact_weaken: "intact b P m \<Longrightarrow> (\<And>s. P s \<Longrightarrow> Q s) \<Longrightarrow> intact b Q m"
  by (auto simp: intact_def)

lemma intact_then:
  assumes "intact b P m" "\<And>s. P s \<Longrightarrow> Q s" "\<And>s a. m = (s, Inr a) \<Longrightarrow> P s \<Longrightarrow> intact b Q (f s a)"
  shows "intact b Q (and_then m f)"
proof -
  obtain s r where m: "m = (s, r)" by fastforce
  with assms show ?thesis by (cases r) (auto simp: intact_def)
qed

abbreviation log_holds :: "('l \<Rightarrow> bool) \<Rightarrow> 'l raft_node \<Rightarrow> bool" where
  "log_holds P \<equiv> \<lambda>n. P (n_log n)"

abbreviation ctx_holds :: "('l \<Rightarrow> bool) \<Rightarrow> 'l ctx_of \<Rightarrow> bool" where
  "ctx_holds P \<equiv> \<lambda>s. P (n_log (fst s))"

lemma intact_log_op: "intact b P m \<Longrightarrow> intact b (log_holds P) (log_op n m)"
  by (cases m) (auto simp: intact_def)

lemma intact_with_acts: "intact b (log_holds P) m \<Longrightarrow> intact b (ctx_holds P) (with_acts acts m)"
  by (cases m) (auto simp: intact_def)

lemma intact_finish: "intact b (ctx_holds P) m \<Longrightarrow> intact b (log_holds P) (finish m)"
  by (cases m) (auto simp: intact_def finish_def split: sum.split)

subsection \<open>The methods that leave the log alone\<close>

lemma log_untouched [simp]:
  "n_log (reset_election_timer n) = n_log n" "n_log (step_down_to_follower n) = n_log n"
  "n_log (upd_progress i f n) = n_log n" "n_log (rebuild_progress_on L n) = n_log n"
  "n_log (fst (set_config_on L n vs ci acts)) = n_log n" "n_log (fst (refresh_config_on L n acts)) = n_log n"
  "n_log (fst (maybe_hint_snapshot_on L n acts)) = n_log n" "n_log (fst (send_append_on L i n acts)) = n_log n"
  "n_log (fst (maybe_send_timeout_now_on L j n acts)) = n_log n"
  by (simp_all add: reset_election_timer_def step_down_to_follower_def upd_progress_def rebuild_progress_on_def
      set_config_on_def refresh_config_on_def maybe_hint_snapshot_on_def send_append_on_def send_snapshot_on_def
      maybe_send_timeout_now_on_def Let_def case_prod_unfold split: option.split)

lemma drain_log [simp]: "n_log (fst (drain_loop_on L n acts)) = n_log n" "n_log (fst (drain_applies_on L n acts)) = n_log n"
proof -
  show "n_log (fst (drain_loop_on L n acts)) = n_log n"
  proof (induction L n acts rule: drain_loop_on.induct)
    case (1 L n acts)
    then show ?case by (subst drain_loop_on.simps) (simp add: Let_def)
  qed
  then show "n_log (fst (drain_applies_on L n acts)) = n_log n"
    by (simp add: drain_applies_on_def Let_def case_prod_unfold)
qed

lemma fold_log:
  assumes "\<And>i s. n_log (fst (f i s)) = n_log (fst s)"
  shows "n_log (fst (fold f is s)) = n_log (fst s)"
  by (induction "is" arbitrary: s) (simp_all add: assms)

lemma leader_log [simp]:
  "n_log (fst (advance_commit_on L n acts)) = n_log n"
  "n_log (fst (replicate_to_all_on L n acts)) = n_log n"
  "n_log (fst (replicate_to_streaming_on L n acts)) = n_log n"
  "n_log (fst (become_leader_on L n acts)) = n_log n"
proof -
  show a: "n_log (fst (advance_commit_on L n acts)) = n_log n" for n acts
    by (simp add: advance_commit_on_def Let_def case_prod_unfold)
  show r: "n_log (fst (replicate_to_all_on L n acts)) = n_log n" for n acts
    unfolding replicate_to_all_on_def by (subst fold_log) auto
  show "n_log (fst (replicate_to_streaming_on L n acts)) = n_log n"
    unfolding replicate_to_streaming_on_def by (subst fold_log) auto
  show "n_log (fst (become_leader_on L n acts)) = n_log n"
    by (simp add: become_leader_on_def Let_def case_prod_unfold a r)
qed

lemma reply_log [simp]:
  "n_log (fst (handle_append_reply_on L r n acts)) = n_log n"
  "n_log (fst (handle_install_snapshot_reply_on L r' n acts)) = n_log n"
  "n_log (fst (handle_vote_reply_on L v n acts)) = n_log n"
  "n_log (fst (handle_pre_vote_on L pv n acts)) = n_log n"
  "n_log (fst (transfer_leadership_on L n t)) = n_log n"
  by (simp_all add: handle_append_reply_on_def handle_install_snapshot_reply_on_def handle_vote_reply_on_def
      handle_pre_vote_on_def transfer_leadership_on_def Let_def case_prod_unfold split: option.split)

subsection \<open>Steps\<close>

text \<open>What a step is about to store: the entries and the snapshot it may write.\<close>

definition storable_on ::
  "'l log_ops \<Rightarrow> (log_entry \<Rightarrow> bool) \<Rightarrow> ('l \<Rightarrow> snapshot \<Rightarrow> bool) \<Rightarrow> event \<Rightarrow> 'l raft_node \<Rightarrow> bool" where
  "storable_on L fits room ev n =
     (let config = (\<lambda>ms. fits (entry_config (n_current_term n) (lo_last_index L (n_log n) + 1) (sorted_members ms)))
      in case ev of
        Message (AppendEntries ae) \<Rightarrow> list_all fits (ae_entries ae)
      | Message (InstallSnapshot rpc) \<Rightarrow> room (n_log n) (ins_snapshot rpc)
      | Propose c \<Rightarrow> fits (entry_new (n_current_term n) (lo_last_index L (n_log n) + 1) c)
      | SnapshotEvent i d \<Rightarrow> (case lo_term_at L (n_log n) i of
            Some t \<Rightarrow> room (n_log n) (snapshot_with_config i t (config_at_on L n i) d) | None \<Rightarrow> True)
      | AddServer i \<Rightarrow> config (if i \<in> set (n_voters n) then n_voters n else n_voters n @ [i])
      | RemoveServer i \<Rightarrow> config (filter (\<lambda>m. m \<noteq> i) (n_voters n))
      | _ \<Rightarrow> True)"

locale log_keeping =
  fixes L :: "'l log_ops" and good :: "'l \<Rightarrow> bool" and fits :: "log_entry \<Rightarrow> bool"
    and room :: "'l \<Rightarrow> snapshot \<Rightarrow> bool" and broken :: "rerror \<Rightarrow> bool"
  assumes append_kept: "good l \<Longrightarrow> list_all fits es \<Longrightarrow> intact broken good (lo_append L l es)"
    and truncate_kept: "good l \<Longrightarrow> intact broken good (lo_truncate L l i)"
    and hard_kept: "good l \<Longrightarrow> intact broken (\<lambda>l'. good l' \<and> (\<forall>s. room l s \<longrightarrow> room l' s)) (lo_set_hard_state L l h)"
    and sync_kept: "good l \<Longrightarrow> intact broken (\<lambda>l'. good l' \<and> (\<forall>s. room l s \<longrightarrow> room l' s)) (lo_sync L l)"
    and snapshot_kept: "good l \<Longrightarrow> room l s \<Longrightarrow> intact broken good (lo_apply_snapshot L l s)"
begin

definition onward :: "'l \<Rightarrow> 'l \<Rightarrow> bool" where
  "onward l l' \<longleftrightarrow> good l' \<and> (\<forall>s. room l s \<longrightarrow> room l' s)"

lemma sync_good: "good l \<Longrightarrow> intact broken good (lo_sync L l)"
  by (rule intact_weaken[OF sync_kept]) auto

lemma persist_onward: "onward l (n_log n) \<Longrightarrow> intact broken (log_holds (onward l)) (persist_hard_state_on L n)"
  unfolding persist_hard_state_on_def
proof (rule intact_then)
  assume o: "onward l (n_log n)"
  show "intact broken (log_holds (onward l)) (log_op n (lo_set_hard_state L (n_log n)
      \<lparr>hs_term = n_current_term n, hs_voted_for = n_voted_for n\<rparr>))"
    using o by (intro intact_log_op intact_weaken[OF hard_kept]) (auto simp: onward_def)
  show "intact broken (log_holds (onward l)) (log_op s (lo_sync L (n_log s)))" if "onward l (n_log s)" for s
    using that by (intro intact_log_op intact_weaken[OF sync_kept]) (auto simp: onward_def)
qed

lemma become_follower_onward:
  "onward l (n_log n) \<Longrightarrow> intact broken (log_holds (onward l)) (become_follower_on L t k n)"
  by (auto simp: become_follower_on_def Let_def intro!: persist_onward)

lemma good_onward: "good l \<Longrightarrow> onward l l" "onward l l' \<Longrightarrow> good l'"
  by (simp_all add: onward_def)

lemma persist_good: "good (n_log n) \<Longrightarrow> intact broken (log_holds good) (persist_hard_state_on L n)"
  by (rule intact_weaken[OF persist_onward[OF good_onward(1)]]) (auto dest: good_onward(2))

lemma become_follower_good: "good (n_log n) \<Longrightarrow> intact broken (log_holds good) (become_follower_on L t k n)"
  by (rule intact_weaken[OF become_follower_onward[OF good_onward(1)]]) (auto dest: good_onward(2))

lemma election_good:
  "good (n_log n) \<Longrightarrow> intact broken (ctx_holds good) (start_election_on L f n acts)"
  "good (n_log n) \<Longrightarrow> intact broken (ctx_holds good) (start_pre_vote_on L n acts)"
  "good (n_log n) \<Longrightarrow> intact broken (ctx_holds good) (handle_timeout_now_on L rpc n acts)"
  "good (n_log n) \<Longrightarrow> intact broken (ctx_holds good) (tick_on L n)"
proof -
  show e: "intact broken (ctx_holds good) (start_election_on L f n acts)" if "good (n_log n)" for f n acts
    using that unfolding start_election_on_def Let_def
    by (auto simp: case_prod_unfold intro!: intact_then[where P = "ctx_holds good"] intact_with_acts persist_good)
  show p: "intact broken (ctx_holds good) (start_pre_vote_on L n acts)" if "good (n_log n)" for n acts
    using that by (auto simp: start_pre_vote_on_def Let_def intro!: e)
  show "good (n_log n) \<Longrightarrow> intact broken (ctx_holds good) (handle_timeout_now_on L rpc n acts)"
    by (auto simp: handle_timeout_now_on_def intro!: e)
  show "good (n_log n) \<Longrightarrow> intact broken (ctx_holds good) (tick_on L n)"
    by (auto simp: tick_on_def Let_def intro!: p)
qed

lemma votes_good:
  "good (n_log n) \<Longrightarrow> intact broken (ctx_holds good) (handle_request_vote_on L rv n acts)"
  "good (n_log n) \<Longrightarrow> intact broken (ctx_holds good) (handle_pre_vote_reply_on L r n acts)"
  unfolding handle_request_vote_on_def handle_pre_vote_reply_on_def Let_def
  by (auto simp: case_prod_unfold intro!: intact_then[where P = "ctx_holds good"] intact_with_acts persist_good
      become_follower_good election_good)

lemma scan_good: "good l \<Longrightarrow> intact broken good (reconcile_scan_on L l es)"
  by (induction es arbitrary: l) (auto intro!: intact_then[where P = good] truncate_kept split: option.split)

lemma scan_rest: "reconcile_scan_on L l es = (l', Inr (rest, c)) \<Longrightarrow> list_all fits es \<Longrightarrow> list_all fits rest"
  by (induction es arbitrary: l) (auto simp: and_then_ok split: option.splits if_splits)

lemma append_from_leader_good:
  "good l \<Longrightarrow> list_all fits es \<Longrightarrow> intact broken good (append_from_leader_on L es l)"
  unfolding append_from_leader_on_def
  by (rule intact_then[OF scan_good])
    (auto simp: case_prod_unfold dest: scan_rest intro!: intact_then[where P = good] append_kept sync_good)

lemma handle_append_entries_good:
  "good (n_log n) \<Longrightarrow> list_all fits (ae_entries ae) \<Longrightarrow>
   intact broken (ctx_holds good) (handle_append_entries_on L ae n acts)"
  unfolding handle_append_entries_on_def Let_def
  by (auto simp: case_prod_unfold intro!: intact_then[where P = "ctx_holds good"] intact_with_acts intact_log_op
      append_from_leader_good)

lemma snapshots_good:
  "good (n_log n) \<Longrightarrow> (\<And>t. lo_term_at L (n_log n) i = Some t \<Longrightarrow>
     room (n_log n) (snapshot_with_config i t (config_at_on L n i) d)) \<Longrightarrow>
   intact broken (log_holds good) (handle_snapshot_event_on L i d n)"
  "good (n_log n) \<Longrightarrow> room (n_log n) (ins_snapshot rpc) \<Longrightarrow>
   intact broken (ctx_holds good) (handle_install_snapshot_on L rpc n acts)"
  unfolding handle_snapshot_event_on_def handle_install_snapshot_on_def Let_def
  by (auto simp: case_prod_unfold split: option.split intro!: intact_then[where P = "ctx_holds good"]
      intact_then[where P = "log_holds good"] intact_with_acts intact_log_op snapshot_kept sync_good)

lemma requests_good:
  "good (n_log n) \<Longrightarrow> fits (entry_new (n_current_term n) (lo_last_index L (n_log n) + 1) c) \<Longrightarrow>
   intact broken (log_holds good) (propose_on L n c)"
  "good (n_log n) \<Longrightarrow> fits (entry_config (n_current_term n) (lo_last_index L (n_log n) + 1) (sorted_members
     (case r of Some i \<Rightarrow> filter (\<lambda>m. m \<noteq> i)
        (case a of Some i \<Rightarrow> if i \<in> set (n_voters n) then n_voters n else n_voters n @ [i] | None \<Rightarrow> n_voters n)
      | None \<Rightarrow> (case a of Some i \<Rightarrow> if i \<in> set (n_voters n) then n_voters n else n_voters n @ [i] | None \<Rightarrow> n_voters n)))) \<Longrightarrow>
   intact broken (log_holds good) (change_membership_on L n a r)"
  unfolding propose_on_def change_membership_on_def Let_def
  by (auto simp: case_prod_unfold intro!: intact_then[where P = "log_holds good"] intact_log_op append_kept sync_good)

lemma dispatch_good:
  "good (n_log n) \<Longrightarrow> (\<forall>ae. m = AppendEntries ae \<longrightarrow> list_all fits (ae_entries ae)) \<Longrightarrow>
   (\<forall>rpc. m = InstallSnapshot rpc \<longrightarrow> room (n_log n) (ins_snapshot rpc)) \<Longrightarrow>
   intact broken (ctx_holds good) (dispatch_on L m n acts)"
  by (auto simp: dispatch_on_def split: message.split
      intro!: votes_good handle_append_entries_good snapshots_good election_good)

lemma handle_message_good:
  assumes "good (n_log n)" "\<forall>ae. m = AppendEntries ae \<longrightarrow> list_all fits (ae_entries ae)"
    "\<forall>rpc. m = InstallSnapshot rpc \<longrightarrow> room (n_log n) (ins_snapshot rpc)"
  shows "intact broken (ctx_holds good) (handle_message_on L m n)"
proof -
  have "intact broken (ctx_holds good) (and_then (with_acts [] (if n_current_term n < message_term m
      then become_follower_on L (message_term m) None n else (n, Inr ()))) (\<lambda>(n, acts) _. dispatch_on L m n acts))"
  proof (rule intact_then[where P = "ctx_holds (onward (n_log n))"])
    show "intact broken (ctx_holds (onward (n_log n))) (with_acts [] (if n_current_term n < message_term m
        then become_follower_on L (message_term m) None n else (n, Inr ())))"
      using assms(1) by (auto intro!: intact_with_acts become_follower_onward good_onward(1))
    show "intact broken (ctx_holds good) ((case s of (n, acts) \<Rightarrow> \<lambda>_. dispatch_on L m n acts) u)"
      if "onward (n_log n) (n_log (fst s))" for s :: "'l ctx_of" and u :: unit
      using that assms(2,3) by (auto simp: case_prod_unfold onward_def intro!: dispatch_good)
  qed (rule good_onward(2))
  then show ?thesis
    using assms(1) by (auto simp: handle_message_on_def split: message.split intro!: votes_good)
qed

lemma transfer_good: "good (n_log n) \<Longrightarrow> intact broken (log_holds good) (transfer_leadership_on L n t)"
  by (rule intact_state) simp

lemma step_good:
  "good (n_log n) \<Longrightarrow> storable_on L fits room ev n \<Longrightarrow> intact broken (log_holds good) (step_on L ev n)"
  by (cases ev) (auto simp: step_on_def storable_on_def Let_def split: message.splits option.splits
      intro!: intact_finish election_good handle_message_good requests_good snapshots_good transfer_good)

end

subsection \<open>The records of a \<open>WalLog\<close>\<close>

definition wal_recorded :: "'w wal_ops \<Rightarrow> ('w \<Rightarrow> (u64 \<times> byte list) list) \<Rightarrow> 'w wal_log \<Rightarrow> bool" where
  "wal_recorded W recs l \<longleftrightarrow> wal_laws W recs \<and> faithful recs l"

definition entry_fits :: "log_entry \<Rightarrow> bool" where
  "entry_fits e \<longleftrightarrow> record_fits (DEntry e)"

definition snapshot_room :: "'w wal_log \<Rightarrow> snapshot \<Rightarrow> bool" where
  "snapshot_room l s \<longleftrightarrow> record_fits (DSnapshot s) \<and> keeps_no_tail s (wl_index l)"

lemma ml_errors:
  "ml_append l es = (l', Inl e) \<Longrightarrow> is_storage e" "ml_truncate l i = (l', Inl e) \<Longrightarrow> is_storage e"
  by (auto simp: ml_append_def ml_truncate_def Let_def split: list.splits if_splits)

text \<open>Every error of a \<open>WalLog\<close> is a storage error.\<close>

lemma wl_write_error: "snd (wl_write W l c d) = Inl e \<Longrightarrow> is_storage e"
  by (auto simp: wl_write_def split: prod.splits sum.splits)

lemma and_then_error:
  "snd (and_then m f) = Inl e \<longleftrightarrow> snd m = Inl e \<or> (\<exists>s a. m = (s, Inr a) \<and> snd (f s a) = Inl e)"
  by (cases m rule: prod.exhaust) (auto split: sum.splits simp: and_then_def)

lemma wl_write_entries_error: "snd (wl_write_entries W l es) = Inl e \<Longrightarrow> is_storage e"
  by (induction es arbitrary: l) (auto simp: and_then_error dest: wl_write_error)

lemma wl_errors:
  "snd (wl_append W l es) = Inl e \<Longrightarrow> is_storage e"
  "snd (wl_truncate W l i) = Inl e \<Longrightarrow> is_storage e"
  "snd (wl_set_hard_state W l h) = Inl e \<Longrightarrow> is_storage e"
  "snd (wl_sync W l) = Inl e \<Longrightarrow> is_storage e"
  "snd (wl_apply_snapshot W l s) = Inl e \<Longrightarrow> is_storage e"
  by (auto simp: wl_append_def wl_truncate_def wl_set_hard_state_def wl_sync_def wl_apply_snapshot_def on_index_def
      ml_set_hard_state_def ml_apply_snapshot_def and_then_error Let_def
      dest: wl_write_error wl_write_entries_error ml_errors split: prod.splits sum.splits if_splits)

lemma intact_storage:
  fixes m :: "'s \<times> (rerror + unit)"
  assumes "\<And>e. snd m = Inl e \<Longrightarrow> is_storage e" "\<And>s. m = (s, Inr ()) \<Longrightarrow> P s"
  shows "intact is_storage P m"
  using assms by (cases m; cases "snd m") (auto simp: intact_def)

lemma snapshot_room_hard:
  "wl_index l' = (wl_index l)\<lparr>ml_hard := h\<rparr> \<Longrightarrow> snapshot_room l s \<Longrightarrow> snapshot_room l' s"
  by (simp add: snapshot_room_def keeps_no_tail_def ml_snapshot_index_def ml_apply_snapshot_def Let_def
      ml_term_at_def ml_slot_def ml_last_index_def ml_len_def split: if_splits)

interpretation durable: log_keeping "wal_log_ops W" "wal_recorded W recs" entry_fits snapshot_room is_storage
  for W :: "'w wal_ops" and recs
proof (unfold_locales; unfold wal_log_ops_def log_ops.simps wal_recorded_def; rule intact_storage; (elim conjE)?)
  show "is_storage e" if "snd (wl_append W l es) = Inl e" for e l es using that by (rule wl_errors)
  show "is_storage e" if "snd (wl_truncate W l i) = Inl e" for e l i using that by (rule wl_errors)
  show "is_storage e" if "snd (wl_set_hard_state W l h) = Inl e" for e l h using that by (rule wl_errors)
  show "is_storage e" if "snd (wl_sync W l) = Inl e" for e l using that by (rule wl_errors)
  show "is_storage e" if "snd (wl_apply_snapshot W l s) = Inl e" for e l s using that by (rule wl_errors)
next
  fix l es l'
  assume "list_all entry_fits es" "wl_append W l es = (l', Inr ())" "wal_laws W recs" "faithful recs l"
  then show "wal_laws W recs \<and> faithful recs l'"
    by (auto simp: list_all_iff entry_fits_def intro: faithful_append)
next
  fix l i l'
  assume "wl_truncate W l i = (l', Inr ())" "wal_laws W recs" "faithful recs l"
  then show "wal_laws W recs \<and> faithful recs l'" by (auto intro: faithful_truncate)
next
  fix l h l'
  assume a: "wl_set_hard_state W l h = (l', Inr ())" "wal_laws W recs" "faithful recs l"
  have "wl_index l' = (wl_index l)\<lparr>ml_hard := h\<rparr>"
    using wl_set_hard_state_index[OF a(1)] by (simp add: ml_set_hard_state_def)
  with a show "(wal_laws W recs \<and> faithful recs l') \<and> (\<forall>s. snapshot_room l s \<longrightarrow> snapshot_room l' s)"
    by (auto intro: faithful_set_hard_state snapshot_room_hard)
next
  fix l l'
  assume a: "wl_sync W l = (l', Inr ())" "wal_laws W recs" "faithful recs l"
  then show "(wal_laws W recs \<and> faithful recs l') \<and> (\<forall>s. snapshot_room l s \<longrightarrow> snapshot_room l' s)"
    using wl_sync_index[OF a(1)] by (auto simp: snapshot_room_def intro: faithful_sync)
next
  fix l s l'
  assume "snapshot_room l s" "wl_apply_snapshot W l s = (l', Inr ())" "wal_laws W recs" "faithful recs l"
  then show "wal_laws W recs \<and> faithful recs l'"
    by (auto simp: snapshot_room_def intro: faithful_apply_snapshot)
qed

subsection \<open>The life of a durable node\<close>

text \<open>
  The node handles events and is restarted: it is dropped, and rebuilt by \<open>with_log\<close> on what
  \<open>WalLog::open\<close> makes of the write-ahead log. \<open>None\<close> is a storage failure, a reopening that
  fails, or an event the proofs leave out: one that would store more than fits in a record,
  a snapshot that leaves entries above it, or a term at the end of its range.
\<close>

datatype life_event =
    Handle event
  | Reboot raft_config

definition storable :: "'w wal_ops \<Rightarrow> event \<Rightarrow> 'w wal_log raft_node \<Rightarrow> bool" where
  "storable W ev n \<longleftrightarrow>
     storable_on (wal_log_ops W) entry_fits snapshot_room ev n \<and> term_room ev (retype wl_index n)"

fun live :: "'w wal_ops \<Rightarrow> life_event \<Rightarrow> 'w wal_log raft_node \<Rightarrow> 'w wal_log raft_node option" where
  "live W (Handle ev) n =
     (if storable W ev n
      then (case step_on (wal_log_ops W) ev n of
              (n', Inl e) \<Rightarrow> if is_storage e then None else Some n'
            | (n', Inr acts) \<Rightarrow> Some n')
      else None)"
| "live W (Reboot c) n =
     (case wl_open W (Inr (wl_wal (n_log n))) of
        Inl e \<Rightarrow> None
      | Inr l \<Rightarrow> Some (node_with_log_on (wal_log_ops W) c l))"

fun life :: "'w wal_ops \<Rightarrow> life_event list \<Rightarrow> 'w wal_log raft_node \<Rightarrow> 'w wal_log raft_node option" where
  "life W [] n = Some n"
| "life W (x # xs) n = Option.bind (live W x n) (life W xs)"

definition sound_life :: "'w wal_ops \<Rightarrow> ('w \<Rightarrow> (u64 \<times> byte list) list) \<Rightarrow> 'w wal_log raft_node \<Rightarrow> bool" where
  "sound_life W recs n \<longleftrightarrow> wal_recorded W recs (n_log n) \<and> persisted (retype wl_index n)"

definition ballot_kept :: "'l raft_node \<Rightarrow> 'l raft_node \<Rightarrow> bool" where
  "ballot_kept n n' \<longleftrightarrow> n_current_term n < n_current_term n'
     \<or> n_current_term n' = n_current_term n \<and> (\<forall>c. n_voted_for n = Some c \<longrightarrow> n_voted_for n' = Some c)"

lemma ballot_kept_trans: "ballot_kept n n' \<Longrightarrow> ballot_kept n' n'' \<Longrightarrow> ballot_kept n n''"
  by (auto simp: ballot_kept_def)

lemma born_sound:
  assumes "wal_recorded W recs l"
  shows "sound_life W recs (node_with_log_on (wal_log_ops W) c l)"
proof -
  have "n_log (node_with_log_on (wal_log_ops W) c l) = l"
    by (simp add: node_with_log_on_def Let_def case_prod_unfold)
  then show ?thesis
    using assms on_disk.node_with_log[of c l W, symmetric]
    by (simp add: sound_life_def persisted_def node_with_log_def Let_def case_prod_unfold ml_hard_state_def)
qed

lemma recorded_reopens: "wal_recorded W recs l \<Longrightarrow> wl_open W (Inr (wl_wal l)) = Inr l"
  using wl_open_faithful[of W recs "wl_wal l" l] by (simp add: wal_recorded_def)

lemma handled_sound:
  assumes "sound_life W recs n" "live W (Handle ev) n = Some n'"
  shows "sound_life W recs n' \<and> ballot_kept n n'"
proof -
  obtain r where r: "step_on (wal_log_ops W) ev n = (n', r)" "\<And>e. r = Inl e \<Longrightarrow> \<not> is_storage e" and st: "storable W ev n"
    using assms(2) by (auto split: if_splits prod.splits sum.splits)
  have "intact is_storage (log_holds (wal_recorded W recs)) (step_on (wal_log_ops W) ev n)"
    using assms(1) st by (intro durable.step_good) (simp_all add: sound_life_def storable_def)
  moreover have s: "step ev (retype wl_index n) = (retype wl_index n', r)"
    using on_disk.step[of W ev n] r by (auto simp: follows_unless_def)
  moreover have "sound_step (event_reply ev) (retype wl_index n)
      (retype wl_index n', case r of Inl _ \<Rightarrow> [] | Inr acts \<Rightarrow> acts)"
    using sound[of "retype wl_index n" ev] assms(1) st s by (simp add: sound_life_def storable_def)
  ultimately show ?thesis
    using r by (auto simp: intact_def sound_life_def sound_step_def ballot_step_def ballot_kept_def)
qed

lemma rebooted:
  assumes "sound_life W recs n"
  shows "live W (Reboot c) n = Some (node_with_log_on (wal_log_ops W) c (n_log n))"
    and "ballot_kept n (node_with_log_on (wal_log_ops W) c (n_log n))"
proof -
  have "wl_open W (Inr (wl_wal (n_log n))) = Inr (n_log n)"
    using assms by (auto simp: sound_life_def intro: recorded_reopens)
  then show "live W (Reboot c) n = Some (node_with_log_on (wal_log_ops W) c (n_log n))" by simp
  show "ballot_kept n (node_with_log_on (wal_log_ops W) c (n_log n))"
    using assms by (auto simp: ballot_kept_def sound_life_def persisted_def node_with_log_on_def Let_def
        case_prod_unfold wal_log_ops_def wl_hard_state_def ml_hard_state_def)
qed

lemma life_sound:
  assumes "sound_life W recs n" "life W xs n = Some n'"
  shows "sound_life W recs n' \<and> ballot_kept n n'"
  using assms
proof (induction xs arbitrary: n)
  case Nil
  then show ?case by (simp add: ballot_kept_def)
next
  case (Cons x xs)
  then obtain n1 where n1: "live W x n = Some n1" "life W xs n1 = Some n'" by (auto simp: bind_eq_Some_conv)
  have "sound_life W recs n1 \<and> ballot_kept n n1"
  proof (cases x)
    case (Handle ev)
    with Cons.prems(1) n1(1) show ?thesis using handled_sound by blast
  next
    case (Reboot c)
    with rebooted[OF Cons.prems(1), of c] n1(1) Cons.prems(1) show ?thesis
      using born_sound by (auto simp: sound_life_def)
  qed
  with Cons.IH[OF _ n1(2)] show ?case using ballot_kept_trans by blast
qed

lemma opened_sound:
  assumes "wal_laws W recs" "wl_open W (Inr w) = Inr l"
  shows "sound_life W recs (node_with_log_on (wal_log_ops W) c l)"
  using assms by (intro born_sound) (simp add: wal_recorded_def wl_open_faithful)

subsection \<open>A sample life\<close>

definition sample_born :: "(u64 \<times> byte list) list wal_log raft_node" where
  "sample_born = node_with_log_on (wal_log_ops list_wal) (three 2) \<lparr>wl_wal = [], wl_index = ml_new\<rparr>"

lemma sample_life_runs:
  "case life list_wal [Handle (Message request_by_1)] sample_born of None \<Rightarrow> False | Some n \<Rightarrow>
     n_voted_for n = Some 1 \<and> n_current_term n = 1
     \<and> (case life list_wal [Reboot (three 2), Handle Tick] n of None \<Rightarrow> False | Some n' \<Rightarrow> n_current_term n' = 1)"
  by code_simp

lemma sample_lives:
  obtains n n' where "life list_wal [Handle (Message request_by_1)] sample_born = Some n" "n_voted_for n = Some 1"
    "n_current_term n = 1" "life list_wal [Reboot (three 2), Handle Tick] n = Some n'" "n_current_term n' = 1"
  using sample_life_runs by (auto split: option.splits)

subsection \<open>Properties\<close>

text \<open>
  C16: A durable node survives a restart between any two events of a life without storage
  failures and without tails: if since its write-ahead log was first opened no event has
  reported a storage failure, every record fitted its length fields, no snapshot left entries
  above it in the log and no term was at the end of its range (what \<open>life\<close> admits), then,
  whatever else it has handled and however often it was restarted, reopening the log does not
  fail and gives back exactly the log the node had, and the rebuilt node is a follower in the
  same term, with the same vote and the same log.
\<close>

theorem restart_resumes:
  assumes "wal_laws W recs" "wl_open W (Inr w) = Inr l"
    and "life W xs (node_with_log_on (wal_log_ops W) c l) = Some n"
  shows "wl_open W (Inr (wl_wal (n_log n))) = Inr (n_log n)
    \<and> (\<exists>n'. live W (Reboot c') n = Some n' \<and> n_log n' = n_log n \<and> n_role n' = Follower
         \<and> n_current_term n' = n_current_term n \<and> n_voted_for n' = n_voted_for n)"
proof -
  have s: "sound_life W recs n" using life_sound[OF opened_sound[OF assms(1,2)] assms(3)] by blast
  then have "wl_open W (Inr (wl_wal (n_log n))) = Inr (n_log n)"
    by (auto simp: sound_life_def intro: recorded_reopens)
  with s rebooted(1)[OF s, of c'] show ?thesis
    by (simp add: sound_life_def persisted_def node_with_log_on_def Let_def case_prod_unfold wal_log_ops_def
        wl_hard_state_def ml_hard_state_def)
qed

theorem restart_resumes_witness:
  "\<exists>n n'. life list_wal [Handle (Message request_by_1)] sample_born = Some n \<and> n_voted_for n = Some 1
     \<and> live list_wal (Reboot (three 2)) n = Some n' \<and> n_voted_for n' = Some 1"
proof -
  obtain n n' where n: "life list_wal [Handle (Message request_by_1)] sample_born = Some n" "n_voted_for n = Some 1"
    by (rule sample_lives)
  from restart_resumes[OF list_wal_laws open_empty n(1)[unfolded sample_born_def], of "three 2"] n show ?thesis
    by auto
qed

text \<open>
  C17: A vote outlives the process: over a life of a durable node, restarts included, in which
  no event reports a storage failure, every record fits its length fields, no snapshot leaves
  entries above it in the log and no term is at the end of its range (what \<open>life\<close> admits), its
  term never goes back, and while the term stays the same a vote, once cast, is never withdrawn
  or given to another candidate.
\<close>

theorem vote_survives_restarts:
  assumes "wal_laws W recs" "wl_open W (Inr w) = Inr l"
    and "life W xs (node_with_log_on (wal_log_ops W) c l) = Some n" "life W ys n = Some n'"
  shows "n_current_term n \<le> n_current_term n'
    \<and> (n_current_term n' = n_current_term n \<longrightarrow> n_voted_for n = Some k \<longrightarrow> n_voted_for n' = Some k)"
proof -
  have "sound_life W recs n" using life_sound[OF opened_sound[OF assms(1,2)] assms(3)] by blast
  then have "ballot_kept n n'" using life_sound[OF _ assms(4)] by blast
  then show ?thesis by (auto simp: ballot_kept_def)
qed

theorem vote_survives_restarts_witness:
  "\<exists>n n'. life list_wal [Handle (Message request_by_1)] sample_born = Some n
     \<and> life list_wal [Reboot (three 2), Handle Tick] n = Some n' \<and> n_voted_for n' = Some 1"
proof -
  obtain n n' where n: "life list_wal [Handle (Message request_by_1)] sample_born = Some n" "n_voted_for n = Some 1"
    "n_current_term n = 1" "life list_wal [Reboot (three 2), Handle Tick] n = Some n'" "n_current_term n' = 1"
    by (rule sample_lives)
  from vote_survives_restarts[OF list_wal_laws open_empty n(1)[unfolded sample_born_def] n(4), of 1] n show ?thesis
    by auto
qed

end
