(* ===== verification/Persistent_Node.thy ===== *)
theory Persistent_Node
  imports Node_Durability Single_Node
begin

text \<open>
  \<^verbatim>\<open>examples/persistent_node.rs\<close>: a cluster of one over a \<open>WalLog\<close> leads, commits its proposals
  and is dropped; a second node opened on the same file finds the first one's log and term, leads
  the next term and goes on. \<open>None\<close> is a panic (an \<open>expect\<close> or an assertion that fails), or not
  returning. What opening the path yields is a parameter, of the first handle for the second time;
  the result is what the program prints.
\<close>

record durable_report =
  dr_first_term :: raft_term
  dr_first_applied :: "(raft_index \<times> str) list"
  dr_first_commit :: raft_index
  dr_last_index :: raft_index
  dr_persisted_term :: raft_term
  dr_recovered :: "(raft_index \<times> raft_term \<times> str) list"
  dr_second_term :: raft_term
  dr_second_applied :: "(raft_index \<times> str) list"
  dr_second_commit :: raft_index

definition durable_tick :: "'w wal_ops \<Rightarrow> 'w wal_log raft_node \<Rightarrow> 'w wal_log raft_node option" where
  "durable_tick W n =
     (case step_on (wal_log_ops W) Tick n of (n, Inr acts) \<Rightarrow> Some n | (n, Inl e) \<Rightarrow> None)"

definition drive_to_leader :: "'w wal_ops \<Rightarrow> 'w wal_log raft_node \<Rightarrow> 'w wal_log raft_node option" where
  "drive_to_leader W n = until is_leader (durable_tick W) n"

text \<open>\<open>propose\<close>, with what it prints of the actions.\<close>

definition durable_propose ::
  "'w wal_ops \<Rightarrow> byte list \<Rightarrow> 'w wal_log raft_node \<times> (raft_index \<times> str) list
   \<Rightarrow> ('w wal_log raft_node \<times> (raft_index \<times> str) list) option" where
  "durable_propose W command s =
     (case s of (n, applied) \<Rightarrow>
        (case step_on (wal_log_ops W) (Propose command) n of
           (n, Inr acts) \<Rightarrow> Some (n, applied @ printed acts) | (n, Inl e) \<Rightarrow> None))"

definition durable_start ::
  "'w wal_ops \<Rightarrow> raft_config \<Rightarrow> string + 'w \<Rightarrow> 'w wal_log raft_node option" where
  "durable_start W c opened =
     (case wl_open W opened of Inl e \<Rightarrow> None | Inr l \<Rightarrow> Some (node_with_log_on (wal_log_ops W) c l))"

definition recovered_entries :: "'w wal_log raft_node \<Rightarrow> (raft_index \<times> raft_term \<times> str) list option" where
  "recovered_entries n =
     for_each (\<lambda>i lines. case wl_entry (n_log n) i of
         None \<Rightarrow> None
       | Some e \<Rightarrow> Some (lines @ [(i, le_term e, from_utf8_lossy (le_command e))]))
       (map word_of_nat [1..<unat (wl_last_index (n_log n)) + 1]) []"

definition durable_run ::
  "'w wal_ops \<Rightarrow> string + 'w \<Rightarrow> ('w \<Rightarrow> string + 'w) \<Rightarrow> raft_config \<Rightarrow> byte list list \<Rightarrow> byte list list
   \<Rightarrow> durable_report option" where
  "durable_run W opened reopen c commands more_commands =
     Option.bind (durable_start W c opened) (\<lambda>n0.
     Option.bind (drive_to_leader W n0) (\<lambda>n1.
     Option.bind (for_each (durable_propose W) commands (n1, [])) (\<lambda>(n2, applied).
     Option.bind (durable_start W c (reopen (wl_wal (n_log n2)))) (\<lambda>m0.
     Option.bind (recovered_entries m0) (\<lambda>recovered.
     Option.bind (drive_to_leader W m0) (\<lambda>m1.
     Option.bind (for_each (durable_propose W) more_commands (m1, [])) (\<lambda>(m2, more_applied).
       Some \<lparr>dr_first_term = get_term n1, dr_first_applied = applied, dr_first_commit = get_commit_index n2,
         dr_last_index = wl_last_index (n_log m0), dr_persisted_term = get_term m0, dr_recovered = recovered,
         dr_second_term = get_term m1, dr_second_applied = more_applied,
         dr_second_commit = get_commit_index m2\<rparr>)))))))"

definition durable_main :: "'w wal_ops \<Rightarrow> string + 'w \<Rightarrow> ('w \<Rightarrow> string + 'w) \<Rightarrow> durable_report option" where
  "durable_main W opened reopen =
     Option.bind (durable_run W opened reopen (config_single 1)
         (map ascii [''set x = 1'', ''set y = 2'']) [ascii ''set z = 3''])
       (\<lambda>r. if dr_last_index r = 2 \<and> dr_second_commit r = 3 then Some r else None)"

lemma durable_main_returns:
  "durable_main list_wal (Inr []) Inr = Some
     \<lparr>dr_first_term = 1, dr_first_applied = [(1, ascii ''set x = 1''), (2, ascii ''set y = 2'')],
      dr_first_commit = 2, dr_last_index = 2, dr_persisted_term = 1,
      dr_recovered = [(1, 1, ascii ''set x = 1''), (2, 1, ascii ''set y = 2'')],
      dr_second_term = 2,
      dr_second_applied = [(1, ascii ''set x = 1''), (2, ascii ''set y = 2''), (3, ascii ''set z = 3'')],
      dr_second_commit = 3\<rparr>"
  by code_simp

subsection \<open>The lone leader\<close>

text \<open>Commands with the terms they were proposed in, as the log keeps them.\<close>

definition numbered :: "(raft_term \<times> byte list) list \<Rightarrow> log_entry list" where
  "numbered ts = map (\<lambda>i. entry_new (fst (ts ! i)) (word_of_nat (i + 1)) (snd (ts ! i))) [0..<length ts]"

lemma numbered_append: "numbered (ts @ [(t, x)]) = numbered ts @ [entry_new t (word_of_nat (length ts + 1)) x]"
  by (simp add: numbered_def nth_append)

lemma numbered_sel [simp]:
  "length (numbered ts) = length ts" "i < length ts \<Longrightarrow>
   numbered ts ! i = entry_new (fst (ts ! i)) (word_of_nat (i + 1)) (snd (ts ! i))"
  by (simp_all add: numbered_def)

text \<open>What applying a list of commands prints.\<close>

definition texts :: "byte list list \<Rightarrow> (raft_index \<times> str) list" where
  "texts xs = zip (map word_of_nat [1..<length xs + 1]) (map from_utf8_lossy xs)"

lemma texts_sel [simp]:
  "length (texts xs) = length xs" "i < length xs \<Longrightarrow> texts xs ! i = (word_of_nat (i + 1), from_utf8_lossy (xs ! i))"
  by (simp_all add: texts_def del: upt_Suc)

lemma texts_take: "take (length xs) (texts (xs @ ys)) = texts xs"
  by (rule nth_equalityI) (simp_all add: nth_append)

lemma texts_append:
  assumes "c \<le> length xs"
  shows "drop c (texts xs) @ drop (length xs) (texts (xs @ ys)) = drop c (texts (xs @ ys))"
proof -
  have "drop c (texts (xs @ ys)) = drop c (take (length xs) (texts (xs @ ys)) @ drop (length xs) (texts (xs @ ys)))"
    by simp
  also have "\<dots> = drop c (texts xs) @ drop (length xs) (texts (xs @ ys))"
    using assms by (simp only: texts_take drop_append) simp
  finally show ?thesis by simp
qed

definition leading :: "nat \<Rightarrow> (raft_term \<times> byte list) list \<Rightarrow> node \<Rightarrow> bool" where
  "leading c ts n \<longleftrightarrow> n_role n = Leader \<and> sole_voter n \<and> n_progress n = [] \<and> n_transfer_target n = None
     \<and> ml_base_index (n_log n) = 0 \<and> ml_base_term (n_log n) = 0 \<and> ml_snapshot (n_log n) = None
     \<and> ml_entries (n_log n) = numbered ts \<and> c \<le> length ts
     \<and> n_commit_index n = word_of_nat c \<and> n_last_applied n = word_of_nat c"

lemma small_unat: "k < 2 ^ 64 \<Longrightarrow> unat (word_of_nat k :: u64) = k"
  by (simp only: unat_of_nat) (simp add: take_bit_nat_eq_self)

lemma numbered_read:
  assumes "ml_base_index l = 0" "ml_entries l = numbered ts" "length ts < 2 ^ 64" "i < length ts"
  shows "ml_entry l (word_of_nat (i + 1)) = Some (entry_new (fst (ts ! i)) (word_of_nat (i + 1)) (snd (ts ! i)))"
proof -
  have u: "unat (word_of_nat (i + 1) :: u64) = i + 1" "unat (word_of_nat (length ts) :: u64) = length ts"
    using assms(3,4) by (intro small_unat; linarith)+
  then have "(0 :: u64) < word_of_nat (i + 1)" "word_of_nat (i + 1) \<le> (word_of_nat (length ts) :: u64)"
    using assms(4) by (simp_all add: word_less_nat_alt word_le_nat_alt del: of_nat_add of_nat_Suc)
  then have "ml_slot l (word_of_nat (i + 1)) = Some i"
    using assms u by (auto simp: ml_slot_def ml_last_zero unat_minus_one_pos simp del: of_nat_add of_nat_Suc dest: leD)
  with assms(2,4) show ?thesis by (simp add: ml_entry_def)
qed

lemma printed_between:
  assumes "ml_base_index l = 0" "ml_entries l = numbered ts" "length ts < 2 ^ 64" "c \<le> length ts"
  shows "printed (commands_between l (word_of_nat c) (word_of_nat (length ts))) = drop c (texts (map snd ts))"
proof -
  have u: "unat (word_of_nat c :: u64) = c" "unat (word_of_nat (length ts) :: u64) = length ts"
    using assms(3,4) by (intro small_unat; linarith)+
  have "printed (concat (map (\<lambda>i. apply_action l (word_of_nat i)) [a + 1..<length ts + 1])) = drop a (texts (map snd ts))"
    if "a \<le> length ts" for a
    using that
  proof (induction "length ts - a" arbitrary: a)
    case 0
    then show ?case by (simp add: printed_def)
  next
    case (Suc k)
    then have lt: "a < length ts" by linarith
    have "apply_action l (word_of_nat (a + 1)) = [Apply (word_of_nat (a + 1)) (fst (ts ! a)) (snd (ts ! a))]"
      using numbered_read[OF assms(1-3) lt] by (simp add: apply_action_def entry_new_def members_def del: of_nat_add of_nat_Suc)
    moreover have "[a + 1..<length ts + 1] = (a + 1) # [a + 1 + 1..<length ts + 1]" using lt by (simp add: upt_rec)
    moreover have "drop a (texts (map snd ts)) = (word_of_nat (a + 1), from_utf8_lossy (snd (ts ! a))) # drop (a + 1) (texts (map snd ts))"
      using lt by (simp add: Cons_nth_drop_Suc[symmetric])
    ultimately show ?case
      using Suc.hyps(1)[of "a + 1"] Suc.hyps(2) lt by (simp add: printed_def del: upt_Suc of_nat_add of_nat_Suc)
  qed
  from this[OF assms(4)] show ?thesis by (simp add: commands_between_def u del: upt_Suc)
qed

text \<open>A proposal commits at once, and applies whatever was not applied before it.\<close>

lemma propose_lone:
  assumes n: "leading c ts n" and k: "length ts + 1 < 2 ^ 64"
  shows "\<exists>n' acts. step (Propose x) n = (n', Inr acts) \<and> n_current_term n' = n_current_term n
    \<and> leading (length ts + 1) (ts @ [(n_current_term n, x)]) n'
    \<and> printed acts = drop c (texts (map snd ts @ [x]))"
proof -
  let ?ts = "ts @ [(n_current_term n, x)]" and ?k = "word_of_nat (length ts + 1) :: u64"
  let ?l = "(n_log n)\<lparr>ml_entries := numbered ?ts\<rparr>"
  note N = n[unfolded leading_def]
  have last: "ml_last_index (n_log n) + 1 = ?k" "ml_last_index ?l = ?k"
    using N by (simp_all add: ml_last_zero add.commute)
  have u: "unat ?k = length ts + 1" "unat (word_of_nat c :: u64) = c" using k N by (intro small_unat; linarith)+
  have lt: "word_of_nat c < ?k" "(0 :: u64) < ?k" "ml_base_index ?l = 0"
    using u N by (simp_all add: word_less_nat_alt del: of_nat_add of_nat_Suc)
  have e: "ml_entry ?l ?k = Some (entry_new (n_current_term n) ?k x)"
    using numbered_read[of ?l ?ts "length ts"] lt(3) k by (simp add: nth_append del: of_nat_add of_nat_Suc)
  then have t: "ml_term_at ?l ?k = Some (n_current_term n)"
    using N lt by (auto simp: ml_term_at_def ml_entry_def entry_new_def split: option.splits)
  define m where "m = n\<lparr>n_log := ?l\<rparr>"
  define d where "d = drain_applies (m\<lparr>n_commit_index := ?k\<rparr>) []"
  have m: "sole_voter m" using N by (simp add: sole_voter_def m_def)
  have scan: "commit_scan m (ml_last_index (n_log m)) = ?k"
    using N lt t last(2) sole_voter_votes[OF m]
    by (subst commit_scan.simps) (simp add: m_def replicas_def del: of_nat_add of_nat_Suc)
  have id: "is_voter (fst d)" using sole_voter_votes(1)[OF m] by (simp add: d_def is_voter_def frame_simps)
  have "advance_commit m [] = d"
    using N lt(1) scan id by (simp add: advance_commit_def Let_def case_prod_unfold d_def m_def del: of_nat_add of_nat_Suc)
  moreover have "ml_append (n_log n) [entry_new (n_current_term n) ?k x] = (?l, Inr ())"
    using N last(1) by (simp add: append_one numbered_append entry_new_def del: of_nat_add of_nat_Suc)
  ultimately have st: "step (Propose x) n = (fst d, Inr (snd d))"
    using N last(1) by (simp add: step_def propose_def Let_def ml_sync_def replicate_to_streaming_def m_def
        case_prod_unfold del: of_nat_add of_nat_Suc)
  have le: "(word_of_nat c :: u64) \<le> ?k" using lt(1) by simp
  have dl: "drain_loop (m\<lparr>n_commit_index := ?k\<rparr>) [] = (m\<lparr>n_commit_index := ?k, n_last_applied := ?k\<rparr>,
      commands_between ?l (word_of_nat c) ?k)"
    using N le by (subst drain_loop_applies) (simp_all add: m_def del: of_nat_add of_nat_Suc)
  have "printed (snd d) = drop c (texts (map snd ts @ [x]))"
    using dl printed_between[of ?l ?ts c] N k
    by (simp add: d_def drain_applies_def printed_maybe_hint del: of_nat_add of_nat_Suc)
  moreover have "leading (length ts + 1) ?ts (fst d)" "n_current_term (fst d) = n_current_term n"
    using N dl by (simp_all add: d_def drain_applies_def leading_def m_def sole_voter_def frame_simps
        del: of_nat_add of_nat_Suc)
  ultimately show ?thesis using st by blast
qed

text \<open>Proposals are served one after the other.\<close>

lemma shown_step:
  assumes "c \<le> length ts"
  shows "drop c (texts (map snd ts @ [x])) @ (if xs = [] then [] else drop (length ts + 1) (texts (map snd ts @ [x] @ xs)))
    = drop c (texts (map snd ts @ x # xs))"
  using texts_append[of c "map snd ts @ [x]" xs] assms by simp

lemma numbered_slot:
  assumes "ml_base_index l = 0" "ml_entries l = numbered ts" "ml_slot l i = Some k"
  shows "k < length ts"
proof -
  have "i \<noteq> 0" "i \<le> word_of_nat (length ts)" "k = unat (i - 1)"
    using assms by (auto simp: ml_slot_def ml_last_zero not_less split: if_splits)
  moreover have "unat (word_of_nat (length ts) :: u64) \<le> length ts"
    by (simp add: unat_of_nat take_bit_nat_less_eq_self)
  ultimately show ?thesis
    using unat_gt_0[of i] by (simp add: unat_minus_one_pos word_le_nat_alt word_gt_0)
qed

lemma entries_old:
  assumes "ml_base_index l = 0" "ml_base_term l = 0" "ml_entries l = numbered ts" "0 < t" "\<forall>u \<in> fst ` set ts. u < t"
    and "ml_term_at l i = Some s"
  shows "s < t"
proof -
  have "s = 0 \<or> (\<exists>k < length ts. s = fst (ts ! k))"
    using assms(1-3,6) by (auto simp: ml_term_at_def entry_new_def dest!: numbered_slot[OF assms(1) assms(3)] split: if_splits option.splits)
  with assms(4,5) show ?thesis by auto
qed

lemma commit_scan_old:
  "(\<And>j t. ml_term_at (n_log n) j = Some t \<Longrightarrow> t < n_current_term n) \<Longrightarrow> commit_scan n i = n_commit_index n"
proof (induction n i rule: commit_scan.induct)
  case (1 n i)
  then show ?case by (subst commit_scan.simps) (auto split: option.split dest: less_not_sym)
qed

text \<open>An election over a log whose entries are all of earlier terms commits nothing.\<close>

lemma election_commits_nothing:
  fixes n :: node
  assumes "sole_voter n" "\<And>j t. ml_term_at (n_log n) j = Some t \<Longrightarrow> t < n_current_term n + 1"
  shows "n_commit_index (fst (fst (start_election b n acts))) = n_commit_index n
    \<and> n_last_applied (fst (fst (start_election b n acts))) = n_last_applied n"
proof -
  define m where "m = fst (persist_hard_state (reset_election_timer (n\<lparr>n_role := Candidate,
      n_current_term := n_current_term n + 1, n_voted_for := Some (n_id n), n_leader_id := None,
      n_transfer_target := None, n_pre_voting := False, n_pre_votes := [], n_progress := [],
      n_votes := [n_id n]\<rparr>)))"
  have m: "sole_voter m" "n_progress m = []" "n_current_term m = n_current_term n + 1"
    "n_commit_index m = n_commit_index n" "n_last_applied m = n_last_applied n" "n_votes m = [n_id n]"
    "\<And>j. ml_term_at (n_log m) j = ml_term_at (n_log n) j"
    using assms(1)
    by (simp_all add: m_def sole_voter_def persist_hard_state_def reset_election_timer_def
        case_prod_unfold ml_set_hard_state_def ml_sync_def Let_def ml_term_at_def ml_slot_def ml_last_index_def ml_len_def)
  have e: "start_election b n acts = (become_leader m acts, Inr ())"
    using sole_voter_votes(2)[OF m(1)] m(6)
    by (simp add: start_election_def Let_def m_def persist_hard_state_def ml_set_hard_state_def ml_sync_def)
  define m' where "m' = m\<lparr>n_role := Leader, n_leader_id := Some (n_id m), n_heartbeat_elapsed := 0,
                 n_transfer_target := None, n_pre_voting := False, n_pre_votes := []\<rparr>"
  have "commit_scan m' i = n_commit_index m'" for i
    using assms(2) m(3,7) by (intro commit_scan_old) (simp add: m'_def)
  moreover have "rebuild_progress m' = m'" using m(1,2) by (simp add: m'_def rebuild_progress_def sole_voter_def)
  ultimately have "become_leader m acts = (m', acts)"
    using m(2) by (simp add: become_leader_def Let_def m'_def[symmetric] replicate_to_all_def advance_commit_def)
      (simp add: m'_def replicate_to_all_def)
  with e m show ?thesis by (simp add: m'_def)
qed

subsection \<open>A write-ahead log that does not fail\<close>

text \<open>The next \<open>k\<close> calls on the handle succeed, whatever they are.\<close>

definition goes :: "('s \<Rightarrow> bool) \<Rightarrow> 's \<times> (string + 'a) \<Rightarrow> bool" where
  "goes P m \<longleftrightarrow> (case snd m of Inl e \<Rightarrow> False | Inr a \<Rightarrow> P (fst m))"

lemma goes_iff: "goes P m \<longleftrightarrow> (\<exists>w a. m = (w, Inr a) \<and> P w)"
  by (cases m; cases "snd m") (auto simp: goes_def)

fun endures :: "'w wal_ops \<Rightarrow> nat \<Rightarrow> 'w \<Rightarrow> bool" where
  "endures W 0 w \<longleftrightarrow> True"
| "endures W (Suc k) w \<longleftrightarrow>
     (\<forall>d. goes (endures W k) (wop_append W w d)) \<and> goes (endures W k) (wop_sync W w)"

lemma goes_mono: "goes P m \<Longrightarrow> (\<And>w. P w \<Longrightarrow> Q w) \<Longrightarrow> goes Q m"
  by (auto simp: goes_iff)

lemma endures_Suc: "endures W (Suc k) w \<Longrightarrow> endures W k w"
proof (induction k arbitrary: w)
  case (Suc k)
  have g: "goes (endures W (Suc k)) (wop_append W w d)" "goes (endures W (Suc k)) (wop_sync W w)" for d
    using Suc.prems unfolding endures.simps(2)[of W "Suc k" w] by blast+
  show ?case
    unfolding endures.simps(2)[of W k w] by (intro conjI allI; rule goes_mono[OF _ Suc.IH]; (rule g)?)
qed simp

lemma wl_write_goes:
  "endures W (Suc k) (wl_wal l) \<Longrightarrow>
   \<exists>l' lsn. wl_write W l c d = (l', Inr lsn) \<and> wl_index l' = wl_index l \<and> endures W k (wl_wal l')"
  by (fastforce simp: wl_write_def goes_iff dest!: spec[of _ d])

lemma endures_set_hard_state:
  "endures W (Suc k) (wl_wal l) \<Longrightarrow> \<exists>l'. wl_set_hard_state W l h = (l', Inr ()) \<and> endures W k (wl_wal l')"
  using wl_write_goes[of W k "l\<lparr>wl_index := (wl_index l)\<lparr>ml_hard := h\<rparr>\<rparr>" "''persist hard state''" "encode_hard_state h"]
  by (auto simp: wl_set_hard_state_def on_index_def ml_set_hard_state_def)

lemma endures_sync:
  "endures W (Suc k) (wl_wal l) \<Longrightarrow> \<exists>l'. wl_sync W l = (l', Inr ()) \<and> endures W k (wl_wal l')"
  by (auto simp: wl_sync_def goes_iff)

lemma endures_append:
  "endures W (Suc k) (wl_wal l) \<Longrightarrow> le_index e = wl_last_index l + 1 \<Longrightarrow>
   \<exists>l'. wl_append W l [e] = (l', Inr ()) \<and> endures W k (wl_wal l')"
  using wl_write_goes[of W k "l\<lparr>wl_index := (wl_index l)\<lparr>ml_entries := ml_entries (wl_index l) @ [e]\<rparr>\<rparr>"
      "''append entry to durable log''" "encode_entry e"]
  by (auto simp: wl_append_def on_index_def append_one wl_last_index_def)

lemma endures_persist:
  assumes "endures W (Suc (Suc k)) (wl_wal (n_log n))"
  shows "\<exists>n'. persist_hard_state_on (wal_log_ops W) n = (n', Inr ()) \<and> endures W k (wl_wal (n_log n'))"
proof -
  from endures_set_hard_state[OF assms] obtain l where l:
    "wl_set_hard_state W (n_log n) \<lparr>hs_term = n_current_term n, hs_voted_for = n_voted_for n\<rparr> = (l, Inr ())"
    "endures W (Suc k) (wl_wal l)" by blast
  from endures_sync[OF l(2)] obtain l' where "wl_sync W l = (l', Inr ())" "endures W k (wl_wal l')" by blast
  with l(1) show ?thesis by (simp add: persist_hard_state_on_def wal_log_ops_def log_op_def)
qed

lemma endures_tick:
  assumes "endures W (Suc (Suc k)) (wl_wal (n_log n))" "n_role n \<noteq> Leader"
  shows "\<exists>s. tick_on (wal_log_ops W) n = (s, Inr ()) \<and> endures W k (wl_wal (n_log (fst s)))
    \<and> (n_election_elapsed n + 1 < n_election_timeout n \<longrightarrow> n_log (fst s) = n_log n)"
proof -
  have k: "endures W k (wl_wal (n_log n))" using assms(1) by (blast dest: endures_Suc)
  have "\<exists>s. start_election_on (wal_log_ops W) f m acts = (s, Inr ()) \<and> endures W k (wl_wal (n_log (fst s)))"
    if "n_log m = n_log n" for f m acts
  proof -
    let ?m = "reset_election_timer (m\<lparr>n_role := Candidate, n_current_term := n_current_term m + 1,
                 n_voted_for := Some (n_id m), n_leader_id := None,
                 n_transfer_target := None, n_pre_voting := False, n_pre_votes := [],
                 n_progress := [], n_votes := [n_id m]\<rparr>)"
    from endures_persist[of W k ?m] assms(1) that obtain m' where
      "persist_hard_state_on (wal_log_ops W) ?m = (m', Inr ())" "endures W k (wl_wal (n_log m'))" by auto
    then show ?thesis
      using leader_log(4)[of "wal_log_ops W" m' acts]
      by (cases "become_leader_on (wal_log_ops W) m' acts") (simp add: start_election_on_def Let_def)
  qed
  then show ?thesis
    using assms(2) k by (auto simp: tick_on_def start_pre_vote_on_def Let_def)
qed

declare endures.simps(2) [simp del]

lemma endures_propose:
  assumes "endures W (Suc (Suc k)) (wl_wal (n_log n))" "n_role n = Leader" "n_transfer_target n = None"
  shows "\<exists>n' acts. propose_on (wal_log_ops W) n x = (n', Inr acts) \<and> endures W k (wl_wal (n_log n'))"
proof -
  let ?e = "entry_new (n_current_term n) (wl_last_index (n_log n) + 1) x"
  from endures_append[OF assms(1), of ?e] obtain l where l: "wl_append W (n_log n) [?e] = (l, Inr ())"
    "endures W (Suc k) (wl_wal l)" by (auto simp: entry_new_def)
  from endures_sync[OF l(2)] obtain l' where l': "wl_sync W l = (l', Inr ())" "endures W k (wl_wal l')" by blast
  show ?thesis
    using assms(2,3) l l'
    by (simp add: propose_on_def Let_def wal_log_ops_def log_op_def case_prod_unfold)
qed

subsection \<open>The durable node follows the in-memory one\<close>

lemma until_sim:
  assumes "until finished body s = Some t" "R s s'"
    and fin: "\<And>s s'. R s s' \<Longrightarrow> finished s = finished' s'"
    and bod: "\<And>s s' t. R s s' \<Longrightarrow> \<not> finished s \<Longrightarrow> body s = Some t \<Longrightarrow> \<exists>t'. body' s' = Some t' \<and> R t t'"
  shows "\<exists>t'. until finished' body' s' = Some t' \<and> R t t'"
proof -
  let ?P = "\<lambda>fin bod s t. fin = finished \<longrightarrow> bod = body \<longrightarrow>
      (\<forall>s'. R s s' \<longrightarrow> (\<exists>t'. until finished' body' s' = Some t' \<and> R t t'))"
  have "?P finished body s t"
  proof (rule until.raw_induct[where P = ?P, OF _ assms(1)], intro impI allI)
    fix until' fi bo s t s'
    assume ih: "\<And>fi bo s t. until' fi bo s = Some t \<Longrightarrow> ?P fi bo s t"
      and eq: "(if fi s then Some s else Option.bind (bo s) (until' fi bo)) = Some t"
      and r: "R s s'" and [simp]: "fi = finished" "bo = body"
    show "\<exists>t'. until finished' body' s' = Some t' \<and> R t t'"
    proof (cases "finished s")
      case True
      with eq r fin[OF r] show ?thesis by (subst until.simps) auto
    next
      case False
      then obtain u where u: "body s = Some u" "until' finished body u = Some t"
        using eq by (auto simp: bind_eq_Some_conv)
      from bod[OF r False u(1)] obtain u' where u': "body' s' = Some u'" "R u u'" by blast
      with ih[OF u(2)] fin[OF r] False show ?thesis by (subst until.simps) auto
    qed
  qed
  with assms(2) show ?thesis by blast
qed

text \<open>Waiting for the election: each in-memory node \<open>m\<close> that came from \<open>m0\<close> is the index side of a
  durable node \<open>n\<close>, and only the tick that wins spends calls of the write-ahead log.\<close>

definition electing ::
  "'w wal_ops \<Rightarrow> ('w \<Rightarrow> (u64 \<times> byte list) list) \<Rightarrow> nat \<Rightarrow> node \<Rightarrow> node \<Rightarrow> 'w wal_log raft_node \<Rightarrow> bool" where
  "electing W recs k m0 m n \<longleftrightarrow> m = retype wl_index n \<and> sound_life W recs n \<and> same_log (n_log m0) (n_log m)
     \<and> n_commit_index m = n_commit_index m0 \<and> n_last_applied m = n_last_applied m0
     \<and> (if n_role m = Leader then endures W k (wl_wal (n_log n))
        else sole_voter m \<and> n_current_term m = n_current_term m0 \<and> endures W (Suc (Suc k)) (wl_wal (n_log n)))"

lemma tick_commits_nothing:
  fixes n :: node
  assumes "n_role n \<noteq> Leader" "sole_voter n" "\<And>j t. ml_term_at (n_log n) j = Some t \<Longrightarrow> t < n_current_term n + 1"
  shows "n_commit_index (fst (fst (tick n))) = n_commit_index n \<and> n_last_applied (fst (fst (tick n))) = n_last_applied n"
proof -
  define m where "m = reset_election_timer (n\<lparr>n_election_elapsed := n_election_elapsed n + 1,
      n_role := Follower, n_leader_id := None, n_pre_voting := True, n_pre_votes := [n_id n]\<rparr>)"
  have m: "sole_voter m" "n_current_term m = n_current_term n" "n_log m = n_log n"
    "n_commit_index m = n_commit_index n" "n_last_applied m = n_last_applied n" "n_pre_votes m = [n_id n]"
    using assms(2) by (simp_all add: m_def sole_voter_def reset_election_timer_def case_prod_unfold Let_def)
  have "tick n = (if n_election_timeout n \<le> n_election_elapsed n + 1 then start_election False m []
      else ((n\<lparr>n_election_elapsed := n_election_elapsed n + 1\<rparr>, []), Inr ()))"
    using assms(1) sole_voter_votes(1)[OF assms(2)] sole_voter_votes(2)[OF m(1)] m(6)
    by (simp add: tick_def start_pre_vote_def Let_def m_def is_voter_def)
  then show ?thesis using election_commits_nothing[OF m(1), of False "[]"] m assms(3) by simp
qed

lemma same_log_term_at:
  assumes "same_log l l'"
  shows "ml_term_at l' j = ml_term_at l j"
proof -
  obtain h where "l' = l\<lparr>ml_hard := h\<rparr>" using assms by (auto simp: same_log_def)
  then show ?thesis by (simp add: ml_term_at_def ml_slot_def ml_last_index_def ml_len_def)
qed

lemma electing_tick:
  assumes R: "electing W recs k m0 m n" and nl: "n_role m \<noteq> Leader"
    and old: "\<And>j t. ml_term_at (n_log m0) j = Some t \<Longrightarrow> t < n_current_term m0 + 1"
    and room: "n_current_term m0 \<noteq> u64_max" and st: "step Tick m = (m', Inr acts)"
  shows "\<exists>n'. durable_tick W n = Some n' \<and> electing W recs k m0 m' n'"
proof -
  have m: "m = retype wl_index n" "sound_life W recs n" "same_log (n_log m0) (n_log m)" "sole_voter m"
    "n_current_term m = n_current_term m0" "endures W (Suc (Suc k)) (wl_wal (n_log n))"
    using R nl by (auto simp: electing_def)
  from endures_tick[OF m(6)] nl m(1) obtain s where s: "tick_on (wal_log_ops W) n = (s, Inr ())"
    "endures W k (wl_wal (n_log (fst s)))" "n_election_elapsed n + 1 < n_election_timeout n \<longrightarrow> n_log (fst s) = n_log n"
    by auto
  then have on: "step_on (wal_log_ops W) Tick n = (fst s, Inr (snd s))"
    by (cases s) (simp add: step_on_def finish_def)
  with on_disk.step[of W Tick n] m(1) st have m': "m' = retype wl_index (fst s)" by (simp add: follows_unless_def)
  have "live W (Handle Tick) n = Some (fst s)"
    using on room m(1,5) by (simp add: storable_def storable_on_def term_room_def)
  from handled_sound[OF m(2) this] have sound: "sound_life W recs (fst s)" by simp
  have f: "fst (step Tick m) = fst (fst (tick m))" by (simp add: step_def finish_def case_prod_unfold)
  have log: "same_log (n_log m0) (n_log m')" using same_log_trans[OF m(3) same_log_tick] f st by simp
  have term_at: "ml_term_at (n_log m) j = ml_term_at (n_log m0) j" for j
    by (rule same_log_term_at[OF m(3)])
  have ca: "n_commit_index m' = n_commit_index m \<and> n_last_applied m' = n_last_applied m"
  proof -
    have "t < n_current_term m + 1" if "ml_term_at (n_log m) j = Some t" for j t
      using that old[of j t] unfolding term_at m(5) by blast
    from tick_commits_nothing[OF nl m(4) this] f st show ?thesis by simp
  qed
  have "electing W recs k m0 m' (fst s)"
  proof (cases "n_election_elapsed m + 1 < n_election_timeout m")
    case True
    with tick_waits[OF nl] st have "m' = m\<lparr>n_election_elapsed := n_election_elapsed m + 1\<rparr>" by simp
    moreover have "n_log (fst s) = n_log n" using s(3) True m(1) by simp
    ultimately show ?thesis using R m' m(6) sound log ca nl by (auto simp: electing_def sole_voter_def)
  next
    case False
    with tick_elects[OF nl m(4)] st have "n_role m' = Leader" by (auto simp: elected_def not_less)
    with R m' s(2) sound log ca show ?thesis by (auto simp: electing_def)
  qed
  with on show ?thesis by (simp add: durable_tick_def)
qed

lemma driven:
  assumes "sole_elect m0 = Some (m1, ticks)" "electing W recs k m0 m0 n0"
    and old: "\<And>j t. ml_term_at (n_log m0) j = Some t \<Longrightarrow> t < n_current_term m0 + 1"
    and room: "n_current_term m0 \<noteq> u64_max"
  shows "\<exists>n1. drive_to_leader W n0 = Some n1 \<and> electing W recs k m0 m1 n1"
proof -
  have "\<exists>n1. until is_leader (durable_tick W) n0 = Some n1 \<and> (\<lambda>(m, t) n. electing W recs k m0 m n) (m1, ticks) n1"
  proof (rule until_sim[OF assms(1)[unfolded sole_elect_def], of "\<lambda>(m, t) n. electing W recs k m0 m n"])
    show "(\<lambda>(m, t) n. electing W recs k m0 m n) (m0, 0) n0" using assms(2) by simp
    show "(\<lambda>(n, ticks). is_leader n) s = is_leader n" if "(\<lambda>(m, t) n. electing W recs k m0 m n) s n" for s n
      using that by (auto simp: electing_def is_leader_def)
    show "\<exists>n'. durable_tick W n = Some n' \<and> (\<lambda>(m, t) n. electing W recs k m0 m n) s' n'"
      if "(\<lambda>(m, t) n. electing W recs k m0 m n) s n" "\<not> (\<lambda>(n, ticks). is_leader n) s" "sole_tick s = Some s'" for s n s'
      using that electing_tick[OF _ _ old room]
      by (fastforce simp: sole_tick_def is_leader_def split: prod.splits sum.splits)
  qed
  then show ?thesis by (simp add: drive_to_leader_def)
qed

text \<open>A node built on a log of numbered commands, and driven to lead.\<close>

definition plain_index :: "raft_term \<Rightarrow> (raft_term \<times> byte list) list \<Rightarrow> memory_log \<Rightarrow> bool" where
  "plain_index T ts i \<longleftrightarrow> ml_base_index i = 0 \<and> ml_base_term i = 0 \<and> ml_snapshot i = None \<and> ml_entries i = numbered ts
     \<and> hs_term (ml_hard i) = T \<and> (\<forall>u \<in> fst ` set ts. u \<le> T)"

lemma plain_born:
  assumes i: "plain_index T ts i" and c: "cfg_peers c = []" "config_wf c"
  defines "m0 \<equiv> node_with_log c i"
  shows "n_role m0 \<noteq> Leader" "sole_voter m0" "n_election_elapsed m0 < n_election_timeout m0"
    "n_current_term m0 = T" "n_commit_index m0 = 0" "n_last_applied m0 = 0" "n_log m0 = i"
proof -
  have "k < length ts" if "ml_slot i j = Some k" for j k
    using numbered_slot[OF _ _ that] i by (simp add: plain_index_def)
  then have "Option.bind (ml_entry i j) members = None" for j
    using i by (cases "ml_slot i j") (auto simp: ml_entry_def plain_index_def)
  then have lc: "latest_config i b j = None" for b j
    by (induction i b j rule: latest_config.induct) (subst latest_config.simps, simp)
  show "n_role m0 \<noteq> Leader" "n_current_term m0 = T" "n_commit_index m0 = 0" "n_last_applied m0 = 0" "n_log m0 = i"
    using i by (simp_all add: m0_def node_with_log_def Let_def case_prod_unfold lc plain_index_def
        ml_hard_state_def ml_snapshot_index_def)
  show "sole_voter m0"
    using i c(1) by (simp add: m0_def node_with_log_def Let_def case_prod_unfold lc plain_index_def sole_voter_def
        sorted_members_def ml_get_snapshot_def)
  have le: "1 \<le> cfg_election_timeout_min c" "cfg_election_timeout_min c \<le> cfg_election_timeout_max c"
    using c(2) by (simp_all add: config_wf_def)
  have "n_election_timeout m0 = fst (gen_range (rng_new (cfg_seed c)) (cfg_election_timeout_min c) (cfg_election_timeout_max c))"
    "n_election_elapsed m0 = 0"
    by (simp_all add: m0_def node_with_log_def Let_def case_prod_unfold)
  then show "n_election_elapsed m0 < n_election_timeout m0"
    using gen_range_bounds[OF le(2), of "rng_new (cfg_seed c)"] le(1) by (simp add: word_le_nat_alt word_less_nat_alt)
qed

lemma durable_drive:
  assumes l: "wal_recorded W recs l" "plain_index T ts (wl_index l)" and c: "cfg_peers c = []" "config_wf c"
    and T: "T \<noteq> u64_max" and e: "endures W (Suc (Suc k)) (wl_wal l)"
  shows "\<exists>n1. drive_to_leader W (node_with_log_on (wal_log_ops W) c l) = Some n1 \<and> leading 0 ts (retype wl_index n1)
    \<and> n_current_term n1 = T + 1 \<and> sound_life W recs n1 \<and> endures W k (wl_wal (n_log n1))"
proof -
  let ?m0 = "node_with_log c (wl_index l)" and ?n0 = "node_with_log_on (wal_log_ops W) c l"
  have T1: "T < T + 1" using T by (rule term_succ)
  note m0 = plain_born[OF l(2) c]
  have ix: "?m0 = retype wl_index ?n0" by (rule on_disk.node_with_log)
  have nl: "n_log ?n0 = l" by (simp add: node_with_log_on_def Let_def case_prod_unfold)
  have old: "t < n_current_term ?m0 + 1" if "ml_term_at (n_log ?m0) j = Some t" for j t
  proof -
    have "0 < T + 1" using T1 by (metis word_gt_0 word_not_simps(1))
    with that l(2) m0(4,7) T1 show ?thesis
      by (intro entries_old[of "wl_index l" ts "T + 1" j t, folded m0(4)])
        (auto simp: plain_index_def dest: le_less_trans)
  qed
  obtain m1 where m1: "sole_elect ?m0 = Some (m1, n_election_timeout ?m0 - n_election_elapsed ?m0)" "elected ?m0 m1"
    using sole_voter_elected[OF m0(1-3)] by blast
  have "electing W recs k ?m0 ?m0 ?n0"
    using m0 ix nl e born_sound[OF l(1), of c] by (auto simp: electing_def)
  then have "\<exists>n1. drive_to_leader W ?n0 = Some n1 \<and> electing W recs k ?m0 m1 n1"
    by (rule driven[OF m1(1)]) (use old m0(4) T in auto)
  then obtain n1 where n1: "drive_to_leader W ?n0 = Some n1" "electing W recs k ?m0 m1 n1" by blast
  have "leading 0 ts m1"
    using n1(2) m1(2) m0 l(2) by (auto simp: leading_def electing_def elected_def plain_index_def sole_voter_def
        dest!: same_log_sel)
  with n1 m1(2) m0(4) show ?thesis by (auto simp: electing_def elected_def)
qed

lemma durable_propose_one:
  assumes n: "leading c ts (retype wl_index n)" "sound_life W recs n" "endures W (Suc (Suc k)) (wl_wal (n_log n))"
    and room: "n_current_term n \<noteq> u64_max" "length ts + 1 < 2 ^ 64" "26 + length x < 2 ^ 64"
  shows "\<exists>n'. durable_propose W x (n, applied) = Some (n', applied @ drop c (texts (map snd ts @ [x])))
    \<and> leading (length ts + 1) (ts @ [(n_current_term n, x)]) (retype wl_index n') \<and> n_current_term n' = n_current_term n
    \<and> sound_life W recs n' \<and> endures W k (wl_wal (n_log n'))"
proof -
  from propose_lone[OF n(1) room(2), of x] obtain m' acts where m': "step (Propose x) (retype wl_index n) = (m', Inr acts)"
    "n_current_term m' = n_current_term n" "leading (length ts + 1) (ts @ [(n_current_term n, x)]) m'"
    "printed acts = drop c (texts (map snd ts @ [x]))" by auto
  have "n_role n = Leader" "n_transfer_target n = None" using n(1) by (simp_all add: leading_def)
  from endures_propose[OF n(3) this, of x] obtain n' acts' where
    n': "step_on (wal_log_ops W) (Propose x) n = (n', Inr acts')" "endures W k (wl_wal (n_log n'))"
    by (auto simp: step_on_def)
  with on_disk.step[of W "Propose x" n] m'(1) have eq: "m' = retype wl_index n'" "acts' = acts" by (simp_all add: follows_unless_def)
  have "live W (Handle (Propose x)) n = Some n'"
    using n' room by (simp add: storable_def storable_on_def term_room_def Let_def entry_fits_def record_fits_def entry_new_def)
  from handled_sound[OF n(2) this] n' m' eq show ?thesis by (simp add: durable_propose_def)
qed

lemma durable_proposals:
  assumes "leading c ts (retype wl_index n)" "sound_life W recs n" "endures W (2 * length xs + k) (wl_wal (n_log n))"
    and "n_current_term n \<noteq> u64_max" "length ts + length xs < 2 ^ 64" "\<forall>x \<in> set xs. 26 + length x < 2 ^ 64"
  shows "\<exists>n'. for_each (durable_propose W) xs (n, applied)
        = Some (n', applied @ (if xs = [] then [] else drop c (texts (map snd ts @ xs))))
    \<and> leading (if xs = [] then c else length ts + length xs) (ts @ map (Pair (n_current_term n)) xs) (retype wl_index n')
    \<and> n_current_term n' = n_current_term n \<and> sound_life W recs n' \<and> endures W k (wl_wal (n_log n'))"
  using assms
proof (induction xs arbitrary: c ts n applied)
  case (Cons x xs)
  have e: "endures W (Suc (Suc (2 * length xs + k))) (wl_wal (n_log n))" using Cons.prems(3) by simp
  have c: "c \<le> length ts" using Cons.prems(1) by (simp add: leading_def)
  from durable_propose_one[OF Cons.prems(1,2) e Cons.prems(4), of x applied] Cons.prems(5,6) obtain n1 where
    n1: "durable_propose W x (n, applied) = Some (n1, applied @ drop c (texts (map snd ts @ [x])))"
    "leading (length ts + 1) (ts @ [(n_current_term n, x)]) (retype wl_index n1)" "n_current_term n1 = n_current_term n"
    "sound_life W recs n1" "endures W (2 * length xs + k) (wl_wal (n_log n1))" by auto
  from Cons.IH[OF n1(2,4,5), of "applied @ drop c (texts (map snd ts @ [x]))"] Cons.prems(4-6) n1(1,3)
    shown_step[OF c, of x xs]
  show ?case by (cases "xs = []") auto
qed simp

lemma recovered_lines:
  assumes "plain_index T ts (wl_index (n_log n))" "length ts < 2 ^ 64"
  shows "recovered_entries n = Some (map (\<lambda>i. (word_of_nat (i + 1), fst (ts ! i), from_utf8_lossy (snd (ts ! i)))) [0..<length ts])"
proof -
  let ?line = "\<lambda>i. (word_of_nat (i + 1) :: u64, fst (ts ! i), from_utf8_lossy (snd (ts ! i)))"
  have "wl_last_index (n_log n) = word_of_nat (length ts)"
    using assms(1) by (simp add: wl_last_index_def plain_index_def ml_last_zero)
  then have u: "unat (wl_last_index (n_log n)) = length ts" using small_unat[OF assms(2)] by simp
  have r: "wl_entry (n_log n) (word_of_nat (i + 1)) = Some (entry_new (fst (ts ! i)) (word_of_nat (i + 1)) (snd (ts ! i)))"
    if "i < length ts" for i
    using numbered_read[OF _ _ assms(2) that, of "wl_index (n_log n)"] assms(1)
    by (simp add: wl_entry_def plain_index_def del: of_nat_add of_nat_Suc)
  have "\<exists>s. recovered_entries n = Some s \<and> s = map ?line [0..<length (map (word_of_nat :: nat \<Rightarrow> u64) [1..<length ts + 1])]"
    unfolding recovered_entries_def u
  proof (rule for_each_returns[where I = "\<lambda>k s. s = map ?line [0..<k]"], goal_cases)
    case (2 k s)
    then show ?case using r[of k] by (simp add: entry_new_def del: upt_Suc of_nat_add of_nat_Suc) simp
  qed simp
  then show ?thesis by (simp del: upt_Suc)
qed

subsection \<open>Properties\<close>

text \<open>What opening the file again gives: a handle on the same records, good for as many calls.\<close>

definition reopens ::
  "'w wal_ops \<Rightarrow> ('w \<Rightarrow> (u64 \<times> byte list) list) \<Rightarrow> ('w \<Rightarrow> string + 'w) \<Rightarrow> bool" where
  "reopens W recs reopen \<longleftrightarrow> (\<forall>w. \<exists>w'. reopen w = Inr w' \<and> recs w' = recs w \<and> (\<forall>k. endures W k w \<longrightarrow> endures W k w'))"

lemma opened_log:
  assumes "wal_laws W recs" "replay_records (recs w) ml_new = Inr i"
  shows "wl_open W (Inr w) = Inr \<lparr>wl_wal = w, wl_index = i\<rparr> \<and> wal_recorded W recs \<lparr>wl_wal = w, wl_index = i\<rparr>"
  using assms wl_open_faithful[OF assms(1), of w "\<lparr>wl_wal = w, wl_index = i\<rparr>"]
  by (simp add: wal_recorded_def faithful_def)

lemma plain_after:
  assumes "leading c ts (retype wl_index n)" "sound_life W recs n" "\<forall>u \<in> fst ` set ts. u \<le> n_current_term n"
  shows "plain_index (n_current_term n) ts (wl_index (n_log n))"
  using assms by (simp add: leading_def plain_index_def sound_life_def persisted_def)

text \<open>The list of records endures while its sequence numbers last.\<close>

lemma list_wal_endures:
  "unat (fold (\<lambda>r m. max (fst r) m) w (0 :: u64)) + k < 2 ^ 64 \<Longrightarrow> endures list_wal k w"
proof (induction k arbitrary: w)
  case (Suc k)
  let ?t = "fold (\<lambda>r m. max (fst r) m) w (0 :: u64)"
  have "unat ?t + 1 < 2 ^ 64" using Suc.prems by linarith
  then have t: "?t \<noteq> u64_max" "unat (?t + 1) = unat ?t + 1"
    by (simp_all only: not_max_room) (intro unat_plus_one, simp)
  then have "max (?t + 1) ?t = ?t + 1" by (intro max_absorb1) (simp add: word_le_nat_alt)
  then have "endures list_wal k (w @ [(?t + 1, d)])" "endures list_wal k w" for d
    using Suc.prems t(2) by (intro Suc.IH; simp)+
  with t(1) show ?case by (simp add: endures.simps(2) goes_def list_wal_def Let_def)
qed simp

lemma list_wal_reopens: "reopens list_wal recs Inr"
  by (simp add: reopens_def)

text \<open>
  C15: A durable node survives being dropped: whatever commands it is given and whatever its
  configuration, a node without peers on a fresh write-ahead log leads term 1 and commits and
  applies each command at once; the node opened after it on the same file finds term 1 and every
  command at its index, leads term 2, and with its first new command applies all of them again
  from index 1, in order, and goes on. The run returns whenever the log's calls succeed.
\<close>

theorem persistent_node_recovers:
  assumes laws: "wal_laws W recs" "reopens W recs reopen"
    and fresh: "recs w = []" "endures W (2 * length xs + 2 * length ys + 4) w"
    and c: "cfg_peers c = []" "config_wf c"
    and fits: "length xs + length ys < 2 ^ 64" "\<forall>x \<in> set (xs @ ys). 26 + length x < 2 ^ 64"
  shows "durable_run W (Inr w) reopen c xs ys = Some
     \<lparr>dr_first_term = 1, dr_first_applied = texts xs, dr_first_commit = word_of_nat (length xs),
      dr_last_index = word_of_nat (length xs), dr_persisted_term = 1,
      dr_recovered = map (\<lambda>(i, text). (i, 1, text)) (texts xs),
      dr_second_term = 2, dr_second_applied = (if ys = [] then [] else texts (xs @ ys)),
      dr_second_commit = (if ys = [] then 0 else word_of_nat (length xs + length ys))\<rparr>"
proof -
  let ?node = "node_with_log_on (wal_log_ops W) c" and ?ts = "map (Pair (1 :: u64)) xs"
  let ?l = "\<lparr>wl_wal = w, wl_index = ml_new\<rparr>"
  have o1: "wl_open W (Inr w) = Inr ?l" "wal_recorded W recs ?l"
    using opened_log[OF laws(1), of w ml_new] fresh(1) by (simp_all add: replay_records_def)
  have p1: "plain_index 0 [] (wl_index ?l)"
    by (simp add: plain_index_def ml_new_def numbered_def hard_state_default_def)
  have e1: "endures W (Suc (Suc (2 * length xs + (2 * length ys + 2)))) (wl_wal ?l)"
  proof -
    have "2 * length xs + 2 * length ys + 4 = Suc (Suc (2 * length xs + (2 * length ys + 2)))" by simp
    with fresh(2) show ?thesis by (simp only: wal_log.simps)
  qed
  from durable_drive[OF o1(2) p1 c _ e1] obtain n1 where n1: "drive_to_leader W (?node ?l) = Some n1"
    "leading 0 [] (retype wl_index n1)" "n_current_term n1 = 1" "sound_life W recs n1"
    "endures W (2 * length xs + (2 * length ys + 2)) (wl_wal (n_log n1))" by auto
  from durable_proposals[OF n1(2,4,5), of "[]"] n1(3) fits obtain n2 where
    n2: "for_each (durable_propose W) xs (n1, []) = Some (n2, if xs = [] then [] else texts xs)"
    "leading (length xs) ?ts (retype wl_index n2)" "n_current_term n2 = 1" "sound_life W recs n2"
    "endures W (2 * length ys + 2) (wl_wal (n_log n2))" by (cases "xs = []") auto
  obtain w2 where w2: "reopen (wl_wal (n_log n2)) = Inr w2" "recs w2 = recs (wl_wal (n_log n2))"
    "endures W (2 * length ys + 2) w2" using laws(2) n2(5) unfolding reopens_def by blast
  let ?l2 = "\<lparr>wl_wal = w2, wl_index = wl_index (n_log n2)\<rparr>"
  have "replay_records (recs w2) ml_new = Inr (wl_index (n_log n2))"
    using n2(4) w2(2) by (simp add: sound_life_def wal_recorded_def faithful_def)
  from opened_log[OF laws(1) this] have o2: "wl_open W (Inr w2) = Inr ?l2" "wal_recorded W recs ?l2" by simp_all
  have p2: "plain_index 1 ?ts (wl_index ?l2)" using plain_after[OF n2(2,4)] n2(3) by auto
  have e2: "endures W (Suc (Suc (2 * length ys + 0))) (wl_wal ?l2)" using w2(3) by simp
  from durable_drive[OF o2(2) p2 c _ e2] obtain m1 where m1: "drive_to_leader W (?node ?l2) = Some m1"
    "leading 0 ?ts (retype wl_index m1)" "n_current_term m1 = 2" "sound_life W recs m1"
    "endures W (2 * length ys + 0) (wl_wal (n_log m1))" by auto
  from durable_proposals[OF m1(2,4,5), of "[]"] m1(3) fits obtain m2 where
    m2: "for_each (durable_propose W) ys (m1, []) = Some (m2, if ys = [] then [] else texts (xs @ ys))"
    "leading (if ys = [] then 0 else length xs + length ys) (?ts @ map (Pair 2) ys) (retype wl_index m2)"
    by (cases "ys = []") (auto simp: comp_def)
  have log: "n_log (?node ?l2) = ?l2" "n_current_term (?node ?l2) = 1"
    using p2 by (simp_all add: node_with_log_on_def Let_def case_prod_unfold plain_index_def wal_log_ops_def
        wl_hard_state_def ml_hard_state_def)
  have rec: "recovered_entries (?node ?l2) = Some (map (\<lambda>(i, text). (i, 1, text)) (texts xs))"
  proof -
    have "recovered_entries (?node ?l2) = Some (map (\<lambda>i. (word_of_nat (i + 1), fst (?ts ! i),
        from_utf8_lossy (snd (?ts ! i)))) [0..<length ?ts])"
      by (rule recovered_lines[of 1]) (use p2 log(1) fits(1) in simp_all)
    also have "map (\<lambda>i. (word_of_nat (i + 1), fst (?ts ! i), from_utf8_lossy (snd (?ts ! i)))) [0..<length ?ts]
        = map (\<lambda>(i, text). (i, 1, text)) (texts xs)"
      by (rule nth_equalityI) simp_all
    finally show ?thesis .
  qed
  have last: "wl_last_index ?l2 = word_of_nat (length xs)"
    using p2 by (simp add: wl_last_index_def plain_index_def ml_last_zero)
  have t: "(if xs = [] then [] else texts xs) = texts xs" by (simp add: texts_def)
  have "n_commit_index n2 = word_of_nat (length xs)"
    "n_commit_index m2 = (if ys = [] then 0 else word_of_nat (length xs + length ys))"
    using n2(2) m2(2) by (simp_all add: leading_def split: if_splits)
  moreover have "durable_start W c (Inr w) = Some (?node ?l)"
    "durable_start W c (reopen (wl_wal (n_log n2))) = Some (?node ?l2)"
    by (simp_all add: durable_start_def o1(1) w2(1) o2(1))
  ultimately show ?thesis
    unfolding durable_run_def
    by (simp only: Option.bind.simps n1(1) n2(1) t rec m1(1) m2(1) prod.case)
      (simp add: get_term_def get_commit_index_def n1(3) m1(3) log last)
qed

theorem persistent_node_recovers_witness:
  "map_option dr_second_applied (durable_run list_wal (Inr []) Inr (config_single 1) [[120]] [[121]])
     = Some [(1, [120]), (2, [121])]"
proof -
  have c: "cfg_peers (config_single 1) = []" "config_wf (config_single 1)"
    by (simp_all add: config_single_def config_wf_new) (simp add: config_new_def)
  have e: "endures list_wal (2 * length [[120 :: byte]] + 2 * length [[121 :: byte]] + 4) []"
    by (rule list_wal_endures) simp
  have t: "texts ([[120]] @ [[121]]) = [(1, [120]), (2, [121])]" by code_simp
  from persistent_node_recovers[OF list_wal_laws list_wal_reopens _ e c] t show ?thesis by simp
qed

end
