(* ===== verification/Durable_Cluster.thy ===== *)
theory Durable_Cluster
  imports Node_Durability State_Machine_Safety
begin

text \<open>
  Clusters of nodes over \<open>WalLog\<close>: a node that crashes is built again from what opening its
  write-ahead log yields. Each such cluster mirrors one of nodes over \<open>MemoryLog\<close>, whose crashes
  keep the log in memory, and so what holds of those clusters holds of these. As in
  \<^verbatim>\<open>Node_Durability\<close>, a step is taken only when its records fit and its snapshot leaves no tail,
  and a node that reports a storage failure takes no further step: the driver stops it.
\<close>

record 'w durable_cluster =
  d_node :: "node_id \<Rightarrow> 'w wal_log raft_node"
  d_net :: "(node_id \<times> message) set"
  d_applied :: "(node_id \<times> raft_index \<times> byte list) set"

definition d_absorb ::
  "'w durable_cluster \<Rightarrow> node_id \<Rightarrow> 'w wal_log raft_node \<Rightarrow> action list \<Rightarrow> 'w durable_cluster" where
  "d_absorb d i n acts =
     d\<lparr>d_node := (d_node d)(i := n), d_net := d_net d \<union> sends acts,
       d_applied := d_applied d \<union> {i} \<times> applies acts\<rparr>"

inductive durable_step ::
  "'w wal_ops \<Rightarrow> (event \<Rightarrow> bool) \<Rightarrow> node_id set \<Rightarrow> (node_id \<Rightarrow> raft_config) \<Rightarrow>
   'w durable_cluster \<Rightarrow> 'w durable_cluster \<Rightarrow> bool"
  for W :: "'w wal_ops" and allowed :: "event \<Rightarrow> bool" and ids :: "node_id set"
    and cfg :: "node_id \<Rightarrow> raft_config" where
  handled: "i \<in> ids \<Longrightarrow> allowed ev \<Longrightarrow> (\<forall>m. ev = Message m \<longrightarrow> (i, m) \<in> d_net d) \<Longrightarrow>
     storable W ev (d_node d i) \<Longrightarrow> log_room ev (retype wl_index (d_node d i)) \<Longrightarrow>
     step_on (wal_log_ops W) ev (d_node d i) = (n, r) \<Longrightarrow> (\<forall>e. r = Inl e \<longrightarrow> \<not> is_storage e) \<Longrightarrow>
     durable_step W allowed ids cfg d (d_absorb d i n (result_actions r))"
| reopened: "i \<in> ids \<Longrightarrow> wl_open W (Inr (wl_wal (n_log (d_node d i)))) = Inr l \<Longrightarrow>
     durable_step W allowed ids cfg d (d_absorb d i (node_with_log_on (wal_log_ops W) (cfg i) l) [])"

text \<open>Every node is first opened on a write-ahead log of its own, without records.\<close>

definition durable_init :: "'w wal_ops \<Rightarrow> (node_id \<Rightarrow> raft_config) \<Rightarrow> (node_id \<Rightarrow> 'w) \<Rightarrow> 'w durable_cluster" where
  "durable_init W cfg w =
     \<lparr>d_node = (\<lambda>i. node_with_log_on (wal_log_ops W) (cfg i) \<lparr>wl_wal = w i, wl_index = ml_new\<rparr>),
      d_net = {}, d_applied = {}\<rparr>"

lemma durable_init_opened:
  assumes "wal_laws W recs" "recs (w i) = []"
  shows "wl_open W (Inr (w i)) = Inr \<lparr>wl_wal = w i, wl_index = ml_new\<rparr>"
  using wl_open_faithful[OF assms(1), of "w i" "\<lparr>wl_wal = w i, wl_index = ml_new\<rparr>"] assms(2)
  by (simp add: faithful_def replay_records_def)

subsection \<open>The cluster in memory\<close>

definition mirrors ::
  "'w wal_ops \<Rightarrow> ('w \<Rightarrow> (u64 \<times> byte list) list) \<Rightarrow> node_id set \<Rightarrow> 'w durable_cluster \<Rightarrow> cluster \<Rightarrow> bool" where
  "mirrors W recs ids d c \<longleftrightarrow> c_node c = (\<lambda>i. retype wl_index (d_node d i)) \<and> c_net c = d_net d
     \<and> c_applied c = d_applied d \<and> (\<forall>i \<in> ids. sound_life W recs (d_node d i))"

lemma mirrors_absorb:
  assumes "mirrors W recs ids d c" "sound_life W recs n"
  shows "mirrors W recs ids (d_absorb d i n acts) (absorb c i (retype wl_index n) acts)"
  using assms by (auto simp: mirrors_def d_absorb_def)

lemma mirrors_init:
  assumes "wal_laws W recs" "\<And>i. recs (w i) = []"
  shows "mirrors W recs ids (durable_init W cfg w) (cluster_init cfg)"
proof -
  have "retype wl_index (d_node (durable_init W cfg w) i) = node_new (cfg i)" for i
    using on_disk.node_with_log[of "cfg i" "\<lparr>wl_wal = w i, wl_index = ml_new\<rparr>" W]
    by (simp add: durable_init_def node_new_def)
  moreover have "sound_life W recs (d_node (durable_init W cfg w) i)" for i
    using opened_sound[OF assms(1) durable_init_opened[OF assms(1), of w i]] assms(2) by (simp add: durable_init_def)
  ultimately show ?thesis by (simp add: mirrors_def cluster_init_def) (simp add: durable_init_def)
qed

lemma mirrors_step:
  assumes "durable_step W allowed ids cfg d d'" "mirrors W recs ids d c"
  shows "\<exists>c'. cluster_step allowed ids cfg c c' \<and> mirrors W recs ids d' c'"
  using assms(1)
proof cases
  case (handled i ev n r)
  have s: "sound_life W recs (d_node d i)" and cn: "c_node c i = retype wl_index (d_node d i)"
    using assms(2) handled(2) by (auto simp: mirrors_def)
  have "live W (Handle ev) (d_node d i) = Some n"
    using handled by (cases r) auto
  from handled_sound[OF s this] have n: "sound_life W recs n" by simp
  have "step ev (c_node c i) = (retype wl_index n, r)"
    using on_disk.step[of W ev "d_node d i"] handled(7,8) cn by (auto simp: follows_unless_def)
  moreover have "may_occur c i ev"
    using handled(4) assms(2) by (auto simp: may_occur_def mirrors_def split: event.split)
  ultimately have "cluster_step allowed ids cfg c (absorb c i (retype wl_index n) (result_actions r))"
    using handled cn by (intro cluster_step.handle) (auto simp: storable_def)
  with mirrors_absorb[OF assms(2) n] handled(1) show ?thesis by blast
next
  case (reopened i l)
  have s: "sound_life W recs (d_node d i)" and cn: "c_node c i = retype wl_index (d_node d i)"
    using assms(2) reopened(2) by (auto simp: mirrors_def)
  then have l: "l = n_log (d_node d i)"
    using reopened(3) recorded_reopens[of W recs "n_log (d_node d i)"] by (simp add: sound_life_def)
  let ?n = "node_with_log_on (wal_log_ops W) (cfg i) l"
  have n: "sound_life W recs ?n" using s l by (intro born_sound) (simp add: sound_life_def)
  have "node_with_log (cfg i) (n_log (c_node c i)) = retype wl_index ?n"
    using on_disk.node_with_log[of "cfg i" l W] cn l by simp
  then have "cluster_step allowed ids cfg c (absorb c i (retype wl_index ?n) [])"
    using cluster_step.restart[OF reopened(2), of allowed cfg c] by simp
  with mirrors_absorb[OF assms(2) n] reopened(1) show ?thesis by blast
qed

lemma mirrors_steps:
  assumes "(durable_step W allowed ids cfg)\<^sup>*\<^sup>* d d'" "mirrors W recs ids d c"
  shows "\<exists>c'. (cluster_step allowed ids cfg)\<^sup>*\<^sup>* c c' \<and> mirrors W recs ids d' c'"
  using assms(1)
proof (induction rule: rtranclp_induct)
  case base
  with assms(2) show ?case by blast
next
  case (step d1 d2)
  then obtain c1 where c1: "(cluster_step allowed ids cfg)\<^sup>*\<^sup>* c c1" "mirrors W recs ids d1 c1" by blast
  from mirrors_step[OF step.hyps(2) c1(2)] c1(1) show ?case by (meson rtranclp.rtrancl_into_rtrancl)
qed

subsection \<open>Schedules\<close>

text \<open>The cluster in an executable form, driven by a list of moves, as in \<^verbatim>\<open>Schedule\<close>.\<close>

record 'w durable_roster =
  q_nodes :: "(node_id \<times> 'w wal_log raft_node) list"
  q_net :: "(node_id \<times> message) list"
  q_applied :: "(node_id \<times> raft_index \<times> byte list) list"

datatype durable_move = Moved move | Reopened node_id

definition q_put ::
  "node_id \<Rightarrow> 'w wal_log raft_node \<Rightarrow> action list \<Rightarrow> 'w durable_roster \<Rightarrow> 'w durable_roster" where
  "q_put i n acts R = R\<lparr>q_nodes := AList.update i n (q_nodes R), q_net := sent acts @ q_net R,
     q_applied := applied i acts @ q_applied R\<rparr>"

definition q_handle ::
  "'w wal_ops \<Rightarrow> (event \<Rightarrow> bool) \<Rightarrow> node_id \<Rightarrow> event \<Rightarrow> 'w durable_roster \<Rightarrow> 'w durable_roster option" where
  "q_handle W allowed i ev R =
     (case map_of (q_nodes R) i of
        None \<Rightarrow> None
      | Some n \<Rightarrow>
          if allowed ev \<and> (case ev of Message m \<Rightarrow> (i, m) \<in> set (q_net R) | _ \<Rightarrow> True)
             \<and> storable W ev n \<and> log_room ev (retype wl_index n)
          then (case step_on (wal_log_ops W) ev n of
                  (n', Inl e) \<Rightarrow> if is_storage e then None else Some (q_put i n' [] R)
                | (n', Inr acts) \<Rightarrow> Some (q_put i n' acts R))
          else None)"

definition q_reopen ::
  "'w wal_ops \<Rightarrow> (node_id \<Rightarrow> raft_config) \<Rightarrow> node_id \<Rightarrow> 'w durable_roster \<Rightarrow> 'w durable_roster option" where
  "q_reopen W cfg i R =
     (case map_of (q_nodes R) i of
        None \<Rightarrow> None
      | Some n \<Rightarrow> (case wl_open W (Inr (wl_wal (n_log n))) of
          Inl e \<Rightarrow> None
        | Inr l \<Rightarrow> Some (q_put i (node_with_log_on (wal_log_ops W) (cfg i) l) [] R)))"

definition q_move ::
  "'w wal_ops \<Rightarrow> (event \<Rightarrow> bool) \<Rightarrow> (node_id \<Rightarrow> raft_config) \<Rightarrow> durable_move \<Rightarrow> 'w durable_roster
   \<Rightarrow> 'w durable_roster option" where
  "q_move W allowed cfg mv R =
     (case mv of
        Moved (Do i ev) \<Rightarrow> q_handle W allowed i ev R
      | Moved (Newest i) \<Rightarrow> (case find (\<lambda>r. fst r = i) (q_net R) of
            None \<Rightarrow> None | Some r \<Rightarrow> q_handle W allowed i (Message (snd r)) R)
      | Reopened i \<Rightarrow> q_reopen W cfg i R)"

fun q_play ::
  "'w wal_ops \<Rightarrow> (event \<Rightarrow> bool) \<Rightarrow> (node_id \<Rightarrow> raft_config) \<Rightarrow> durable_move list \<Rightarrow> 'w durable_roster
   \<Rightarrow> 'w durable_roster option" where
  "q_play W allowed cfg [] R = Some R"
| "q_play W allowed cfg (mv # mvs) R = Option.bind (q_move W allowed cfg mv R) (q_play W allowed cfg mvs)"

definition stands_for :: "node_id set \<Rightarrow> 'w durable_roster \<Rightarrow> 'w durable_cluster \<Rightarrow> bool" where
  "stands_for ids R d \<longleftrightarrow>
     (\<forall>i n. map_of (q_nodes R) i = Some n \<longrightarrow> i \<in> ids \<and> d_node d i = n)
   \<and> set (q_net R) \<subseteq> d_net d \<and> set (q_applied R) \<subseteq> d_applied d"

definition q_init :: "'w wal_ops \<Rightarrow> node_id list \<Rightarrow> (node_id \<Rightarrow> raft_config) \<Rightarrow> (node_id \<Rightarrow> 'w) \<Rightarrow> 'w durable_roster" where
  "q_init W ids cfg w =
     \<lparr>q_nodes = map (\<lambda>i. (i, node_with_log_on (wal_log_ops W) (cfg i) \<lparr>wl_wal = w i, wl_index = ml_new\<rparr>)) ids,
      q_net = [], q_applied = []\<rparr>"

lemma stands_for_init: "stands_for (set ids) (q_init W ids cfg w) (durable_init W cfg w)"
  by (simp add: stands_for_def q_init_def durable_init_def map_of_tabulate)

lemma stands_for_put:
  "stands_for ids R d \<Longrightarrow> i \<in> ids \<Longrightarrow> stands_for ids (q_put i n acts R) (d_absorb d i n acts)"
  by (auto simp: stands_for_def q_put_def d_absorb_def update_conv' set_sent set_applied split: if_splits)

lemma q_handle_step:
  assumes "q_handle W allowed i ev R = Some R'" "stands_for ids R d"
  shows "\<exists>d'. durable_step W allowed ids cfg d d' \<and> stands_for ids R' d'"
proof -
  obtain n n' r where n: "map_of (q_nodes R) i = Some n" "allowed ev" "\<forall>m. ev = Message m \<longrightarrow> (i, m) \<in> set (q_net R)"
    "storable W ev n" "log_room ev (retype wl_index n)" "step_on (wal_log_ops W) ev n = (n', r)"
    "\<forall>e. r = Inl e \<longrightarrow> \<not> is_storage e" "R' = q_put i n' (result_actions r) R"
    using assms(1)
    by (auto simp: q_handle_def result_actions_def split: option.splits if_splits prod.splits sum.splits event.splits)
  have d: "i \<in> ids" "d_node d i = n" "set (q_net R) \<subseteq> d_net d" using assms(2) n(1) by (auto simp: stands_for_def)
  have "durable_step W allowed ids cfg d (d_absorb d i n' (result_actions r))"
    using n d by (intro durable_step.handled) auto
  with stands_for_put[OF assms(2) d(1)] n(8) show ?thesis by blast
qed

lemma q_move_step:
  assumes "q_move W allowed cfg mv R = Some R'" "stands_for ids R d"
  shows "\<exists>d'. durable_step W allowed ids cfg d d' \<and> stands_for ids R' d'"
proof (cases mv)
  case (Moved m)
  then obtain i ev where "q_handle W allowed i ev R = Some R'"
    using assms(1) by (auto simp: q_move_def split: move.splits option.splits)
  with q_handle_step[OF _ assms(2)] show ?thesis by blast
next
  case (Reopened i)
  with assms(1) obtain n l where n: "map_of (q_nodes R) i = Some n" "wl_open W (Inr (wl_wal (n_log n))) = Inr l"
    "R' = q_put i (node_with_log_on (wal_log_ops W) (cfg i) l) [] R"
    by (auto simp: q_move_def q_reopen_def split: option.splits sum.splits)
  have d: "i \<in> ids" "d_node d i = n" using assms(2) n(1) by (auto simp: stands_for_def)
  have "durable_step W allowed ids cfg d (d_absorb d i (node_with_log_on (wal_log_ops W) (cfg i) l) [])"
    using n(2) d by (intro durable_step.reopened) auto
  with stands_for_put[OF assms(2) d(1)] n(3) show ?thesis by blast
qed

lemma q_play_steps:
  assumes "q_play W allowed cfg mvs R = Some R'" "stands_for ids R d"
  shows "\<exists>d'. (durable_step W allowed ids cfg)\<^sup>*\<^sup>* d d' \<and> stands_for ids R' d'"
  using assms
proof (induction mvs arbitrary: R d)
  case (Cons mv mvs)
  then obtain R1 where R1: "q_move W allowed cfg mv R = Some R1" "q_play W allowed cfg mvs R1 = Some R'"
    by (auto simp: bind_eq_Some_conv)
  from q_move_step[OF R1(1) Cons.prems(2)] obtain d1 where "durable_step W allowed ids cfg d d1" "stands_for ids R1 d1" by blast
  with Cons.IH[OF R1(2)] show ?case by (meson converse_rtranclp_into_rtranclp)
qed auto

text \<open>Node 1 is elected and commits a command with node 2; then both crash and are opened again,
  node 2 is elected, and its first command makes it apply both.\<close>

definition commit_crash_commit :: "durable_move list" where
  "commit_crash_commit = map Moved commit_seven @ [Reopened 1, Reopened 2] @ map Moved
     [Do 2 Tick, Newest 1, Newest 2, Newest 1, Newest 2, Newest 1, Newest 2, Do 2 (Propose [8]), Newest 1, Newest 2]"

lemma commit_crash_commit_play:
  "case q_play list_wal fixed_members three commit_crash_commit (q_init list_wal [1, 2, 3] three (\<lambda>i. [])) of
     None \<Rightarrow> False
   | Some R \<Rightarrow> (1, 1, [7]) \<in> set (q_applied R) \<and> (2, 1, [7]) \<in> set (q_applied R) \<and> (2, 2, [8]) \<in> set (q_applied R)
       \<and> (case map_of (q_nodes R) 2 of None \<Rightarrow> False | Some n \<Rightarrow> is_leader n \<and> n_current_term n = 2)"
  by code_simp

lemma commit_crash_commit_run:
  obtains d where
    "(durable_step list_wal fixed_members (set [1, 2, 3]) three)\<^sup>*\<^sup>* (durable_init list_wal three (\<lambda>i. [])) d"
    "(1, 1, [7]) \<in> d_applied d" "(2, 1, [7]) \<in> d_applied d" "(2, 2, [8]) \<in> d_applied d"
    "is_leader (d_node d 2)" "n_current_term (d_node d 2) = 2"
proof -
  obtain R n where R: "q_play list_wal fixed_members three commit_crash_commit (q_init list_wal [1, 2, 3] three (\<lambda>i. [])) = Some R"
    "(1, 1, [7]) \<in> set (q_applied R)" "(2, 1, [7]) \<in> set (q_applied R)" "(2, 2, [8]) \<in> set (q_applied R)"
    "map_of (q_nodes R) 2 = Some n" "is_leader n" "n_current_term n = 2"
    using commit_crash_commit_play by (auto split: option.splits)
  from q_play_steps[OF R(1) stands_for_init] obtain d where
    "(durable_step list_wal fixed_members (set [1, 2, 3]) three)\<^sup>*\<^sup>* (durable_init list_wal three (\<lambda>i. [])) d"
    "stands_for (set [1, 2, 3]) R d" by blast
  moreover from this R(5) have "d_node d 2 = n" by (simp add: stands_for_def)
  ultimately show ?thesis using that[of d] R by (auto simp: stands_for_def)
qed

subsection \<open>Properties\<close>

text \<open>
  C7: A cluster of durable nodes implements the cluster in memory, as long as no event reports a
  storage failure, every record fits its length fields, no snapshot leaves entries above it in
  the log, and no term or index is at the end of its range (the events \<open>durable_step\<close> admits):
  whatever else it does from fresh write-ahead logs on, crashes between events and reopenings
  included, its nodes, seen with the index of their logs, its messages and the commands it has
  applied are those of a reachable state of the cluster of in-memory nodes; and reopening the
  log of any of its nodes does not fail.
\<close>

theorem durable_cluster_refines:
  assumes laws: "wal_laws W recs" "\<And>i. recs (w i) = []"
    and run: "(durable_step W allowed ids cfg)\<^sup>*\<^sup>* (durable_init W cfg w) d"
  shows "(\<exists>c. reachable allowed ids cfg c \<and> c_node c = (\<lambda>i. retype wl_index (d_node d i))
      \<and> c_net c = d_net d \<and> c_applied c = d_applied d)
    \<and> (\<forall>i \<in> ids. wl_open W (Inr (wl_wal (n_log (d_node d i)))) = Inr (n_log (d_node d i)))"
proof -
  obtain c where c: "(cluster_step allowed ids cfg)\<^sup>*\<^sup>* (cluster_init cfg) c" "mirrors W recs ids d c"
    using mirrors_steps[OF run mirrors_init[OF laws]] by blast
  have "wl_open W (Inr (wl_wal (n_log (d_node d i)))) = Inr (n_log (d_node d i))" if "i \<in> ids" for i
    using c(2) that by (auto simp: mirrors_def sound_life_def intro: recorded_reopens)
  with c(2) steps_reachable[OF c(1) reachable.init] show ?thesis by (auto simp: mirrors_def)
qed

theorem durable_cluster_refines_witness:
  "\<exists>d c. (durable_step list_wal fixed_members (set [1, 2, 3]) three)\<^sup>*\<^sup>* (durable_init list_wal three (\<lambda>i. [])) d
     \<and> (2, 2, [8]) \<in> d_applied d
     \<and> reachable fixed_members (set [1, 2, 3]) three c \<and> c_applied c = d_applied d \<and> is_leader (c_node c 2)"
proof -
  obtain d where d: "(durable_step list_wal fixed_members (set [1, 2, 3]) three)\<^sup>*\<^sup>* (durable_init list_wal three (\<lambda>i. [])) d"
    "(2, 2, [8]) \<in> d_applied d" "is_leader (d_node d 2)"
    by (rule commit_crash_commit_run)
  from durable_cluster_refines[OF list_wal_laws _ d(1)] obtain c where
    "reachable fixed_members (set [1, 2, 3]) three c" "c_node c = (\<lambda>i. retype wl_index (d_node d i))"
    "c_applied c = d_applied d" by auto
  with d show ?thesis by (intro exI[of _ d] exI[of _ c]) (simp add: is_leader_def)
qed

text \<open>
  C6: State machine safety on disk: in a cluster of fixed membership whose nodes keep their logs
  in write-ahead logs, no two nodes ever apply different commands at an index, whatever the
  schedule of events and however often nodes crash between events and are opened again. The
  schedules are those of \<open>durable_step\<close>: no event reports a storage failure, every record fits
  its length fields, no snapshot leaves entries above it in the log (such a snapshot loses them
  at the next opening, see \<open>compaction_loses_tail\<close>), and no term or index is at the end of its
  range.
\<close>

theorem durable_state_machine_safety:
  assumes "deployed vs ids cfg" "wal_laws W recs" "\<And>i. recs (w i) = []"
    and "(durable_step W fixed_members ids cfg)\<^sup>*\<^sup>* (durable_init W cfg w) d"
    and "(i, x, a) \<in> d_applied d" "(j, x, b) \<in> d_applied d"
  shows "a = b"
proof -
  obtain c where c: "(cluster_step fixed_members ids cfg)\<^sup>*\<^sup>* (cluster_init cfg) c" "mirrors W recs ids d c"
    using mirrors_steps[OF assms(4) mirrors_init[OF assms(2,3)]] by blast
  obtain A where "models vs A c"
    using cluster_modelled[OF assms(1) steps_reachable[OF c(1) reachable.init]] by blast
  note M = modelsD[OF this]
  have "(i, x, a) \<in> c_applied c" "(j, x, b) \<in> c_applied c" using c(2) assms(5,6) by (auto simp: mirrors_def)
  with apply_unique[OF M(1) M(3) M(3)] show ?thesis by blast
qed

theorem durable_state_machine_safety_witness:
  "\<exists>d. (durable_step list_wal fixed_members (set [1, 2, 3]) three)\<^sup>*\<^sup>* (durable_init list_wal three (\<lambda>i. [])) d
     \<and> (1, 1, [7]) \<in> d_applied d \<and> (\<forall>b. (2, 1, b) \<in> d_applied d \<longrightarrow> [7] = b)"
proof -
  obtain d where d: "(durable_step list_wal fixed_members (set [1, 2, 3]) three)\<^sup>*\<^sup>* (durable_init list_wal three (\<lambda>i. [])) d"
    "(1, 1, [7]) \<in> d_applied d"
    by (rule commit_crash_commit_run)
  with durable_state_machine_safety[OF three_deployed list_wal_laws _ d(1,2)] show ?thesis by blast
qed

end
