(* ===== verification/Spec2Isabelle.thy ===== *)
theory Spec2Isabelle
  imports State_Machine_Safety Ballot_Properties Leader_Properties Leader_Waits Snapshot_Properties Election_Liveness Catch_Up
    Log_Properties Wal_Recovery Raft_Transport Membership_Hazard In_Memory_Cluster Replicated_Log Single_Node
    Partition_Recovery Snapshot_Catchup Membership_Change Kv_Agreement Persistent_Node
    Durable_Cluster
begin

text \<open>
  A verification development for \<^verbatim>\<open>raft-io\<close>, a Raft consensus engine in Rust. The crate is
  sans-I/O: a \<open>RaftNode\<close> is a deterministic state machine; \<open>step(event)\<close> takes a tick,
  a message, a proposal, a snapshot, a membership change or a leadership transfer, and returns
  the actions its driver has to carry out (send a message, apply a command, take or restore a
  snapshot). Storage is behind the trait \<open>RaftLog\<close>, message delivery behind the trait
  \<open>Transport\<close>. The programs under \<^verbatim>\<open>examples/\<close> are such drivers. Paths below are relative to
  the crate's root.

  \<^bold>\<open>The library.\<close>

  \<^item> \<^verbatim>\<open>Prelude\<close>: integers at their width (\<open>u64\<close> is \<open>64 word\<close>), the sequencing \<open>and_then\<close> of
    calls that may fail (Rust's \<open>?\<close>), generic lemmas and the collections of rewrite rules.
  \<^item> \<^verbatim>\<open>Raft_Types\<close>: \<^verbatim>\<open>src/types.rs\<close> and \<^verbatim>\<open>src/error.rs\<close>, with the little-endian codec of a
    membership and the texts of errors. \<^verbatim>\<open>Raft_Rng\<close>: \<^verbatim>\<open>src/rng.rs\<close>. \<^verbatim>\<open>Raft_Config\<close>:
    \<^verbatim>\<open>src/config.rs\<close>. \<^verbatim>\<open>Raft_Messages\<close>: \<^verbatim>\<open>src/message.rs\<close>.
  \<^item> \<^verbatim>\<open>Raft_Log_Spec\<close>: the trait \<open>RaftLog\<close> of \<^verbatim>\<open>src/log.rs\<close> as the locale \<open>raft_log\<close> over an
    abstract log \<open>alog\<close>, and the trait's default methods. \<^verbatim>\<open>Raft_Log\<close>: \<open>MemoryLog\<close> (prefix
    \<open>ml_\<close>), which interprets the locale. \<^verbatim>\<open>Log_Properties\<close>: its theorems.
  \<^item> \<^verbatim>\<open>Node_State\<close>, \<^verbatim>\<open>Node_Replication\<close>, \<^verbatim>\<open>Node_Step\<close>: \<^verbatim>\<open>src/node.rs\<close>, one definition per
    method, under the method's name. A Rust field \<open>f\<close> of the node is the record field \<open>n_f\<close>;
    a method that appends to the list of actions takes and returns that list. The log is the
    default one, \<open>MemoryLog\<close>. \<^verbatim>\<open>Generic_Node\<close>: the same methods over any log (suffix \<open>_on\<close>), the
    trait's methods being the parameter \<open>log_ops\<close>.
  \<^item> \<^verbatim>\<open>Raft_Wal\<close>, \<^verbatim>\<open>Raft_Wal_Log\<close>, \<^verbatim>\<open>Wal_Recovery\<close>: \<^verbatim>\<open>src/wal_log.rs\<close>: the record codec, the
    durable log \<open>WalLog\<close> (prefix \<open>wl_\<close>), which interprets \<open>raft_log\<close> too, and recovery.
    \<^verbatim>\<open>Node_Over_Log\<close> (locale \<open>log_backing\<close>): a node over a log that acts like a \<open>MemoryLog\<close> until
    a write fails is the in-memory node until then; \<open>MemoryLog\<close> and \<open>WalLog\<close> interpret it.
    \<^verbatim>\<open>Node_Durability\<close> (locale \<open>log_keeping\<close>): a step keeps what the log's operations keep, so a
    node over a \<open>WalLog\<close> can be rebuilt from its records after every step; its life with restarts.
  \<^item> \<^verbatim>\<open>Raft_Transport\<close>: \<^verbatim>\<open>src/transport.rs\<close> (the locale \<open>transport\<close> and \<open>MemoryTransport\<close>)
    and \<^verbatim>\<open>src/framing.rs\<close>.

  \<^bold>\<open>Single nodes.\<close>

  \<^item> \<^verbatim>\<open>Node_Frame\<close>, \<^verbatim>\<open>Node_Election\<close>, \<^verbatim>\<open>Node_Log\<close>: what each handler leaves alone, what a step
    does to term, vote and role, and to the log. The locales \<open>leader_operations\<close> and
    \<open>leader_invariant\<close> carry an invariant through what makes a leader act; they are interpreted
    wherever a theory has such an invariant.
  \<^item> \<^verbatim>\<open>Ballot_Properties\<close>, \<^verbatim>\<open>Append_Properties\<close>, \<^verbatim>\<open>Leader_Properties\<close>: the theorems on single
    steps: votes and terms, the follower's and the leader's side of replication.
    \<^verbatim>\<open>Leader_Waits\<close> (locale \<open>leadership\<close>): when a leader declines requests, and for how long.
    \<^verbatim>\<open>Snapshot_Properties\<close>: what a follower does with its leader's snapshot.
    \<^verbatim>\<open>Election_Liveness\<close>: a voter whose timer runs out leads once a majority has answered it.
    \<^verbatim>\<open>Samples\<close>: the nodes and messages the witnesses run.

  \<^bold>\<open>Clusters.\<close>

  \<^item> \<^verbatim>\<open>Quorum\<close>: majorities overlap, within one configuration and between configurations one
    server apart. \<^verbatim>\<open>Cluster\<close>: nodes over a network that loses, delays, reorders and
    duplicates, with crashes and restarts, as a step relation with its reachable states.
    \<^verbatim>\<open>Schedule\<close>: an executable player of schedules, whose runs are reachable.
    \<^verbatim>\<open>Election_Safety\<close> and \<^verbatim>\<open>Membership_Hazard\<close>: theorems on clusters.
  \<^item> \<^verbatim>\<open>Ledger\<close>, \<^verbatim>\<open>Raft_Protocol\<close>: the protocol itself, abstractly: for each term the ledger of
    its leader, each node's full log and acknowledgements, and the steps on them (locale
    \<open>protocol\<close>, over the notion of quorum), with the invariant that carries agreement.
    \<^verbatim>\<open>Full_Log\<close>: a compacted \<open>MemoryLog\<close> as a view of a full log. \<^verbatim>\<open>Static_Membership\<close>: without
    membership changes every node keeps its voters. \<^verbatim>\<open>Protocol_Refinement\<close> (locale
    \<open>simulation\<close>): each step of a node is a few steps of the protocol, and so
    \<^verbatim>\<open>State_Machine_Safety\<close>: every reachable cluster models a reachable protocol state.
  \<^item> \<^verbatim>\<open>Catch_Up\<close>: in such a cluster, a leader and a follower whose messages arrive: the exchange
    ends, with the leader's log at the follower.
  \<^item> \<^verbatim>\<open>Durable_Cluster\<close>: clusters of nodes over \<open>WalLog\<close>, which crash and are opened again from
    their records, mirror clusters of nodes in memory.
  \<^item> \<^verbatim>\<open>Node_Mail\<close>: in such a cluster no step of a node fails, and what it sends and stores obeys
    a policy (which snapshots and commands there are). \<^verbatim>\<open>Cluster_Budget\<close>: how far terms and
    logs can have grown after so many ticks and proposals, so that no integer wraps.
    \<^verbatim>\<open>Apply_Order\<close>, \<^verbatim>\<open>Applied_History\<close>: what a step tells the application, in which order.

  \<^bold>\<open>Programs.\<close>

  \<^item> \<^verbatim>\<open>Loops\<close>: Rust's \<open>for\<close>, \<open>while let\<close> and \<open>while\<close> over bodies that may panic, with rules for
    when they return. \<^verbatim>\<open>Harness\<close>: a program's nodes and mailboxes are backed by a reachable
    cluster; the locales \<open>driver\<close> (the tick loop and the drain loop of a round) and \<open>scripted\<close>
    (a script of calls) are interpreted for every program below that has them.
  \<^item> \<^verbatim>\<open>In_Memory_Cluster\<close> (\<^verbatim>\<open>examples/in_memory_cluster.rs\<close>, prefix \<open>im_\<close>), \<^verbatim>\<open>Replicated_Log\<close>
    (\<^verbatim>\<open>examples/replicated_log.rs\<close>, \<open>rl_\<close>), \<^verbatim>\<open>Single_Node\<close> (\<^verbatim>\<open>examples/single_node.rs\<close>, \<open>sole_\<close>),
    \<^verbatim>\<open>Partition_Recovery\<close> (\<^verbatim>\<open>examples/partition_recovery.rs\<close>, \<open>pt_\<close>), \<^verbatim>\<open>Snapshot_Catchup\<close>
    (\<^verbatim>\<open>examples/snapshot_catchup.rs\<close>, \<open>sc_\<close>), \<^verbatim>\<open>Membership_Change\<close> (\<^verbatim>\<open>examples/membership.rs\<close>,
    \<open>mb_\<close>), \<^verbatim>\<open>Persistent_Node\<close> (\<^verbatim>\<open>examples/persistent_node.rs\<close>, \<open>durable_\<close>): the example programs,
    \<open>main\<close> included.
  \<^item> \<^verbatim>\<open>Kv_Text\<close>, \<^verbatim>\<open>Kv_Store\<close>, \<^verbatim>\<open>Kv_Cluster\<close>, \<^verbatim>\<open>Kv_Agreement\<close>: \<^verbatim>\<open>examples/kv_store.rs\<close>: the text
    functions it uses, its state machine with commands and snapshots (prefix \<open>kv_\<close>), its cluster
    harness (prefix \<open>kc_\<close>), and that the harness is a replicated map.

  \<^bold>\<open>What the theorems show.\<close> Clusters of a fixed membership, under every schedule: state machine
  safety (no two nodes apply different commands at an index), leader completeness, log
  matching, at most one leader a term, and the refinement of the abstract protocol that gives
  them; and replication catches up: from a heartbeat on, if the messages between a leader and a
  follower arrive, the exchange ends and the follower has the leader's log, unless the leader is
  handing over to it, is behind it in term, or streams from below its snapshot. None of these is
  claimed for clusters that change their members.

  Programs: each run of the drivers returns, whatever the script of rounds, proposals and
  partitions, within the bounds on ticks and proposals; the replicas of the replicated log
  agree; the key-value cluster is one replicated map, across snapshots, for keys and values its
  snapshot format can carry; a single node serves at once.

  Elections: below the largest term, every step keeps the ballot (the term never falls, a vote in
  a term never changes, both are in the log before a granted vote leaves the node) and votes go to
  up-to-date logs only; pre-votes and unforced requests cannot disturb a live leader; and a voter that hears
  from no leader for its timeout, and then from a majority that grants, leads the next term.

  Replication: an accepted \<open>AppendEntries\<close> leaves the leader's entries where the follower's
  differ, a stale one changes nothing, a rejected one is answered exactly and the leader makes
  progress with the answer; a leader never overwrites its log; the commit rule, by counting the
  voters that store an index; the normal entries up to the commit index are applied in order,
  once, without gaps; a snapshot is installed exactly if it is newer. Requests: what a leader declines while it
  hands over or while a membership change is pending, and that waiting alone ends neither.

  Storage: \<open>MemoryLog\<close> and \<open>WalLog\<close> refine the
  abstract log, the codec round-trips, recovery rebuilds the index exactly when no snapshot
  leaves a tail. A node over a \<open>WalLog\<close> is the in-memory node up to storage failures. As long
  as there are none, records fit their length fields, no snapshot leaves a tail and no term or
  index is at the end of its range, it is rebuilt by every restart with its term, vote and log, and
  so keeps its one vote a term across restarts; and a cluster of such nodes, with crashes
  between events, implements the cluster in memory and is as safe. The program that is dropped
  and opened again recovers every command.

  Two theorems are about what does not hold: \<open>membership_change_unsafe\<close> (single-server changes by
  leaders that have committed nothing in their term) and \<open>compaction_loses_tail\<close> (snapshots that
  leave a tail, when the records before them are dropped).
\<close>

text \<open>
  \<^bold>\<open>Arithmetic.\<close> Integers wrap as in a release build; a debug build panics where they would.
  A theorem that needs an increment not to overflow says so: \<open>term_room\<close> (the term a node may
  increment is not \<open>u64::MAX\<close>) and \<open>log_room\<close> (the last index plus the entries an event
  can append stays below \<open>2^64\<close>). The cluster relation takes a step only with this room, so
  what is proved of reachable states holds for both builds. A \<open>usize\<close> is 64 bits wide.

  \<^bold>\<open>Loops.\<close> Every loop of the library is a total function: structural where it walks a list,
  with a measure where it walks indices. The trait's default \<open>entries\<close> may run forever when
  the range ends at \<open>u64::MAX\<close>; its loop is a partial function, and the theorem about it says
  when it returns. The loops of the programs that drain a mailbox or wait for a leader are
  partial functions too: \<open>None\<close> is a panic or no return, and the \<open>returns\<close> theorems say that it
  does not happen. The wait for a leader returns only if an election succeeds, which depends on
  the timers; where a theorem says so it is by evaluation of the program. No definition uses
  fuel except the formatting of a \<open>u64\<close>, for which twenty digits are enough
  (\<open>decimal_value_decimal\<close>).

  \<^bold>\<open>Bounds.\<close> The theorems on programs are about runs of fewer than \<open>2^64 - 1\<close> ticks, and fewer
  than \<open>2^63 - 1\<close> proposals: a tick raises the largest term by at most one, a proposal adds one
  entry, and below these bounds no term or index wraps (\<^verbatim>\<open>Cluster_Budget\<close>). A cluster has at most
  \<open>2^64\<close> nodes, the number of ids.

  \<^bold>\<open>Errors.\<close> A method that returns \<open>Result\<close> returns the state beside the result, since
  mutations before a failing statement stay. In the programs a panic is \<open>None\<close>.

  \<^bold>\<open>Outside the model.\<close> The crates \<open>wal-db\<close> and \<open>pack-io\<close> are parameters (\<open>wal_ops\<close>,
  \<open>pack_ops\<close>); what the code relies on is \<open>wal_laws\<close> and the round trip that
  \<open>framing_round_trip\<close> assumes, and each has an instance. Memory allocation is not modelled
  (a length beyond what fits in memory aborts the program), nor are \<open>Debug\<close> output,
  \<^verbatim>\<open>src/lib.rs\<close> (re-exports), the benchmarks, the fuzz target and the tests. What a program
  prints is the result of its \<open>main\<close>; the temporary directory of \<^verbatim>\<open>examples/persistent_node.rs\<close> is
  left out, and the handles that opening its file yields are parameters (\<open>reopens\<close>, \<open>endures\<close>).
  A storage failure leaves the node half updated: these paths are in the definitions of
  \<^verbatim>\<open>Generic_Node\<close>, but the theorems speak of a node up to the first such failure, and of crashes
  between steps.

  \<^bold>\<open>Plan.\<close> Still to come: safety across membership changes whose leaders have committed in their
  term; crashes of a durable node in the middle of a step.
\<close>

end
